(* ===== verification/Fs_Prelude.thy ===== *)
theory Fs_Prelude
  imports Main "HOL-Library.Word"
begin

text \<open>
  Shared vocabulary of the development: the machine integer types, the values an
  operation of the servers can end with, sequencing of operations that may panic,
  counted loops with an early exit, and bytes in memory read and written at their
  width (little endian, as on the RISC-V target).
\<close>

unbundle bit_operations_syntax

named_theorems cell_simps
named_theorems frame_simps
named_theorems frame_intros

type_synonym u8 = "8 word"
type_synonym u16 = "16 word"
type_synonym u32 = "32 word"
type_synonym u64 = "64 word"

lemma unat_u32: "k < 2 ^ 32 \<Longrightarrow> unat (of_nat k :: u32) = k"
  by (simp add: unsigned_of_nat take_bit_nat_eq_self)

lemma unat_bound: "unat (w :: u32) < 2 ^ 32"
  using unsigned_less [of w] by simp

lemma sint_small:
  assumes "unat (w :: u32) < 2 ^ 31"
  shows "sint w = int (unat w)"
proof -
  have "sint w = signed_take_bit (LENGTH(32) - Suc 0) (uint w)" by (rule sint_uint)
  also have "\<dots> = uint w"
  proof (rule signed_take_bit_int_eq_self)
    have "int (unat w) < int 2147483648" using assms unfolding of_nat_less_iff by simp
    then show "uint w < 2 ^ (LENGTH(32) - Suc 0)" by (simp only: uint_nat) simp
    show "- (2 ^ (LENGTH(32) - Suc 0)) \<le> uint w" by (rule order_trans [OF _ uint_ge_0]) simp
  qed
  finally show ?thesis by simp
qed

text \<open>A region of memory: the byte at each offset from its start.\<close>

type_synonym bytes = "nat \<Rightarrow> u8"

section \<open>How an operation ends\<close>

text \<open>
  A call of \<open>panic\<close> or a failed \<open>assert\<close> never returns to its caller. Each one
  in the sources is a value of this type. \<open>Fault\<close> is an access outside the mapped memory;
  \<open>NoFuel\<close> is a pointer walk that has not ended within its bound.
\<close>

datatype panic =
    BgetNoBuffers | DiskRead | DiskWrite | InvalidFs | FreeingFreeBlock
  | IgetNoInodes | IlockPanic | IlockNoType | BmapOutOfRange
  | DirlookupNotDir | DirlookupRead | DirlinkRead | IsdiremptyRead
  | UnlinkNlink | UnlinkWritei | FiledupPanic | FileclosePanic
  | FilereadPanic | FilewritePanic | AssertFailed | Fault | NoFuel

type_synonym 'a res = "panic + 'a"

definition bnd :: "'e + 'a \<Rightarrow> ('a \<Rightarrow> 'e + 'b) \<Rightarrow> 'e + 'b" where
  "bnd m f = (case m of Inl e \<Rightarrow> Inl e | Inr x \<Rightarrow> f x)"

lemma bnd_Inl [simp]: "bnd (Inl e) f = Inl e"
  by (simp add: bnd_def)

lemma bnd_Inr [simp]: "bnd (Inr x) f = f x"
  by (simp add: bnd_def)

lemma bnd_cong [fundef_cong]:
  "m = m' \<Longrightarrow> (\<And>x. m' = Inr x \<Longrightarrow> f x = g x) \<Longrightarrow> bnd m f = bnd m' g"
  by (cases m') auto

lemma bnd_eq_Inr: "bnd m f = Inr y \<longleftrightarrow> (\<exists>x. m = Inr x \<and> f x = Inr y)"
  by (cases m) auto

lemma bnd_eq_Inl: "bnd m f = Inl e \<longleftrightarrow> m = Inl e \<or> (\<exists>x. m = Inr x \<and> f x = Inl e)"
  by (cases m) auto

lemma bnd_assoc: "bnd (bnd m f) g = bnd m (\<lambda>x. bnd (f x) g)"
  by (cases m) auto

lemma bndE:
  assumes "bnd m f = Inr y"
  obtains x where "m = Inr x" and "f x = Inr y"
  using assms by (auto simp: bnd_eq_Inr)

text \<open>\<open>guardE e b\<close> is \<open>if (!b) panic\<close>.\<close>

definition guardE :: "'e \<Rightarrow> bool \<Rightarrow> 'e + unit" where
  "guardE e b = (if b then Inr () else Inl e)"

lemma guardE_simps [simp]: "guardE e True = Inr ()" "guardE e False = Inl e"
  by (simp_all add: guardE_def)

lemma guardE_Inr: "guardE e b = Inr u \<longleftrightarrow> b"
  by (simp add: guardE_def)

section \<open>Counted loops\<close>

text \<open>
  \<open>for_upto body i n s\<close> is \<open>for (; i < n; i++) body\<close> from state \<open>s\<close>. The body
  answers \<open>Some r\<close> where the source returns or breaks with \<open>r\<close>, \<open>None\<close> where it goes on.
\<close>

function for_upto ::
  "(nat \<Rightarrow> 's \<Rightarrow> 'e + 'r option \<times> 's) \<Rightarrow> nat \<Rightarrow> nat \<Rightarrow> 's \<Rightarrow> 'e + 'r option \<times> 's" where
  "for_upto body i n s =
     (if i < n
      then bnd (body i s)
             (\<lambda>(r, s'). case r of Some v \<Rightarrow> Inr (Some v, s') | None \<Rightarrow> for_upto body (Suc i) n s')
      else Inr (None, s))"
  by pat_completeness auto
termination
  by (relation "measure (\<lambda>(body, i, n, s). n - i)") auto

declare for_upto.simps [simp del]

lemma for_upto_done [simp]: "n \<le> i \<Longrightarrow> for_upto body i n s = Inr (None, s)"
  by (simp add: for_upto.simps [of body i n s])

lemma for_upto_step:
  "i < n \<Longrightarrow> for_upto body i n s =
     bnd (body i s)
       (\<lambda>(r, s'). case r of Some v \<Rightarrow> Inr (Some v, s') | None \<Rightarrow> for_upto body (Suc i) n s')"
  by (simp add: for_upto.simps [of body i n s])

text \<open>
  The loop rule: an invariant of the iterations gives a postcondition of the loop, on the
  path that runs to the end and on the path that leaves early.
\<close>

lemma for_upto_rule:
  assumes run: "for_upto body i n s = Inr (r, t)" and init: "I i s" and le: "i \<le> n"
    and step: "\<And>j s s'. i \<le> j \<Longrightarrow> j < n \<Longrightarrow> I j s \<Longrightarrow> body j s = Inr (None, s') \<Longrightarrow> I (Suc j) s'"
    and exit: "\<And>j s s' v. i \<le> j \<Longrightarrow> j < n \<Longrightarrow> I j s \<Longrightarrow> body j s = Inr (Some v, s') \<Longrightarrow> Q (Some v) s'"
    and fin: "\<And>s. I n s \<Longrightarrow> Q None s"
  shows "Q r t"
  using run init le step exit fin
proof (induction body i n s rule: for_upto.induct)
  case (1 body i n s)
  show ?case
  proof (cases "i < n")
    case True
    then obtain x where x: "body i s = Inr x"
      and rest: "(case x of (r, s') \<Rightarrow> case r of Some v \<Rightarrow> Inr (Some v, s')
                   | None \<Rightarrow> for_upto body (Suc i) n s') = Inr (r, t)"
      using "1.prems"(1) by (auto simp: for_upto_step elim: bndE)
    show ?thesis
    proof (cases x)
      case (Pair o' s')
      show ?thesis
      proof (cases o')
        case None
        have inv: "I (Suc i) s'" using "1.prems"(4) [of i s s'] "1.prems"(2) True x Pair None by simp
        have r: "for_upto body (Suc i) n s' = Inr (r, t)" using rest Pair None by simp
        show ?thesis
          by (rule "1.IH" [OF True x Pair [symmetric] None r inv])
            (use True in simp, (meson "1.prems"(4,5,6) Suc_leD)+)
      next
        case (Some v)
        then have "r = Some v" "t = s'" using rest Pair by auto
        then show ?thesis using "1.prems"(5) [of i s v s'] "1.prems"(2) True x Pair Some by simp
      qed
    qed
  next
    case False
    then show ?thesis using "1.prems"(1,2,3,6) by auto
  qed
qed

text \<open>A loop whose iterations never panic (under an invariant) never panics.\<close>

lemma for_upto_total:
  assumes "I i s"
    and "\<And>j s. i \<le> j \<Longrightarrow> j < n \<Longrightarrow> I j s \<Longrightarrow>
           \<exists>r s'. body j s = Inr (r, s') \<and> (r = None \<longrightarrow> I (Suc j) s')"
  shows "\<exists>r t. for_upto body i n s = Inr (r, t)"
  using assms
proof (induction body i n s rule: for_upto.induct)
  case (1 body i n s)
  show ?case
  proof (cases "i < n")
    case True
    obtain r s' where b: "body i s = Inr (r, s')" "r = None \<longrightarrow> I (Suc i) s'"
      using "1.prems"(2) [of i s] "1.prems"(1) True by auto
    show ?thesis
    proof (cases r)
      case None
      have "\<exists>r t. for_upto body (Suc i) n s' = Inr (r, t)"
        by (rule "1.IH" [OF True b(1) refl None]) (use b None "1.prems"(2) in auto)
      then show ?thesis using True b None by (simp add: for_upto_step)
    next
      case (Some v)
      then show ?thesis using True b by (simp add: for_upto_step)
    qed
  qed simp
qed

text \<open>\<open>scan p i n\<close> is the first index from \<open>i\<close> below \<open>n\<close> that satisfies \<open>p\<close>.\<close>

function scan :: "(nat \<Rightarrow> bool) \<Rightarrow> nat \<Rightarrow> nat \<Rightarrow> nat option" where
  "scan p i n = (if i < n then if p i then Some i else scan p (Suc i) n else None)"
  by pat_completeness auto
termination
  by (relation "measure (\<lambda>(p, i, n). n - i)") auto

declare scan.simps [simp del]

lemma scan_Some:
  "scan p i n = Some k \<longleftrightarrow> i \<le> k \<and> k < n \<and> p k \<and> (\<forall>j. i \<le> j \<and> j < k \<longrightarrow> \<not> p j)"
proof (induction p i n rule: scan.induct)
  case (1 p i n)
  show ?case
  proof (cases "i < n \<and> \<not> p i")
    case True
    then have "scan p i n = Some k \<longleftrightarrow> Suc i \<le> k \<and> k < n \<and> p k \<and> (\<forall>j. Suc i \<le> j \<and> j < k \<longrightarrow> \<not> p j)"
      using 1 by (simp add: scan.simps [of p i n])
    then show ?thesis using True by (metis Suc_leD Suc_leI le_neq_implies_less le_refl)
  next
    case False
    then show ?thesis
      by (auto simp: scan.simps [of p i n] le_less)
  qed
qed

lemma scan_None: "scan p i n = None \<longleftrightarrow> (\<forall>j. i \<le> j \<and> j < n \<longrightarrow> \<not> p j)"
proof (induction p i n rule: scan.induct)
  case (1 p i n)
  then show ?case
    by (auto simp: scan.simps [of p i n] le_less) (metis Suc_leI le_less)+
qed

lemma scan_last: "\<not> p n \<Longrightarrow> scan p i (Suc n) = scan p i n"
proof (cases "scan p i n")
  case None
  assume "\<not> p n"
  then have "scan p i (Suc n) = None" using None by (metis scan_None less_Suc_eq)
  then show ?thesis using None by simp
next
  case (Some k)
  then have "scan p i (Suc n) = Some k" by (simp add: scan_Some)
  then show ?thesis using Some by simp
qed

lemma scan_cong: "(\<And>j. i \<le> j \<Longrightarrow> j < n \<Longrightarrow> p j = q j) \<Longrightarrow> scan p i n = scan q i n"
proof (induction p i n rule: scan.induct)
  case (1 p i n)
  then show ?case by (simp add: scan.simps [of p i n] scan.simps [of q i n])
qed

lemma scan_unique: "b < n \<Longrightarrow> p b \<Longrightarrow> (\<And>c. c < n \<Longrightarrow> p c \<Longrightarrow> c = b) \<Longrightarrow> scan p 0 n = Some b"
  unfolding scan_Some using less_trans [of _ b n] by blast

text \<open>
  A loop that looks for the first index with a property, from states that are all as good as
  each other: it runs to the end, or does at the first hit what the body does there.
\<close>

lemma for_upto_scan:
  assumes "S s"
    and body: "\<And>k s. i \<le> k \<Longrightarrow> k < n \<Longrightarrow> S s \<Longrightarrow> \<exists>t. S t \<and> body k s = (if p k then F k t else Inr (None, t))"
    and F: "\<And>k t r u. F k t = Inr (r, u) \<Longrightarrow> r \<noteq> None"
  shows "\<exists>t. S t \<and> for_upto body i n s = (case scan p i n of None \<Rightarrow> Inr (None, t) | Some k \<Rightarrow> F k t)"
  using assms(1,2)
proof (induction "n - i" arbitrary: i s)
  case 0
  then show ?case by (auto simp: scan.simps [of p i n])
next
  case (Suc m)
  then have i: "i < n" by simp
  obtain t where t: "S t" "body i s = (if p i then F i t else Inr (None, t))"
    using Suc.prems(2) [of i s] Suc.prems(1) i by auto
  show ?case
  proof (cases "p i")
    case True
    have "for_upto body i n s = F i t"
    proof (cases "F i t")
      case (Inr x)
      then obtain v where "fst x = Some v" using F [of i t "fst x" "snd x"] by auto
      then show ?thesis using Inr t(2) True i by (cases x) (simp add: for_upto_step)
    qed (use t(2) True i in \<open>simp add: for_upto_step\<close>)
    then show ?thesis using t(1) True i by (auto simp: scan.simps [of p i n])
  next
    case False
    have "\<exists>u. S u \<and> for_upto body (Suc i) n t = (case scan p (Suc i) n of None \<Rightarrow> Inr (None, u) | Some k \<Rightarrow> F k u)"
      using Suc.hyps(1) [of "Suc i" t] Suc.hyps(2) t(1) Suc.prems(2) by simp
    then show ?thesis using t(2) False i by (simp add: for_upto_step scan.simps [of p i n])
  qed
qed

lemma for_upto_skip: "(\<And>j. i \<le> j \<Longrightarrow> j < n \<Longrightarrow> body j s = Inr (None, s)) \<Longrightarrow> for_upto body i n s = Inr (None, s)"
  by (induction "n - i" arbitrary: i) (simp_all add: for_upto_step)

lemma find_SomeD: "find p xs = Some x \<Longrightarrow> x \<in> set xs \<and> p x"
  by (induction xs) (auto split: if_splits)

section \<open>Bytes in memory\<close>

definition get16 :: "bytes \<Rightarrow> nat \<Rightarrow> u16" where
  "get16 m k = ucast (m k) OR push_bit 8 (ucast (m (k + 1)))"

definition put16 :: "bytes \<Rightarrow> nat \<Rightarrow> u16 \<Rightarrow> bytes" where
  "put16 m k v = m(k := ucast v, k + 1 := ucast (drop_bit 8 v))"

definition get32 :: "bytes \<Rightarrow> nat \<Rightarrow> u32" where
  "get32 m k = ucast (m k) OR push_bit 8 (ucast (m (k + 1)))
     OR push_bit 16 (ucast (m (k + 2))) OR push_bit 24 (ucast (m (k + 3)))"

definition put32 :: "bytes \<Rightarrow> nat \<Rightarrow> u32 \<Rightarrow> bytes" where
  "put32 m k v = m(k := ucast v, k + 1 := ucast (drop_bit 8 v),
     k + 2 := ucast (drop_bit 16 v), k + 3 := ucast (drop_bit 24 v))"

definition get64 :: "bytes \<Rightarrow> nat \<Rightarrow> u64" where
  "get64 m k = ucast (get32 m k) OR push_bit 32 (ucast (get32 m (k + 4)))"

definition put64 :: "bytes \<Rightarrow> nat \<Rightarrow> u64 \<Rightarrow> bytes" where
  "put64 m k v = put32 (put32 m k (ucast v)) (k + 4) (ucast (drop_bit 32 v))"

text \<open>\<open>memmove\<close> of \<open>n\<close> bytes from offset \<open>j\<close> of \<open>src\<close> to offset \<open>k\<close> of \<open>dst\<close>
  (two regions that do not overlap), and \<open>memset\<close>.\<close>

definition copy :: "bytes \<Rightarrow> nat \<Rightarrow> bytes \<Rightarrow> nat \<Rightarrow> nat \<Rightarrow> bytes" where
  "copy dst k src j n = (\<lambda>i. if k \<le> i \<and> i < k + n then src (j + (i - k)) else dst i)"

definition fill :: "bytes \<Rightarrow> nat \<Rightarrow> u8 \<Rightarrow> nat \<Rightarrow> bytes" where
  "fill dst k v n = (\<lambda>i. if k \<le> i \<and> i < k + n then v else dst i)"

lemma get16_put16 [cell_simps]: "get16 (put16 m k v) k = v"
  unfolding get16_def put16_def by (rule bit_word_eqI) (auto simp: bit_simps)

lemma get32_put32 [cell_simps]: "get32 (put32 m k v) k = v"
proof (rule bit_word_eqI)
  fix n assume "n < LENGTH(32)"
  then have n: "n < 32" by simp
  consider "n < 8" | "8 \<le> n" "n < 16" | "16 \<le> n" "n < 24" | "24 \<le> n" by linarith
  then show "bit (get32 (put32 m k v) k) n = bit v n"
    using n by cases (auto simp: get32_def put32_def bit_simps)
qed

lemma put16_other: "i < k \<or> k + 2 \<le> i \<Longrightarrow> put16 m k v i = m i"
  by (auto simp: put16_def)

lemma put32_other: "i < k \<or> k + 4 \<le> i \<Longrightarrow> put32 m k v i = m i"
  by (auto simp: put32_def)

lemma put64_other: "i < k \<or> k + 8 \<le> i \<Longrightarrow> put64 m k v i = m i"
  by (auto simp: put64_def put32_other)

lemma get16_local: "m k = m' k \<Longrightarrow> m (k + 1) = m' (k + 1) \<Longrightarrow> get16 m k = get16 m' k"
  by (simp add: get16_def)

lemma get32_local: "(\<And>i. k \<le> i \<Longrightarrow> i < k + 4 \<Longrightarrow> m i = m' i) \<Longrightarrow> get32 m k = get32 m' k"
  by (simp add: get32_def)

lemma get64_local: "(\<And>i. k \<le> i \<Longrightarrow> i < k + 8 \<Longrightarrow> m i = m' i) \<Longrightarrow> get64 m k = get64 m' k"
  unfolding get64_def using get32_local [of k m m'] get32_local [of "k + 4" m m'] by simp

lemma get16_put16_other [cell_simps]: "j + 2 \<le> k \<or> k + 2 \<le> j \<Longrightarrow> get16 (put16 m k v) j = get16 m j"
  by (rule get16_local) (auto simp: put16_other)

lemma get16_put32_other [cell_simps]: "j + 2 \<le> k \<or> k + 4 \<le> j \<Longrightarrow> get16 (put32 m k v) j = get16 m j"
  by (rule get16_local) (auto simp: put32_other)

lemma get32_put16_other [cell_simps]: "j + 4 \<le> k \<or> k + 2 \<le> j \<Longrightarrow> get32 (put16 m k v) j = get32 m j"
  by (rule get32_local) (auto simp: put16_other)

lemma get32_put32_other [cell_simps]: "j + 4 \<le> k \<or> k + 4 \<le> j \<Longrightarrow> get32 (put32 m k v) j = get32 m j"
  by (rule get32_local) (auto simp: put32_other)

lemma get64_put64 [cell_simps]: "get64 (put64 m k v) k = v"
proof -
  have "get64 (put64 m k v) k =
      ucast (ucast v :: u32) OR push_bit 32 (ucast (ucast (drop_bit 32 v) :: u32))"
    by (simp add: get64_def put64_def cell_simps)
  also have "\<dots> = v" by (rule bit_word_eqI) (auto simp: bit_simps)
  finally show ?thesis .
qed

lemma get64_put64_other [cell_simps]: "j + 8 \<le> k \<or> k + 8 \<le> j \<Longrightarrow> get64 (put64 m k v) j = get64 m j"
  by (rule get64_local) (auto simp: put64_other)

lemma copy_in: "i < n \<Longrightarrow> copy dst k src j n (k + i) = src (j + i)"
  by (simp add: copy_def)

lemma copy_out: "i < k \<or> k + n \<le> i \<Longrightarrow> copy dst k src j n i = dst i"
  by (auto simp: copy_def)

lemma get64_copy_other: "j + 8 \<le> k \<or> k + n \<le> j \<Longrightarrow> get64 (copy dst k src i n) j = get64 dst j"
  by (rule get64_local) (auto simp: copy_def)

text \<open>A list of bytes in memory.\<close>

definition put_list :: "bytes \<Rightarrow> nat \<Rightarrow> u8 list \<Rightarrow> bytes" where
  "put_list m k bs = (\<lambda>i. if k \<le> i \<and> i < k + length bs then bs ! (i - k) else m i)"

definition get_list :: "bytes \<Rightarrow> nat \<Rightarrow> nat \<Rightarrow> u8 list" where
  "get_list m k n = map (\<lambda>j. m (k + j)) [0..<n]"

lemma put_list_other: "i < k \<or> k + length bs \<le> i \<Longrightarrow> put_list m k bs i = m i"
  by (auto simp: put_list_def)

lemma get_put_list [cell_simps]: "length bs = n \<Longrightarrow> get_list (put_list m k bs) k n = bs"
  by (rule nth_equalityI) (auto simp: get_list_def put_list_def)

lemma get_list_copy: "get_list (copy d k src 0 n) k n = map src [0..<n]"
  by (rule nth_equalityI) (auto simp: get_list_def copy_def)

end
