(* ===== verification/Layout.thy ===== *)
theory Layout
  imports Fs_Prelude
begin

text \<open>
  The constants and structures of xv6fs/src/defs.h: the disk layout, the on-disk structures
  (super block, inode, directory entry, bitmap, indirect block) with their byte encodings,
  and the C string routines the file system uses on names. A block is the function from a
  byte offset to the byte there; only the offsets below BSIZE are ever used.
\<close>

section \<open>Constants\<close>

definition BSIZE :: nat where "BSIZE = 1024"
definition NINODE :: nat where "NINODE = 50"
definition NFILE :: nat where "NFILE = 100"
definition NOFILE :: nat where "NOFILE = 16"
definition NDEV :: int where "NDEV = 10"
definition ROOTDEV :: u32 where "ROOTDEV = 1"
definition ROOTINO :: u32 where "ROOTINO = 1"
definition MAXOPBLOCKS :: nat where "MAXOPBLOCKS = 10"
definition LOGSIZE :: nat where "LOGSIZE = MAXOPBLOCKS * 3"
definition NBUF :: nat where "NBUF = MAXOPBLOCKS * 3"
definition FSSIZE :: nat where "FSSIZE = 32 * 1024"
definition MAXPATH :: nat where "MAXPATH = 128"
definition T_DIR :: u16 where "T_DIR = 1"
definition T_FILE :: u16 where "T_FILE = 2"
definition T_DEVICE :: u16 where "T_DEVICE = 3"
definition FSMAGIC :: u32 where "FSMAGIC = 0x10203040"
definition NDIRECT :: nat where "NDIRECT = 11"
definition NINDIRECT :: nat where "NINDIRECT = BSIZE div 4"
definition NINDIRECT2 :: nat where "NINDIRECT2 = NINDIRECT * NINDIRECT"
definition MAXFILE :: nat where "MAXFILE = NDIRECT + NINDIRECT + NINDIRECT2"
definition NADDRS :: nat where "NADDRS = NDIRECT + 1 + 1"
definition DISIZE :: nat where "DISIZE = 4 * 2 + 4 + 4 * NADDRS"
definition IPB :: nat where "IPB = BSIZE div DISIZE"
definition BPB :: nat where "BPB = BSIZE * 8"
definition DIRSIZ :: nat where "DIRSIZ = 62"
definition DESIZE :: nat where "DESIZE = 2 + DIRSIZ"

definition O_WRONLY :: u32 where "O_WRONLY = 1"
definition O_RDWR :: u32 where "O_RDWR = 2"
definition O_CREAT :: u32 where "O_CREAT = 64"
definition O_TRUNC :: u32 where "O_TRUNC = 512"

lemmas size_defs = BSIZE_def NDIRECT_def NINDIRECT_def NINDIRECT2_def MAXFILE_def NADDRS_def
  DISIZE_def IPB_def BPB_def DIRSIZ_def DESIZE_def MAXOPBLOCKS_def LOGSIZE_def NBUF_def
  FSSIZE_def NINODE_def NFILE_def NOFILE_def MAXPATH_def

section \<open>On-disk structures\<close>

record superblock =
  sb_magic :: u32
  sb_size :: u32
  sb_nblocks :: u32
  sb_ninodes :: u32
  sb_nlog :: u32
  sb_logstart :: u32
  sb_inodestart :: u32
  sb_bmapstart :: u32

record dinode =
  di_type :: u16
  di_major :: u16
  di_minor :: u16
  di_nlink :: u16
  di_size :: u32
  di_addrs :: "u32 list"

record dirent =
  de_inum :: u16
  de_name :: "u8 list"

text \<open>\<open>IBLOCK(i, sb)\<close> and \<open>BBLOCK(b, sb)\<close>: the block of an inode, the block of a bitmap bit.\<close>

definition IBLOCK :: "u32 \<Rightarrow> superblock \<Rightarrow> u32" where
  "IBLOCK i sb = of_nat (unat i div IPB) + sb_inodestart sb"

definition BBLOCK :: "u32 \<Rightarrow> superblock \<Rightarrow> u32" where
  "BBLOCK b sb = of_nat (unat b div BPB) + sb_bmapstart sb"

section \<open>In-memory structures\<close>

record buf =
  b_valid :: int
  b_dev :: u32
  b_blockno :: u32
  b_refcnt :: u32
  b_prev :: nat
  b_next :: nat
  b_data :: bytes

record inode =
  i_dev :: u32
  i_inum :: u32
  i_ref :: int
  i_valid :: int
  i_type :: u16
  i_major :: u16
  i_minor :: u16
  i_nlink :: u16
  i_size :: u32
  i_addrs :: "u32 list"

datatype fdtype = FD_NONE | FD_PIPE | FD_INODE | FD_DEVICE

record openfile =
  f_type :: fdtype
  f_ref :: int
  f_readable :: bool
  f_writable :: bool
  f_ip :: nat
  f_off :: u32
  f_major :: u16

record stat =
  st_dev :: u64
  st_ino :: u64
  st_mode :: u32
  st_nlink :: u32
  st_size :: int

section \<open>Arrays of cells inside a block\<close>

text \<open>
  A block is used as an array: of bits (free map), of block numbers (indirect block), of
  inodes, of directory entries. Each is the same contract: a write to one cell is read back
  there, changes no other cell, and stays inside the block.
\<close>

locale cells =
  fixes rd :: "bytes \<Rightarrow> nat \<Rightarrow> 'v"
    and wr :: "bytes \<Rightarrow> nat \<Rightarrow> 'v \<Rightarrow> bytes"
    and cap :: nat
    and ok :: "'v \<Rightarrow> bool"
  assumes rd_wr: "i < cap \<Longrightarrow> ok v \<Longrightarrow> rd (wr m i v) i = v"
    and rd_wr_other: "i < cap \<Longrightarrow> j < cap \<Longrightarrow> i \<noteq> j \<Longrightarrow> ok v \<Longrightarrow> rd (wr m i v) j = rd m j"
    and wr_inside: "i < cap \<Longrightarrow> ok v \<Longrightarrow> BSIZE \<le> k \<Longrightarrow> wr m i v k = m k"
begin

lemma rd_wr_if:
  "i < cap \<Longrightarrow> j < cap \<Longrightarrow> ok v \<Longrightarrow> rd (wr m i v) j = (if i = j then v else rd m j)"
  by (simp add: rd_wr rd_wr_other)

lemma rd_fold_wr:
  assumes "n \<le> cap" and "ok v" and "j < cap"
  shows "rd (fold (\<lambda>i m. wr m i v) [0..<n] m) j = (if j < n then v else rd m j)"
  using assms by (induction n) (auto simp: rd_wr_if less_Suc_eq)

lemma fold_wr_inside:
  assumes "n \<le> cap" and "ok v" and "BSIZE \<le> k"
  shows "fold (\<lambda>i m. wr m i v) [0..<n] m k = m k"
  using assms by (induction n) (auto simp: wr_inside)

end

subsection \<open>Bits of the free map\<close>

text \<open>\<open>bp->data[bi / 8] & (1 << (bi % 8))\<close> and the two updates of that byte.\<close>

definition bit_rd :: "bytes \<Rightarrow> nat \<Rightarrow> bool" where
  "bit_rd m bi = ((m (bi div 8)) AND (push_bit (bi mod 8) 1) \<noteq> 0)"

definition bit_set :: "bytes \<Rightarrow> nat \<Rightarrow> bytes" where
  "bit_set m bi = m(bi div 8 := m (bi div 8) OR push_bit (bi mod 8) 1)"

definition bit_clear :: "bytes \<Rightarrow> nat \<Rightarrow> bytes" where
  "bit_clear m bi = m(bi div 8 := m (bi div 8) AND NOT (push_bit (bi mod 8) 1))"

definition bit_wr :: "bytes \<Rightarrow> nat \<Rightarrow> bool \<Rightarrow> bytes" where
  "bit_wr m bi v = (if v then bit_set m bi else bit_clear m bi)"

lemma bit_rd_bit: "bit_rd m bi = bit (m (bi div 8)) (bi mod 8)"
  by (simp add: bit_rd_def and_exp_eq_0_iff_not_bit)

lemma div_mod_8_neq: "i \<noteq> j \<Longrightarrow> i div 8 = j div 8 \<Longrightarrow> i mod 8 \<noteq> j mod (8::nat)"
  by (metis div_mult_mod_eq)

lemma bit_rd_wr: "bit_rd (bit_wr m i v) j = (if i = j then v else bit_rd m j)"
proof (cases "i = j")
  case True
  then show ?thesis by (auto simp: bit_rd_bit bit_wr_def bit_set_def bit_clear_def bit_simps)
next
  case False
  then show ?thesis
    by (auto simp: bit_rd_bit bit_wr_def bit_set_def bit_clear_def bit_simps dest: div_mod_8_neq)
qed

interpretation bitmap: cells bit_rd bit_wr BPB "\<lambda>_. True"
proof unfold_locales
  fix i k :: nat and v :: bool and m :: bytes
  assume "i < BPB" and "BSIZE \<le> k"
  then have "i div 8 \<noteq> k" by (auto simp: BPB_def BSIZE_def)
  then show "bit_wr m i v k = m k" by (simp add: bit_wr_def bit_set_def bit_clear_def)
qed (simp_all add: bit_rd_wr)

subsection \<open>Block numbers of an indirect block\<close>

definition addr_rd :: "bytes \<Rightarrow> nat \<Rightarrow> u32" where
  "addr_rd m j = get32 m (4 * j)"

definition addr_wr :: "bytes \<Rightarrow> nat \<Rightarrow> u32 \<Rightarrow> bytes" where
  "addr_wr m j v = put32 m (4 * j) v"

interpretation addrs: cells addr_rd addr_wr NINDIRECT "\<lambda>_. True"
proof unfold_locales
  fix i j :: nat and v m
  assume "i \<noteq> j"
  then have "4 * j + 4 \<le> 4 * i \<or> 4 * i + 4 \<le> 4 * j" by linarith
  then show "addr_rd (addr_wr m i v) j = addr_rd m j"
    unfolding addr_rd_def addr_wr_def by (rule get32_put32_other)
qed (auto simp: addr_rd_def addr_wr_def cell_simps NINDIRECT_def BSIZE_def put32_other)

subsection \<open>Inodes\<close>

fun put_addrs :: "bytes \<Rightarrow> nat \<Rightarrow> u32 list \<Rightarrow> bytes" where
  "put_addrs m k [] = m"
| "put_addrs m k (a # as) = put_addrs (put32 m k a) (k + 4) as"

definition get_addrs :: "bytes \<Rightarrow> nat \<Rightarrow> u32 list" where
  "get_addrs m k = map (\<lambda>j. get32 m (k + 4 * j)) [0..<NADDRS]"

text \<open>\<open>((struct dinode *)bp->data) + i\<close>, read and assigned.\<close>

definition get_dinode :: "bytes \<Rightarrow> nat \<Rightarrow> dinode" where
  "get_dinode m i = (let k = DISIZE * i in
     \<lparr>di_type = get16 m k, di_major = get16 m (k + 2), di_minor = get16 m (k + 4),
      di_nlink = get16 m (k + 6), di_size = get32 m (k + 8), di_addrs = get_addrs m (k + 12)\<rparr>)"

definition put_dinode :: "bytes \<Rightarrow> nat \<Rightarrow> dinode \<Rightarrow> bytes" where
  "put_dinode m i d = (let k = DISIZE * i in
     put_addrs (put32 (put16 (put16 (put16 (put16 m k (di_type d)) (k + 2) (di_major d))
       (k + 4) (di_minor d)) (k + 6) (di_nlink d)) (k + 8) (di_size d)) (k + 12) (di_addrs d))"

definition dinode_ok :: "dinode \<Rightarrow> bool" where
  "dinode_ok d = (length (di_addrs d) = NADDRS)"

lemma put_addrs_other: "i < k \<or> k + 4 * length as \<le> i \<Longrightarrow> put_addrs m k as i = m i"
  by (induction m k as rule: put_addrs.induct) (auto simp: put32_other)

lemma get16_put_addrs [cell_simps]: "j + 2 \<le> k \<Longrightarrow> get16 (put_addrs m k as) j = get16 m j"
  by (rule get16_local) (auto simp: put_addrs_other)

lemma get32_put_addrs_before [cell_simps]: "j + 4 \<le> k \<Longrightarrow> get32 (put_addrs m k as) j = get32 m j"
  by (rule get32_local) (auto simp: put_addrs_other)

lemma get32_put_addrs: "j < length as \<Longrightarrow> get32 (put_addrs m k as) (k + 4 * j) = as ! j"
proof (induction m k as arbitrary: j rule: put_addrs.induct)
  case (2 m k a as)
  show ?case
  proof (cases j)
    case 0
    then show ?thesis by (simp add: cell_simps)
  next
    case (Suc j')
    then show ?thesis using "2.IH" [of j'] "2.prems" by (simp add: algebra_simps)
  qed
qed simp

lemma get_addrs_put_addrs [cell_simps]:
  "length as = NADDRS \<Longrightarrow> get_addrs (put_addrs m k as) k = as"
  by (rule nth_equalityI) (auto simp: get_addrs_def get32_put_addrs)

lemma put_dinode_other:
  "dinode_ok d \<Longrightarrow> i < DISIZE * n \<or> DISIZE * (n + 1) \<le> i \<Longrightarrow> put_dinode m n d i = m i"
  by (auto simp: put_dinode_def Let_def put_addrs_other put32_other put16_other dinode_ok_def
      NADDRS_def DISIZE_def NDIRECT_def)

lemma get_dinode_local:
  "(\<And>i. DISIZE * n \<le> i \<Longrightarrow> i < DISIZE * (n + 1) \<Longrightarrow> m i = m' i) \<Longrightarrow> get_dinode m n = get_dinode m' n"
  by (auto simp: get_dinode_def get_addrs_def Let_def DISIZE_def NADDRS_def NDIRECT_def
      intro!: get16_local get32_local)

lemma get_put_dinode: "dinode_ok d \<Longrightarrow> get_dinode (put_dinode m n d) n = d"
  by (simp add: get_dinode_def put_dinode_def Let_def cell_simps dinode_ok_def)

lemma dinode_apart: "i \<noteq> j \<Longrightarrow> DISIZE * j \<le> k \<Longrightarrow> k < DISIZE * (j + 1) \<Longrightarrow>
    k < DISIZE * i \<or> DISIZE * (i + 1) \<le> k"
  by (auto simp: DISIZE_def NADDRS_def NDIRECT_def)

interpretation dinodes: cells get_dinode put_dinode IPB dinode_ok
proof unfold_locales
  fix i j :: nat and v m
  assume "i \<noteq> j" and "dinode_ok v"
  then show "get_dinode (put_dinode m i v) j = get_dinode m j"
    by (intro get_dinode_local put_dinode_other dinode_apart)
next
  fix i k :: nat and v m
  assume "i < IPB" and "dinode_ok v" and "BSIZE \<le> k"
  then show "put_dinode m i v k = m k"
    by (intro put_dinode_other) (auto simp: IPB_def DISIZE_def NADDRS_def NDIRECT_def BSIZE_def)
qed (simp add: get_put_dinode)

subsection \<open>Directory entries\<close>

definition get_dirent :: "bytes \<Rightarrow> nat \<Rightarrow> dirent" where
  "get_dirent m i = (let k = DESIZE * i in
     \<lparr>de_inum = get16 m k, de_name = get_list m (k + 2) DIRSIZ\<rparr>)"

definition put_dirent :: "bytes \<Rightarrow> nat \<Rightarrow> dirent \<Rightarrow> bytes" where
  "put_dirent m i d = (let k = DESIZE * i in put_list (put16 m k (de_inum d)) (k + 2) (de_name d))"

definition dirent_ok :: "dirent \<Rightarrow> bool" where
  "dirent_ok d = (length (de_name d) = DIRSIZ)"

lemma get16_put_list [cell_simps]: "j + 2 \<le> k \<Longrightarrow> get16 (put_list m k bs) j = get16 m j"
  by (rule get16_local) (auto simp: put_list_other)

lemma length_get_list [simp]: "length (get_list m k n) = n"
  by (simp add: get_list_def)

lemma put_dirent_other:
  "dirent_ok d \<Longrightarrow> i < DESIZE * n \<or> DESIZE * (n + 1) \<le> i \<Longrightarrow> put_dirent m n d i = m i"
  by (auto simp: put_dirent_def Let_def put_list_other put16_other dirent_ok_def
      DIRSIZ_def DESIZE_def)

lemma get_dirent_local:
  "(\<And>i. DESIZE * n \<le> i \<Longrightarrow> i < DESIZE * (n + 1) \<Longrightarrow> m i = m' i) \<Longrightarrow> get_dirent m n = get_dirent m' n"
  by (auto simp: get_dirent_def get_list_def Let_def DIRSIZ_def DESIZE_def intro!: get16_local)

lemma get_put_dirent: "dirent_ok d \<Longrightarrow> get_dirent (put_dirent m n d) n = d"
  by (simp add: get_dirent_def put_dirent_def Let_def cell_simps dirent_ok_def)

lemma dirent_apart: "i \<noteq> j \<Longrightarrow> DESIZE * j \<le> k \<Longrightarrow> k < DESIZE * (j + 1) \<Longrightarrow>
    k < DESIZE * i \<or> DESIZE * (i + 1) \<le> k"
  by (auto simp: DESIZE_def DIRSIZ_def)

interpretation dirents: cells get_dirent put_dirent "BSIZE div DESIZE" dirent_ok
proof unfold_locales
  fix i j :: nat and v m
  assume "i \<noteq> j" and "dirent_ok v"
  then show "get_dirent (put_dirent m i v) j = get_dirent m j"
    by (intro get_dirent_local put_dirent_other dirent_apart)
next
  fix i k :: nat and v m
  assume "i < BSIZE div DESIZE" and "dirent_ok v" and "BSIZE \<le> k"
  then show "put_dirent m i v k = m k"
    by (intro put_dirent_other) (auto simp: DESIZE_def DIRSIZ_def BSIZE_def)
qed (simp add: get_put_dirent)

subsection \<open>The super block\<close>

definition get_sb :: "bytes \<Rightarrow> superblock" where
  "get_sb m = \<lparr>sb_magic = get32 m 0, sb_size = get32 m 4, sb_nblocks = get32 m 8,
     sb_ninodes = get32 m 12, sb_nlog = get32 m 16, sb_logstart = get32 m 20,
     sb_inodestart = get32 m 24, sb_bmapstart = get32 m 28\<rparr>"

definition put_sb :: "bytes \<Rightarrow> superblock \<Rightarrow> bytes" where
  "put_sb m sb = put32 (put32 (put32 (put32 (put32 (put32 (put32 (put32 m
     0 (sb_magic sb)) 4 (sb_size sb)) 8 (sb_nblocks sb)) 12 (sb_ninodes sb))
     16 (sb_nlog sb)) 20 (sb_logstart sb)) 24 (sb_inodestart sb)) 28 (sb_bmapstart sb)"

lemma get_put_sb [cell_simps]: "get_sb (put_sb m sb) = sb"
  by (simp add: get_sb_def put_sb_def cell_simps)

section \<open>C strings\<close>

text \<open>
  A string is the list of its bytes; the list may carry a NUL and what follows it (a
  fixed-size \<open>char\<close> array), and a list that ends without one stands for a terminated string.
  \<open>strncmp\<close> compares at most \<open>n\<close> bytes and stops at a common NUL.
\<close>

definition chr :: "u8 list \<Rightarrow> u8" where
  "chr s = (case s of [] \<Rightarrow> 0 | c # _ \<Rightarrow> c)"

fun strncmp :: "u8 list \<Rightarrow> u8 list \<Rightarrow> nat \<Rightarrow> int" where
  "strncmp s t 0 = 0"
| "strncmp s t (Suc n) =
     (if chr s \<noteq> chr t then uint (chr s) - uint (chr t)
      else if chr s = 0 then 0
      else strncmp (tl s) (tl t) n)"

definition cstr :: "u8 list \<Rightarrow> u8 list" where
  "cstr s = takeWhile (\<lambda>c. c \<noteq> 0) s"

definition strncpy :: "u8 list \<Rightarrow> nat \<Rightarrow> u8 list" where
  "strncpy s n = take n (cstr s @ replicate n 0)"

lemma length_strncpy [simp]: "length (strncpy s n) = n"
  by (simp add: strncpy_def)

lemma strncmp_eq_0: "strncmp s t n = 0 \<longleftrightarrow> take n (cstr s) = take n (cstr t)"
proof (induction s t n rule: strncmp.induct)
  case (2 s t n)
  then show ?case
    by (cases s; cases t) (auto simp: chr_def cstr_def uint_0_iff simp flip: word_uint_eq_iff)
qed simp

lemma cstr_no_nul [simp]: "cstr (cstr s) = cstr s"
  by (auto simp: cstr_def takeWhile_eq_all_conv dest: set_takeWhileD)

lemma cstr_append_0: "cstr (xs @ replicate n 0) = cstr xs"
  unfolding cstr_def by (induction xs) (auto simp: takeWhile_eq_Nil_iff)

lemma cstr_take: "cstr (take n s) = take n (cstr s)"
  unfolding cstr_def by (induction s arbitrary: n) (auto simp: take_Cons split: nat.splits)

lemma cstr_strncpy: "cstr (strncpy s n) = take n (cstr s)"
  by (simp only: strncpy_def cstr_take cstr_append_0 cstr_no_nul)

end
