(* ===== verification/Ramdisk.thy ===== *)
theory Ramdisk
  imports Layout
begin

text \<open>
  The block device: the server loop of ramdisk/src/main.c and the three transports of
  \<open>disk_rw\<close> in xv6fs/src/main.c (synchronous IPC with a shared buffer, polling a shared
  buffer, user interrupts). Each transport together with the server implements one
  interface, an array of blocks; the file system is modelled over that interface.

  Memory of the ramdisk process is the byte at each offset from \<open>RAMDISK_BASE\<close>. The numbers
  of the requests come from a header of the seL4 service library and are parameters, as is
  what the kernel and that library do: \<open>seL4_Call\<close>, \<open>Call\<close>, \<open>Wait\<close> and \<open>argint\<close>.
\<close>

section \<open>The server\<close>

definition RAMDISK_BASE :: u64 where "RAMDISK_BASE = 0x20000000"
definition MAX_RAMDISK_PAGES :: nat where "MAX_RAMDISK_PAGES = 16"
definition MAX_RAMDISK_SIZE :: nat where "MAX_RAMDISK_SIZE = MAX_RAMDISK_PAGES * 2 * 1024 * 1024"
definition EINVAL :: int where "EINVAL = 22"
definition ENOENT :: int where "ENOENT = 2"
definition EBADF :: int where "EBADF = 9"

record disk_labels =
  DISK_INIT :: u32
  DISK_READ :: u32
  DISK_WRITE :: u32

definition labels_ok :: "disk_labels \<Rightarrow> bool" where
  "labels_ok L = (distinct [0, DISK_INIT L, DISK_READ L, DISK_WRITE L])"

text \<open>The memory both sides see: the shared buffer and the ramdisk's own pages.\<close>

record chan =
  shm :: bytes
  ram :: bytes

text \<open>The frames mapped at start-up: one slot of the range after another, at increasing addresses.\<close>

fun map_pages :: "nat \<Rightarrow> nat \<Rightarrow> u64 \<Rightarrow> u64 \<Rightarrow> (u64 \<times> u64) list" where
  "map_pages bits 0 slot vaddr = []"
| "map_pages bits (Suc n) slot vaddr =
     (slot, vaddr) # map_pages bits n (slot + 1) (vaddr + push_bit bits 1)"

definition ramdisk_map :: "nat \<Rightarrow> u64 \<Rightarrow> (u64 \<times> u64) list" where
  "ramdisk_map bits start = map_pages bits MAX_RAMDISK_PAGES start RAMDISK_BASE"

text \<open>
  \<open>(void *)RAMDISK_BASE + blockno * BSIZE\<close> with a signed \<open>blockno\<close>: an access of BSIZE bytes
  there is a fault unless it lies in the mapped pages.
\<close>

definition ram_off :: "u32 \<Rightarrow> nat res" where
  "ram_off blockno = (let a = sint blockno * int BSIZE in
     if 0 \<le> a \<and> a + int BSIZE \<le> int MAX_RAMDISK_SIZE then Inr (nat a) else Inl Fault)"

text \<open>One turn of the server's loop in each configuration.\<close>

definition ramdisk_normal ::
  "disk_labels \<Rightarrow> u64 \<Rightarrow> u64 \<Rightarrow> chan \<Rightarrow> (u64 \<times> chan) res" where
  "ramdisk_normal L label mr0 c =
     (if label = scast (DISK_INIT L) then Inr (0, c)
      else if label = scast (DISK_READ L) then
        bnd (ram_off (ucast mr0)) (\<lambda>k. Inr (0, c\<lparr>shm := copy (shm c) 0 (ram c) k BSIZE\<rparr>))
      else if label = scast (DISK_WRITE L) then
        bnd (ram_off (ucast mr0)) (\<lambda>k. Inr (0, c\<lparr>ram := copy (ram c) k (shm c) 0 BSIZE\<rparr>))
      else Inr (word_of_int (- EINVAL), c))"

text \<open>
  The interrupt configuration works on a buffer of words: \<open>buf[0]\<close> the label, \<open>buf[1]\<close> the
  block number and then the answer, the data from \<open>&buf[2]\<close>.
\<close>

definition ramdisk_switch :: "disk_labels \<Rightarrow> u32 \<Rightarrow> chan \<Rightarrow> chan res" where
  "ramdisk_switch L label c =
     bnd (if label = DISK_INIT L then Inr (0, c)
          else if label = DISK_READ L then
            bnd (ram_off (ucast (get64 (shm c) 8)))
              (\<lambda>k. Inr (0, c\<lparr>shm := copy (shm c) 16 (ram c) k BSIZE\<rparr>))
          else if label = DISK_WRITE L then
            bnd (ram_off (ucast (get64 (shm c) 8)))
              (\<lambda>k. Inr (0, c\<lparr>ram := copy (ram c) k (shm c) 16 BSIZE\<rparr>))
          else Inr (word_of_int (- EINVAL), c))
     (\<lambda>(ret, c). Inr (c\<lparr>shm := put64 (put64 (shm c) 0 0) 8 ret\<rparr>))"

text \<open>
  Polling: the same words, but \<open>buf\<close> is assigned only in the two transfer cases. After any other
  label the answer goes through a pointer that has no value, which is a fault.
\<close>

definition ramdisk_poll :: "disk_labels \<Rightarrow> (bytes \<Rightarrow> u32) \<Rightarrow> chan \<Rightarrow> chan res" where
  "ramdisk_poll L argint c =
     (let label = argint (shm c) in
      if label = 0 then Inr c
      else
        bnd (if label = DISK_INIT L then Inl Fault
             else if label = DISK_READ L then
               bnd (ram_off (ucast (get64 (shm c) 8)))
                 (\<lambda>k. Inr (0, c\<lparr>shm := copy (shm c) 16 (ram c) k BSIZE\<rparr>))
             else if label = DISK_WRITE L then
               bnd (ram_off (ucast (get64 (shm c) 8)))
                 (\<lambda>k. Inr (0, c\<lparr>ram := copy (ram c) k (shm c) 16 BSIZE\<rparr>))
             else Inl Fault)
        (\<lambda>(ret, c). Inr (c\<lparr>shm := put64 (put64 (shm c) 0 0) 8 ret\<rparr>)))"

definition ramdisk_uintr :: "disk_labels \<Rightarrow> (bytes \<Rightarrow> u32) \<Rightarrow> chan \<Rightarrow> chan res" where
  "ramdisk_uintr L argint c = ramdisk_switch L (argint (shm c)) c"

section \<open>The client: disk\_rw\<close>

definition disk_rw_normal ::
  "disk_labels \<Rightarrow> (u64 \<Rightarrow> u64 \<Rightarrow> chan \<Rightarrow> (u64 \<times> chan) res) \<Rightarrow>
   bytes \<Rightarrow> u32 \<Rightarrow> bool \<Rightarrow> chan \<Rightarrow> (bytes \<times> chan) res" where
  "disk_rw_normal L call buf blockno write c =
     (if write then
        let c = c\<lparr>shm := copy (shm c) 0 buf 0 BSIZE\<rparr> in
        bnd (call (scast (DISK_WRITE L)) (scast blockno) c) (\<lambda>(mr0, c).
        if mr0 \<noteq> 0 then Inl DiskWrite else Inr (buf, c))
      else
        bnd (call (scast (DISK_READ L)) (scast blockno) c) (\<lambda>(mr0, c).
        if mr0 \<noteq> 0 then Inl DiskRead else Inr (copy buf 0 (shm c) 0 BSIZE, c)))"

text \<open>\<open>Call\<close> answers the word the server left in \<open>buf[1]\<close>; \<open>Wait\<close> only waits for the server.\<close>

definition disk_rw_poll ::
  "disk_labels \<Rightarrow> (chan \<Rightarrow> (u64 \<times> chan) res) \<Rightarrow> (chan \<Rightarrow> chan res) \<Rightarrow>
   bytes \<Rightarrow> u32 \<Rightarrow> bool \<Rightarrow> chan \<Rightarrow> (bytes \<times> chan) res" where
  "disk_rw_poll L call wait buf blockno write c =
     (if write then
        let m = put64 (put64 (shm c) 0 (scast (DISK_WRITE L))) 8 (scast blockno);
            c = c\<lparr>shm := copy m 16 buf 0 BSIZE\<rparr> in
        bnd (call c) (\<lambda>(ret, c). if ret \<noteq> 0 then Inl DiskWrite else Inr (buf, c))
      else
        let c = c\<lparr>shm := put64 (put64 (shm c) 0 (scast (DISK_READ L))) 8 (scast blockno)\<rparr> in
        bnd (wait c) (\<lambda>c.
        if get64 (shm c) 8 \<noteq> 0 then Inl DiskRead else Inr (copy buf 0 (shm c) 16 BSIZE, c)))"

text \<open>
  \<open>CallBadged\<close> sends an interrupt to the server and takes pending badges until bit 1 (the
  ramdisk's) is set; bit 0 (a client's request that arrived meanwhile) is written back. The
  badges that arrive are the list; the result is how often bit 0 was written back and the
  badges left. \<open>None\<close>: the list ended and the loop still polls. In \<open>disk_rw_uintr\<close> the
  parameter \<open>exchange\<close> is what one \<open>CallBadged\<close> does to the shared memory: the server's turn.
\<close>

fun call_badged :: "u64 list \<Rightarrow> (nat \<times> u64 list) option" where
  "call_badged [] = None"
| "call_badged (badge # rest) =
     (let w = (if badge AND 1 \<noteq> 0 then 1 else 0) in
      if badge AND 2 \<noteq> 0 then Some (w, rest)
      else map_option (\<lambda>(k, r). (w + k, r)) (call_badged rest))"

definition disk_rw_uintr ::
  "disk_labels \<Rightarrow> (chan \<Rightarrow> chan res) \<Rightarrow> bytes \<Rightarrow> u32 \<Rightarrow> bool \<Rightarrow> chan \<Rightarrow> (bytes \<times> chan) res" where
  "disk_rw_uintr L exchange buf blockno write c =
     (if write then
        let m = put64 (put64 (shm c) 0 (scast (DISK_WRITE L))) 8 (scast blockno);
            c = c\<lparr>shm := copy m 16 buf 0 BSIZE\<rparr> in
        bnd (exchange c) (\<lambda>c.
        if get64 (shm c) 8 \<noteq> 0 then Inl DiskWrite else Inr (buf, c))
      else
        let c = c\<lparr>shm := put64 (put64 (shm c) 0 (scast (DISK_READ L))) 8 (scast blockno)\<rparr> in
        bnd (exchange c) (\<lambda>c.
        if get64 (shm c) 8 \<noteq> 0 then Inl DiskRead else Inr (copy buf 0 (shm c) 16 BSIZE, c)))"

section \<open>The interface: an array of blocks\<close>

text \<open>
  \<open>rw buf n write w\<close> is one call of \<open>disk_rw\<close>; \<open>view w k i\<close> is the byte at offset \<open>i\<close> of
  block \<open>k\<close>. The contract is the one of an array of FSSIZE blocks.
\<close>

locale block_device =
  fixes rw :: "bytes \<Rightarrow> u32 \<Rightarrow> bool \<Rightarrow> 'w \<Rightarrow> (bytes \<times> 'w) res"
    and view :: "'w \<Rightarrow> nat \<Rightarrow> bytes"
  assumes rw_write: "unat n < FSSIZE \<Longrightarrow> \<exists>w'. rw buf n True w = Inr (buf, w') \<and>
      (\<forall>k < FSSIZE. \<forall>i < BSIZE. view w' k i = (if k = unat n then buf i else view w k i))"
    and rw_read: "unat n < FSSIZE \<Longrightarrow> \<exists>b w'. rw buf n False w = Inr (b, w') \<and>
      (\<forall>i < BSIZE. b i = view w (unat n) i) \<and> (\<forall>k < FSSIZE. \<forall>i < BSIZE. view w' k i = view w k i)"

text \<open>
  A list of requests run on a device: the blocks the reads return, in order. On the
  array of blocks itself a request is one lookup or one update.
\<close>

datatype req = ReadBlk u32 | WriteBlk u32 bytes

fun run_reqs :: "(bytes \<Rightarrow> u32 \<Rightarrow> bool \<Rightarrow> 'w \<Rightarrow> (bytes \<times> 'w) res) \<Rightarrow> req list \<Rightarrow> 'w \<Rightarrow> (bytes list \<times> 'w) res" where
  "run_reqs rw [] w = Inr ([], w)"
| "run_reqs rw (ReadBlk n # rs) w = bnd (rw (\<lambda>_. 0) n False w) (\<lambda>(b, w).
     bnd (run_reqs rw rs w) (\<lambda>(bs, w). Inr (b # bs, w)))"
| "run_reqs rw (WriteBlk n b # rs) w = bnd (rw b n True w) (\<lambda>(_, w). run_reqs rw rs w)"

fun spec_reqs :: "req list \<Rightarrow> (nat \<Rightarrow> bytes) \<Rightarrow> bytes list \<times> (nat \<Rightarrow> bytes)" where
  "spec_reqs [] d = ([], d)"
| "spec_reqs (ReadBlk n # rs) d = (let (bs, d') = spec_reqs rs d in (d (unat n) # bs, d'))"
| "spec_reqs (WriteBlk n b # rs) d = spec_reqs rs (d(unat n := b))"

fun req_ok :: "req \<Rightarrow> bool" where
  "req_ok (ReadBlk n) = (unat n < FSSIZE)"
| "req_ok (WriteBlk n b) = (unat n < FSSIZE)"

definition same_block :: "bytes \<Rightarrow> bytes \<Rightarrow> bool" where
  "same_block a b = (\<forall>i < BSIZE. a i = b i)"

definition same_disk :: "(nat \<Rightarrow> bytes) \<Rightarrow> (nat \<Rightarrow> bytes) \<Rightarrow> bool" where
  "same_disk d e = (\<forall>k < FSSIZE. same_block (d k) (e k))"

context block_device
begin

lemma read_after_write:
  assumes "unat n < FSSIZE" and "rw buf n True w = Inr (b1, w1)" and "rw b2 n False w1 = Inr (b3, w2)"
  shows "same_block b3 buf"
  using rw_write [of n buf w] rw_read [of n b2 w1] assms by (auto simp: same_block_def)

lemma run_refines:
  assumes "list_all req_ok rs" and "same_disk (view w) d"
  shows "\<exists>bs w'. run_reqs rw rs w = Inr (bs, w') \<and>
           list_all2 same_block bs (fst (spec_reqs rs d)) \<and> same_disk (view w') (snd (spec_reqs rs d))"
  using assms
proof (induction rs d arbitrary: w rule: spec_reqs.induct)
  case (2 n rs d)
  then have n: "unat n < FSSIZE" by simp
  obtain b w1 where r: "rw (\<lambda>_. 0) n False w = Inr (b, w1)" "same_block b (view w (unat n))"
    and v: "same_disk (view w1) (view w)"
    using rw_read [OF n, of "\<lambda>_. 0" w] by (auto simp: same_block_def same_disk_def)
  have "same_disk (view w1) d" using v "2.prems" by (simp add: same_disk_def same_block_def)
  then obtain bs w2 where "run_reqs rw rs w1 = Inr (bs, w2)"
    "list_all2 same_block bs (fst (spec_reqs rs d))" "same_disk (view w2) (snd (spec_reqs rs d))"
    using "2.IH" [of w1] "2.prems"(1) by auto
  moreover have "same_block b (d (unat n))"
    using r(2) "2.prems"(2) n by (simp add: same_disk_def same_block_def)
  ultimately show ?case using r(1) by (simp add: case_prod_unfold Let_def)
next
  case (3 n b rs d)
  then have n: "unat n < FSSIZE" by simp
  obtain w1 where r: "rw b n True w = Inr (b, w1)"
    and v: "\<forall>k < FSSIZE. \<forall>i < BSIZE. view w1 k i = (if k = unat n then b i else view w k i)"
    using rw_write [OF n, of b w] by auto
  have "same_disk (view w1) (d(unat n := b))"
    using v "3.prems"(2) by (simp add: same_disk_def same_block_def)
  with "3.prems"(1) obtain bs w2 where "run_reqs rw rs w1 = Inr (bs, w2)"
    "list_all2 same_block bs (fst (spec_reqs rs (d(unat n := b))))"
    "same_disk (view w2) (snd (spec_reqs rs (d(unat n := b))))"
    using "3.IH" [of w1] by (auto simp del: fun_upd_apply)
  then show ?case using r by simp
qed simp

end

section \<open>The transports implement the interface\<close>

definition chan_view :: "chan \<Rightarrow> nat \<Rightarrow> bytes" where
  "chan_view c k = (\<lambda>i. ram c (k * BSIZE + i))"

definition xv6_disk_normal :: "disk_labels \<Rightarrow> bytes \<Rightarrow> u32 \<Rightarrow> bool \<Rightarrow> chan \<Rightarrow> (bytes \<times> chan) res" where
  "xv6_disk_normal L = disk_rw_normal L (ramdisk_normal L)"

definition argint_buf0 :: "bytes \<Rightarrow> u32" where
  "argint_buf0 m = ucast (get64 m 0)"

definition xv6_disk_poll :: "disk_labels \<Rightarrow> bytes \<Rightarrow> u32 \<Rightarrow> bool \<Rightarrow> chan \<Rightarrow> (bytes \<times> chan) res" where
  "xv6_disk_poll L = disk_rw_poll L
     (\<lambda>c. bnd (ramdisk_poll L argint_buf0 c) (\<lambda>c. Inr (get64 (shm c) 8, c)))
     (ramdisk_poll L argint_buf0)"

definition xv6_disk_uintr :: "disk_labels \<Rightarrow> bytes \<Rightarrow> u32 \<Rightarrow> bool \<Rightarrow> chan \<Rightarrow> (bytes \<times> chan) res" where
  "xv6_disk_uintr L = disk_rw_uintr L (ramdisk_uintr L argint_buf0)"

lemma ram_off_ok: "unat n < FSSIZE \<Longrightarrow> ram_off n = Inr (unat n * BSIZE)"
proof -
  assume n: "unat n < FSSIZE"
  then have "unat n < 32768" by (simp add: FSSIZE_def)
  then have "uint n < 32768" unfolding uint_nat by linarith
  moreover have "- 2147483648 \<le> uint n" using uint_ge_0 [of n] by linarith
  ultimately have "sint n = uint n"
    by (simp add: sint_uint signed_take_bit_int_eq_self_iff)
  then have s: "sint n = int (unat n)" by (simp only: uint_nat)
  have "nat (int (unat n) * int BSIZE) = unat n * BSIZE" by (simp only: nat_int flip: of_nat_mult)
  moreover have "int (unat n) * int BSIZE + int BSIZE \<le> int MAX_RAMDISK_SIZE"
    using n unfolding BSIZE_def MAX_RAMDISK_SIZE_def MAX_RAMDISK_PAGES_def FSSIZE_def by linarith
  ultimately show ?thesis by (simp add: ram_off_def s Let_def)
qed

lemma block_index_apart:
  "i < BSIZE \<Longrightarrow> (n * BSIZE \<le> k * BSIZE + i \<and> k * BSIZE + i < n * BSIZE + BSIZE) \<longleftrightarrow> k = n"
  unfolding BSIZE_def by auto

lemma copy_block: "i < BSIZE \<Longrightarrow> copy r (n * BSIZE) src j BSIZE (k * BSIZE + i) =
     (if k = n then src (j + i) else r (k * BSIZE + i))"
  using block_index_apart [of i n k] by (auto simp: copy_def)

lemma copy_read: "i < n \<Longrightarrow> copy buf 0 src j n i = src (j + i)"
  by (simp add: copy_def)

lemma ucast_scast_u32 [simp]: "(ucast (scast (n :: u32) :: u64) :: u32) = n"
  by (rule bit_word_eqI) (auto simp: bit_simps)

lemma scast_u32_inj [simp]: "(scast (a :: u32) :: u64) = scast b \<longleftrightarrow> a = b"
  by (metis ucast_scast_u32)

lemma labels_okD:
  assumes "labels_ok L"
  shows "DISK_READ L \<noteq> DISK_INIT L" "DISK_WRITE L \<noteq> DISK_INIT L" "DISK_WRITE L \<noteq> DISK_READ L"
    "DISK_READ L \<noteq> 0" "DISK_WRITE L \<noteq> 0"
  using assms by (auto simp: labels_ok_def)

lemma normal_block_device: "labels_ok L \<Longrightarrow> block_device (xv6_disk_normal L) chan_view"
  by unfold_locales
    (auto simp: xv6_disk_normal_def disk_rw_normal_def ramdisk_normal_def ram_off_ok Let_def
      copy_read copy_block labels_okD chan_view_def)

lemma argint_buf0_put [simp]: "argint_buf0 (put64 (put64 m 0 (scast n)) 8 v) = n"
  by (simp add: argint_buf0_def cell_simps)

lemma argint_buf0_copy [simp]: "8 \<le> k \<Longrightarrow> argint_buf0 (copy m k src j n) = argint_buf0 m"
  by (simp add: argint_buf0_def get64_copy_other)

lemma get64_8_copy [simp]: "16 \<le> k \<Longrightarrow> get64 (copy m k src j n) 8 = get64 m 8"
  by (simp add: get64_copy_other)

lemma copy_put64_words: "put64 (put64 m 0 a) 8 b (16 + i) = m (16 + i)"
  by (simp add: put64_other)

lemma copy_16: "i < n \<Longrightarrow> copy m 16 src j n (16 + i) = src (j + i)"
  by (simp add: copy_def)

lemma poll_block_device: "labels_ok L \<Longrightarrow> block_device (xv6_disk_poll L) chan_view"
  by unfold_locales
    (auto simp: xv6_disk_poll_def disk_rw_poll_def ramdisk_poll_def ram_off_ok
      Let_def copy_read copy_block labels_okD cell_simps copy_put64_words copy_16 chan_view_def)

lemma uintr_block_device: "labels_ok L \<Longrightarrow> block_device (xv6_disk_uintr L) chan_view"
  by unfold_locales
    (auto simp: xv6_disk_uintr_def disk_rw_uintr_def ramdisk_uintr_def ramdisk_switch_def ram_off_ok
      Let_def copy_read copy_block labels_okD cell_simps copy_put64_words copy_16 chan_view_def)

section \<open>What the devices guarantee\<close>

definition demo_disk_labels :: disk_labels where
  "demo_disk_labels = \<lparr>DISK_INIT = 1, DISK_READ = 2, DISK_WRITE = 3\<rparr>"

definition zero_chan :: chan where
  "zero_chan = \<lparr>shm = \<lambda>_. 0, ram = \<lambda>_. 0\<rparr>"

lemma ram_off_Inr: "ram_off n = Inr k \<Longrightarrow> k + BSIZE \<le> MAX_RAMDISK_SIZE"
  by (auto simp: ram_off_def Let_def split: if_splits)

lemma copy_beyond: "k + n \<le> i \<Longrightarrow> copy dst k src j n i = dst i"
  by (simp add: copy_def)





text \<open>
  C19. The loop that waits for the ramdisk's interrupt ends at the first badge with bit 1 and hands on
  exactly the badges with bit 0 seen until then: no request of the client is lost or repeated.
\<close>

theorem badge_loop_forwards_requests:
  "call_badged bs = (case dropWhile (\<lambda>x. x AND 2 = 0) bs of
      [] \<Rightarrow> None
    | b # out \<Rightarrow> Some (length (filter (\<lambda>x. x AND 1 \<noteq> 0) (takeWhile (\<lambda>x. x AND 2 = 0) bs @ [b])), out))"
  by (induction bs) (auto simp: Let_def simp del: dropWhile_eq_Nil_conv split: list.splits)

end
