(* ===== verification/Bio.thy ===== *)
theory Bio
  imports Ramdisk
begin

text \<open>
  The buffer cache, xv6fs/src/bio.c: NBUF buffers on a circular doubly linked list through
  \<open>head\<close>, most recently used first. A buffer is its index in \<open>bcache.buf\<close>; \<open>HEAD\<close> is
  \<open>&bcache.head\<close>. The pointers are modelled as the fields they are (binit sets every one
  of them), and the list they form is an abstraction of them. Below the cache is the array of
  blocks of theory Ramdisk.
\<close>

section \<open>State\<close>

record bio =
  bufs :: "nat \<Rightarrow> buf"
  disk :: "nat \<Rightarrow> bytes"

definition HEAD :: nat where "HEAD = NBUF"

text \<open>\<open>disk_rw\<close> as the file system sees it: what each transport refines.\<close>

definition disk_rw :: "bytes \<Rightarrow> u32 \<Rightarrow> bool \<Rightarrow> 'z bio_scheme \<Rightarrow> (bytes \<times> 'z bio_scheme) res" where
  "disk_rw buf blockno write s =
     (if unat blockno < FSSIZE then
        (if write then Inr (buf, s\<lparr>disk := (disk s)(unat blockno := buf)\<rparr>)
         else Inr (disk s (unat blockno), s))
      else Inl Fault)"

interpretation bdev: block_device disk_rw disk
  by unfold_locales (auto simp: disk_rw_def)

section \<open>Operations\<close>

text \<open>
  The two pieces of list surgery. Insertion after \<open>head\<close>:
  \<open>b->next = head.next; b->prev = &head; head.next->prev = b; head.next = b\<close>.
\<close>

definition ring_insert :: "nat \<Rightarrow> (nat \<Rightarrow> buf) \<Rightarrow> (nat \<Rightarrow> buf)" where
  "ring_insert b B =
     (let B = B(b := (B b)\<lparr>b_next := b_next (B HEAD)\<rparr>);
          B = B(b := (B b)\<lparr>b_prev := HEAD\<rparr>);
          h = b_next (B HEAD);
          B = B(h := (B h)\<lparr>b_prev := b\<rparr>)
      in B(HEAD := (B HEAD)\<lparr>b_next := b\<rparr>))"

text \<open>Removal: \<open>b->next->prev = b->prev; b->prev->next = b->next\<close>.\<close>

definition ring_unlink :: "nat \<Rightarrow> (nat \<Rightarrow> buf) \<Rightarrow> (nat \<Rightarrow> buf)" where
  "ring_unlink b B =
     (let n = b_next (B b);
          B = B(n := (B n)\<lparr>b_prev := b_prev (B b)\<rparr>);
          p = b_prev (B b)
      in B(p := (B p)\<lparr>b_next := b_next (B b)\<rparr>))"

definition binit :: "'z bio_scheme \<Rightarrow> 'z bio_scheme" where
  "binit s =
     (let B = (bufs s)(HEAD := (bufs s HEAD)\<lparr>b_prev := HEAD, b_next := HEAD\<rparr>)
      in s\<lparr>bufs := fold ring_insert [0..<NBUF] B\<rparr>)"

text \<open>
  \<open>for (b = start; b != &bcache.head; b = step b) if (p b) ...\<close>: the first buffer that
  satisfies the test. The bound NBUF + 1 is enough on every list binit and brelse build.
\<close>

fun ring_scan ::
  "nat \<Rightarrow> (buf \<Rightarrow> nat) \<Rightarrow> (buf \<Rightarrow> bool) \<Rightarrow> (nat \<Rightarrow> buf) \<Rightarrow> nat \<Rightarrow> nat option res" where
  "ring_scan 0 step p B b = Inl NoFuel"
| "ring_scan (Suc fuel) step p B b =
     (if b = HEAD then Inr None
      else if p (B b) then Inr (Some b)
      else ring_scan fuel step p B (step (B b)))"

definition RING_FUEL :: nat where "RING_FUEL = NBUF + 1"

definition is_key :: "u32 \<Rightarrow> u32 \<Rightarrow> buf \<Rightarrow> bool" where
  "is_key dev blockno x = (b_dev x = dev \<and> b_blockno x = blockno)"

definition is_free :: "buf \<Rightarrow> bool" where
  "is_free x = (b_refcnt x = 0)"

definition bget :: "u32 \<Rightarrow> u32 \<Rightarrow> 'z bio_scheme \<Rightarrow> (nat \<times> 'z bio_scheme) res" where
  "bget dev blockno s =
     (let B = bufs s in
      bnd (ring_scan RING_FUEL b_next (is_key dev blockno) B (b_next (B HEAD))) (\<lambda>r.
      case r of
        Some b \<Rightarrow> Inr (b, s\<lparr>bufs := B(b := (B b)\<lparr>b_refcnt := b_refcnt (B b) + 1\<rparr>)\<rparr>)
      | None \<Rightarrow>
          bnd (ring_scan RING_FUEL b_prev is_free B (b_prev (B HEAD))) (\<lambda>r.
          case r of
            Some b \<Rightarrow> Inr (b, s\<lparr>bufs := B(b :=
              (B b)\<lparr>b_dev := dev, b_blockno := blockno, b_valid := 0, b_refcnt := 1\<rparr>)\<rparr>)
          | None \<Rightarrow> Inl BgetNoBuffers)))"

definition bread :: "u32 \<Rightarrow> u32 \<Rightarrow> 'z bio_scheme \<Rightarrow> (nat \<times> 'z bio_scheme) res" where
  "bread dev blockno s =
     bnd (bget dev blockno s) (\<lambda>(b, s).
     if b_valid (bufs s b) = 0 then
       bnd (disk_rw (b_data (bufs s b)) (b_blockno (bufs s b)) False s) (\<lambda>(d, s).
       Inr (b, s\<lparr>bufs := (bufs s)(b := (bufs s b)\<lparr>b_data := d, b_valid := 1\<rparr>)\<rparr>))
     else Inr (b, s))"

definition bwrite :: "nat \<Rightarrow> 'z bio_scheme \<Rightarrow> 'z bio_scheme res" where
  "bwrite b s = bnd (disk_rw (b_data (bufs s b)) (b_blockno (bufs s b)) True s) (\<lambda>(_, s). Inr s)"

definition brelse :: "nat \<Rightarrow> 'z bio_scheme \<Rightarrow> 'z bio_scheme" where
  "brelse b s =
     (let B = (bufs s)(b := (bufs s b)\<lparr>b_refcnt := b_refcnt (bufs s b) - 1\<rparr>)
      in if b_refcnt (B b) = 0 then s\<lparr>bufs := ring_insert b (ring_unlink b B)\<rparr>
         else s\<lparr>bufs := B\<rparr>)"

definition bpin :: "nat \<Rightarrow> 'z bio_scheme \<Rightarrow> 'z bio_scheme" where
  "bpin b s = s\<lparr>bufs := (bufs s)(b := (bufs s b)\<lparr>b_refcnt := b_refcnt (bufs s b) + 1\<rparr>)\<rparr>"

definition bunpin :: "nat \<Rightarrow> 'z bio_scheme \<Rightarrow> 'z bio_scheme" where
  "bunpin b s = s\<lparr>bufs := (bufs s)(b := (bufs s b)\<lparr>b_refcnt := b_refcnt (bufs s b) - 1\<rparr>)\<rparr>"

text \<open>An assignment through \<open>bp->data\<close>: the client's update of a buffer it holds.\<close>

definition bdata :: "nat \<Rightarrow> (bytes \<Rightarrow> bytes) \<Rightarrow> 'z bio_scheme \<Rightarrow> 'z bio_scheme" where
  "bdata b f s = s\<lparr>bufs := (bufs s)(b := (bufs s b)\<lparr>b_data := f (b_data (bufs s b))\<rparr>)\<rparr>"

section \<open>The list behind the pointers\<close>

fun linked :: "(nat \<Rightarrow> nat) \<Rightarrow> nat \<Rightarrow> nat list \<Rightarrow> nat \<Rightarrow> bool" where
  "linked f a [] z = (f a = z)"
| "linked f a (x # xs) z = (f a = x \<and> linked f x xs z)"

definition nextp :: "(nat \<Rightarrow> buf) \<Rightarrow> nat \<Rightarrow> nat" where "nextp B = (\<lambda>i. b_next (B i))"
definition prevp :: "(nat \<Rightarrow> buf) \<Rightarrow> nat \<Rightarrow> nat" where "prevp B = (\<lambda>i. b_prev (B i))"

definition ring :: "(nat \<Rightarrow> buf) \<Rightarrow> nat list \<Rightarrow> bool" where
  "ring B xs = (linked (nextp B) HEAD xs HEAD \<and> linked (prevp B) HEAD (rev xs) HEAD \<and> distinct (HEAD # xs))"

lemma path_append: "linked f a (xs @ y # ys) z \<longleftrightarrow> linked f a xs y \<and> linked f y ys z"
  by (induction xs arbitrary: a) auto

lemma path_upd: "c \<noteq> a \<Longrightarrow> c \<notin> set xs \<Longrightarrow> linked (f(c := v)) a xs z = linked f a xs z"
  by (induction xs arbitrary: a) auto

lemma path_last: "linked f a xs z \<Longrightarrow> f (last (a # xs)) = z"
  by (induction xs arbitrary: a) auto

lemma path_redirect:
  "linked f a xs z \<Longrightarrow> distinct (a # xs) \<Longrightarrow> linked (f(last (a # xs) := w)) a xs w"
proof (induction xs arbitrary: a)
  case (Cons x xs)
  then have "last (x # xs) \<noteq> a" by (metis distinct.simps(2) last_in_set list.distinct(1))
  with Cons show ?case by auto
qed simp

lemma path_prepend:
  "linked f h xs z \<Longrightarrow> b \<noteq> h \<Longrightarrow> b \<notin> set xs \<Longrightarrow> h \<notin> set xs \<Longrightarrow> linked (f(b := f h, h := b)) h (b # xs) z"
  by (cases xs) (auto simp: path_upd)

lemma path_snoc:
  assumes "linked f h xs z" "b \<noteq> h" "b \<notin> set xs" "distinct (h # xs)"
  shows "linked (f(b := z, last (h # xs) := b)) h (xs @ [b]) z"
proof -
  have "last (h # xs) \<noteq> b" using assms last_in_set [of "h # xs"] by auto
  moreover have "linked (f(b := z)) h xs z" using assms by (simp add: path_upd)
  ultimately show ?thesis using path_redirect [of "f(b := z)" h xs z b] assms(4)
    by (simp add: path_append)
qed

lemma path_remove:
  assumes "linked f h (xs @ b # ys) z" "distinct (h # xs @ b # ys)"
  shows "linked (f(last (h # xs) := f b)) h (xs @ ys) z"
proof -
  have p: "linked f h xs b" "linked f b ys z" using assms(1) by (auto simp: path_append)
  have l: "linked (f(last (h # xs) := f b)) h xs (f b)" using path_redirect [OF p(1)] assms(2) by auto
  show ?thesis
  proof (cases ys)
    case Nil
    then show ?thesis using l p(2) by simp
  next
    case (Cons y ys')
    have "last (h # xs) \<in> set (h # xs)" by (rule last_in_set) simp
    then have "last (h # xs) \<notin> set ys" using assms(2) by auto
    then show ?thesis using l p(2) Cons by (auto simp: path_append path_upd)
  qed
qed

text \<open>The surgery on the two pointer maps.\<close>

lemma nextp_upd [simp]:
  "nextp (B(i := (B i)\<lparr>b_next := v\<rparr>)) = (nextp B)(i := v)"
  "nextp (B(i := (B i)\<lparr>b_prev := v\<rparr>)) = nextp B"
  by (auto simp: nextp_def)

lemma prevp_upd [simp]:
  "prevp (B(i := (B i)\<lparr>b_prev := v\<rparr>)) = (prevp B)(i := v)"
  "prevp (B(i := (B i)\<lparr>b_next := v\<rparr>)) = prevp B"
  by (auto simp: prevp_def)

lemma nextp_insert: "b \<noteq> HEAD \<Longrightarrow> nextp (ring_insert b B) = (nextp B)(b := nextp B HEAD, HEAD := b)"
  by (simp add: ring_insert_def Let_def) (simp add: nextp_def fun_eq_iff)

lemma prevp_insert: "b \<noteq> HEAD \<Longrightarrow> prevp (ring_insert b B) = (prevp B)(b := HEAD, nextp B HEAD := b)"
  by (simp add: ring_insert_def Let_def) (auto simp: prevp_def nextp_def fun_eq_iff)

lemma nextp_unlink: "b_next (B b) \<noteq> b \<Longrightarrow> nextp (ring_unlink b B) = (nextp B)(prevp B b := nextp B b)"
  by (simp add: ring_unlink_def Let_def) (auto simp: nextp_def prevp_def fun_eq_iff)

lemma prevp_unlink: "prevp (ring_unlink b B) = (prevp B)(nextp B b := prevp B b)"
  by (simp add: ring_unlink_def Let_def) (auto simp: nextp_def prevp_def fun_eq_iff)

lemma ring_nextp_HEAD: "ring B xs \<Longrightarrow> nextp B HEAD = last (HEAD # rev xs)"
  by (cases xs) (auto simp: ring_def)

lemma ring_insert_ring:
  assumes "ring B xs" "b \<noteq> HEAD" "b \<notin> set xs"
  shows "ring (ring_insert b B) (b # xs)"
proof -
  have "linked (nextp (ring_insert b B)) HEAD (b # xs) HEAD"
    using assms path_prepend [of "nextp B" HEAD xs HEAD b] by (auto simp: ring_def nextp_insert)
  moreover have "linked (prevp (ring_insert b B)) HEAD (rev (b # xs)) HEAD"
    using assms path_snoc [of "prevp B" HEAD "rev xs" HEAD b]
    by (simp add: ring_nextp_HEAD prevp_insert) (auto simp: ring_def)
  ultimately show ?thesis using assms by (auto simp: ring_def)
qed

lemma ring_unlink_ring:
  assumes r: "ring B (xs @ b # ys)"
  shows "ring (ring_unlink b B) (xs @ ys)"
proof -
  have d: "distinct (HEAD # xs @ b # ys)" and n: "linked (nextp B) HEAD (xs @ b # ys) HEAD"
    and p: "linked (prevp B) HEAD (rev ys @ b # rev xs) HEAD"
    using r by (auto simp: ring_def)
  have pb: "prevp B b = last (HEAD # xs)"
    using p by (cases xs rule: rev_cases) (auto simp: path_append)
  have nb: "nextp B b = last (HEAD # rev ys)"
    using n by (cases ys) (auto simp: path_append)
  have "b_next (B b) \<noteq> b"
    using nb d last_in_set [of "HEAD # rev ys"] by (auto simp: nextp_def)
  then have "linked (nextp (ring_unlink b B)) HEAD (xs @ ys) HEAD"
    using path_remove [OF n d] pb by (simp add: nextp_unlink)
  moreover have "linked (prevp (ring_unlink b B)) HEAD (rev (xs @ ys)) HEAD"
    using path_remove [OF p] d nb by (auto simp: prevp_unlink Int_commute)
  ultimately show ?thesis using d by (simp add: ring_def)
qed

section \<open>Walks along the list\<close>

lemma ring_scan_path:
  assumes "linked f a xs HEAD" "HEAD \<notin> set xs" "length xs < fuel" "\<And>i. step (B i) = f i"
  shows "ring_scan fuel step p B (f a) = Inr (find (\<lambda>i. p (B i)) xs)"
  using assms
proof (induction xs arbitrary: a fuel)
  case Nil
  then show ?case by (cases fuel) auto
next
  case (Cons x xs)
  then obtain k where "fuel = Suc k" by (cases fuel) auto
  with Cons show ?case by auto
qed

text \<open>All NBUF buffers are on the list, each once.\<close>

definition order_ok :: "(nat \<Rightarrow> buf) \<Rightarrow> nat list \<Rightarrow> bool" where
  "order_ok B xs = (ring B xs \<and> set xs = {0..<NBUF})"

lemma order_ok_length: "order_ok B xs \<Longrightarrow> length xs = NBUF"
  using distinct_card [of xs] by (auto simp: order_ok_def ring_def)

lemma scan_next:
  assumes "order_ok B xs"
  shows "ring_scan RING_FUEL b_next p B (b_next (B HEAD)) = Inr (find (\<lambda>i. p (B i)) xs)"
proof -
  have "linked (nextp B) HEAD xs HEAD" "HEAD \<notin> set xs" "length xs < RING_FUEL"
    using assms order_ok_length [OF assms] by (auto simp: order_ok_def ring_def RING_FUEL_def)
  from ring_scan_path [OF this, of b_next B p] show ?thesis by (simp add: nextp_def)
qed

lemma scan_prev:
  assumes "order_ok B xs"
  shows "ring_scan RING_FUEL b_prev p B (b_prev (B HEAD)) = Inr (find (\<lambda>i. p (B i)) (rev xs))"
proof -
  have "linked (prevp B) HEAD (rev xs) HEAD" "HEAD \<notin> set (rev xs)" "length (rev xs) < RING_FUEL"
    using assms order_ok_length [OF assms] by (auto simp: order_ok_def ring_def RING_FUEL_def)
  from ring_scan_path [OF this, of b_prev B p] show ?thesis by (simp add: prevp_def)
qed

text \<open>The list does not depend on anything but the pointers.\<close>

lemma order_ok_cong: "nextp B = nextp C \<Longrightarrow> prevp B = prevp C \<Longrightarrow> order_ok B xs = order_ok C xs"
  by (simp add: order_ok_def ring_def)

lemma order_ok_upd:
  assumes "b_next x = b_next (B b)" "b_prev x = b_prev (B b)"
  shows "order_ok (B(b := x)) xs = order_ok B xs"
  by (rule order_ok_cong) (auto simp: nextp_def prevp_def assms)

section \<open>The cache invariant\<close>

text \<open>
  One buffer per block. The statically zeroed buffers all carry device 0, so the claim is
  about the devices in use, which are not 0.
\<close>

definition uniq :: "(nat \<Rightarrow> buf) \<Rightarrow> bool" where
  "uniq B = (\<forall>i < NBUF. \<forall>j < NBUF. b_dev (B i) \<noteq> 0 \<and> is_key (b_dev (B i)) (b_blockno (B i)) (B j) \<longrightarrow> i = j)"

definition cache_ok :: "'z bio_scheme \<Rightarrow> bool" where
  "cache_ok s = ((\<exists>xs. order_ok (bufs s) xs) \<and> uniq (bufs s))"

definition hits :: "'z bio_scheme \<Rightarrow> u32 \<Rightarrow> u32 \<Rightarrow> nat \<Rightarrow> bool" where
  "hits s dev blockno b = (b < NBUF \<and> is_key dev blockno (bufs s b))"

definition free_buf :: "'z bio_scheme \<Rightarrow> bool" where
  "free_buf s = (\<exists>b < NBUF. is_free (bufs s b))"

text \<open>What the cache answers for a block: its buffer where one is valid, else the disk.\<close>

definition cview :: "'z bio_scheme \<Rightarrow> u32 \<Rightarrow> u32 \<Rightarrow> bytes" where
  "cview s dev blockno =
     (case scan (\<lambda>b. is_key dev blockno (bufs s b) \<and> b_valid (bufs s b) \<noteq> 0) 0 NBUF of
        Some b \<Rightarrow> b_data (bufs s b)
      | None \<Rightarrow> disk s (unat blockno))"

lemma hits_unique: "cache_ok s \<Longrightarrow> dev \<noteq> 0 \<Longrightarrow> hits s dev n b \<Longrightarrow> hits s dev n c \<Longrightarrow> b = c"
  unfolding cache_ok_def uniq_def hits_def by (metis is_key_def)

lemma cview_hit:
  assumes "cache_ok s" "dev \<noteq> 0" "hits s dev n b"
  shows "cview s dev n = (if b_valid (bufs s b) \<noteq> 0 then b_data (bufs s b) else disk s (unat n))"
proof -
  let ?p = "\<lambda>b. is_key dev n (bufs s b) \<and> b_valid (bufs s b) \<noteq> 0"
  have u: "\<And>c. c < NBUF \<Longrightarrow> is_key dev n (bufs s c) \<Longrightarrow> c = b"
    using hits_unique [OF assms(1,2)] assms(3) by (auto simp: hits_def)
  show ?thesis
  proof (cases "b_valid (bufs s b) \<noteq> 0")
    case True
    then have "scan ?p 0 NBUF = Some b"
      using u assms(3) by (intro scan_unique) (auto simp: hits_def)
    then show ?thesis using True by (simp add: cview_def)
  next
    case False
    then have "scan ?p 0 NBUF = None"
      using u by (auto simp: scan_None)
    then show ?thesis using False by (simp add: cview_def)
  qed
qed

lemma cview_miss: "\<forall>b. \<not> hits s dev n b \<Longrightarrow> cview s dev n = disk s (unat n)"
proof -
  assume "\<forall>b. \<not> hits s dev n b"
  then have "scan (\<lambda>b. is_key dev n (bufs s b) \<and> b_valid (bufs s b) \<noteq> 0) 0 NBUF = None"
    by (auto simp: scan_None hits_def)
  then show ?thesis by (simp add: cview_def)
qed

section \<open>What each operation does\<close>

lemma find_rev_free: "find p (rev xs) = Some b \<Longrightarrow> b \<in> set xs \<and> p b"
  using find_SomeD [of p "rev xs" b] by simp

lemma find_hit:
  assumes "order_ok (bufs s) xs" and "find (\<lambda>i. is_key dev n (bufs s i)) xs = Some b"
  shows "hits s dev n b"
  using find_SomeD [OF assms(2)] assms(1) by (simp add: hits_def order_ok_def)

lemma find_no_hit:
  assumes "order_ok (bufs s) xs" and "find (\<lambda>i. is_key dev n (bufs s i)) xs = None"
  shows "\<not> hits s dev n b"
  using assms by (auto simp: hits_def order_ok_def find_None_iff)

lemma is_key_sym: "is_key (b_dev x) (b_blockno x) y = is_key (b_dev y) (b_blockno y) x"
  by (auto simp: is_key_def)

lemma uniq_upd:
  assumes u: "uniq B" and x: "\<And>j. j < NBUF \<Longrightarrow> j \<noteq> b \<Longrightarrow> \<not> is_key (b_dev x) (b_blockno x) (B j)"
  shows "uniq (B(b := x))"
  unfolding uniq_def
proof (intro allI impI, elim conjE)
  fix i j assume i: "i < NBUF" and j: "j < NBUF" and nz: "b_dev ((B(b := x)) i) \<noteq> 0"
    and k: "is_key (b_dev ((B(b := x)) i)) (b_blockno ((B(b := x)) i)) ((B(b := x)) j)"
  consider "i = b" "j = b" | "i = b" "j \<noteq> b" | "i \<noteq> b" "j = b" | "i \<noteq> b" "j \<noteq> b" by blast
  then show "i = j"
  proof cases
    case 2
    then show ?thesis using k x [OF j] by simp
  next
    case 3
    then show ?thesis using k x [OF i] is_key_sym [of x "B i"] by simp
  next
    case 4
    then show ?thesis using k nz u i j unfolding uniq_def by (metis fun_upd_other)
  qed simp
qed

lemma uniq_same:
  assumes "uniq B" and "b_dev x = b_dev (B b)" "b_blockno x = b_blockno (B b)"
  shows "uniq (B(b := x))"
proof -
  have "b_dev ((B(b := x)) i) = b_dev (B i)" "b_blockno ((B(b := x)) i) = b_blockno (B i)" for i
    using assms by simp_all
  moreover from this have "is_key d n ((B(b := x)) i) = is_key d n (B i)" for d n i
    unfolding is_key_def by (simp only:)
  ultimately show ?thesis using assms(1) unfolding uniq_def by (simp only:)
qed

lemma bget_hit:
  assumes ok: "cache_ok s" and d: "dev \<noteq> 0" and h: "hits s dev n b"
  shows "bget dev n s = Inr (b, s\<lparr>bufs := (bufs s)(b := (bufs s b)\<lparr>b_refcnt := b_refcnt (bufs s b) + 1\<rparr>)\<rparr>)"
proof -
  obtain xs where xs: "order_ok (bufs s) xs" using ok by (auto simp: cache_ok_def)
  obtain c where "find (\<lambda>i. is_key dev n (bufs s i)) xs = Some c"
    using find_no_hit [OF xs] h by (cases "find (\<lambda>i. is_key dev n (bufs s i)) xs") auto
  moreover from this have "c = b" using hits_unique [OF ok d _ h] find_hit [OF xs] by simp
  ultimately show ?thesis by (simp add: bget_def Let_def scan_next [OF xs])
qed

text \<open>On a miss the victim is the least recently used buffer that nobody holds.\<close>

lemma bget_miss:
  assumes xs: "order_ok (bufs s) xs" and m: "\<And>b. \<not> hits s dev n b"
  shows "bget dev n s = (case find (\<lambda>i. is_free (bufs s i)) (rev xs) of
     Some b \<Rightarrow> Inr (b, s\<lparr>bufs := (bufs s)(b :=
       (bufs s b)\<lparr>b_dev := dev, b_blockno := n, b_valid := 0, b_refcnt := 1\<rparr>)\<rparr>)
   | None \<Rightarrow> Inl BgetNoBuffers)"
proof -
  have "find (\<lambda>i. is_key dev n (bufs s i)) xs = None"
    using find_hit [OF xs] m by (cases "find (\<lambda>i. is_key dev n (bufs s i)) xs") auto
  then show ?thesis by (simp add: bget_def Let_def scan_next [OF xs] scan_prev [OF xs] split: option.split)
qed

text \<open>
  The relation between the states before and after a successful \<open>bread\<close>: only the
  returned buffer changes, it holds the block, and nothing else does.
\<close>

definition bread_post :: "u32 \<Rightarrow> u32 \<Rightarrow> 'z bio_scheme \<Rightarrow> nat \<Rightarrow> 'z bio_scheme \<Rightarrow> bool" where
  "bread_post dev n s b s' =
     (b < NBUF \<and> s' = s\<lparr>bufs := (bufs s)(b := bufs s' b)\<rparr> \<and>
      is_key dev n (bufs s' b) \<and> b_valid (bufs s' b) \<noteq> 0 \<and> b_data (bufs s' b) = cview s dev n \<and>
      b_next (bufs s' b) = b_next (bufs s b) \<and> b_prev (bufs s' b) = b_prev (bufs s b) \<and>
      (if hits s dev n b then b_refcnt (bufs s' b) = b_refcnt (bufs s b) + 1
       else (\<forall>c. \<not> hits s dev n c) \<and> is_free (bufs s b) \<and> b_refcnt (bufs s' b) = 1))"

lemma bread_hit_total:
  assumes ok: "cache_ok s" and d: "dev \<noteq> 0" and h: "hits s dev n b" and n: "unat n < FSSIZE"
  shows "\<exists>s'. bread dev n s = Inr (b, s') \<and> bread_post dev n s b s'"
  using h n cview_hit [OF ok d h]
  by (auto simp: bread_def bget_hit [OF ok d h] disk_rw_def bread_post_def hits_def is_key_def)

lemma bread_miss_total:
  assumes ok: "cache_ok s" and m: "\<And>b. \<not> hits s dev n b" and f: "free_buf s" and n: "unat n < FSSIZE"
  shows "\<exists>b s'. bread dev n s = Inr (b, s') \<and> bread_post dev n s b s'"
proof -
  obtain xs where xs: "order_ok (bufs s) xs" using ok by (auto simp: cache_ok_def)
  obtain b where b: "find (\<lambda>i. is_free (bufs s i)) (rev xs) = Some b"
    using f xs by (cases "find (\<lambda>i. is_free (bufs s i)) (rev xs)")
      (auto simp: find_None_iff free_buf_def order_ok_def)
  have "b < NBUF" "is_free (bufs s b)" using find_rev_free [OF b] xs by (auto simp: order_ok_def)
  then show ?thesis using n m cview_miss [of s dev n]
    by (auto simp: bread_def bget_miss [OF xs m] b disk_rw_def bread_post_def is_key_def)
qed

theorem bread_total:
  assumes "cache_ok s" "dev \<noteq> 0" "unat n < FSSIZE" "(\<exists>b. hits s dev n b) \<or> free_buf s"
  shows "\<exists>b s'. bread dev n s = Inr (b, s') \<and> bread_post dev n s b s'"
  using assms bread_hit_total bread_miss_total by blast

text \<open>\<open>bread\<close> panics exactly when every buffer is held and none has the block.\<close>

lemma bread_no_buffers:
  assumes "cache_ok s" "\<forall>b. \<not> hits s dev n b" "\<not> free_buf s"
  shows "bread dev n s = Inl BgetNoBuffers"
proof -
  obtain xs where xs: "order_ok (bufs s) xs" using assms by (auto simp: cache_ok_def)
  have "find (\<lambda>i. is_free (bufs s i)) (rev xs) = None"
    using assms(3) xs by (auto simp: find_None_iff free_buf_def order_ok_def)
  then show ?thesis using assms(2) by (simp add: bread_def bget_miss [OF xs])
qed

lemma bread_post_result:
  assumes ok: "cache_ok s" and d: "dev \<noteq> 0" and r: "bread dev n s = Inr (b, s')"
  shows "bread_post dev n s b s'"
proof (cases "(\<exists>b. hits s dev n b) \<or> free_buf s")
  case True
  show ?thesis
  proof (cases "unat n < FSSIZE")
    case True
    from bread_total [OF ok d this \<open>(\<exists>b. hits s dev n b) \<or> free_buf s\<close>] show ?thesis using r by auto
  next
    case False
    obtain c t where g: "bget dev n s = Inr (c, t)" using r by (auto simp: bread_def elim: bndE)
    consider c where "hits s dev n c" | "\<forall>c. \<not> hits s dev n c" by blast
    then show ?thesis
    proof cases
      case 1
      then show ?thesis using r False cview_hit [OF ok d 1]
        by (auto simp: bread_def bget_hit [OF ok d 1] disk_rw_def bread_post_def hits_def is_key_def
            split: if_splits)
    next
      case 2
      obtain xs where xs: "order_ok (bufs s) xs" using ok by (auto simp: cache_ok_def)
      show ?thesis using r False 2
        by (auto simp: bread_def bget_miss [OF xs] disk_rw_def split: option.splits)
    qed
  qed
next
  case False
  then show ?thesis using bread_no_buffers [OF ok] r by auto
qed

section \<open>The invariant is kept\<close>

lemma cache_ok_bread:
  assumes ok: "cache_ok s" and d: "dev \<noteq> 0" and r: "bread dev n s = Inr (b, s')"
  shows "cache_ok s'"
proof -
  have p: "bread_post dev n s b s'" by (rule bread_post_result [OF assms])
  obtain xs where xs: "order_ok (bufs s) xs" and u: "uniq (bufs s)" using ok by (auto simp: cache_ok_def)
  have k: "b_dev (bufs s' b) = dev" "b_blockno (bufs s' b) = n"
    using p by (auto simp: bread_post_def is_key_def)
  have B: "bufs s' = (bufs s)(b := bufs s' b)"
    using p unfolding bread_post_def by (metis bio.ext_inject bio.surjective bio.update_convs(1))
  have "\<not> is_key dev n (bufs s j)" if "j < NBUF" "j \<noteq> b" for j
    using p that hits_unique [OF ok d, of n j b] by (auto simp: bread_post_def hits_def split: if_splits)
  then have "uniq ((bufs s)(b := bufs s' b))" using u k by (intro uniq_upd) auto
  moreover have "order_ok ((bufs s)(b := bufs s' b)) xs"
    using xs p by (subst order_ok_upd) (auto simp: bread_post_def)
  ultimately show ?thesis using B unfolding cache_ok_def by metis
qed

text \<open>Releasing: the order of the list after \<open>brelse\<close>, as a function of the order before.\<close>

definition released :: "nat \<Rightarrow> 'z bio_scheme \<Rightarrow> bool" where
  "released b s = (b_refcnt (bufs s b) = 1)"

definition mru :: "nat \<Rightarrow> nat list \<Rightarrow> nat list" where
  "mru b xs = b # remove1 b xs"

lemma ring_surgery_fields:
  "b_dev (ring_insert b B i) = b_dev (B i)" "b_blockno (ring_insert b B i) = b_blockno (B i)"
  "b_valid (ring_insert b B i) = b_valid (B i)" "b_refcnt (ring_insert b B i) = b_refcnt (B i)"
  "b_data (ring_insert b B i) = b_data (B i)"
  "b_dev (ring_unlink b B i) = b_dev (B i)" "b_blockno (ring_unlink b B i) = b_blockno (B i)"
  "b_valid (ring_unlink b B i) = b_valid (B i)" "b_refcnt (ring_unlink b B i) = b_refcnt (B i)"
  "b_data (ring_unlink b B i) = b_data (B i)"
  by (simp_all add: ring_insert_def ring_unlink_def Let_def)

lemma order_mru:
  assumes "order_ok B xs" "b < NBUF"
  shows "order_ok (ring_insert b (ring_unlink b B)) (mru b xs)"
proof -
  have "b \<in> set xs" using assms by (simp add: order_ok_def)
  then obtain ys zs where xs: "xs = ys @ b # zs" "b \<notin> set ys" by (meson split_list_first)
  have r: "ring B (ys @ b # zs)" using assms xs by (simp add: order_ok_def)
  then have nb: "b \<notin> set (ys @ zs)" "b \<noteq> HEAD" by (auto simp: ring_def)
  have "remove1 b xs = ys @ zs" using xs by (simp add: remove1_append)
  then have "ring (ring_insert b (ring_unlink b B)) (mru b xs)"
    using ring_insert_ring [OF ring_unlink_ring [OF r]] nb by (simp add: mru_def)
  moreover have "set (mru b xs) = set xs" using xs \<open>remove1 b xs = ys @ zs\<close> by (auto simp: mru_def)
  ultimately show ?thesis using assms by (simp add: order_ok_def)
qed

theorem brelse_order:
  assumes "order_ok (bufs s) xs" "b < NBUF"
  shows "order_ok (bufs (brelse b s)) (if released b s then mru b xs else xs)"
proof -
  let ?B = "(bufs s)(b := (bufs s b)\<lparr>b_refcnt := b_refcnt (bufs s b) - 1\<rparr>)"
  have B: "order_ok ?B xs" using assms by (simp add: order_ok_upd)
  have "b_refcnt (bufs s b) - 1 = 0 \<longleftrightarrow> released b s" by (simp add: released_def)
  then show ?thesis using B order_mru [OF B assms(2)] by (simp add: brelse_def Let_def)
qed

lemma brelse_fields [frame_simps]:
  "b_dev (bufs (brelse b s) i) = b_dev (bufs s i)" "b_blockno (bufs (brelse b s) i) = b_blockno (bufs s i)"
  "b_valid (bufs (brelse b s) i) = b_valid (bufs s i)" "b_data (bufs (brelse b s) i) = b_data (bufs s i)"
  "b_refcnt (bufs (brelse b s) i) = (if i = b then b_refcnt (bufs s b) - 1 else b_refcnt (bufs s i))"
  "disk (brelse b s) = disk s"
  by (simp_all add: brelse_def Let_def ring_surgery_fields)

lemma uniq_cong:
  assumes "\<And>i. b_dev (B i) = b_dev (C i)" "\<And>i. b_blockno (B i) = b_blockno (C i)"
  shows "uniq B = uniq C"
  by (simp add: uniq_def is_key_def assms)

lemma cache_ok_brelse: "cache_ok s \<Longrightarrow> b < NBUF \<Longrightarrow> cache_ok (brelse b s)"
  using brelse_order uniq_cong [of "bufs (brelse b s)" "bufs s"]
  by (auto simp: cache_ok_def frame_simps)

lemma is_key_brelse [frame_simps]: "is_key d n (bufs (brelse b s) i) = is_key d n (bufs s i)"
  by (simp add: is_key_def frame_simps)

lemma hits_brelse [frame_simps]: "hits (brelse b s) d n i = hits s d n i"
  by (simp add: hits_def frame_simps)

lemma cview_brelse [frame_simps]: "cview (brelse b s) = cview s"
  by (simp add: cview_def fun_eq_iff frame_simps cong: option.case_cong)

lemma bdata_fields [frame_simps]:
  "b_dev (bufs (bdata b f s) i) = b_dev (bufs s i)" "b_blockno (bufs (bdata b f s) i) = b_blockno (bufs s i)"
  "b_valid (bufs (bdata b f s) i) = b_valid (bufs s i)" "b_refcnt (bufs (bdata b f s) i) = b_refcnt (bufs s i)"
  "b_data (bufs (bdata b f s) i) = (if i = b then f (b_data (bufs s b)) else b_data (bufs s i))"
  "disk (bdata b f s) = disk s"
  by (simp_all add: bdata_def)

lemma cache_ok_bdata: "cache_ok s \<Longrightarrow> cache_ok (bdata b f s)"
  using uniq_cong [of "bufs (bdata b f s)" "bufs s"] order_ok_upd
  by (auto simp: cache_ok_def bdata_def)

lemma hits_bdata [frame_simps]: "hits (bdata b f s) d n i = hits s d n i"
  by (simp add: hits_def is_key_def frame_simps)

section \<open>binit\<close>

lemma binit_loop:
  assumes "ring B []" "n \<le> NBUF"
  shows "ring (fold ring_insert [0..<n] B) (rev [0..<n])"
  using assms(2)
proof (induction n)
  case 0
  then show ?case using assms(1) by simp
next
  case (Suc n)
  then have "ring (fold ring_insert [0..<n] B) (rev [0..<n])" by simp
  then show ?case using Suc.prems ring_insert_ring by (auto simp: HEAD_def)
qed

text \<open>After \<open>binit\<close> the list holds every buffer, the last one of the array first.\<close>

theorem binit_order: "order_ok (bufs (binit s)) (rev [0..<NBUF])"
proof -
  let ?B = "(bufs s)(HEAD := (bufs s HEAD)\<lparr>b_prev := HEAD, b_next := HEAD\<rparr>)"
  have "ring ?B []" by (simp add: ring_def nextp_def prevp_def)
  then show ?thesis using binit_loop [of ?B NBUF] by (auto simp: order_ok_def binit_def Let_def)
qed

lemma fold_ring_insert_fields:
  "b_dev (fold ring_insert xs B i) = b_dev (B i)" "b_refcnt (fold ring_insert xs B i) = b_refcnt (B i)"
  by (induction xs arbitrary: B) (auto simp: ring_surgery_fields)

lemma binit_fields [frame_simps]:
  "b_dev (bufs (binit s) i) = b_dev (bufs s i)" "b_refcnt (bufs (binit s) i) = b_refcnt (bufs s i)"
  "disk (binit s) = disk s"
  by (simp_all add: binit_def Let_def fold_ring_insert_fields)

lemma cache_ok_binit: "(\<And>i. b_dev (bufs s i) = 0) \<Longrightarrow> cache_ok (binit s)"
  using binit_order by (auto simp: cache_ok_def uniq_def frame_simps)

section \<open>What the cache leaves alone\<close>

text \<open>\<open>bread\<close>, \<open>brelse\<close> and a client's update of a buffer change the buffers and nothing else.\<close>

definition bufs_step :: "'z bio_scheme \<Rightarrow> 'z bio_scheme \<Rightarrow> bool" where
  "bufs_step s t = (\<exists>B. t = s\<lparr>bufs := B\<rparr>)"

lemma bufs_step_refl [simp]: "bufs_step s s"
  unfolding bufs_step_def by (rule exI [of _ "bufs s"]) simp

lemma bufs_step_trans: "bufs_step s t \<Longrightarrow> bufs_step t u \<Longrightarrow> bufs_step s u"
  by (auto simp: bufs_step_def)

lemma bufs_step_upd [simp]: "bufs_step s (s\<lparr>bufs := B\<rparr>)"
  by (auto simp: bufs_step_def)

text \<open>The rules chain backwards along the calls of an operation to its start state.\<close>

lemma bufs_step_bread [frame_intros]: "bread dev n u = Inr (b, t) \<Longrightarrow> bufs_step s u \<Longrightarrow> bufs_step s t"
  by (rule bufs_step_trans, assumption)
    (auto simp: bread_def bget_def disk_rw_def Let_def elim!: bndE split: option.splits if_splits)

lemma bufs_step_brelse [frame_intros]: "bufs_step s u \<Longrightarrow> bufs_step s (brelse b u)"
  by (rule bufs_step_trans, assumption) (simp add: brelse_def Let_def)

lemma bufs_step_bdata [frame_intros]: "bufs_step s u \<Longrightarrow> bufs_step s (bdata b f u)"
  by (rule bufs_step_trans, assumption) (simp add: bdata_def)

lemma bufs_step_disk: "bufs_step s t \<Longrightarrow> disk t = disk s"
  by (auto simp: bufs_step_def)

end
