(* ===== verification/Image.thy ===== *)
theory Image
  imports Bio
begin

text \<open>
  The state of the file system above the buffer cache, and the part of xv6fs/src/fs.c that
  builds the disk image and reads the super block: \<open>create_image\<close> and what it calls, \<open>readsb\<close>
  and \<open>fsinit\<close>. This part writes sectors directly, below the cache.
\<close>

section \<open>State\<close>

text \<open>
  \<open>sb\<close>, \<open>freeinode\<close>, \<open>freeblock\<close> and \<open>itable\<close> are the globals of fs.c; \<open>cwd\<close> is
  \<open>curr()->cwd\<close>, an index of \<open>itable\<close>. A pointer to an entry of a static table is its index.
\<close>

record fsys = bio +
  fs_sb :: superblock
  freeinode :: u32
  freeblock :: u32
  itable :: "nat \<Rightarrow> inode"
  cwd :: nat

definition NINODES :: nat where "NINODES = 200"
definition nbitmap :: nat where "nbitmap = FSSIZE div (BSIZE * 8) + 1"
definition ninodeblocks :: nat where "ninodeblocks = NINODES div IPB + 1"
definition nlog :: nat where "nlog = LOGSIZE"

lemma bufs_step_fsys:
  assumes "bufs_step s t"
  shows "fs_sb t = fs_sb s" "itable t = itable s" "cwd t = cwd s"
    "freeinode t = freeinode s" "freeblock t = freeblock s"
  using assms by (auto simp: bufs_step_def)

section \<open>Byte order\<close>

text \<open>
  \<open>xshort\<close> and \<open>xint\<close> store the bytes of \<open>x\<close> from the least significant one up and read
  the object back as the machine does.
\<close>

definition xshort :: "u16 \<Rightarrow> u16" where
  "xshort x = (let a = (\<lambda>_. 0)(0 := ucast x);
                   a = a(1 := ucast (drop_bit 8 x))
               in get16 a 0)"

definition xint :: "u32 \<Rightarrow> u32" where
  "xint x = (let a = (\<lambda>_. 0)(0 := ucast x);
                 a = a(1 := ucast (drop_bit 8 x));
                 a = a(2 := ucast (drop_bit 16 x));
                 a = a(3 := ucast (drop_bit 24 x))
             in get32 a 0)"

lemma xshort_id [simp]: "xshort x = x"
  using get16_put16 [of "\<lambda>_. 0" 0 x] by (simp add: xshort_def put16_def Let_def)

lemma xint_id [simp]: "xint x = x"
  using get32_put32 [of "\<lambda>_. 0" 0 x] by (simp add: xint_def put32_def Let_def eval_nat_numeral)

section \<open>Sectors and inodes on the image\<close>

definition wsect :: "u32 \<Rightarrow> bytes \<Rightarrow> 'z fsys_scheme \<Rightarrow> 'z fsys_scheme res" where
  "wsect sec buf s = bnd (disk_rw buf sec True s) (\<lambda>(_, s). Inr s)"

definition rsect :: "u32 \<Rightarrow> 'z fsys_scheme \<Rightarrow> (bytes \<times> 'z fsys_scheme) res" where
  "rsect sec s = disk_rw (\<lambda>_. 0) sec False s"

definition winode :: "u32 \<Rightarrow> dinode \<Rightarrow> 'z fsys_scheme \<Rightarrow> 'z fsys_scheme res" where
  "winode inum ip s =
     (let bn = IBLOCK inum (fs_sb s) in
      bnd (rsect bn s) (\<lambda>(buf, s).
      wsect bn (put_dinode buf (unat inum mod IPB) ip) s))"

definition rinode :: "u32 \<Rightarrow> 'z fsys_scheme \<Rightarrow> (dinode \<times> 'z fsys_scheme) res" where
  "rinode inum s =
     (let bn = IBLOCK inum (fs_sb s) in
      bnd (rsect bn s) (\<lambda>(buf, s).
      Inr (get_dinode buf (unat inum mod IPB), s)))"

definition zero_dinode :: dinode where
  "zero_dinode = \<lparr>di_type = 0, di_major = 0, di_minor = 0, di_nlink = 0, di_size = 0,
     di_addrs = replicate NADDRS 0\<rparr>"

definition init_ialloc :: "u16 \<Rightarrow> 'z fsys_scheme \<Rightarrow> (u32 \<times> 'z fsys_scheme) res" where
  "init_ialloc type s =
     (let inum = freeinode s;
          s = s\<lparr>freeinode := freeinode s + 1\<rparr>;
          din = zero_dinode\<lparr>di_type := xshort type, di_nlink := xshort 1, di_size := xint 0\<rparr> in
      bnd (winode inum din s) (\<lambda>s. Inr (inum, s)))"

definition init_balloc :: "int \<Rightarrow> 'z fsys_scheme \<Rightarrow> 'z fsys_scheme res" where
  "init_balloc used s =
     bnd (guardE AssertFailed (used < int (BSIZE * 8))) (\<lambda>_.
     wsect (sb_bmapstart (fs_sb s)) (fold (\<lambda>i buf. bit_set buf i) [0..<nat used] (\<lambda>_. 0)) s)"

text \<open>
  The loop of \<open>iappend\<close>: \<open>n\<close> bytes of \<open>xp\<close> from position \<open>p\<close> go to the file at \<open>off\<close>.
  The local array \<open>indirect\<close> has NINDIRECT entries; an index beyond it is a fault (the
  assertion on \<open>fbn\<close> lets larger ones through).
\<close>

function iappend_loop ::
  "nat \<Rightarrow> bytes \<Rightarrow> nat \<Rightarrow> nat \<Rightarrow> dinode \<Rightarrow> 'z fsys_scheme \<Rightarrow> (nat \<times> dinode \<times> 'z fsys_scheme) res" where
  "iappend_loop n xp p off din s =
     (if 0 < n then
        let fbn = off div BSIZE in
        bnd (guardE AssertFailed (fbn < MAXFILE)) (\<lambda>_.
        bnd (if fbn < NDIRECT then
               let (din, s) = (if xint (di_addrs din ! fbn) = 0
                               then (din\<lparr>di_addrs := (di_addrs din)[fbn := xint (freeblock s)]\<rparr>,
                                     s\<lparr>freeblock := freeblock s + 1\<rparr>)
                               else (din, s))
               in Inr (xint (di_addrs din ! fbn), din, s)
             else if NINDIRECT \<le> fbn - NDIRECT then Inl Fault
             else
               let (din, s) = (if xint (di_addrs din ! NDIRECT) = 0
                               then (din\<lparr>di_addrs := (di_addrs din)[NDIRECT := xint (freeblock s)]\<rparr>,
                                     s\<lparr>freeblock := freeblock s + 1\<rparr>)
                               else (din, s)) in
               bnd (rsect (xint (di_addrs din ! NDIRECT)) s) (\<lambda>(ind, s).
               if addr_rd ind (fbn - NDIRECT) = 0 then
                 let ind = addr_wr ind (fbn - NDIRECT) (xint (freeblock s));
                     s = s\<lparr>freeblock := freeblock s + 1\<rparr> in
                 bnd (wsect (xint (di_addrs din ! NDIRECT)) ind s) (\<lambda>s.
                 Inr (xint (addr_rd ind (fbn - NDIRECT)), din, s))
               else Inr (xint (addr_rd ind (fbn - NDIRECT)), din, s)))
        (\<lambda>(x, din, s).
        let n1 = min n ((fbn + 1) * BSIZE - off) in
        bnd (rsect x s) (\<lambda>(buf, s).
        bnd (wsect x (copy buf (off - fbn * BSIZE) xp p n1) s) (\<lambda>s.
        iappend_loop (n - n1) xp (p + n1) (off + n1) din s))))
      else Inr (off, din, s))"
  by pat_completeness auto
termination
proof (relation "measure (\<lambda>(n, xp, p, off, din, s). n)")
  fix n off fbn n1 :: nat
  have "off < (off div BSIZE + 1) * BSIZE"
    using mod_less_divisor [of BSIZE off] div_mult_mod_eq [of off BSIZE] by (simp add: BSIZE_def)
  then show "0 < n \<Longrightarrow> fbn = off div BSIZE \<Longrightarrow> n1 = min n ((fbn + 1) * BSIZE - off) \<Longrightarrow>
    ((n - n1, xp, p + n1, off + n1, din', s'), n, xp, p, off, din, s)
      \<in> measure (\<lambda>(n, xp, p, off, din, s). n)" for xp p din' s' din s
    by auto
qed auto

declare iappend_loop.simps [simp del]

definition iappend :: "u32 \<Rightarrow> bytes \<Rightarrow> nat \<Rightarrow> 'z fsys_scheme \<Rightarrow> 'z fsys_scheme res" where
  "iappend inum xp n s =
     bnd (rinode inum s) (\<lambda>(din, s).
     bnd (iappend_loop n xp 0 (unat (xint (di_size din))) din s) (\<lambda>(off, din, s).
     winode inum (din\<lparr>di_size := xint (of_nat off)\<rparr>) s))"

section \<open>The image\<close>

text \<open>The bytes of a \<open>struct dirent\<close> with the given number and \<open>strcpy\<close>-ed name.\<close>

definition dirent_bytes :: "u16 \<Rightarrow> u8 list \<Rightarrow> bytes" where
  "dirent_bytes inum name =
     put_dirent (\<lambda>_. 0) 0 \<lparr>de_inum = inum, de_name = strncpy name DIRSIZ\<rparr>"

definition DOT :: "u8 list" where "DOT = [46]"
definition DOTDOT :: "u8 list" where "DOTDOT = [46, 46]"

definition image_sb :: "nat \<Rightarrow> superblock" where
  "image_sb nblocks =
     \<lparr>sb_magic = FSMAGIC, sb_size = xint (of_nat FSSIZE), sb_nblocks = xint (of_nat nblocks),
      sb_ninodes = xint (of_nat NINODES), sb_nlog = xint (of_nat nlog), sb_logstart = xint 2,
      sb_inodestart = xint (of_nat (2 + nlog)),
      sb_bmapstart = xint (of_nat (2 + nlog + ninodeblocks))\<rparr>"

definition create_image :: "'z fsys_scheme \<Rightarrow> 'z fsys_scheme res" where
  "create_image s =
     (let nmeta = 2 + nlog + ninodeblocks + nbitmap;
          nblocks = FSSIZE - nmeta;
          s = s\<lparr>fs_sb := image_sb nblocks\<rparr>;
          s = s\<lparr>freeblock := of_nat nmeta\<rparr> in
      bnd (for_upto (\<lambda>i s. bnd (wsect (of_nat i) (\<lambda>_. 0) s) (\<lambda>s. Inr (None :: unit option, s))) 0 FSSIZE s)
        (\<lambda>(_, s).
      bnd (wsect 1 (put_sb (\<lambda>_. 0) (fs_sb s)) s) (\<lambda>s.
      bnd (init_ialloc T_DIR s) (\<lambda>(rootino, s).
      bnd (guardE AssertFailed (rootino = ROOTINO)) (\<lambda>_.
      bnd (iappend rootino (dirent_bytes (xshort (ucast rootino)) DOT) DESIZE s) (\<lambda>s.
      bnd (iappend rootino (dirent_bytes (xshort (ucast rootino)) DOTDOT) DESIZE s) (\<lambda>s.
      bnd (rinode rootino s) (\<lambda>(din, s).
      let off = xint (di_size din);
          off = of_nat ((unat off div BSIZE + 1) * BSIZE) in
      bnd (winode rootino (din\<lparr>di_size := xint off\<rparr>) s) (\<lambda>s.
      init_balloc (sint (freeblock s)) s)))))))))"

definition readsb :: "u32 \<Rightarrow> 'z fsys_scheme \<Rightarrow> 'z fsys_scheme res" where
  "readsb dev s =
     bnd (bread dev 1 s) (\<lambda>(bp, s).
     Inr (brelse bp (s\<lparr>fs_sb := get_sb (b_data (bufs s bp))\<rparr>)))"

definition fsinit :: "u32 \<Rightarrow> 'z fsys_scheme \<Rightarrow> 'z fsys_scheme res" where
  "fsinit dev s =
     bnd (create_image s) (\<lambda>s.
     bnd (readsb dev s) (\<lambda>s.
     if sb_magic (fs_sb s) \<noteq> FSMAGIC then Inl InvalidFs else Inr s))"

section \<open>Facts about the image\<close>

lemma wsect_ok: "unat sec < FSSIZE \<Longrightarrow> wsect sec buf s = Inr (s\<lparr>disk := (disk s)(unat sec := buf)\<rparr>)"
  by (simp add: wsect_def disk_rw_def)

lemma rsect_ok: "unat sec < FSSIZE \<Longrightarrow> rsect sec s = Inr (disk s (unat sec), s)"
  by (simp add: rsect_def disk_rw_def)

lemma winode_ok: "unat (IBLOCK inum (fs_sb s)) < FSSIZE \<Longrightarrow> winode inum ip s =
    Inr (s\<lparr>disk := (disk s)(unat (IBLOCK inum (fs_sb s)) :=
      put_dinode (disk s (unat (IBLOCK inum (fs_sb s)))) (unat inum mod IPB) ip)\<rparr>)"
  by (simp add: winode_def rsect_ok wsect_ok Let_def)

lemma rinode_ok: "unat (IBLOCK inum (fs_sb s)) < FSSIZE \<Longrightarrow> rinode inum s =
    Inr (get_dinode (disk s (unat (IBLOCK inum (fs_sb s)))) (unat inum mod IPB), s)"
  by (simp add: rinode_def rsect_ok Let_def)

text \<open>What \<open>winode\<close> writes \<open>rinode\<close> reads back, on any image whose inode blocks are on the disk.\<close>

lemma rinode_winode:
  assumes "unat (IBLOCK inum (fs_sb s)) < FSSIZE" "dinode_ok d" "winode inum d s = Inr t"
  shows "rinode inum t = Inr (d, t)"
proof -
  have "unat inum mod IPB < IPB" by (simp add: IPB_def BSIZE_def DISIZE_def NADDRS_def NDIRECT_def)
  then show ?thesis using assms dinodes.rd_wr by (auto simp: winode_ok rinode_ok)
qed

lemma zero_loop:
  fixes s :: "'z fsys_scheme"
  assumes "n \<le> FSSIZE"
  shows "for_upto (\<lambda>i s. bnd (wsect (of_nat i) (\<lambda>_. 0) s) (\<lambda>s. Inr (None :: unit option, s))) k n s =
     Inr (None, s\<lparr>disk := (\<lambda>j. if k \<le> j \<and> j < n then (\<lambda>_. 0) else disk s j)\<rparr>)"
    (is "for_upto ?body k n s = _")
  using assms
proof (induction "n - k" arbitrary: k s)
  case 0
  then have "(\<lambda>j. if k \<le> j \<and> j < n then (\<lambda>_. 0) else disk s j) = disk s"
    using 0 by (auto simp: fun_eq_iff)
  then show ?case using 0 by simp
next
  case (Suc m)
  then have k: "k < n" "k < FSSIZE" by auto
  then have u: "unat (of_nat k :: u32) = k" by (intro unat_u32) (simp add: FSSIZE_def)
  let ?s = "s\<lparr>disk := (disk s)(k := (\<lambda>_. 0))\<rparr>"
  have "for_upto ?body k n s = for_upto ?body (Suc k) n ?s"
    using k u by (simp add: for_upto_step wsect_ok)
  also have "\<dots> = Inr (None, ?s\<lparr>disk := (\<lambda>j. if Suc k \<le> j \<and> j < n then (\<lambda>_. 0) else disk ?s j)\<rparr>)"
    using Suc.hyps(1) [of "Suc k" ?s] Suc.hyps(2) Suc.prems by simp
  also have "\<dots> = Inr (None, s\<lparr>disk := (\<lambda>j. if k \<le> j \<and> j < n then (\<lambda>_. 0) else disk s j)\<rparr>)"
    using k by (auto simp: fun_eq_iff intro!: arg_cong [where f = "\<lambda>d. disk_update d s"])
  finally show ?case .
qed

text \<open>Appending one directory entry to a file whose last block is a direct one with room.\<close>

lemma iappend_loop_direct:
  assumes n: "0 < n" "off mod BSIZE + n \<le> BSIZE" and b: "off div BSIZE < NDIRECT"
    and a: "length (di_addrs din) = NADDRS" and x: "di_addrs din ! (off div BSIZE) = x" "x \<noteq> 0" "unat x < FSSIZE"
  shows "iappend_loop n xp p off din s = Inr (off + n, din,
     s\<lparr>disk := (disk s)(unat x := copy (disk s (unat x)) (off mod BSIZE) xp p n)\<rparr>)"
proof -
  have "off div BSIZE * BSIZE + off mod BSIZE = off" by simp
  then have "n \<le> BSIZE + off div BSIZE * BSIZE - off" using n by linarith
  then have e: "min n (BSIZE + off div BSIZE * BSIZE - off) = n" "off - off div BSIZE * BSIZE = off mod BSIZE"
    by (simp_all add: minus_div_mult_eq_mod)
  have m: "off div BSIZE < MAXFILE" using b by (simp add: MAXFILE_def)
  have z: "iappend_loop 0 xp q o' din t = Inr (o', din, t)" for q o' t
    by (simp add: iappend_loop.simps)
  show ?thesis using n b x m
    by (subst iappend_loop.simps) (simp add: Let_def e rsect_ok wsect_ok z)
qed

lemma iappend_loop_alloc:
  assumes n: "0 < n" "off mod BSIZE + n \<le> BSIZE" and b: "off div BSIZE < NDIRECT"
    and a: "length (di_addrs din) = NADDRS" and x: "di_addrs din ! (off div BSIZE) = 0"
    and f: "freeblock s = x" "x \<noteq> 0" "unat x < FSSIZE"
  shows "iappend_loop n xp p off din s =
     iappend_loop n xp p off (din\<lparr>di_addrs := (di_addrs din)[off div BSIZE := x]\<rparr>) (s\<lparr>freeblock := x + 1\<rparr>)"
proof -
  have "off div BSIZE < length (di_addrs din)" using a b by (simp add: NADDRS_def)
  then show ?thesis using n b x f
    by (subst (1 2) iappend_loop.simps) (simp add: Let_def)
qed

lemma get_dirent_copy: "get_dirent (copy b (DESIZE * i) xp 0 DESIZE) i = get_dirent xp 0"
  by (simp add: get_dirent_def get16_def get_list_def copy_def Let_def DESIZE_def DIRSIZ_def)

lemma get_dirent_copy_other:
  assumes "i \<noteq> j"
  shows "get_dirent (copy b (DESIZE * i) xp 0 DESIZE) j = get_dirent b j"
proof (rule get_dirent_local)
  fix k assume "DESIZE * j \<le> k" "k < DESIZE * (j + 1)"
  from dirent_apart [OF assms this] show "copy b (DESIZE * i) xp 0 DESIZE k = b k"
    by (intro copy_out) auto
qed

lemma get_dirent_bytes: "get_dirent (dirent_bytes n name) 0 = \<lparr>de_inum = n, de_name = strncpy name DIRSIZ\<rparr>"
  by (simp add: dirent_bytes_def get_put_dirent dirent_ok_def)

lemma zero_bitmap: "n \<le> BPB \<Longrightarrow> j < BPB \<Longrightarrow> bit_rd (fold (\<lambda>i buf. bit_set buf i) [0..<n] (\<lambda>_. 0)) j = (j < n)"
  using bitmap.rd_fold_wr [where n = n and v = True and j = j and m = "\<lambda>_. 0"] by (simp add: bit_wr_def bit_rd_bit)

text \<open>The blocks of the image that matter after \<open>create_image\<close>.\<close>

definition root_dinode :: dinode where
  "root_dinode = \<lparr>di_type = T_DIR, di_major = 0, di_minor = 0, di_nlink = 1, di_size = 1024,
     di_addrs = 50 # replicate 12 0\<rparr>"

definition fresh_image :: "superblock \<Rightarrow> (nat \<Rightarrow> bytes) \<Rightarrow> bool" where
  "fresh_image sb d =
     (get_sb (d 1) = sb \<and>
      (\<forall>i < IPB. get_dinode (d 32) i = (if i = 1 then root_dinode else zero_dinode)) \<and>
      get_dirent (d 50) 0 = \<lparr>de_inum = 1, de_name = strncpy DOT DIRSIZ\<rparr> \<and>
      get_dirent (d 50) 1 = \<lparr>de_inum = 1, de_name = strncpy DOTDOT DIRSIZ\<rparr> \<and>
      (\<forall>i. 2 \<le> i \<longrightarrow> i < BSIZE div DESIZE \<longrightarrow> de_inum (get_dirent (d 50) i) = 0) \<and>
      (\<forall>i < BPB. bit_rd (d 45) i = (i < 51)) \<and>
      (\<forall>k < FSSIZE. k \<notin> {1, 32, 45, 50} \<longrightarrow> d k = (\<lambda>_. 0)))"

lemmas layout_num = size_defs NINODES_def nbitmap_def ninodeblocks_def nlog_def

lemma nmeta_num: "of_nat (2 + nlog + ninodeblocks + nbitmap) = (50 :: u32)"
  "image_sb (FSSIZE - (2 + nlog + ninodeblocks + nbitmap)) =
   \<lparr>sb_magic = FSMAGIC, sb_size = 32768, sb_nblocks = 32718, sb_ninodes = 200, sb_nlog = 30,
    sb_logstart = 2, sb_inodestart = 32, sb_bmapstart = 45\<rparr>"
  by (simp_all add: image_sb_def layout_num)

lemma iappend_direct:
  fixes s :: "'z fsys_scheme" and inum :: u32
  assumes eqs: "unat (IBLOCK inum (fs_sb s)) = bn" "unat inum mod IPB = j"
      "get_dinode (disk s bn) j = d" "unat (di_size d) = off"
    and bn: "bn < FSSIZE" and n: "0 < n" "off mod BSIZE + n \<le> BSIZE" and b: "off div BSIZE < NDIRECT"
    and x: "di_addrs d ! (off div BSIZE) = x" "x \<noteq> 0" "unat x < FSSIZE" "unat x \<noteq> bn"
  shows "iappend inum xp n s = Inr (s\<lparr>disk := (disk s)
     (unat x := copy (disk s (unat x)) (off mod BSIZE) xp 0 n,
      bn := put_dinode (disk s bn) j (d\<lparr>di_size := of_nat (off + n)\<rparr>))\<rparr>)"
proof -
  have l: "length (di_addrs d) = NADDRS"
    using eqs(3) by (auto simp: get_dinode_def get_addrs_def Let_def)
  have r: "rinode inum s = Inr (d, s)" using bn eqs by (simp add: rinode_ok)
  have w: "iappend_loop n xp 0 off d s = Inr (off + n, d,
     s\<lparr>disk := (disk s)(unat x := copy (disk s (unat x)) (off mod BSIZE) xp 0 n)\<rparr>)"
    by (rule iappend_loop_direct [OF n b l x(1-3)])
  show ?thesis using bn x eqs by (simp add: iappend_def r w winode_ok)
qed

lemma iappend_alloc:
  fixes s :: "'z fsys_scheme" and inum :: u32
  assumes eqs: "unat (IBLOCK inum (fs_sb s)) = bn" "unat inum mod IPB = j"
      "get_dinode (disk s bn) j = d" "unat (di_size d) = off"
    and bn: "bn < FSSIZE" and n: "0 < n" "off mod BSIZE + n \<le> BSIZE" and b: "off div BSIZE < NDIRECT"
    and x: "di_addrs d ! (off div BSIZE) = 0" "freeblock s = x" "x \<noteq> 0" "unat x < FSSIZE" "unat x \<noteq> bn"
  shows "iappend inum xp n s = Inr (s\<lparr>freeblock := x + 1, disk := (disk s)
     (unat x := copy (disk s (unat x)) (off mod BSIZE) xp 0 n,
      bn := put_dinode (disk s bn) j (d\<lparr>di_addrs := (di_addrs d)[off div BSIZE := x],
                                        di_size := of_nat (off + n)\<rparr>))\<rparr>)"
proof -
  let ?d = "d\<lparr>di_addrs := (di_addrs d)[off div BSIZE := x]\<rparr>" and ?s = "s\<lparr>freeblock := x + 1\<rparr>"
  have l: "length (di_addrs d) = NADDRS"
    using eqs(3) by (auto simp: get_dinode_def get_addrs_def Let_def)
  have r: "rinode inum s = Inr (d, s)" using bn eqs by (simp add: rinode_ok)
  have l': "length (di_addrs ?d) = NADDRS" "di_addrs ?d ! (off div BSIZE) = x"
    using l b by (simp_all add: NADDRS_def)
  have w: "iappend_loop n xp 0 off d s = iappend_loop n xp 0 off ?d ?s"
    by (rule iappend_loop_alloc [OF n b l x(1-4)])
  have w': "iappend_loop n xp 0 off ?d ?s = Inr (off + n, ?d,
     ?s\<lparr>disk := (disk ?s)(unat x := copy (disk ?s (unat x)) (off mod BSIZE) xp 0 n)\<rparr>)"
    by (rule iappend_loop_direct [OF n b l' x(3,4)])
  show ?thesis using bn x eqs by (simp add: iappend_def r w w' winode_ok)
qed

lemma get_zero_dinode: "get_dinode (\<lambda>_. 0) i = zero_dinode"
  by (simp add: get_dinode_def zero_dinode_def get_addrs_def get16_def get32_def Let_def
      map_replicate_const)

lemma get_zero_dirent: "de_inum (get_dirent (\<lambda>_. 0) i) = 0"
  by (simp add: get_dirent_def get16_def Let_def)

definition root0 :: dinode where
  "root0 = zero_dinode\<lparr>di_type := T_DIR, di_nlink := 1, di_size := 0\<rparr>"

definition image_sb0 :: superblock where
  "image_sb0 = \<lparr>sb_magic = FSMAGIC, sb_size = 32768, sb_nblocks = 32718, sb_ninodes = 200,
     sb_nlog = 30, sb_logstart = 2, sb_inodestart = 32, sb_bmapstart = 45\<rparr>"

lemma iblock_root: "unat (IBLOCK 1 image_sb0) = 32" "unat (1 :: u32) mod IPB = 1"
  by (simp_all add: IBLOCK_def image_sb0_def layout_num)

text \<open>The steps of \<open>create_image\<close>, one after the other.\<close>

lemma create_image_steps:
  fixes s :: "'z fsys_scheme"
  assumes f: "freeinode s = 1"
  defines "D0 \<equiv> (\<lambda>j. if j < FSSIZE then (\<lambda>_. 0) else disk s j)"
  defines "D1 \<equiv> D0(1 := put_sb (\<lambda>_. 0) image_sb0, 32 := put_dinode (\<lambda>_. 0) 1 root0)"
  defines "D2 \<equiv> D1(50 := copy (\<lambda>_. 0) 0 (dirent_bytes 1 DOT) 0 DESIZE,
     32 := put_dinode (D1 32) 1 (root0\<lparr>di_addrs := 50 # replicate 12 0, di_size := 64\<rparr>))"
  defines "D3 \<equiv> D2(50 := copy (D2 50) 64 (dirent_bytes 1 DOTDOT) 0 DESIZE,
     32 := put_dinode (D2 32) 1 (root0\<lparr>di_addrs := 50 # replicate 12 0, di_size := 128\<rparr>))"
  defines "D4 \<equiv> D3(32 := put_dinode (D3 32) 1 root_dinode,
     45 := fold (\<lambda>i buf. bit_set buf i) [0..<51] (\<lambda>_. 0))"
  shows "create_image s = Inr (s\<lparr>fs_sb := image_sb0, freeblock := 51, freeinode := 2, disk := D4\<rparr>)"
proof -
  let ?s0 = "s\<lparr>fs_sb := image_sb0, freeblock := 50\<rparr>"
  let ?s1 = "s\<lparr>fs_sb := image_sb0, freeblock := 50, freeinode := 2, disk := D1\<rparr>"
  let ?s2 = "s\<lparr>fs_sb := image_sb0, freeblock := 51, freeinode := 2, disk := D2\<rparr>"
  let ?s3 = "s\<lparr>fs_sb := image_sb0, freeblock := 51, freeinode := 2, disk := D3\<rparr>"
  have ipb: "IPB \<noteq> Suc 0" by (simp add: layout_num)
  have rd: "get_dinode (put_dinode m (Suc 0) d) (Suc 0) = d" if "dinode_ok d" for m d
    using that by (rule get_put_dinode)
  have r0: "dinode_ok root0" by (simp add: root0_def zero_dinode_def dinode_ok_def)
  have g1: "get_dinode (D1 32) 1 = root0" by (simp add: D1_def rd r0)
  have g2: "get_dinode (D2 32) 1 = root0\<lparr>di_addrs := 50 # replicate 12 0, di_size := 64\<rparr>"
    by (simp add: D2_def rd dinode_ok_def layout_num)
  have g3: "get_dinode (D3 32) 1 = root0\<lparr>di_addrs := 50 # replicate 12 0, di_size := 128\<rparr>"
    by (simp add: D3_def rd dinode_ok_def layout_num)
  have e: "[0..<Suc 0] = [0]" by simp
  have a: "(di_addrs root0)[0 := 50] = 50 # replicate 12 0"
    by (simp add: root0_def zero_dinode_def layout_num numeral_eq_Suc)
  have i1: "iappend 1 (dirent_bytes 1 DOT) DESIZE ?s1 = Inr ?s2"
    by (subst iappend_alloc [where bn = 32 and j = 1 and d = root0 and off = 0 and x = 50])
      (use g1 a in \<open>simp_all add: iblock_root D2_def layout_num root0_def zero_dinode_def\<close>,
       simp_all add: D1_def D0_def layout_num)
  have i2: "iappend 1 (dirent_bytes 1 DOTDOT) DESIZE ?s2 = Inr ?s3"
    by (subst iappend_direct [where bn = 32 and j = 1 and off = 64 and x = 50
          and d = "root0\<lparr>di_addrs := 50 # replicate 12 0, di_size := 64\<rparr>"])
      (use g2 in \<open>simp_all add: iblock_root D3_def layout_num\<close>)
  have z: "for_upto (\<lambda>i s. bnd (wsect (of_nat i) (\<lambda>_. 0) s) (\<lambda>s. Inr (None :: unit option, s))) 0 FSSIZE ?s0
      = Inr (None, ?s0\<lparr>disk := D0\<rparr>)"
    using zero_loop [of FSSIZE 0 ?s0] by (simp add: D0_def cong: if_cong)
  have w1: "wsect 1 (put_sb (\<lambda>_. 0) image_sb0) (?s0\<lparr>disk := D0\<rparr>)
      = Inr (?s0\<lparr>disk := D0(1 := put_sb (\<lambda>_. 0) image_sb0)\<rparr>)"
    by (simp add: wsect_ok FSSIZE_def)
  have ia: "init_ialloc T_DIR (?s0\<lparr>disk := D0(1 := put_sb (\<lambda>_. 0) image_sb0)\<rparr>) = Inr (1, ?s1)"
    using f iblock_root(2)
    by (simp add: init_ialloc_def Let_def winode_ok iblock_root D1_def D0_def FSSIZE_def root0_def)
  have r3: "rinode 1 ?s3 = Inr (root0\<lparr>di_addrs := 50 # replicate 12 0, di_size := 128\<rparr>, ?s3)"
    using g3 ipb by (simp add: rinode_ok iblock_root FSSIZE_def)
  have rd4: "root0\<lparr>di_addrs := 50 # replicate 12 0, di_size := 1024\<rparr> = root_dinode"
    by (simp add: root0_def zero_dinode_def root_dinode_def)
  have w4: "winode 1 root_dinode ?s3 = Inr (?s3\<lparr>disk := D3(32 := put_dinode (D3 32) 1 root_dinode)\<rparr>)"
    using ipb by (simp add: winode_ok iblock_root FSSIZE_def)
  have ib: "init_balloc 51 (?s3\<lparr>disk := D3(32 := put_dinode (D3 32) 1 root_dinode)\<rparr>)
      = Inr (s\<lparr>fs_sb := image_sb0, freeblock := 51, freeinode := 2, disk := D4\<rparr>)"
  proof -
    have "unat (sb_bmapstart image_sb0) = 45" "45 < FSSIZE" "51 < int (BSIZE * 8)"
      by (simp_all add: image_sb0_def layout_num)
    then show ?thesis by (simp add: init_balloc_def wsect_ok D4_def)
  qed
  show ?thesis
    unfolding create_image_def Let_def nmeta_num image_sb0_def [symmetric]
    using w1 ia w4 ib unfolding One_nat_def
    by (simp add: z i1 i2 r3 ROOTINO_def BSIZE_def rd4)
qed

theorem create_image_fresh:
  assumes "freeinode s = 1"
  shows "\<exists>d. create_image s = Inr (s\<lparr>fs_sb := image_sb0, freeblock := 51, freeinode := 2, disk := d\<rparr>) \<and>
           fresh_image image_sb0 d"
proof -
  have ok: "dinode_ok root_dinode" "dinode_ok root0"
    "dinode_ok (root0\<lparr>di_addrs := 50 # replicate 12 0, di_size := 128\<rparr>)"
    "dinode_ok (root0\<lparr>di_addrs := 50 # replicate 12 0, di_size := 64\<rparr>)"
    by (simp_all add: dinode_ok_def root_dinode_def root0_def zero_dinode_def layout_num)
  have ipb: "Suc 0 < IPB" and b: "51 \<le> BPB" by (simp_all add: layout_num)
  have de: "get_dirent (copy (copy (\<lambda>_. 0) 0 A 0 DESIZE) 64 B 0 DESIZE) i =
      (if i = 0 then get_dirent A 0 else if i = 1 then get_dirent B 0 else get_dirent (\<lambda>_. 0) i)" for A B i
    using get_dirent_copy [of _ 0] get_dirent_copy_other [of 0]
      get_dirent_copy [of _ 1] get_dirent_copy_other [of 1]
    by (simp add: DESIZE_def DIRSIZ_def)
  show ?thesis
    by (rule exI, rule conjI, rule create_image_steps [OF assms])
      (simp add: fresh_image_def get_put_sb ok dinodes.rd_wr_if ipb b get_zero_dinode zero_bitmap
        de get_dirent_bytes get_zero_dirent)
qed

lemma cache_ok_cong: "bufs s = bufs t \<Longrightarrow> cache_ok s = cache_ok t"
  by (simp add: cache_ok_def)

lemma hits_cong: "bufs s = bufs t \<Longrightarrow> hits s = hits t"
  by (simp add: hits_def fun_eq_iff)

lemma free_buf_cong: "bufs s = bufs t \<Longrightarrow> free_buf s = free_buf t"
  by (simp add: free_buf_def)

theorem fsinit_ok:
  assumes f: "freeinode s = 1" and ok: "cache_ok s" "free_buf s" and dev: "dev \<noteq> 0"
    and m: "\<forall>b. \<not> hits s dev 1 b"
  shows "\<exists>t. fsinit dev s = Inr t \<and> fs_sb t = image_sb0 \<and> fresh_image image_sb0 (disk t) \<and> cache_ok t"
proof -
  obtain d where c: "create_image s = Inr (s\<lparr>fs_sb := image_sb0, freeblock := 51, freeinode := 2, disk := d\<rparr>)"
    (is "_ = Inr ?s") and fr: "fresh_image image_sb0 d"
    using create_image_fresh [OF f] by blast
  have b: "bufs ?s = bufs s" by simp
  have ok': "cache_ok ?s" and f': "free_buf ?s" and m': "\<forall>b. \<not> hits ?s dev 1 b"
    using ok m cache_ok_cong [OF b] free_buf_cong [OF b] hits_cong [OF b] by simp_all
  obtain bp t where r: "bread dev 1 ?s = Inr (bp, t)" and p: "bread_post dev 1 ?s bp t"
    using bread_total [OF ok' dev, of 1] f' by (auto simp: FSSIZE_def)
  have v: "cview ?s dev 1 = d 1" using cview_miss [OF m'] by simp
  let ?t = "brelse bp (t\<lparr>fs_sb := get_sb (b_data (bufs t bp))\<rparr>)"
  have sb: "get_sb (b_data (bufs t bp)) = image_sb0"
    using p v fr by (simp add: bread_post_def fresh_image_def)
  have "fs_sb ?t = get_sb (b_data (bufs t bp))" by (simp add: brelse_def Let_def)
  moreover have "disk ?t = d" using bufs_step_disk [OF bufs_step_bread [OF r bufs_step_refl]] by (simp add: frame_simps)
  moreover have "cache_ok ?t"
    using cache_ok_brelse [of "t\<lparr>fs_sb := get_sb (b_data (bufs t bp))\<rparr>" bp] p
      cache_ok_bread [OF ok' dev r] cache_ok_cong [of "t\<lparr>fs_sb := get_sb (b_data (bufs t bp))\<rparr>" t]
    by (simp add: bread_post_def)
  ultimately show ?thesis using c r sb fr
    by (auto simp: fsinit_def readsb_def image_sb0_def)
qed

text \<open>
  C13. \<open>fsinit\<close> on a disk of any content builds the empty file system and reads its super block
  back through the cache: root directory in block 50 with \<open>.\<close> and \<open>..\<close>, inode 1 a directory of one
  block, exactly blocks 0 to 50 in use, every other block zero.
\<close>

theorem image_is_built:
  assumes "freeinode s = 1" "cache_ok s" "free_buf s" "dev \<noteq> 0" "\<forall>b. \<not> hits s dev 1 b"
  shows "\<exists>t. fsinit dev s = Inr t \<and> fs_sb t = image_sb0 \<and> fresh_image image_sb0 (disk t) \<and> cache_ok t"
  using fsinit_ok [OF assms] .

text \<open>
  An inode written to the image by \<open>winode\<close> is what \<open>rinode\<close> reads back, and every other inode
  reads as before, those in the same block included.
\<close>

lemma inode_on_disk_roundtrip:
  assumes "unat (IBLOCK inum (fs_sb s)) < FSSIZE" "unat (IBLOCK j (fs_sb s)) < FSSIZE" "dinode_ok d"
    and "j \<noteq> inum" "IBLOCK j (fs_sb s) = IBLOCK inum (fs_sb s) \<longrightarrow> unat j mod IPB \<noteq> unat inum mod IPB"
  shows "\<exists>t. winode inum d s = Inr t \<and> rinode inum t = Inr (d, t) \<and>
    (\<exists>e. rinode j s = Inr (e, s) \<and> rinode j t = Inr (e, t))"
proof -
  have l: "unat j mod IPB < IPB" "unat inum mod IPB < IPB" by (simp_all add: layout_num)
  obtain t where t: "winode inum d s = Inr t" using assms(1) by (simp add: winode_ok)
  have "rinode inum t = Inr (d, t)" by (rule rinode_winode [OF assms(1,3) t])
  moreover have "unat (IBLOCK j (fs_sb s)) = unat (IBLOCK inum (fs_sb s)) \<longleftrightarrow> IBLOCK j (fs_sb s) = IBLOCK inum (fs_sb s)"
    by (simp add: word_unat_eq_iff)
  then have "\<exists>e. rinode j s = Inr (e, s) \<and> rinode j t = Inr (e, t)"
    using t assms(1,2,3,5) l
    by (cases "IBLOCK j (fs_sb s) = IBLOCK inum (fs_sb s)") (auto simp: winode_ok rinode_ok dinodes.rd_wr_other)
  ultimately show ?thesis using t by blast
qed

end
