(* ===== verification/Alloc.thy ===== *)
theory Alloc
  imports Image
begin

text \<open>
  The block allocator of xv6fs/src/fs.c: \<open>zero_block\<close>, \<open>balloc\<close> and \<open>bfree\<close> on the free map,
  through the buffer cache.
\<close>

section \<open>Operations\<close>

definition zero_block :: "u32 \<Rightarrow> u32 \<Rightarrow> 'z fsys_scheme \<Rightarrow> 'z fsys_scheme res" where
  "zero_block dev bno s =
     bnd (bread dev bno s) (\<lambda>(bp, s).
     Inr (brelse bp (bdata bp (\<lambda>d. fill d 0 0 BSIZE) s)))"

text \<open>
  One turn of the outer loop of \<open>balloc\<close>, for the bitmap block of \<open>b\<close>: the first clear bit
  below the size of the file system is set and its block zeroed.
\<close>

definition balloc_block :: "u32 \<Rightarrow> nat \<Rightarrow> 'z fsys_scheme \<Rightarrow> (u32 option \<times> 'z fsys_scheme) res" where
  "balloc_block dev b s =
     bnd (bread dev (BBLOCK (of_nat b) (fs_sb s)) s) (\<lambda>(bp, s).
     case scan (\<lambda>bi. b + bi < unat (sb_size (fs_sb s)) \<and> \<not> bit_rd (b_data (bufs s bp)) bi) 0 BPB of
       Some bi \<Rightarrow>
         let s = bdata bp (\<lambda>d. bit_set d bi) s;
             s = brelse bp s in
         bnd (zero_block dev (of_nat (b + bi)) s) (\<lambda>s. Inr (Some (of_nat (b + bi)), s))
     | None \<Rightarrow> Inr (None, brelse bp s))"

definition balloc :: "u32 \<Rightarrow> 'z fsys_scheme \<Rightarrow> (u32 \<times> 'z fsys_scheme) res" where
  "balloc dev s =
     bnd (for_upto (\<lambda>k s. balloc_block dev (k * BPB) s) 0
            ((unat (sb_size (fs_sb s)) + BPB - 1) div BPB) s) (\<lambda>(r, s).
     Inr (case r of Some b \<Rightarrow> b | None \<Rightarrow> 0, s))"

definition bfree :: "u32 \<Rightarrow> u32 \<Rightarrow> 'z fsys_scheme \<Rightarrow> 'z fsys_scheme res" where
  "bfree dev b s =
     bnd (bread dev (BBLOCK b (fs_sb s)) s) (\<lambda>(bp, s).
     let bi = unat b mod BPB in
     if \<not> bit_rd (b_data (bufs s bp)) bi then Inl FreeingFreeBlock
     else Inr (brelse bp (bdata bp (\<lambda>d. bit_clear d bi) s)))"

section \<open>Frames\<close>

lemma bufs_step_zero_block [frame_intros]:
  "zero_block dev n u = Inr t \<Longrightarrow> bufs_step s u \<Longrightarrow> bufs_step s t"
  by (auto simp: zero_block_def elim!: bndE intro: frame_intros)

lemma bufs_step_balloc_block [frame_intros]:
  "balloc_block dev b u = Inr (r, t) \<Longrightarrow> bufs_step s u \<Longrightarrow> bufs_step s t"
  by (auto simp: balloc_block_def Let_def elim!: bndE split: option.splits; blast intro: frame_intros)

lemma bufs_step_balloc [frame_intros]:
  assumes "balloc dev u = Inr (a, t)" "bufs_step s u"
  shows "bufs_step s t"
proof -
  obtain r where "for_upto (\<lambda>k s. balloc_block dev (k * BPB) s) 0
            ((unat (sb_size (fs_sb u)) + BPB - 1) div BPB) u = Inr (r, t)"
    using assms(1) by (auto simp: balloc_def elim!: bndE)
  then show ?thesis
    by (rule for_upto_rule [where I = "\<lambda>_. bufs_step s" and Q = "\<lambda>_. bufs_step s"])
      (use assms(2) in \<open>auto intro: frame_intros\<close>)
qed

lemma bufs_step_bfree [frame_intros]:
  "bfree dev b u = Inr t \<Longrightarrow> bufs_step s u \<Longrightarrow> bufs_step s t"
  by (auto simp: bfree_def Let_def elim!: bndE split: if_splits; blast intro: frame_intros)

end
