(* ===== verification/Inode.thy ===== *)
theory Inode
  imports Alloc
begin

text \<open>
  Inodes, xv6fs/src/fs.c: the inode table (\<open>iget\<close>, \<open>idup\<close>, \<open>ilock\<close>, \<open>iput\<close>), inodes on the
  disk (\<open>ialloc\<close>, \<open>iupdate\<close>), the block map of a file (\<open>bmap\<close>, \<open>itrunc\<close>) and its contents
  (\<open>readi\<close>, \<open>writei\<close>). An inode pointer is an index of \<open>itable\<close>; it is never NULL here, a
  function that may return NULL returns an option.
\<close>

section \<open>Operations on the table\<close>

definition iupd :: "nat \<Rightarrow> (inode \<Rightarrow> inode) \<Rightarrow> 'z fsys_scheme \<Rightarrow> 'z fsys_scheme" where
  "iupd ip f s = s\<lparr>itable := (itable s)(ip := f (itable s ip))\<rparr>"

text \<open>
  The single loop of \<open>iget\<close> returns at the first entry that matches and remembers the first
  free one: a match anywhere comes before any recycling.
\<close>

definition iget :: "u32 \<Rightarrow> u32 \<Rightarrow> 'z fsys_scheme \<Rightarrow> (nat \<times> 'z fsys_scheme) res" where
  "iget dev inum s =
     (case scan (\<lambda>i. 0 < i_ref (itable s i) \<and> i_dev (itable s i) = dev \<and> i_inum (itable s i) = inum)
             0 NINODE of
        Some ip \<Rightarrow> Inr (ip, iupd ip (\<lambda>x. x\<lparr>i_ref := i_ref x + 1\<rparr>) s)
      | None \<Rightarrow>
          (case scan (\<lambda>i. i_ref (itable s i) = 0) 0 NINODE of
             None \<Rightarrow> Inl IgetNoInodes
           | Some ip \<Rightarrow>
               Inr (ip, iupd ip (\<lambda>x. x\<lparr>i_dev := dev, i_inum := inum, i_ref := 1, i_valid := 0\<rparr>) s)))"

definition idup :: "nat \<Rightarrow> 'z fsys_scheme \<Rightarrow> nat \<times> 'z fsys_scheme" where
  "idup ip s = (ip, iupd ip (\<lambda>x. x\<lparr>i_ref := i_ref x + 1\<rparr>) s)"

text \<open>The fields an inode shares with its copy on the disk.\<close>

definition to_dinode :: "inode \<Rightarrow> dinode" where
  "to_dinode x = \<lparr>di_type = i_type x, di_major = i_major x, di_minor = i_minor x,
     di_nlink = i_nlink x, di_size = i_size x, di_addrs = i_addrs x\<rparr>"

definition load_dinode :: "dinode \<Rightarrow> inode \<Rightarrow> inode" where
  "load_dinode d x = x\<lparr>i_type := di_type d, i_major := di_major d, i_minor := di_minor d,
     i_nlink := di_nlink d, i_size := di_size d, i_addrs := di_addrs d\<rparr>"

definition iupdate :: "nat \<Rightarrow> 'z fsys_scheme \<Rightarrow> 'z fsys_scheme res" where
  "iupdate ip s =
     (let x = itable s ip in
      bnd (bread (i_dev x) (IBLOCK (i_inum x) (fs_sb s)) s) (\<lambda>(bp, s).
      Inr (brelse bp (bdata bp (\<lambda>d. put_dinode d (unat (i_inum x) mod IPB) (to_dinode x)) s))))"

definition ilock :: "nat \<Rightarrow> 'z fsys_scheme \<Rightarrow> 'z fsys_scheme res" where
  "ilock ip s =
     (let x = itable s ip in
      if i_ref x < 1 then Inl IlockPanic
      else if i_valid x = 0 then
        bnd (bread (i_dev x) (IBLOCK (i_inum x) (fs_sb s)) s) (\<lambda>(bp, s).
        let d = get_dinode (b_data (bufs s bp)) (unat (i_inum x) mod IPB);
            s = iupd ip (load_dinode d) s;
            s = brelse bp s;
            s = iupd ip (\<lambda>x. x\<lparr>i_valid := 1\<rparr>) s in
        if i_type (itable s ip) = 0 then Inl IlockNoType else Inr s)
      else Inr s)"

definition iunlock :: "nat \<Rightarrow> 'z fsys_scheme \<Rightarrow> 'z fsys_scheme" where
  "iunlock ip s = s"

text \<open>One turn of the loop of \<open>ialloc\<close>.\<close>

definition ialloc_try ::
  "u32 \<Rightarrow> u16 \<Rightarrow> nat \<Rightarrow> 'z fsys_scheme \<Rightarrow> (nat option \<times> 'z fsys_scheme) res" where
  "ialloc_try dev type inum s =
     bnd (bread dev (IBLOCK (of_nat inum) (fs_sb s)) s) (\<lambda>(bp, s).
     if di_type (get_dinode (b_data (bufs s bp)) (inum mod IPB)) = 0 then
       let s = bdata bp (\<lambda>d. put_dinode d (inum mod IPB) (zero_dinode\<lparr>di_type := type\<rparr>)) s;
           s = brelse bp s in
       bnd (iget dev (of_nat inum) s) (\<lambda>(ip, s). Inr (Some ip, s))
     else Inr (None, brelse bp s))"

definition ialloc :: "u32 \<Rightarrow> u16 \<Rightarrow> 'z fsys_scheme \<Rightarrow> (nat option \<times> 'z fsys_scheme) res" where
  "ialloc dev type s = for_upto (ialloc_try dev type) 1 (unat (sb_ninodes (fs_sb s))) s"

section \<open>The block map\<close>

text \<open>
  \<open>if ((addr = ip->addrs[k]) == 0) { addr = balloc(ip->dev); if (addr == 0) return 0;
  ip->addrs[k] = addr; }\<close> with 0 for the early return.
\<close>

definition addr_slot :: "nat \<Rightarrow> nat \<Rightarrow> 'z fsys_scheme \<Rightarrow> (u32 \<times> 'z fsys_scheme) res" where
  "addr_slot ip k s =
     (let addr = i_addrs (itable s ip) ! k in
      if addr = 0 then
        bnd (balloc (i_dev (itable s ip)) s) (\<lambda>(addr, s).
        if addr = 0 then Inr (0, s)
        else Inr (addr, iupd ip (\<lambda>x. x\<lparr>i_addrs := (i_addrs x)[k := addr]\<rparr>) s))
      else Inr (addr, s))"

text \<open>The same for entry \<open>j\<close> of the indirect block in buffer \<open>bp\<close>.\<close>

definition ind_slot :: "u32 \<Rightarrow> nat \<Rightarrow> nat \<Rightarrow> 'z fsys_scheme \<Rightarrow> (u32 \<times> 'z fsys_scheme) res" where
  "ind_slot dev bp j s =
     (let addr = addr_rd (b_data (bufs s bp)) j in
      if addr = 0 then
        bnd (balloc dev s) (\<lambda>(addr, s).
        if addr = 0 then Inr (0, s) else Inr (addr, bdata bp (\<lambda>d. addr_wr d j addr) s))
      else Inr (addr, s))"

definition bmap :: "nat \<Rightarrow> u32 \<Rightarrow> 'z fsys_scheme \<Rightarrow> (u32 \<times> 'z fsys_scheme) res" where
  "bmap ip bn s =
     (let dev = i_dev (itable s ip) in
      if unat bn < NDIRECT then addr_slot ip (unat bn) s
      else let bn = unat bn - NDIRECT in
      if bn < NINDIRECT then
        bnd (addr_slot ip NDIRECT s) (\<lambda>(addr, s).
        if addr = 0 then Inr (0, s) else
        bnd (bread dev addr s) (\<lambda>(bp, s).
        bnd (ind_slot dev bp bn s) (\<lambda>(addr, s). Inr (addr, brelse bp s))))
      else let bn = bn - NINDIRECT in
      if bn < NINDIRECT2 then
        bnd (addr_slot ip (NDIRECT + 1) s) (\<lambda>(addr, s).
        if addr = 0 then Inr (0, s) else
        bnd (bread dev addr s) (\<lambda>(bp, s).
        bnd (ind_slot dev bp (bn div NINDIRECT) s) (\<lambda>(addr, s).
        if addr = 0 then Inr (0, brelse bp s) else
        bnd (bread dev addr s) (\<lambda>(bp2, s).
        bnd (ind_slot dev bp2 (bn mod NINDIRECT) s) (\<lambda>(addr, s).
        Inr (addr, brelse bp (brelse bp2 s)))))))
      else Inl BmapOutOfRange)"

text \<open>
  \<open>itrunc\<close>: the direct blocks; \<open>for (j...) if (a[j]) bfree(...)\<close> over an indirect block; the
  same below each entry of the double indirect block. The last assignment of the double
  indirect branch clears \<open>addrs[NDIRECT]\<close>, as the source has it.
\<close>

definition trunc_direct :: "nat \<Rightarrow> nat \<Rightarrow> 'z fsys_scheme \<Rightarrow> (unit option \<times> 'z fsys_scheme) res" where
  "trunc_direct ip i s =
     (let addr = i_addrs (itable s ip) ! i in
      if addr \<noteq> 0 then
        bnd (bfree (i_dev (itable s ip)) addr s) (\<lambda>s.
        Inr (None, iupd ip (\<lambda>x. x\<lparr>i_addrs := (i_addrs x)[i := 0]\<rparr>) s))
      else Inr (None, s))"

definition trunc_entry :: "u32 \<Rightarrow> nat \<Rightarrow> nat \<Rightarrow> 'z fsys_scheme \<Rightarrow> (unit option \<times> 'z fsys_scheme) res" where
  "trunc_entry dev bp j s =
     (let addr = addr_rd (b_data (bufs s bp)) j in
      if addr \<noteq> 0 then bnd (bfree dev addr s) (\<lambda>s. Inr (None, s)) else Inr (None, s))"

definition trunc_entry2 :: "u32 \<Rightarrow> nat \<Rightarrow> nat \<Rightarrow> 'z fsys_scheme \<Rightarrow> (unit option \<times> 'z fsys_scheme) res" where
  "trunc_entry2 dev bp i s =
     (let addr = addr_rd (b_data (bufs s bp)) i in
      if addr \<noteq> 0 then
        bnd (bread dev addr s) (\<lambda>(bp2, s).
        bnd (for_upto (trunc_entry dev bp2) 0 NINDIRECT s) (\<lambda>(_, s).
        let s = brelse bp2 s in
        bnd (bfree dev (addr_rd (b_data (bufs s bp)) i) s) (\<lambda>s. Inr (None, s))))
      else Inr (None, s))"

definition itrunc :: "nat \<Rightarrow> 'z fsys_scheme \<Rightarrow> 'z fsys_scheme res" where
  "itrunc ip s =
     bnd (for_upto (trunc_direct ip) 0 NDIRECT s) (\<lambda>(_, s).
     let dev = i_dev (itable s ip); addr = i_addrs (itable s ip) ! NDIRECT in
     bnd (if addr \<noteq> 0 then
            bnd (bread dev addr s) (\<lambda>(bp, s).
            bnd (for_upto (trunc_entry dev bp) 0 NINDIRECT s) (\<lambda>(_, s).
            bnd (bfree dev addr (brelse bp s)) (\<lambda>s.
            Inr (iupd ip (\<lambda>x. x\<lparr>i_addrs := (i_addrs x)[NDIRECT := 0]\<rparr>) s))))
          else Inr s) (\<lambda>s.
     let addr = i_addrs (itable s ip) ! (NDIRECT + 1) in
     bnd (if addr \<noteq> 0 then
            bnd (bread dev addr s) (\<lambda>(bp, s).
            bnd (for_upto (trunc_entry2 dev bp) 0 NINDIRECT s) (\<lambda>(_, s).
            bnd (bfree dev addr (brelse bp s)) (\<lambda>s.
            Inr (iupd ip (\<lambda>x. x\<lparr>i_addrs := (i_addrs x)[NDIRECT := 0]\<rparr>) s))))
          else Inr s) (\<lambda>s.
     iupdate ip (iupd ip (\<lambda>x. x\<lparr>i_size := 0\<rparr>) s))))"

definition iput :: "nat \<Rightarrow> 'z fsys_scheme \<Rightarrow> 'z fsys_scheme res" where
  "iput ip s =
     (let x = itable s ip in
      bnd (if i_ref x = 1 \<and> i_valid x \<noteq> 0 \<and> i_nlink x = 0 then
             bnd (itrunc ip s) (\<lambda>s.
             bnd (iupdate ip (iupd ip (\<lambda>x. x\<lparr>i_type := 0\<rparr>) s)) (\<lambda>s.
             Inr (iupd ip (\<lambda>x. x\<lparr>i_valid := 0\<rparr>) s)))
           else Inr s) (\<lambda>s.
      Inr (iupd ip (\<lambda>x. x\<lparr>i_ref := i_ref x - 1\<rparr>) s)))"

definition iunlockput :: "nat \<Rightarrow> 'z fsys_scheme \<Rightarrow> 'z fsys_scheme res" where
  "iunlockput ip s = iput ip (iunlock ip s)"

section \<open>Contents\<close>

definition stati :: "inode \<Rightarrow> stat" where
  "stati x = \<lparr>st_dev = ucast (i_dev x), st_ino = ucast (i_inum x),
     st_mode = push_bit 14 (scast (i_type x)), st_nlink = scast (i_nlink x),
     st_size = uint (i_size x)\<rparr>"

text \<open>
  The loop of \<open>readi\<close>. The bytes copied so far are \<open>acc\<close>, what \<open>memmove\<close> has left at
  \<open>dst - tot\<close>. The guards of \<open>readi\<close> and \<open>writei\<close> exclude a wrap of \<open>off + n\<close>, so the
  counters of both loops are natural numbers.
\<close>

function readi_loop ::
  "nat \<Rightarrow> nat \<Rightarrow> nat \<Rightarrow> nat \<Rightarrow> u8 list \<Rightarrow> 'z fsys_scheme \<Rightarrow> (u8 list \<times> 'z fsys_scheme) res" where
  "readi_loop ip off n tot acc s =
     (if tot < n then
        bnd (bmap ip (of_nat (off div BSIZE)) s) (\<lambda>(addr, s).
        if addr = 0 then Inr (acc, s) else
        bnd (bread (i_dev (itable s ip)) addr s) (\<lambda>(bp, s).
        let m = min (n - tot) (BSIZE - off mod BSIZE) in
        readi_loop ip (off + m) n (tot + m)
          (acc @ get_list (b_data (bufs s bp)) (off mod BSIZE) m) (brelse bp s)))
      else Inr (acc, s))"
  by pat_completeness auto
termination
  by (relation "measure (\<lambda>(ip, off, n, tot, acc, s). n - tot)") (auto simp: BSIZE_def)

definition readi :: "nat \<Rightarrow> u32 \<Rightarrow> u32 \<Rightarrow> 'z fsys_scheme \<Rightarrow> (u8 list \<times> 'z fsys_scheme) res" where
  "readi ip off n s =
     (let size = i_size (itable s ip) in
      if size < off \<or> off + n < off then Inr ([], s)
      else let n = (if size < off + n then size - off else n) in
      readi_loop ip (unat off) (unat n) 0 [] s)"

function writei_loop ::
  "nat \<Rightarrow> bytes \<Rightarrow> nat \<Rightarrow> nat \<Rightarrow> nat \<Rightarrow> 'z fsys_scheme \<Rightarrow> (nat \<times> 'z fsys_scheme) res" where
  "writei_loop ip src off n tot s =
     (if tot < n then
        bnd (bmap ip (of_nat (off div BSIZE)) s) (\<lambda>(addr, s).
        if addr = 0 then Inr (tot, s) else
        bnd (bread (i_dev (itable s ip)) addr s) (\<lambda>(bp, s).
        let m = min (n - tot) (BSIZE - off mod BSIZE) in
        writei_loop ip src (off + m) n (tot + m)
          (brelse bp (bdata bp (\<lambda>d. copy d (off mod BSIZE) src tot m) s))))
      else Inr (tot, s))"
  by pat_completeness auto
termination
  by (relation "measure (\<lambda>(ip, src, off, n, tot, s). n - tot)") (auto simp: BSIZE_def)

declare readi_loop.simps [simp del] writei_loop.simps [simp del]

definition writei :: "nat \<Rightarrow> bytes \<Rightarrow> u32 \<Rightarrow> u32 \<Rightarrow> 'z fsys_scheme \<Rightarrow> (int \<times> 'z fsys_scheme) res" where
  "writei ip src off n s =
     (if off + n < off then Inr (- 1, s)
      else if MAXFILE * BSIZE < unat (off + n) then Inr (- 1, s)
      else
        bnd (writei_loop ip src (unat off) (unat n) 0 s) (\<lambda>(tot, s).
        let off = off + of_nat tot;
            s = (if i_size (itable s ip) < off then iupd ip (\<lambda>x. x\<lparr>i_size := off\<rparr>) s else s) in
        bnd (iupdate ip s) (\<lambda>s. Inr (int tot, s))))"

end
