(* ===== verification/Dir.thy ===== *)
theory Dir
  imports Inode
begin

text \<open>
  Directories and path names, the last two layers of xv6fs/src/fs.c. A path is the list of its
  bytes without the terminating NUL; a pointer into it is the list that starts there.
\<close>

section \<open>Directories\<close>

definition namecmp :: "u8 list \<Rightarrow> u8 list \<Rightarrow> int" where
  "namecmp s t = strncmp s t DIRSIZ"

text \<open>The number of turns of \<open>for (off = 0; off < dp->size; off += sizeof(de))\<close>.\<close>

definition dir_turns :: "nat \<Rightarrow> 'z fsys_scheme \<Rightarrow> nat" where
  "dir_turns dp s = (unat (i_size (itable s dp)) + DESIZE - 1) div DESIZE"

text \<open>\<open>readi(dp, 0, &de, off, sizeof(de))\<close> with \<open>off\<close> the \<open>k\<close>th entry, and the panic of a short read.\<close>

definition read_dirent :: "panic \<Rightarrow> nat \<Rightarrow> nat \<Rightarrow> 'z fsys_scheme \<Rightarrow> (dirent \<times> 'z fsys_scheme) res" where
  "read_dirent e dp k s =
     bnd (readi dp (of_nat (k * DESIZE)) (of_nat DESIZE) s) (\<lambda>(bs, s).
     if length bs \<noteq> DESIZE then Inl e else Inr (get_dirent (\<lambda>i. bs ! i) 0, s))"

definition dirlookup_try ::
  "nat \<Rightarrow> u8 list \<Rightarrow> nat \<Rightarrow> 'z fsys_scheme \<Rightarrow> ((nat \<times> u32) option \<times> 'z fsys_scheme) res" where
  "dirlookup_try dp name k s =
     bnd (read_dirent DirlookupRead dp k s) (\<lambda>(de, s).
     if de_inum de = 0 then Inr (None, s)
     else if namecmp name (de_name de) = 0 then
       bnd (iget (i_dev (itable s dp)) (ucast (de_inum de)) s) (\<lambda>(ip, s).
       Inr (Some (ip, of_nat (k * DESIZE)), s))
     else Inr (None, s))"

text \<open>The entry's inode and its byte offset (\<open>*poff\<close>), \<open>None\<close> for a NULL result.\<close>

definition dirlookup ::
  "nat \<Rightarrow> u8 list \<Rightarrow> 'z fsys_scheme \<Rightarrow> ((nat \<times> u32) option \<times> 'z fsys_scheme) res" where
  "dirlookup dp name s =
     (if i_type (itable s dp) \<noteq> T_DIR then Inl DirlookupNotDir
      else for_upto (dirlookup_try dp name) 0 (dir_turns dp s) s)"

definition dirlink_try :: "nat \<Rightarrow> nat \<Rightarrow> 'z fsys_scheme \<Rightarrow> (nat option \<times> 'z fsys_scheme) res" where
  "dirlink_try dp k s =
     bnd (read_dirent DirlinkRead dp k s) (\<lambda>(de, s).
     Inr (if de_inum de = 0 then Some k else None, s))"

definition dirlink :: "nat \<Rightarrow> u8 list \<Rightarrow> u32 \<Rightarrow> 'z fsys_scheme \<Rightarrow> (int \<times> 'z fsys_scheme) res" where
  "dirlink dp name inum s =
     bnd (dirlookup dp name s) (\<lambda>(r, s).
     case r of
       Some (ip, _) \<Rightarrow> bnd (iput ip s) (\<lambda>s. Inr (- 1, s))
     | None \<Rightarrow>
         bnd (for_upto (dirlink_try dp) 0 (dir_turns dp s) s) (\<lambda>(r, s).
         let k = (case r of Some k \<Rightarrow> k | None \<Rightarrow> dir_turns dp s) in
         bnd (writei dp (dirent_bytes (ucast inum) name) (of_nat (k * DESIZE)) (of_nat DESIZE) s) (\<lambda>(w, s).
         if w \<noteq> int DESIZE then Inr (- 1, s) else Inr (0, s))))"

section \<open>Paths\<close>

definition SLASH :: u8 where "SLASH = 47"

text \<open>\<open>skipelem\<close>: the element copied into \<open>name\<close> and the returned path; \<open>None\<close> is 0.\<close>

definition skipelem :: "u8 list \<Rightarrow> (u8 list \<times> u8 list) option" where
  "skipelem path =
     (let path = dropWhile (\<lambda>c. c = SLASH) path in
      if path = [] then None
      else
        let elem = takeWhile (\<lambda>c. c \<noteq> SLASH) path;
            path = dropWhile (\<lambda>c. c \<noteq> SLASH) path;
            name = (if DIRSIZ \<le> length elem then take DIRSIZ elem else elem)
        in Some (name, dropWhile (\<lambda>c. c = SLASH) path))"

lemma skipelem_shorter: "skipelem path = Some (name, rest) \<Longrightarrow> length rest < length path"
proof -
  assume a: "skipelem path = Some (name, rest)"
  let ?p = "dropWhile (\<lambda>c. c = SLASH) path"
  from a have ne: "?p \<noteq> []" and r: "rest = dropWhile (\<lambda>c. c = SLASH) (dropWhile (\<lambda>c. c \<noteq> SLASH) ?p)"
    by (auto simp: skipelem_def Let_def split: if_splits)
  then obtain c q where p: "?p = c # q" by (cases ?p) auto
  then have "c \<noteq> SLASH" using hd_dropWhile [of "\<lambda>c. c = SLASH" path] by simp
  then have "length (dropWhile (\<lambda>c. c \<noteq> SLASH) ?p) \<le> length q"
    using p by (simp add: length_dropWhile_le)
  moreover have "length rest \<le> length (dropWhile (\<lambda>c. c \<noteq> SLASH) ?p)"
    unfolding r by (rule length_dropWhile_le)
  moreover have "length ?p \<le> length path" by (rule length_dropWhile_le)
  ultimately show ?thesis using p by simp
qed

text \<open>
  The loop of \<open>namex\<close> and what follows it. The result is the inode (or NULL) and the
  content of the caller's \<open>name\<close> buffer.
\<close>

function namex_loop ::
  "bool \<Rightarrow> nat \<Rightarrow> u8 list \<Rightarrow> u8 list \<Rightarrow> 'z fsys_scheme \<Rightarrow> (nat option \<times> u8 list \<times> 'z fsys_scheme) res" where
  "namex_loop nameiparent ip path name s =
     (case skipelem path of
        None \<Rightarrow>
          if nameiparent then bnd (iput ip s) (\<lambda>s. Inr (None, name, s))
          else Inr (Some ip, name, s)
      | Some (name, path) \<Rightarrow>
          bnd (ilock ip s) (\<lambda>s.
          if i_type (itable s ip) \<noteq> T_DIR then
            bnd (iunlockput ip s) (\<lambda>s. Inr (None, name, s))
          else if nameiparent \<and> path = [] then Inr (Some ip, name, iunlock ip s)
          else
            bnd (dirlookup ip name s) (\<lambda>(r, s).
            case r of
              None \<Rightarrow> bnd (iunlockput ip s) (\<lambda>s. Inr (None, name, s))
            | Some (next', _) \<Rightarrow>
                bnd (iunlockput ip s) (\<lambda>s. namex_loop nameiparent next' path name s))))"
  by pat_completeness auto
termination
  by (relation "measure (\<lambda>(nameiparent, ip, path, name, s). length path)")
    (auto dest: skipelem_shorter)

declare namex_loop.simps [simp del]

definition namex ::
  "u8 list \<Rightarrow> bool \<Rightarrow> 'z fsys_scheme \<Rightarrow> (nat option \<times> u8 list \<times> 'z fsys_scheme) res" where
  "namex path nameiparent s =
     bnd (if chr path = SLASH then iget ROOTDEV ROOTINO s else Inr (idup (cwd s) s)) (\<lambda>(ip, s).
     namex_loop nameiparent ip path [] s)"

definition namei :: "u8 list \<Rightarrow> 'z fsys_scheme \<Rightarrow> (nat option \<times> 'z fsys_scheme) res" where
  "namei path s = bnd (namex path False s) (\<lambda>(ip, _, s). Inr (ip, s))"

definition nameiparent ::
  "u8 list \<Rightarrow> 'z fsys_scheme \<Rightarrow> (nat option \<times> u8 list \<times> 'z fsys_scheme) res" where
  "nameiparent path s = namex path True s"

end
