(* ===== verification/File.thy ===== *)
theory File
  imports Dir
begin

text \<open>
  Open files, xv6fs/src/file.c. A \<open>struct file\<close> pointer is an index of \<open>ftable\<close>. The client's
  memory that requests point into is \<open>umem\<close>; a \<open>struct stat\<close> stored there is kept apart
  in \<open>ustat\<close>, since the layout of that structure belongs to the C library.
\<close>

section \<open>State\<close>

record fstate = fsys +
  ftable :: "nat \<Rightarrow> openfile"
  umem :: "u64 \<Rightarrow> u8"
  ustat :: "u64 \<Rightarrow> stat option"
  ofile :: "nat \<Rightarrow> nat option"
  cwd_path :: "u8 list"

text \<open>
  \<open>devsw\<close> is zero-initialised and no code of the server assigns it. A device operation takes
  \<open>(1, addr, n)\<close> and returns an \<open>int\<close>.
\<close>

type_synonym devop = "int \<Rightarrow> u64 \<Rightarrow> int \<Rightarrow> int"

definition devsw :: "nat \<Rightarrow> devop option \<times> devop option" where
  "devsw = (\<lambda>_. (None, None))"

definition fupd :: "nat \<Rightarrow> (openfile \<Rightarrow> openfile) \<Rightarrow> 'z fstate_scheme \<Rightarrow> 'z fstate_scheme" where
  "fupd f g s = s\<lparr>ftable := (ftable s)(f := g (ftable s f))\<rparr>"

text \<open>\<open>memmove((char *)addr, ...)\<close> into the client's memory, and a read from it.\<close>

definition ustore :: "u64 \<Rightarrow> u8 list \<Rightarrow> (u64 \<Rightarrow> u8) \<Rightarrow> (u64 \<Rightarrow> u8)" where
  "ustore addr bs m = (\<lambda>a. if unat (a - addr) < length bs then bs ! unat (a - addr) else m a)"

definition uload :: "u64 \<Rightarrow> (u64 \<Rightarrow> u8) \<Rightarrow> bytes" where
  "uload addr m = (\<lambda>k. m (addr + of_nat k))"

section \<open>Operations\<close>

definition filealloc :: "'z fstate_scheme \<Rightarrow> nat option \<times> 'z fstate_scheme" where
  "filealloc s =
     (case scan (\<lambda>f. f_ref (ftable s f) = 0) 0 NFILE of
        Some f \<Rightarrow> (Some f, fupd f (\<lambda>x. x\<lparr>f_ref := 1\<rparr>) s)
      | None \<Rightarrow> (None, s))"

definition filedup :: "nat \<Rightarrow> 'z fstate_scheme \<Rightarrow> (nat \<times> 'z fstate_scheme) res" where
  "filedup f s =
     (if f_ref (ftable s f) < 1 then Inl FiledupPanic
      else Inr (f, fupd f (\<lambda>x. x\<lparr>f_ref := f_ref x + 1\<rparr>) s))"

definition fileclose :: "nat \<Rightarrow> 'z fstate_scheme \<Rightarrow> 'z fstate_scheme res" where
  "fileclose f s =
     (if f_ref (ftable s f) < 1 then Inl FileclosePanic
      else
        let s = fupd f (\<lambda>x. x\<lparr>f_ref := f_ref x - 1\<rparr>) s in
        if 0 < f_ref (ftable s f) then Inr s
        else
          let ff = ftable s f;
              s = fupd f (\<lambda>x. x\<lparr>f_ref := 0, f_type := FD_NONE\<rparr>) s in
          if f_type ff = FD_PIPE then Inr s
          else if f_type ff = FD_INODE \<or> f_type ff = FD_DEVICE then iput (f_ip ff) s
          else Inr s)"

definition filestat :: "nat \<Rightarrow> u64 \<Rightarrow> 'z fstate_scheme \<Rightarrow> (int \<times> 'z fstate_scheme) res" where
  "filestat f addr s =
     (let x = ftable s f in
      if f_type x = FD_INODE \<or> f_type x = FD_DEVICE then
        bnd (ilock (f_ip x) s) (\<lambda>s.
        let st = stati (itable s (f_ip x));
            s = iunlock (f_ip x) s in
        Inr (0, s\<lparr>ustat := (ustat s)(addr \<mapsto> st)\<rparr>))
      else Inr (- 1, s))"

definition SEEK_SET :: int where "SEEK_SET = 0"
definition SEEK_CUR :: int where "SEEK_CUR = 1"
definition SEEK_END :: int where "SEEK_END = 2"

text \<open>\<open>off\<close> is a 64-bit \<open>off_t\<close>, \<open>f->off\<close> a 32-bit unsigned, the result an \<open>int\<close>.\<close>

definition fileseek :: "nat \<Rightarrow> u64 \<Rightarrow> int \<Rightarrow> 'z fstate_scheme \<Rightarrow> (int \<times> 'z fstate_scheme) res" where
  "fileseek f off whence s =
     (let x = ftable s f; o' = (ucast off :: u32) in
      if f_type x = FD_INODE then
        bnd (if whence = SEEK_CUR then Inr (fupd f (\<lambda>x. x\<lparr>f_off := f_off x + o'\<rparr>) s)
             else if whence = SEEK_SET then Inr (fupd f (\<lambda>x. x\<lparr>f_off := o'\<rparr>) s)
             else if whence = SEEK_END then
               let size = i_size (itable s (f_ip x));
                   s = fupd f (\<lambda>x. x\<lparr>f_off := size + o'\<rparr>) s in
               bnd (guardE AssertFailed (f_off (ftable s f) \<le> size)) (\<lambda>_. Inr s)
             else Inr s) (\<lambda>s.
        if whence \<in> {SEEK_CUR, SEEK_SET, SEEK_END} then Inr (sint (f_off (ftable s f)), s)
        else Inr (- 1, s))
      else Inr (- 1, s))"

definition fileread :: "nat \<Rightarrow> u64 \<Rightarrow> int \<Rightarrow> 'z fstate_scheme \<Rightarrow> (int \<times> 'z fstate_scheme) res" where
  "fileread f addr n s =
     (let x = ftable s f in
      if \<not> f_readable x then Inr (- EBADF, s)
      else case f_type x of
        FD_PIPE \<Rightarrow> Inr (0, s)
      | FD_DEVICE \<Rightarrow>
          if sint (f_major x) < 0 \<or> NDEV \<le> sint (f_major x) then Inr (- EINVAL, s)
          else (case fst (devsw (nat (sint (f_major x)))) of
                  None \<Rightarrow> Inr (- EINVAL, s)
                | Some rd \<Rightarrow> Inr (rd 1 addr n, s))
      | FD_INODE \<Rightarrow>
          bnd (ilock (f_ip x) s) (\<lambda>s.
          bnd (readi (f_ip x) (f_off x) (word_of_int n) s) (\<lambda>(bs, s).
          let s = s\<lparr>umem := ustore addr bs (umem s)\<rparr>;
              r = sint (of_nat (length bs) :: u32);
              s = (if 0 < r then fupd f (\<lambda>x. x\<lparr>f_off := f_off x + word_of_int r\<rparr>) s else s) in
          Inr (r, iunlock (f_ip x) s)))
      | FD_NONE \<Rightarrow> Inl FilereadPanic)"

definition write_max :: int where
  "write_max = int ((MAXOPBLOCKS - 1 - 1 - 2) div 2 * BSIZE)"

text \<open>The loop of \<open>filewrite\<close>; its result is \<open>i\<close>.\<close>

function filewrite_loop ::
  "nat \<Rightarrow> u64 \<Rightarrow> int \<Rightarrow> int \<Rightarrow> 'z fstate_scheme \<Rightarrow> (int \<times> 'z fstate_scheme) res" where
  "filewrite_loop f addr n i s =
     (if i < n then
        let n1 = min (n - i) write_max; ip = f_ip (ftable s f) in
        bnd (ilock ip s) (\<lambda>s.
        bnd (writei ip (uload (addr + word_of_int i) (umem s)) (f_off (ftable s f)) (word_of_int n1) s)
          (\<lambda>(r, s).
        let s = (if 0 < r then fupd f (\<lambda>x. x\<lparr>f_off := f_off x + word_of_int r\<rparr>) s else s);
            s = iunlock ip s in
        if r \<noteq> n1 then Inr (i, s) else filewrite_loop f addr n (i + r) s))
      else Inr (i, s))"
  by pat_completeness auto
termination
  by (relation "measure (\<lambda>(f, addr, n, i, s). nat (n - i))")
    (auto simp: write_max_def MAXOPBLOCKS_def BSIZE_def)

declare filewrite_loop.simps [simp del]

definition filewrite :: "nat \<Rightarrow> u64 \<Rightarrow> int \<Rightarrow> 'z fstate_scheme \<Rightarrow> (int \<times> 'z fstate_scheme) res" where
  "filewrite f addr n s =
     (let x = ftable s f in
      if \<not> f_writable x then Inr (- EBADF, s)
      else case f_type x of
        FD_PIPE \<Rightarrow> Inr (0, s)
      | FD_DEVICE \<Rightarrow>
          if sint (f_major x) < 0 \<or> NDEV \<le> sint (f_major x) then Inr (- EINVAL, s)
          else (case snd (devsw (nat (sint (f_major x)))) of
                  None \<Rightarrow> Inr (- EINVAL, s)
                | Some wr \<Rightarrow> Inr (wr 1 addr n, s))
      | FD_INODE \<Rightarrow> filewrite_loop f addr n 0 s
      | FD_NONE \<Rightarrow> Inl FilewritePanic)"

end
