(* ===== verification/Sysfile.thy ===== *)
theory Sysfile
  imports File
begin

text \<open>
  The file system calls of xv6fs/src/sysfile.c. The arguments of a request are fetched by the
  service library (\<open>argint\<close>, \<open>argaddr\<close>, \<open>argstr\<close>); the values it returns are a parameter of
  every call. A result is the \<open>int\<close> that main.c makes of the returned \<open>uint64\<close>.
\<close>

record sysargs =
  argint :: "nat \<Rightarrow> u32"
  argaddr :: "nat \<Rightarrow> u64"
  argstr :: "nat \<Rightarrow> nat \<Rightarrow> u8 list option"

section \<open>File descriptors\<close>

definition argfd :: "sysargs \<Rightarrow> nat \<Rightarrow> 'z fstate_scheme \<Rightarrow> (nat \<times> nat) option" where
  "argfd m n s =
     (let fd = sint (argint m n) in
      if fd < 0 \<or> int NOFILE \<le> fd then None
      else (case ofile s (nat fd) of None \<Rightarrow> None | Some f \<Rightarrow> Some (nat fd, f)))"

definition fdalloc :: "nat \<Rightarrow> 'z fstate_scheme \<Rightarrow> int \<times> 'z fstate_scheme" where
  "fdalloc f s =
     (case scan (\<lambda>fd. ofile s fd = None) 3 NOFILE of
        Some fd \<Rightarrow> (int fd, s\<lparr>ofile := (ofile s)(fd \<mapsto> f)\<rparr>)
      | None \<Rightarrow> (- 1, s))"

section \<open>Calls on open files\<close>

definition xv6fs_dup :: "sysargs \<Rightarrow> 'z fstate_scheme \<Rightarrow> (int \<times> 'z fstate_scheme) res" where
  "xv6fs_dup m s =
     (case argfd m 0 s of
        None \<Rightarrow> Inr (- 1, s)
      | Some (_, f) \<Rightarrow>
          let (fd, s) = fdalloc f s in
          if fd < 0 then Inr (- 1, s)
          else bnd (filedup f s) (\<lambda>(_, s). Inr (fd, s)))"

definition xv6fs_read :: "sysargs \<Rightarrow> 'z fstate_scheme \<Rightarrow> (int \<times> 'z fstate_scheme) res" where
  "xv6fs_read m s =
     (let p = argaddr m 1; n = sint (argint m 2) in
      case argfd m 0 s of
        None \<Rightarrow> Inr (- 1, s)
      | Some (_, f) \<Rightarrow> fileread f p n s)"

definition xv6fs_write :: "sysargs \<Rightarrow> 'z fstate_scheme \<Rightarrow> (int \<times> 'z fstate_scheme) res" where
  "xv6fs_write m s =
     (let p = argaddr m 1; n = sint (argint m 2) in
      case argfd m 0 s of
        None \<Rightarrow> Inr (- 1, s)
      | Some (_, f) \<Rightarrow> filewrite f p n s)"

definition xv6fs_pread :: "sysargs \<Rightarrow> 'z fstate_scheme \<Rightarrow> (int \<times> 'z fstate_scheme) res" where
  "xv6fs_pread m s =
     (let p = argaddr m 1; n = sint (argint m 2) in
      case argfd m 0 s of
        None \<Rightarrow> Inr (- EBADF, s)
      | Some (_, f) \<Rightarrow>
          bnd (fileseek f (argaddr m 3) SEEK_SET s) (\<lambda>(r, s).
          if r < 0 then Inr (- EINVAL, s) else fileread f p n s))"

definition xv6fs_pwrite :: "sysargs \<Rightarrow> 'z fstate_scheme \<Rightarrow> (int \<times> 'z fstate_scheme) res" where
  "xv6fs_pwrite m s =
     (let p = argaddr m 1; n = sint (argint m 2) in
      case argfd m 0 s of
        None \<Rightarrow> Inr (- 1, s)
      | Some (_, f) \<Rightarrow>
          bnd (fileseek f (argaddr m 3) SEEK_SET s) (\<lambda>(r, s).
          if r < 0 then Inr (- EINVAL, s) else filewrite f p n s))"

definition xv6fs_close :: "sysargs \<Rightarrow> 'z fstate_scheme \<Rightarrow> (int \<times> 'z fstate_scheme) res" where
  "xv6fs_close m s =
     (case argfd m 0 s of
        None \<Rightarrow> Inr (- 1, s)
      | Some (fd, f) \<Rightarrow>
          bnd (fileclose f (s\<lparr>ofile := (ofile s)(fd := None)\<rparr>)) (\<lambda>s. Inr (0, s)))"

definition xv6fs_fstat :: "sysargs \<Rightarrow> 'z fstate_scheme \<Rightarrow> (int \<times> 'z fstate_scheme) res" where
  "xv6fs_fstat m s =
     (let st = argaddr m 1 in
      case argfd m 0 s of
        None \<Rightarrow> Inr (- 1, s)
      | Some (_, f) \<Rightarrow> filestat f st s)"

definition xv6fs_lseek :: "sysargs \<Rightarrow> 'z fstate_scheme \<Rightarrow> (int \<times> 'z fstate_scheme) res" where
  "xv6fs_lseek m s =
     (let off = argaddr m 1; whence = sint (argint m 2) in
      case argfd m 0 s of
        None \<Rightarrow> Inr (- 1, s)
      | Some (_, f) \<Rightarrow> fileseek f off whence s)"

section \<open>Calls on paths\<close>

text \<open>The label \<open>bad\<close> of \<open>xv6fs_link\<close>: the link count is taken back.\<close>

definition link_bad :: "nat \<Rightarrow> 'z fstate_scheme \<Rightarrow> (int \<times> 'z fstate_scheme) res" where
  "link_bad ip s =
     bnd (ilock ip s) (\<lambda>s.
     bnd (iupdate ip (iupd ip (\<lambda>x. x\<lparr>i_nlink := i_nlink x - 1\<rparr>) s)) (\<lambda>s.
     bnd (iunlockput ip s) (\<lambda>s. Inr (- 1, s))))"

definition xv6fs_link :: "sysargs \<Rightarrow> 'z fstate_scheme \<Rightarrow> (int \<times> 'z fstate_scheme) res" where
  "xv6fs_link m s =
     (case (argstr m 0 MAXPATH, argstr m 1 MAXPATH) of
        (Some old, Some new) \<Rightarrow>
          bnd (namei old s) (\<lambda>(r, s).
          case r of
            None \<Rightarrow> Inr (- 1, s)
          | Some ip \<Rightarrow>
              bnd (ilock ip s) (\<lambda>s.
              if i_type (itable s ip) = T_DIR then bnd (iunlockput ip s) (\<lambda>s. Inr (- 1, s))
              else
                bnd (iupdate ip (iupd ip (\<lambda>x. x\<lparr>i_nlink := i_nlink x + 1\<rparr>) s)) (\<lambda>s.
                bnd (nameiparent new (iunlock ip s)) (\<lambda>(r, name, s).
                case r of
                  None \<Rightarrow> link_bad ip s
                | Some dp \<Rightarrow>
                    bnd (ilock dp s) (\<lambda>s.
                    bnd (if i_dev (itable s dp) \<noteq> i_dev (itable s ip) then Inr (- 1, s)
                         else dirlink dp name (i_inum (itable s ip)) s) (\<lambda>(l, s).
                    if l < 0 then bnd (iunlockput dp s) (\<lambda>s. link_bad ip s)
                    else
                      bnd (iunlockput dp s) (\<lambda>s.
                      bnd (iput ip s) (\<lambda>s. Inr (0, s)))))))))
      | _ \<Rightarrow> Inr (- 1, s))"

definition isdirempty_try :: "nat \<Rightarrow> nat \<Rightarrow> 'z fstate_scheme \<Rightarrow> (unit option \<times> 'z fstate_scheme) res" where
  "isdirempty_try dp k s =
     bnd (read_dirent IsdiremptyRead dp k s) (\<lambda>(de, s).
     Inr (if de_inum de \<noteq> 0 then Some () else None, s))"

definition isdirempty :: "nat \<Rightarrow> 'z fstate_scheme \<Rightarrow> (bool \<times> 'z fstate_scheme) res" where
  "isdirempty dp s =
     bnd (for_upto (isdirempty_try dp) 2 (dir_turns dp s) s) (\<lambda>(r, s). Inr (r = None, s))"

text \<open>The label \<open>bad\<close> of \<open>xv6fs_unlink\<close>.\<close>

definition unlink_bad :: "nat \<Rightarrow> 'z fstate_scheme \<Rightarrow> (int \<times> 'z fstate_scheme) res" where
  "unlink_bad dp s = bnd (iunlockput dp s) (\<lambda>s. Inr (- 1, s))"

text \<open>From the successful look-up on: entry at \<open>off\<close> of \<open>dp\<close>, inode \<open>ip\<close>.\<close>

definition unlink_found :: "nat \<Rightarrow> nat \<Rightarrow> u32 \<Rightarrow> 'z fstate_scheme \<Rightarrow> (int \<times> 'z fstate_scheme) res" where
  "unlink_found dp ip off s =
     bnd (ilock ip s) (\<lambda>s.
     if sint (i_nlink (itable s ip)) < 1 then Inl UnlinkNlink
     else
       bnd (if i_type (itable s ip) = T_DIR then isdirempty ip s else Inr (True, s)) (\<lambda>(e, s).
       if \<not> e then bnd (iunlockput ip s) (unlink_bad dp)
       else
         bnd (writei dp (\<lambda>_. 0) off (of_nat DESIZE) s) (\<lambda>(w, s).
         if w \<noteq> int DESIZE then Inl UnlinkWritei
         else
           bnd (if i_type (itable s ip) = T_DIR
                then iupdate dp (iupd dp (\<lambda>x. x\<lparr>i_nlink := i_nlink x - 1\<rparr>) s)
                else Inr s) (\<lambda>s.
           bnd (iunlockput dp s) (\<lambda>s.
           bnd (iupdate ip (iupd ip (\<lambda>x. x\<lparr>i_nlink := i_nlink x - 1\<rparr>) s)) (\<lambda>s.
           bnd (iunlockput ip s) (\<lambda>s. Inr (0, s))))))))"

definition xv6fs_unlink :: "sysargs \<Rightarrow> 'z fstate_scheme \<Rightarrow> (int \<times> 'z fstate_scheme) res" where
  "xv6fs_unlink m s =
     (case argstr m 0 MAXPATH of
        None \<Rightarrow> Inr (- 1, s)
      | Some path \<Rightarrow>
          bnd (nameiparent path s) (\<lambda>(r, name, s).
          case r of
            None \<Rightarrow> Inr (- 1, s)
          | Some dp \<Rightarrow>
              bnd (ilock dp s) (\<lambda>s.
              if namecmp name DOT = 0 \<or> namecmp name DOTDOT = 0 then unlink_bad dp s
              else
                bnd (dirlookup dp name s) (\<lambda>(r, s).
                case r of
                  None \<Rightarrow> unlink_bad dp s
                | Some (ip, off) \<Rightarrow> unlink_found dp ip off s))))"

text \<open>\<open>create\<close> and its label \<open>fail\<close>.\<close>

definition create_fail :: "nat \<Rightarrow> nat \<Rightarrow> 'z fstate_scheme \<Rightarrow> (nat option \<times> 'z fstate_scheme) res" where
  "create_fail dp ip s =
     bnd (iupdate ip (iupd ip (\<lambda>x. x\<lparr>i_nlink := 0\<rparr>) s)) (\<lambda>s.
     bnd (iunlockput ip s) (\<lambda>s.
     bnd (iunlockput dp s) (\<lambda>s. Inr (None, s))))"

definition create_entries ::
  "nat \<Rightarrow> nat \<Rightarrow> u8 list \<Rightarrow> u16 \<Rightarrow> 'z fstate_scheme \<Rightarrow> (bool \<times> 'z fstate_scheme) res" where
  "create_entries dp ip name type s =
     bnd (if type = T_DIR then
            bnd (dirlink ip DOT (i_inum (itable s ip)) s) (\<lambda>(l, s).
            if l < 0 then Inr (False, s)
            else bnd (dirlink ip DOTDOT (i_inum (itable s dp)) s) (\<lambda>(l, s). Inr (0 \<le> l, s)))
          else Inr (True, s)) (\<lambda>(good, s).
     if \<not> good then Inr (False, s)
     else bnd (dirlink dp name (i_inum (itable s ip)) s) (\<lambda>(l, s). Inr (0 \<le> l, s)))"

definition create ::
  "u8 list \<Rightarrow> u16 \<Rightarrow> u16 \<Rightarrow> u16 \<Rightarrow> 'z fstate_scheme \<Rightarrow> (nat option \<times> 'z fstate_scheme) res" where
  "create path type major minor s =
     bnd (nameiparent path s) (\<lambda>(r, name, s).
     case r of
       None \<Rightarrow> Inr (None, s)
     | Some dp \<Rightarrow>
         bnd (ilock dp s) (\<lambda>s.
         bnd (dirlookup dp name s) (\<lambda>(r, s).
         case r of
           Some _ \<Rightarrow> bnd (iunlockput dp s) (\<lambda>s. Inr (None, s))
         | None \<Rightarrow>
             bnd (ialloc (i_dev (itable s dp)) type s) (\<lambda>(r, s).
             case r of
               None \<Rightarrow> bnd (iunlockput dp s) (\<lambda>s. Inr (None, s))
             | Some ip \<Rightarrow>
                 bnd (ilock ip s) (\<lambda>s.
                 bnd (iupdate ip (iupd ip (\<lambda>x. x\<lparr>i_major := major, i_minor := minor,
                        i_nlink := 1, i_size := 0\<rparr>) s)) (\<lambda>s.
                 bnd (create_entries dp ip name type s) (\<lambda>(good, s).
                 if \<not> good then create_fail dp ip s
                 else
                   bnd (if type = T_DIR
                        then iupdate dp (iupd dp (\<lambda>x. x\<lparr>i_nlink := i_nlink x + 1\<rparr>) s)
                        else Inr s) (\<lambda>s.
                   bnd (iunlockput dp s) (\<lambda>s. Inr (Some ip, s))))))))))"

text \<open>\<open>xv6fs_open\<close> once the inode is there: a file and a descriptor for it.\<close>

definition open_inode :: "nat \<Rightarrow> u32 \<Rightarrow> 'z fstate_scheme \<Rightarrow> (int \<times> 'z fstate_scheme) res" where
  "open_inode ip omode s =
     (let x = itable s ip in
      if i_type x = T_DEVICE \<and> (sint (i_major x) < 0 \<or> NDEV \<le> sint (i_major x)) then
        bnd (iunlockput ip s) (\<lambda>s. Inr (- 1, s))
      else
        let (r, s) = filealloc s in
        case r of
          None \<Rightarrow> bnd (iunlockput ip s) (\<lambda>s. Inr (- 1, s))
        | Some f \<Rightarrow>
            let (fd, s) = fdalloc f s in
            if fd < 0 then
              bnd (fileclose f s) (\<lambda>s.
              bnd (iunlockput ip s) (\<lambda>s. Inr (- 1, s)))
            else
              let s = (if i_type x = T_DEVICE
                       then fupd f (\<lambda>y. y\<lparr>f_type := FD_DEVICE, f_major := i_major x\<rparr>) s
                       else fupd f (\<lambda>y. y\<lparr>f_type := FD_INODE, f_off := 0\<rparr>) s);
                  s = fupd f (\<lambda>y. y\<lparr>f_ip := ip, f_readable := (omode AND O_WRONLY = 0),
                        f_writable := (omode AND O_WRONLY \<noteq> 0 \<or> omode AND O_RDWR \<noteq> 0)\<rparr>) s in
              bnd (if omode AND O_TRUNC \<noteq> 0 \<and> i_type x = T_FILE then itrunc ip s else Inr s) (\<lambda>s.
              Inr (fd, iunlock ip s)))"

definition xv6fs_open :: "sysargs \<Rightarrow> 'z fstate_scheme \<Rightarrow> (int \<times> 'z fstate_scheme) res" where
  "xv6fs_open m s =
     (let omode = argint m 1 in
      case argstr m 0 MAXPATH of
        None \<Rightarrow> Inr (- 1, s)
      | Some path \<Rightarrow>
          bnd (if omode AND O_CREAT \<noteq> 0 then create path T_FILE 0 0 s
               else
                 bnd (namei path s) (\<lambda>(r, s).
                 case r of
                   None \<Rightarrow> Inr (None, s)
                 | Some ip \<Rightarrow> bnd (ilock ip s) (\<lambda>s. Inr (Some ip, s)))) (\<lambda>(r, s).
          case r of
            None \<Rightarrow> Inr (- 1, s)
          | Some ip \<Rightarrow> open_inode ip omode s))"

definition xv6fs_mkdir :: "sysargs \<Rightarrow> 'z fstate_scheme \<Rightarrow> (int \<times> 'z fstate_scheme) res" where
  "xv6fs_mkdir m s =
     (case argstr m 0 MAXPATH of
        None \<Rightarrow> Inr (- 1, s)
      | Some path \<Rightarrow>
          bnd (create path T_DIR 0 0 s) (\<lambda>(r, s).
          case r of
            None \<Rightarrow> Inr (- 1, s)
          | Some ip \<Rightarrow> bnd (iunlockput ip s) (\<lambda>s. Inr (0, s))))"

definition xv6fs_mknod :: "sysargs \<Rightarrow> 'z fstate_scheme \<Rightarrow> (int \<times> 'z fstate_scheme) res" where
  "xv6fs_mknod m s =
     (let major = argint m 1; minor = argint m 2 in
      case argstr m 0 MAXPATH of
        None \<Rightarrow> Inr (- 1, s)
      | Some path \<Rightarrow>
          bnd (create path T_DEVICE (ucast major) (ucast minor) s) (\<lambda>(r, s).
          case r of
            None \<Rightarrow> Inr (- 1, s)
          | Some ip \<Rightarrow> bnd (iunlockput ip s) (\<lambda>s. Inr (0, s))))"

definition xv6fs_chdir :: "sysargs \<Rightarrow> 'z fstate_scheme \<Rightarrow> (int \<times> 'z fstate_scheme) res" where
  "xv6fs_chdir m s =
     (case argstr m 0 MAXPATH of
        None \<Rightarrow> Inr (- 1, s)
      | Some path \<Rightarrow>
          bnd (namei path s) (\<lambda>(r, s).
          case r of
            None \<Rightarrow> Inr (- 1, s)
          | Some ip \<Rightarrow>
              bnd (ilock ip s) (\<lambda>s.
              if i_type (itable s ip) \<noteq> T_DIR then bnd (iunlockput ip s) (\<lambda>s. Inr (- 1, s))
              else
                bnd (iput (cwd s) (iunlock ip s)) (\<lambda>s.
                Inr (0, s\<lparr>cwd := ip, cwd_path := strncpy path MAXPATH\<rparr>)))))"

definition xv6fs_getcwd :: "sysargs \<Rightarrow> 'z fstate_scheme \<Rightarrow> (int \<times> 'z fstate_scheme) res" where
  "xv6fs_getcwd m s =
     Inr (0, s\<lparr>umem := ustore (argaddr m 0) (cstr (cwd_path s) @ [0]) (umem s)\<rparr>)"

text \<open>\<open>xv6fs_lstat\<close> copies the table entry as it is: the inode is neither locked nor put.\<close>

definition xv6fs_lstat :: "sysargs \<Rightarrow> 'z fstate_scheme \<Rightarrow> (int \<times> 'z fstate_scheme) res" where
  "xv6fs_lstat m s =
     (let buf = argaddr m 1 in
      case argstr m 0 MAXPATH of
        None \<Rightarrow> Inr (- EINVAL, s)
      | Some path \<Rightarrow>
          bnd (namei path s) (\<lambda>(r, s).
          case r of
            None \<Rightarrow> Inr (- ENOENT, s)
          | Some ip \<Rightarrow> Inr (0, s\<lparr>ustat := (ustat s)(buf \<mapsto> stati (itable s ip))\<rparr>)))"

end
