(* ===== verification/Server.thy ===== *)
theory Server
  imports Sysfile
begin

text \<open>
  The server of xv6fs/src/main.c: start-up and one turn of the request loop in each of the three
  configurations. The request numbers and the encoding of a request's arguments come from the
  service library and are parameters.
\<close>

record fs_labels =
  FS_OPEN :: u32
  FS_CLOSE :: u32
  FS_FSTAT :: u32
  FS_GETCWD :: u32
  FS_LSTAT :: u32
  FS_READ :: u32
  FS_WRITE :: u32
  FS_PREAD :: u32
  FS_PWRITE :: u32
  FS_LSEEK :: u32
  FS_UNLINK :: u32
  FS_RET :: u32

text \<open>The \<open>switch\<close> on the label.\<close>

definition fs_dispatch ::
  "fs_labels \<Rightarrow> u32 \<Rightarrow> sysargs \<Rightarrow> 'z fstate_scheme \<Rightarrow> (int \<times> 'z fstate_scheme) res" where
  "fs_dispatch L label m s =
     (if label = FS_OPEN L then xv6fs_open m s
      else if label = FS_CLOSE L then xv6fs_close m s
      else if label = FS_FSTAT L then xv6fs_fstat m s
      else if label = FS_GETCWD L then xv6fs_getcwd m s
      else if label = FS_LSTAT L then xv6fs_lstat m s
      else if label = FS_READ L then xv6fs_read m s
      else if label = FS_WRITE L then xv6fs_write m s
      else if label = FS_PREAD L then xv6fs_pread m s
      else if label = FS_PWRITE L then xv6fs_pwrite m s
      else if label = FS_LSEEK L then xv6fs_lseek m s
      else if label = FS_UNLINK L then xv6fs_unlink m s
      else Inr (- EINVAL, s))"

text \<open>Synchronous IPC: the reply carries the result in its first message register.\<close>

definition serve_normal ::
  "fs_labels \<Rightarrow> u64 \<Rightarrow> sysargs \<Rightarrow> 'z fstate_scheme \<Rightarrow> (u64 \<times> 'z fstate_scheme) res" where
  "serve_normal L label m s =
     bnd (fs_dispatch L (ucast label) m s) (\<lambda>(ret, s). Inr (word_of_int ret, s))"

text \<open>The answer in a shared buffer: \<open>buf[0] = FS_RET; buf[1] = ret\<close>.\<close>

definition fs_reply :: "fs_labels \<Rightarrow> int \<Rightarrow> bytes \<Rightarrow> bytes" where
  "fs_reply L ret buf = put64 (put64 buf 0 (scast (FS_RET L))) 8 (word_of_int ret)"

text \<open>Polling: a buffer that still holds an answer is not a request.\<close>

definition serve_poll ::
  "fs_labels \<Rightarrow> (bytes \<Rightarrow> u32) \<Rightarrow> (bytes \<Rightarrow> sysargs) \<Rightarrow> bytes \<Rightarrow> 'z fstate_scheme \<Rightarrow>
   (bytes \<times> 'z fstate_scheme) res" where
  "serve_poll L rdlabel rdargs buf s =
     (let label = rdlabel buf in
      if label = FS_RET L then Inr (buf, s)
      else bnd (fs_dispatch L label (rdargs buf) s) (\<lambda>(ret, s). Inr (fs_reply L ret buf, s)))"

text \<open>
  User interrupts: bit 1 of the badge (an answer of the ramdisk) is written back, bit 0 is a
  request. The result says whether the badge was written back and whether the client was woken.
\<close>

definition serve_uintr ::
  "fs_labels \<Rightarrow> (bytes \<Rightarrow> u32) \<Rightarrow> (bytes \<Rightarrow> sysargs) \<Rightarrow> u64 \<Rightarrow> bytes \<Rightarrow> 'z fstate_scheme \<Rightarrow>
   (bool \<times> bool \<times> bytes \<times> 'z fstate_scheme) res" where
  "serve_uintr L rdlabel rdargs badge buf s =
     (let back = (badge AND 2 \<noteq> 0) in
      if badge AND 1 = 0 then Inr (back, False, buf, s)
      else bnd (fs_dispatch L (rdlabel buf) (rdargs buf) s) (\<lambda>(ret, s).
           Inr (back, True, fs_reply L ret buf, s)))"

text \<open>
  Start-up: the client's working directory is looked up before the file system is initialised,
  which takes an entry of the still empty inode table and reads nothing. \<open>iinit\<close> and
  \<open>fileinit\<close> do nothing.
\<close>

definition iinit :: "'z fstate_scheme \<Rightarrow> 'z fstate_scheme" where "iinit s = s"
definition fileinit :: "'z fstate_scheme \<Rightarrow> 'z fstate_scheme" where "fileinit s = s"

definition server_init :: "'z fstate_scheme \<Rightarrow> 'z fstate_scheme res" where
  "server_init s =
     bnd (namei [SLASH] s) (\<lambda>(r, s).
     case r of
       None \<Rightarrow> Inl Fault
     | Some ip \<Rightarrow>
         let s = s\<lparr>cwd := ip, cwd_path := [SLASH]\<rparr> in
         fsinit ROOTDEV (fileinit (iinit (binit s))))"

text \<open>A run of the server: the requests of a session, one after the other.\<close>

fun fs_run :: "fs_labels \<Rightarrow> (u32 \<times> sysargs) list \<Rightarrow> 'z fstate_scheme \<Rightarrow> (int list \<times> 'z fstate_scheme) res" where
  "fs_run L [] s = Inr ([], s)"
| "fs_run L ((label, m) # rs) s =
     bnd (fs_dispatch L label m s) (\<lambda>(ret, s).
     bnd (fs_run L rs s) (\<lambda>(rets, s). Inr (ret # rets, s)))"

end
