(* ===== verification/Ledger.thy ===== *)
theory Ledger
  imports Dir
begin

text \<open>
  The reference counts of the server as a ledger. Buffers and inodes are both counted; each
  operation of fs.c is shown to leave the counts of the buffers as it found them and to move
  the counts of the inodes by exactly the references its result stands for. The same pass
  shows what no operation touches: the disk, the super block, the working directory, and the
  file table above.
\<close>

named_theorems ledger

section \<open>Counts\<close>

definition inc :: "'k \<Rightarrow> ('k \<Rightarrow> 'n :: ring_1) \<Rightarrow> 'k \<Rightarrow> 'n" where
  "inc k r = (\<lambda>x. if x = k then r x + 1 else r x)"

definition dec :: "'k \<Rightarrow> ('k \<Rightarrow> 'n :: ring_1) \<Rightarrow> 'k \<Rightarrow> 'n" where
  "dec k r = (\<lambda>x. if x = k then r x - 1 else r x)"

lemma dec_inc [simp]: "dec k (inc k r) = r"
  by (simp add: inc_def dec_def fun_eq_iff)

lemma inc_dec [simp]: "inc k (dec k r) = r"
  by (simp add: inc_def dec_def fun_eq_iff)

lemma dec_inc_swap [simp]: "dec a (inc b r) = inc b (dec a r)"
  by (auto simp: inc_def dec_def fun_eq_iff)

lemma inc_dec_under [simp]: "inc a (inc b (dec a r)) = inc b r"
  by (auto simp: inc_def dec_def fun_eq_iff)

definition brefs :: "'z bio_scheme \<Rightarrow> nat \<Rightarrow> u32" where
  "brefs s = (\<lambda>b. b_refcnt (bufs s b))"

definition irefs :: "'z fsys_scheme \<Rightarrow> nat \<Rightarrow> int" where
  "irefs s = (\<lambda>i. i_ref (itable s i))"

text \<open>What no operation of fs.c changes once the file system is up.\<close>

definition rest :: "'z fsys_scheme \<Rightarrow> (nat \<Rightarrow> bytes) \<times> superblock \<times> nat \<times> 'z" where
  "rest s = (disk s, fs_sb s, cwd s, fsys.more s)"

lemma restD: "rest t = rest s \<Longrightarrow> disk t = disk s \<and> fs_sb t = fs_sb s \<and> cwd t = cwd s"
  by (simp add: rest_def)

text \<open>\<open>even_refs s t\<close>: and the references of both tables are the ones of \<open>s\<close>.\<close>

definition even_refs :: "'z fsys_scheme \<Rightarrow> 'z fsys_scheme \<Rightarrow> bool" where
  "even_refs s t = (rest t = rest s \<and> brefs t = brefs s \<and> irefs t = irefs s)"

lemma even_refsD [ledger]: "even_refs s t \<Longrightarrow> rest t = rest s \<and> brefs t = brefs s \<and> irefs t = irefs s"
  by (simp add: even_refs_def)

lemma even_refs_refl [simp]: "even_refs s s"
  by (simp add: even_refs_def)

section \<open>The cache\<close>

lemma brefs_bread:
  assumes "bread dev n s = Inr (b, t)"
  shows "brefs t = inc b (brefs s)"
proof -
  have *: "brefs t = (brefs s)(b := brefs s b + 1)" if g: "bget dev n s = Inr (b, t)" for t :: "'a bio_scheme"
  proof -
    obtain r where r: "ring_scan RING_FUEL b_next (is_key dev n) (bufs s) (b_next (bufs s HEAD)) = Inr r"
      using g by (auto simp: bget_def Let_def elim!: bndE)
    show ?thesis
    proof (cases r)
      case None
      then obtain r' where r': "ring_scan RING_FUEL b_prev is_free (bufs s) (b_prev (bufs s HEAD)) = Inr r'"
        using g r by (auto simp: bget_def Let_def elim!: bndE)
      have *: "ring_scan fuel step p B i = Inr (Some j) \<Longrightarrow> p (B j)" for fuel step p B i j
        by (induction fuel step p B i rule: ring_scan.induct) (auto split: if_splits)
      have "r' = Some c \<Longrightarrow> b_refcnt (bufs s c) = 0" for c using r' * [of RING_FUEL b_prev is_free] by (simp add: is_free_def)
      then show ?thesis using g r None r'
        by (auto simp: bget_def Let_def brefs_def fun_eq_iff split: option.splits)
    next
      case (Some c)
      then show ?thesis using g r by (auto simp: bget_def Let_def brefs_def fun_eq_iff)
    qed
  qed
  obtain t' where g: "bget dev n s = Inr (b, t')" and "brefs t = brefs t'"
    using assms by (auto simp: bread_def disk_rw_def brefs_def fun_eq_iff elim!: bndE split: if_splits)
  then show ?thesis using * [OF g] by (auto simp: inc_def fun_eq_iff)
qed

lemma bread_ledger [ledger]:
  "bread dev n s = Inr (b, t) \<Longrightarrow> rest t = rest s \<and> brefs t = inc b (brefs s) \<and> irefs t = irefs s \<and> itable t = itable s"
  using bufs_step_bread [of dev n s b t s] brefs_bread [of dev n s b t]
  by (auto simp: rest_def bufs_step_def irefs_def)

lemma brelse_ledger [simp]:
  "rest (brelse b s) = rest s" "brefs (brelse b s) = dec b (brefs s)" "irefs (brelse b s) = irefs s"
  "itable (brelse b s) = itable s"
  using bufs_step_brelse [OF bufs_step_refl, of s b]
  by (auto simp: rest_def bufs_step_def irefs_def brefs_def dec_def fun_eq_iff brelse_fields)

lemma bdata_ledger [simp]:
  "rest (bdata b f s) = rest s" "brefs (bdata b f s) = brefs s" "irefs (bdata b f s) = irefs s"
  "itable (bdata b f s) = itable s"
  by (auto simp: rest_def irefs_def brefs_def fun_eq_iff bdata_def)

lemma iupd_ledger [simp]:
  "rest (iupd ip f s) = rest s" "brefs (iupd ip f s) = brefs s"
  by (auto simp: rest_def brefs_def fun_eq_iff iupd_def)

lemma irefs_iupd [simp]:
  "(\<And>x. i_ref (f x) = i_ref x) \<Longrightarrow> irefs (iupd ip f s) = irefs s"
  by (auto simp: irefs_def iupd_def fun_eq_iff)

section \<open>Blocks and inodes\<close>

lemma zero_block_ledger [ledger]: "zero_block dev n s = Inr t \<Longrightarrow> even_refs s t \<and> itable t = itable s"
  by (auto simp: zero_block_def even_refs_def elim!: bndE dest!: ledger)

lemma balloc_block_ledger [ledger]:
  "balloc_block dev b s = Inr (r, t) \<Longrightarrow> even_refs s t \<and> itable t = itable s"
  by (auto simp: balloc_block_def even_refs_def Let_def elim!: bndE split: option.splits dest!: ledger)

text \<open>A loop whose turns are even is even.\<close>

lemma for_upto_even:
  assumes "for_upto body i n s = Inr (r, t)" "\<And>j s r t. body j s = Inr (r, t) \<Longrightarrow> even_refs s t"
  shows "even_refs s t"
proof (cases "i \<le> n")
  case True
  show ?thesis
    by (rule for_upto_rule [OF assms(1), where I = "\<lambda>_. even_refs s" and Q = "\<lambda>_. even_refs s"])
      (use True in \<open>auto simp: even_refs_def dest!: assms(2)\<close>)
next
  case False
  then show ?thesis using assms(1) by simp
qed

lemma balloc_ledger [ledger]: "balloc dev s = Inr (a, t) \<Longrightarrow> even_refs s t"
  by (auto simp: balloc_def elim!: bndE for_upto_even dest!: balloc_block_ledger)

lemma bfree_ledger [ledger]: "bfree dev b s = Inr t \<Longrightarrow> even_refs s t"
  by (auto simp: bfree_def even_refs_def Let_def elim!: bndE split: if_splits dest!: ledger)

lemma iupdate_ledger [ledger]: "iupdate ip s = Inr t \<Longrightarrow> even_refs s t"
  by (auto simp: iupdate_def even_refs_def Let_def elim!: bndE dest!: ledger)

lemma ilock_ledger [ledger]: "ilock ip s = Inr t \<Longrightarrow> even_refs s t \<and> 0 < irefs s ip"
  by (auto simp: ilock_def even_refs_def Let_def load_dinode_def elim!: bndE split: if_splits dest!: ledger)
    (auto simp: irefs_def)

lemma iunlock_id [simp]: "iunlock ip s = s"
  by (simp add: iunlock_def)

lemma iget_ledger [ledger]:
  "iget dev inum s = Inr (ip, t) \<Longrightarrow> rest t = rest s \<and> brefs t = brefs s \<and> irefs t = inc ip (irefs s) \<and> ip < NINODE"
  by (auto simp: iget_def irefs_def iupd_def inc_def scan_Some fun_eq_iff rest_def brefs_def split: option.splits)

lemma idup_ledger [ledger]:
  "idup ip s = (jp, t) \<Longrightarrow> rest t = rest s \<and> brefs t = brefs s \<and> irefs t = inc ip (irefs s) \<and> jp = ip"
  by (auto simp: idup_def irefs_def iupd_def inc_def fun_eq_iff rest_def brefs_def)

lemma ialloc_try_ledger:
  "ialloc_try dev type k s = Inr (r, t) \<Longrightarrow> rest t = rest s \<and> brefs t = brefs s \<and>
     (case r of None \<Rightarrow> irefs t = irefs s | Some ip \<Rightarrow> irefs t = inc ip (irefs s) \<and> ip < NINODE)"
  by (auto simp: ialloc_try_def Let_def elim!: bndE split: if_splits dest!: ledger)

lemma ialloc_ledger [ledger]:
  assumes "ialloc dev type s = Inr (r, t)"
  shows "rest t = rest s \<and> brefs t = brefs s \<and>
     (case r of None \<Rightarrow> irefs t = irefs s | Some ip \<Rightarrow> irefs t = inc ip (irefs s) \<and> ip < NINODE)"
proof (cases "1 \<le> unat (sb_ninodes (fs_sb s))")
  case True
  let ?Q = "\<lambda>r t. rest t = rest s \<and> brefs t = brefs s \<and>
     (case r of None \<Rightarrow> irefs t = irefs s | Some ip \<Rightarrow> irefs t = inc ip (irefs s) \<and> ip < NINODE)"
  show ?thesis
    by (rule for_upto_rule [OF assms [unfolded ialloc_def], where I = "\<lambda>_. ?Q None" and Q = ?Q])
      (use True in \<open>auto dest!: ialloc_try_ledger\<close>)
next
  case False
  then show ?thesis using assms by (simp add: ialloc_def)
qed

section \<open>Block map and contents\<close>

lemma addr_slot_ledger [ledger]: "addr_slot ip k s = Inr (a, t) \<Longrightarrow> even_refs s t"
  by (auto simp: addr_slot_def even_refs_def Let_def elim!: bndE split: if_splits dest!: ledger)

lemma ind_slot_ledger [ledger]: "ind_slot dev bp j s = Inr (a, t) \<Longrightarrow> even_refs s t"
  by (auto simp: ind_slot_def even_refs_def Let_def elim!: bndE split: if_splits dest!: ledger)

lemma bmap_ledger [ledger]: "bmap ip bn s = Inr (a, t) \<Longrightarrow> even_refs s t"
  by (auto simp: bmap_def Let_def elim!: bndE split: if_splits dest!: ledger; simp add: even_refs_def)

lemma trunc_direct_ledger [ledger]: "trunc_direct ip i s = Inr (r, t) \<Longrightarrow> even_refs s t"
  by (auto simp: trunc_direct_def even_refs_def Let_def elim!: bndE split: if_splits dest!: ledger)

lemma trunc_entry_ledger [ledger]: "trunc_entry dev bp j s = Inr (r, t) \<Longrightarrow> even_refs s t"
  by (auto simp: trunc_entry_def Let_def elim!: bndE split: if_splits dest!: bfree_ledger)

lemma trunc_entries_ledger [ledger]: "for_upto (trunc_entry dev bp) i n s = Inr (r, t) \<Longrightarrow> even_refs s t"
  by (erule for_upto_even) (rule trunc_entry_ledger)

lemma trunc_directs_ledger [ledger]: "for_upto (trunc_direct ip) i n s = Inr (r, t) \<Longrightarrow> even_refs s t"
  by (erule for_upto_even) (rule trunc_direct_ledger)

lemma trunc_entry2_ledger [ledger]: "trunc_entry2 dev bp i s = Inr (r, t) \<Longrightarrow> even_refs s t"
  by (auto simp: trunc_entry2_def Let_def elim!: bndE split: if_splits
      dest!: ledger; simp add: even_refs_def)

lemma trunc_entries2_ledger [ledger]: "for_upto (trunc_entry2 dev bp) i n s = Inr (r, t) \<Longrightarrow> even_refs s t"
  by (erule for_upto_even) (rule trunc_entry2_ledger)

lemma itrunc_ledger [ledger]: "itrunc ip s = Inr t \<Longrightarrow> even_refs s t"
  by (auto simp: itrunc_def Let_def elim!: bndE split: if_splits
      dest!: ledger; simp add: even_refs_def)

lemma irefs_drop [simp]: "irefs (iupd ip (\<lambda>x. x\<lparr>i_ref := i_ref x - 1\<rparr>) s) = dec ip (irefs s)"
  by (auto simp: irefs_def iupd_def dec_def fun_eq_iff)

lemma iput_ledger [ledger]:
  "iput ip s = Inr t \<Longrightarrow> rest t = rest s \<and> brefs t = brefs s \<and> irefs t = dec ip (irefs s)"
  by (auto simp: iput_def Let_def elim!: bndE split: if_splits dest!: ledger)

lemma iunlockput_ledger [ledger]:
  "iunlockput ip s = Inr t \<Longrightarrow> rest t = rest s \<and> brefs t = brefs s \<and> irefs t = dec ip (irefs s)"
  by (simp add: iunlockput_def iput_ledger)

lemma readi_loop_ledger: "readi_loop ip off n tot acc s = Inr (bs, t) \<Longrightarrow> even_refs s t"
proof (induction ip off n tot acc s rule: readi_loop.induct)
  case (1 ip off n tot acc s)
  show ?case
  proof (cases "tot < n")
    case True
    obtain a s1 where b: "bmap ip (of_nat (off div BSIZE)) s = Inr (a, s1)"
      using "1.prems" True by (subst (asm) readi_loop.simps) (auto elim!: bndE)
    show ?thesis
    proof (cases "a = 0")
      case False
      then obtain bp s2 where r: "bread (i_dev (itable s1 ip)) a s1 = Inr (bp, s2)"
        using "1.prems" True b by (subst (asm) readi_loop.simps) (auto elim!: bndE)
      have "even_refs (brelse bp s2) t"
        using "1.IH" [OF True b refl False r refl refl] "1.prems" True False b r
        by (subst (asm) readi_loop.simps) (simp add: Let_def)
      then show ?thesis using b r by (auto dest!: ledger simp: even_refs_def)
    qed (use "1.prems" True b in \<open>subst (asm) readi_loop.simps; auto dest!: bmap_ledger\<close>)
  qed (use "1.prems" in \<open>subst (asm) readi_loop.simps; auto\<close>)
qed

lemma readi_ledger [ledger]: "readi ip off n s = Inr (bs, t) \<Longrightarrow> even_refs s t"
  by (auto simp: readi_def Let_def split: if_splits dest!: readi_loop_ledger)

lemma writei_loop_ledger: "writei_loop ip src off n tot s = Inr (k, t) \<Longrightarrow> even_refs s t"
proof (induction ip src off n tot s rule: writei_loop.induct)
  case (1 ip src off n tot s)
  show ?case
  proof (cases "tot < n")
    case True
    obtain a s1 where b: "bmap ip (of_nat (off div BSIZE)) s = Inr (a, s1)"
      using "1.prems" True by (subst (asm) writei_loop.simps) (auto elim!: bndE)
    show ?thesis
    proof (cases "a = 0")
      case False
      then obtain bp s2 where r: "bread (i_dev (itable s1 ip)) a s1 = Inr (bp, s2)"
        using "1.prems" True b by (subst (asm) writei_loop.simps) (auto elim!: bndE)
      let ?m = "min (n - tot) (BSIZE - off mod BSIZE)"
      have "even_refs (brelse bp (bdata bp (\<lambda>d. copy d (off mod BSIZE) src tot ?m) s2)) t"
        using "1.IH" [OF True b refl False r refl refl] "1.prems" True False b r
        by (subst (asm) writei_loop.simps) (simp add: Let_def)
      then show ?thesis using b r by (auto dest!: ledger simp: even_refs_def)
    qed (use "1.prems" True b in \<open>subst (asm) writei_loop.simps; auto dest!: bmap_ledger\<close>)
  qed (use "1.prems" in \<open>subst (asm) writei_loop.simps; auto\<close>)
qed

lemma writei_ledger [ledger]: "writei ip src off n s = Inr (w, t) \<Longrightarrow> even_refs s t"
  by (auto simp: writei_def even_refs_def Let_def elim!: bndE split: if_splits
      dest!: writei_loop_ledger iupdate_ledger even_refsD)

section \<open>Directories and paths\<close>

lemma read_dirent_ledger [ledger]: "read_dirent e dp k s = Inr (de, t) \<Longrightarrow> even_refs s t"
  by (auto simp: read_dirent_def elim!: bndE split: if_splits dest!: readi_ledger)

text \<open>A result that is an inode carries one reference to it.\<close>

definition carries :: "nat option \<Rightarrow> 'z fsys_scheme \<Rightarrow> 'z fsys_scheme \<Rightarrow> bool" where
  "carries r s t = (rest t = rest s \<and> brefs t = brefs s \<and>
     (case r of None \<Rightarrow> irefs t = irefs s | Some ip \<Rightarrow> irefs t = inc ip (irefs s) \<and> ip < NINODE))"

lemma carriesD [ledger]: "carries r s t \<Longrightarrow> rest t = rest s \<and> brefs t = brefs s \<and>
     (case r of None \<Rightarrow> irefs t = irefs s | Some ip \<Rightarrow> irefs t = inc ip (irefs s) \<and> ip < NINODE)"
  by (simp add: carries_def)

lemma for_upto_carries:
  assumes run: "for_upto body i n s = Inr (r, t)"
    and body: "\<And>j s r t. body j s = Inr (r, t) \<Longrightarrow> carries (map_option g r) s t"
  shows "carries (map_option g r) s t"
proof (cases "i \<le> n")
  case True
  show ?thesis
    by (rule for_upto_rule [OF run, where I = "\<lambda>_. carries None s" and Q = "\<lambda>r. carries (map_option g r) s"])
      (use True in \<open>auto simp: carries_def dest!: body\<close>)
next
  case False
  then show ?thesis using run by (simp add: carries_def)
qed

lemma dirlookup_try_ledger: "dirlookup_try dp name k s = Inr (r, t) \<Longrightarrow> carries (map_option fst r) s t"
  by (auto simp: dirlookup_try_def carries_def elim!: bndE split: if_splits dest!: ledger)

lemma dirlookup_ledger [ledger]: "dirlookup dp name s = Inr (r, t) \<Longrightarrow> carries (map_option fst r) s t"
  by (auto simp: dirlookup_def split: if_splits elim!: for_upto_carries dest!: dirlookup_try_ledger)

lemma dirlink_try_ledger: "dirlink_try dp k s = Inr (r, t) \<Longrightarrow> even_refs s t"
  by (auto simp: dirlink_try_def elim!: bndE dest!: read_dirent_ledger)

lemma dirlink_scan_ledger [ledger]: "for_upto (dirlink_try dp) i n s = Inr (r, t) \<Longrightarrow> even_refs s t"
  by (erule for_upto_even) (rule dirlink_try_ledger)

lemma dirlink_ledger [ledger]: "dirlink dp name inum s = Inr (r, t) \<Longrightarrow> even_refs s t"
  by (auto simp: dirlink_def Let_def even_refs_def elim!: bndE split: option.splits if_splits dest!: ledger)

lemma namex_loop_ledger:
  "namex_loop par ip path name s = Inr (r, nm, t) \<Longrightarrow> ip < NINODE \<Longrightarrow>
     rest t = rest s \<and> brefs t = brefs s \<and>
     irefs t = (case r of None \<Rightarrow> dec ip (irefs s) | Some jp \<Rightarrow> inc jp (dec ip (irefs s))) \<and>
     (\<forall>jp. r = Some jp \<longrightarrow> jp < NINODE)"
proof (induction par ip path name s rule: namex_loop.induct)
  case (1 par ip path name s)
  show ?case
  proof (cases "skipelem path")
    case None
    then show ?thesis using "1.prems"
      by (subst (asm) namex_loop.simps) (auto elim!: bndE split: if_splits dest!: iput_ledger)
  next
    case (Some e)
    obtain name' path' where e: "e = (name', path')" by (cases e)
    obtain s1 where l: "ilock ip s = Inr s1"
      using "1.prems" Some e by (subst (asm) namex_loop.simps) (auto elim!: bndE)
    show ?thesis
    proof (cases "i_type (itable s1 ip) \<noteq> T_DIR \<or> par \<and> path' = []")
      case True
      then show ?thesis using "1.prems" Some e l
        by (subst (asm) namex_loop.simps) (auto elim!: bndE split: if_splits dest!: ledger)
    next
      case False
      then obtain q s2 where d: "dirlookup ip name' s1 = Inr (q, s2)"
        using "1.prems" Some e l by (subst (asm) namex_loop.simps) (auto elim!: bndE)
      show ?thesis
      proof (cases q)
        case None
        then show ?thesis using "1.prems" Some e l d False
          by (subst (asm) namex_loop.simps) (auto elim!: bndE split: if_splits dest!: ledger)
      next
        case (Some q')
        obtain jp off where q': "q' = (jp, off)" by (cases q')
        obtain s3 where u: "iunlockput ip s2 = Inr s3"
          and n: "namex_loop par jp path' name' s3 = Inr (r, nm, t)"
          using "1.prems" \<open>skipelem path = Some e\<close> e l d False Some q'
          by (subst (asm) namex_loop.simps) (auto elim!: bndE split: if_splits)
        have jp: "jp < NINODE" and s2: "rest s2 = rest s" "brefs s2 = brefs s" "irefs s2 = inc jp (irefs s)"
          using l d Some q' by (auto dest!: ledger)
        have f: "\<not> i_type (itable s1 ip) \<noteq> T_DIR" "\<not> (par \<and> path' = [])" using False by auto
        show ?thesis
          using "1.IH" [OF \<open>skipelem path = Some e\<close> e [symmetric] l f d refl Some q' [symmetric] u n jp] s2 u
          by (auto dest!: iunlockput_ledger split: option.splits)
      qed
    qed
  qed
qed

lemma namex_ledger:
  assumes "namex path par s = Inr (r, nm, t)" "cwd s < NINODE"
  shows "carries r s t"
proof -
  obtain ip s1 where i: "(if chr path = SLASH then iget ROOTDEV ROOTINO s else Inr (idup (cwd s) s)) = Inr (ip, s1)"
    and n: "namex_loop par ip path [] s1 = Inr (r, nm, t)"
    using assms(1) by (auto simp: namex_def elim!: bndE split: if_splits prod.splits)
  have s1: "rest s1 = rest s" "brefs s1 = brefs s" "irefs s1 = inc ip (irefs s)" "ip < NINODE"
    using i assms(2) by (auto split: if_splits dest!: ledger)
  show ?thesis using namex_loop_ledger [OF n s1(4)] s1 by (auto simp: carries_def split: option.splits)
qed

lemma namei_ledger: "namei path s = Inr (r, t) \<Longrightarrow> cwd s < NINODE \<Longrightarrow> carries r s t"
  by (auto simp: namei_def elim!: bndE dest!: namex_ledger)

lemma nameiparent_ledger: "nameiparent path s = Inr (r, nm, t) \<Longrightarrow> cwd s < NINODE \<Longrightarrow> carries r s t"
  unfolding nameiparent_def by (rule namex_ledger)

end
