(* ===== verification/Safety.thy ===== *)
theory Safety
  imports Dir
begin

text \<open>
  Invariants through the whole of fs.c. The interface \<open>safe_ops\<close> names the primitive steps
  every operation is made of (read, release and update a buffer; take, copy and drop a
  reference to an inode; update the fields of an inode in memory) and asks an invariant of
  them; its lemmas carry the invariant through every operation and bound the panics that can
  occur. It is interpreted on the invariant of the buffer cache and the inode table.
\<close>

section \<open>Postconditions\<close>

definition post :: "('a \<Rightarrow> bool) \<Rightarrow> (panic \<Rightarrow> bool) \<Rightarrow> 'a res \<Rightarrow> bool" where
  "post Q E m = (case m of Inl e \<Rightarrow> E e | Inr x \<Rightarrow> Q x)"

lemma post_Inl [simp]: "post Q E (Inl e) = E e"
  by (simp add: post_def)

lemma post_Inr [simp]: "post Q E (Inr x) = Q x"
  by (simp add: post_def)

lemma post_bnd: "post R E m \<Longrightarrow> (\<And>x. R x \<Longrightarrow> post Q E (f x)) \<Longrightarrow> post Q E (bnd m f)"
  by (cases m) auto

lemma post_bnd_eq:
  "post R E m \<Longrightarrow> (\<And>x. m = Inr x \<Longrightarrow> R x \<Longrightarrow> post Q E (f x)) \<Longrightarrow> post Q E (bnd m f)"
  by (cases m) auto

lemma post_mono: "post R E m \<Longrightarrow> (\<And>x. R x \<Longrightarrow> Q x) \<Longrightarrow> post Q E m"
  by (cases m) auto

lemma post_InrD: "post Q E m \<Longrightarrow> m = Inr x \<Longrightarrow> Q x"
  by simp

lemma post_InlD: "post Q E m \<Longrightarrow> m = Inl e \<Longrightarrow> E e"
  by simp

lemma post_guardE: "E e \<Longrightarrow> post (\<lambda>_. b) E (guardE e b)"
  by (cases b) auto

lemma post_for_upto:
  assumes "P s" "\<And>j s. P s \<Longrightarrow> post (\<lambda>(r, t). P t) E (body j s)"
  shows "post (\<lambda>(r, t). P t) E (for_upto body i n s)"
  using assms
proof (induction body i n s rule: for_upto.induct)
  case (1 body i n s)
  show ?case
  proof (cases "i < n")
    case True
    show ?thesis
    proof (cases "body i s")
      case (Inl e)
      then show ?thesis using "1.prems"(2) [OF "1.prems"(1), of i] True by (simp add: for_upto_step)
    next
      case (Inr x)
      obtain r t where x: "x = (r, t)" by (cases x)
      have t: "P t" using "1.prems"(2) [OF "1.prems"(1), of i] Inr x by simp
      show ?thesis
      proof (cases r)
        case None
        have "post (\<lambda>(r, t). P t) E (for_upto body (Suc i) n t)"
          by (rule "1.IH" [OF True Inr x [symmetric] None t "1.prems"(2)])
        then show ?thesis using True Inr x None by (simp add: for_upto_step)
      next
        case (Some v)
        then show ?thesis using True Inr x t by (simp add: for_upto_step)
      qed
    qed
  qed (use "1.prems"(1) in simp)
qed

section \<open>The interface\<close>

text \<open>An update of an inode that is not about which inode it is or who holds it.\<close>

definition keeps_identity :: "(inode \<Rightarrow> inode) \<Rightarrow> bool" where
  "keeps_identity f = (\<forall>x. i_dev (f x) = i_dev x \<and> i_inum (f x) = i_inum x \<and> i_ref (f x) = i_ref x \<and>
     (length (i_addrs x) = NADDRS \<longrightarrow> length (i_addrs (f x)) = NADDRS))"

text \<open>The panics the operations of fs.c raise themselves.\<close>

definition fs_panic :: "panic \<Rightarrow> bool" where
  "fs_panic e = (e \<in> {BgetNoBuffers, Fault, FreeingFreeBlock, IgetNoInodes, IlockPanic, IlockNoType,
     BmapOutOfRange, DirlookupNotDir, DirlookupRead, DirlinkRead, IsdiremptyRead, UnlinkNlink,
     UnlinkWritei, AssertFailed})"

locale safe_ops =
  fixes P :: "'z fsys_scheme \<Rightarrow> bool" and E :: "panic \<Rightarrow> bool"
  assumes P_bread: "P s \<Longrightarrow> post (\<lambda>(b, t). P t \<and> b < NBUF) E (bread dev n s)"
    and P_brelse: "P s \<Longrightarrow> b < NBUF \<Longrightarrow> P (brelse b s)"
    and P_bdata: "P s \<Longrightarrow> b < NBUF \<Longrightarrow> P (bdata b f s)"
    and P_iupd: "P s \<Longrightarrow> keeps_identity g \<Longrightarrow> P (iupd ip g s)"
    and P_iget: "P s \<Longrightarrow> post (\<lambda>(ip, t). P t) E (iget dev inum s)"
    and P_idup: "P s \<Longrightarrow> 0 < i_ref (itable s ip) \<Longrightarrow> P (snd (idup ip s))"
    and P_drop: "P s \<Longrightarrow> P (iupd ip (\<lambda>x. x\<lparr>i_ref := i_ref x - 1\<rparr>) s)"
    and E_fs: "fs_panic e \<Longrightarrow> E e"
begin

lemmas prim = P_bread P_brelse P_bdata P_iupd P_iget P_drop

lemma E_simps [simp]:
  "E FreeingFreeBlock" "E IlockPanic" "E IlockNoType" "E BmapOutOfRange" "E DirlookupNotDir"
  "E DirlookupRead" "E DirlinkRead" "E IsdiremptyRead" "E UnlinkNlink" "E UnlinkWritei" "E AssertFailed"
  by (simp_all add: E_fs fs_panic_def)

text \<open>Shapes of the two kinds of goals: a result with a value, a result that is a state.\<close>

abbreviation keeps :: "('v \<times> 'z fsys_scheme) res \<Rightarrow> bool" where
  "keeps m \<equiv> post (\<lambda>(r, t). P t) E m"

abbreviation keep :: "'z fsys_scheme res \<Rightarrow> bool" where
  "keep m \<equiv> post P E m"

lemma bnd_keeps: "keeps m \<Longrightarrow> (\<And>r t. P t \<Longrightarrow> post Q E (f (r, t))) \<Longrightarrow> post Q E (bnd m f)"
  by (rule post_bnd [where R = "\<lambda>(r, t). P t"]) auto

lemma bnd_keep: "keep m \<Longrightarrow> (\<And>t. P t \<Longrightarrow> post Q E (f t)) \<Longrightarrow> post Q E (bnd m f)"
  by (rule post_bnd [where R = P]) auto

lemma bnd_bread: "P s \<Longrightarrow> (\<And>b t. P t \<Longrightarrow> b < NBUF \<Longrightarrow> post Q E (f (b, t))) \<Longrightarrow> post Q E (bnd (bread dev n s) f)"
  by (rule post_bnd [OF P_bread]) auto

lemma zero_block: "P s \<Longrightarrow> keep (zero_block dev n s)"
  unfolding zero_block_def by (auto intro!: bnd_bread P_brelse P_bdata)

lemma balloc_block: "P s \<Longrightarrow> keeps (balloc_block dev b s)"
  unfolding balloc_block_def
  by (auto simp: Let_def intro!: bnd_bread bnd_keep [OF zero_block] P_brelse P_bdata split: option.split)

lemma balloc: "P s \<Longrightarrow> keeps (balloc dev s)"
  unfolding balloc_def by (rule bnd_keeps [OF post_for_upto]) (auto intro: balloc_block)

lemma bfree: "P s \<Longrightarrow> keep (bfree dev b s)"
  unfolding bfree_def by (auto simp: Let_def intro!: bnd_bread P_brelse P_bdata)

lemma iupdate: "P s \<Longrightarrow> keep (iupdate ip s)"
  unfolding iupdate_def by (auto simp: Let_def intro!: bnd_bread P_brelse P_bdata)

lemma keeps_identity_load: "length (di_addrs d) = NADDRS \<Longrightarrow> keeps_identity (load_dinode d)"
  by (simp add: keeps_identity_def load_dinode_def)

lemma length_get_dinode [simp]: "length (di_addrs (get_dinode m i)) = NADDRS"
  by (simp add: get_dinode_def get_addrs_def Let_def)

lemma keeps_identity_simps [simp]:
  "keeps_identity (\<lambda>x. x\<lparr>i_valid := v\<rparr>)" "keeps_identity (\<lambda>x. x\<lparr>i_type := w\<rparr>)"
  "keeps_identity (\<lambda>x. x\<lparr>i_size := z\<rparr>)" "keeps_identity (\<lambda>x. x\<lparr>i_addrs := (i_addrs x)[k := a]\<rparr>)"
  "keeps_identity (\<lambda>x. x\<lparr>i_nlink := g x\<rparr>)"
  "keeps_identity (\<lambda>x. x\<lparr>i_major := ma, i_minor := mi, i_nlink := g x, i_size := z\<rparr>)"
  by (simp_all add: keeps_identity_def)

lemma ilock: "P s \<Longrightarrow> keep (ilock ip s)"
  unfolding ilock_def
  by (auto simp: Let_def intro!: bnd_bread P_brelse P_iupd keeps_identity_load)

lemma iunlock: "P s \<Longrightarrow> P (iunlock ip s)"
  by (simp add: iunlock_def)

lemma ialloc_try: "P s \<Longrightarrow> keeps (ialloc_try dev type k s)"
  unfolding ialloc_try_def
  by (auto simp: Let_def intro!: bnd_bread bnd_keeps [OF P_iget] P_brelse P_bdata)

lemma ialloc: "P s \<Longrightarrow> keeps (ialloc dev type s)"
  unfolding ialloc_def by (rule post_for_upto) (auto intro: ialloc_try)

lemma addr_slot: "P s \<Longrightarrow> keeps (addr_slot ip k s)"
  unfolding addr_slot_def by (auto simp: Let_def intro!: bnd_keeps [OF balloc] P_iupd)

lemma ind_slot: "P s \<Longrightarrow> b < NBUF \<Longrightarrow> keeps (ind_slot dev b j s)"
  unfolding ind_slot_def by (auto simp: Let_def intro!: bnd_keeps [OF balloc] P_bdata)

lemma bmap: "P s \<Longrightarrow> keeps (bmap ip bn s)"
  unfolding bmap_def
  by (auto simp: Let_def intro!: addr_slot bnd_keeps [OF addr_slot] bnd_keeps [OF ind_slot] bnd_bread P_brelse)

lemma trunc_direct: "P s \<Longrightarrow> keeps (trunc_direct ip i s)"
  unfolding trunc_direct_def by (auto simp: Let_def intro!: bnd_keep [OF bfree] P_iupd)

lemma trunc_entry: "P s \<Longrightarrow> keeps (trunc_entry dev b j s)"
  unfolding trunc_entry_def by (auto simp: Let_def intro!: bnd_keep [OF bfree])

lemma trunc_entry2: "P s \<Longrightarrow> keeps (trunc_entry2 dev b i s)"
  unfolding trunc_entry2_def
  by (auto simp: Let_def intro!: bnd_bread bnd_keeps [OF post_for_upto] trunc_entry bnd_keep [OF bfree] P_brelse)

lemma trunc_indirect:
  assumes "P s" "keeps_identity g" "\<And>bp j s. P s \<Longrightarrow> bp < NBUF \<Longrightarrow> keeps (body bp j s)"
  shows "keep (bnd (bread dev a s) (\<lambda>(bp, s). bnd (for_upto (body bp) 0 n s) (\<lambda>(_, s).
     bnd (bfree dev a (brelse bp s)) (\<lambda>s. Inr (iupd ip g s)))))"
  using assms
  by (auto intro!: bnd_bread bnd_keeps [OF post_for_upto] bnd_keep [OF bfree] P_brelse P_iupd)

lemma itrunc: "P s \<Longrightarrow> keep (itrunc ip s)"
  unfolding itrunc_def Let_def
  by (rule bnd_keeps [OF post_for_upto], assumption, erule trunc_direct, unfold prod.case, rule bnd_keep,
      simp add: trunc_indirect trunc_entry, rule bnd_keep, simp add: trunc_indirect trunc_entry2,
      simp add: iupdate P_iupd)

lemma iput: "P s \<Longrightarrow> keep (iput ip s)"
  unfolding iput_def Let_def
  by (rule bnd_keep) (auto intro!: bnd_keep [OF itrunc] bnd_keep [OF iupdate] P_iupd P_drop)

lemma iunlockput: "P s \<Longrightarrow> keep (iunlockput ip s)"
  by (simp add: iunlockput_def iput iunlock)

lemma readi_loop: "P s \<Longrightarrow> keeps (readi_loop ip off n tot acc s)"
proof (induction ip off n tot acc s rule: readi_loop.induct)
  case (1 ip off n tot acc s)
  show ?case
    by (subst readi_loop.simps)
      (auto simp: Let_def intro!: post_bnd_eq [OF bmap [OF 1(2)]] post_bnd_eq [OF P_bread] "1.IH" P_brelse "1.prems")
qed

lemma readi: "P s \<Longrightarrow> keeps (readi ip off n s)"
  by (simp add: readi_def Let_def readi_loop)

lemma writei_loop: "P s \<Longrightarrow> keeps (writei_loop ip src off n tot s)"
proof (induction ip src off n tot s rule: writei_loop.induct)
  case (1 ip src off n tot s)
  show ?case
    by (subst writei_loop.simps)
      (auto simp: Let_def intro!: post_bnd_eq [OF bmap [OF 1(2)]] post_bnd_eq [OF P_bread] "1.IH" P_brelse
        P_bdata "1.prems")
qed

lemma writei: "P s \<Longrightarrow> keeps (writei ip src off n s)"
  unfolding writei_def
  by (auto simp: Let_def intro!: bnd_keeps [OF writei_loop] bnd_keep [OF iupdate] P_iupd)

lemma read_dirent: "P s \<Longrightarrow> E e \<Longrightarrow> keeps (read_dirent e dp k s)"
  unfolding read_dirent_def by (auto intro!: bnd_keeps [OF readi])

lemma dirlookup: "P s \<Longrightarrow> keeps (dirlookup dp name s)"
  by (auto simp: dirlookup_def dirlookup_try_def intro!: post_for_upto bnd_keeps [OF read_dirent] bnd_keeps [OF P_iget])

lemma dirlink: "P s \<Longrightarrow> keeps (dirlink dp name inum s)"
  unfolding dirlink_def
  by (auto simp: dirlink_try_def Let_def intro!: bnd_keeps [OF dirlookup] bnd_keep [OF iput] bnd_keeps [OF post_for_upto]
      bnd_keeps [OF read_dirent] bnd_keeps [OF writei] split: option.split)

lemma namex_loop: "P s \<Longrightarrow> post (\<lambda>(r, nm, t). P t) E (namex_loop par ip path name s)"
proof (induction par ip path name s rule: namex_loop.induct)
  case (1 par ip path name s)
  have IH: "post (\<lambda>(r, nm, t). P t) E (namex_loop par' jp path' name' s3)"
    if "skipelem path = Some (name', path')" "ilock ip s = Inr s1" "i_type (itable s1 ip) = T_DIR"
      "\<not> (par \<and> path' = [])" "dirlookup ip name' s1 = Inr (Some (jp, off), s2)"
      "iunlockput ip s2 = Inr s3" "P s3" "par' = par" for par' name' path' s1 jp off s2 s3
    using "1.IH" [OF that(1) refl that(2) _ that(4,5) refl refl refl that(6,7)] that(3,8) by simp
  show ?case
    by (subst namex_loop.simps)
      (auto simp: "1.prems" intro!: post_bnd_eq [OF ilock] post_bnd_eq [OF iput] post_bnd_eq [OF iunlockput]
        post_bnd_eq [OF dirlookup] iunlock split: option.split;
        rule IH, assumption, assumption, assumption, simp, assumption, assumption, assumption, simp)
qed

lemma namex: "P s \<Longrightarrow> 0 < i_ref (itable s (cwd s)) \<Longrightarrow> post (\<lambda>(r, nm, t). P t) E (namex path par s)"
  using P_idup [of s "cwd s"]
  by (auto simp: namex_def intro!: bnd_keeps [OF P_iget] namex_loop split: prod.split)

lemma namei: "P s \<Longrightarrow> 0 < i_ref (itable s (cwd s)) \<Longrightarrow> keeps (namei path s)"
  unfolding namei_def by (rule post_bnd [OF namex]) auto

lemma nameiparent: "P s \<Longrightarrow> 0 < i_ref (itable s (cwd s)) \<Longrightarrow> post (\<lambda>(r, nm, t). P t) E (nameiparent path s)"
  unfolding nameiparent_def by (rule namex)

end

section \<open>The buffer cache and the inode table\<close>

text \<open>No two entries in use are the same inode; the array of addresses has its length.\<close>

definition table_ok :: "(nat \<Rightarrow> inode) \<Rightarrow> bool" where
  "table_ok T = ((\<forall>i < NINODE. \<forall>j < NINODE. 0 < i_ref (T i) \<and> 0 < i_ref (T j) \<and>
       i_dev (T i) = i_dev (T j) \<and> i_inum (T i) = i_inum (T j) \<longrightarrow> i = j) \<and>
     (\<forall>i < NINODE. length (i_addrs (T i)) = NADDRS))"

definition mem_ok :: "'z fsys_scheme \<Rightarrow> bool" where
  "mem_ok s = (cache_ok s \<and> table_ok (itable s))"

lemma cache_ok_upd:
  assumes "order_ok (bufs s) xs" "uniq ((bufs s)(b := x))" "b_next x = b_next (bufs s b)" "b_prev x = b_prev (bufs s b)"
  shows "cache_ok (s\<lparr>bufs := (bufs s)(b := x)\<rparr>)"
  using order_ok_upd [of x "bufs s" b xs] assms by (auto simp: cache_ok_def)

text \<open>Whatever the device number, \<open>bget\<close> keeps the list and the uniqueness of the keys.\<close>

lemma cache_ok_bget: "cache_ok s \<Longrightarrow> post (\<lambda>(b, t). cache_ok t \<and> b < NBUF) fs_panic (bget dev n s)"
proof -
  assume ok: "cache_ok s"
  then obtain xs where xs: "order_ok (bufs s) xs" and u: "uniq (bufs s)" by (auto simp: cache_ok_def)
  show ?thesis
  proof (cases "find (\<lambda>i. is_key dev n (bufs s i)) xs")
    case None
    then have m: "\<not> hits s dev n b" for b using find_no_hit [OF xs] by blast
    then have k: "\<not> is_key dev n (bufs s j)" if "j < NBUF" for j using that by (simp add: hits_def)
    show ?thesis
      using xs u k find_rev_free [of "\<lambda>i. is_free (bufs s i)" xs]
      by (auto simp: bget_miss [OF xs m] fs_panic_def order_ok_def [of "bufs s"] split: option.split
          intro!: cache_ok_upd [OF xs] uniq_upd)
  next
    case (Some b)
    then have "b < NBUF" using find_hit [OF xs] by (simp add: hits_def)
    then show ?thesis using Some
      by (auto simp: bget_def Let_def scan_next [OF xs] intro!: cache_ok_upd [OF xs] uniq_same [OF u])
  qed
qed

lemma cache_ok_bread_any: "cache_ok s \<Longrightarrow> post (\<lambda>(b, t). cache_ok t \<and> b < NBUF) fs_panic (bread dev n s)"
  unfolding bread_def
  by (rule post_bnd [OF cache_ok_bget])
    (auto simp: disk_rw_def fs_panic_def cache_ok_def [of t for t] intro!: cache_ok_upd uniq_same exI
      simp: order_ok_upd)

lemma bread_itable: "bread dev n s = Inr (b, t) \<Longrightarrow> itable t = itable s"
  using bufs_step_bread [of dev n s b t s] by (simp add: bufs_step_fsys)

definition same_inode :: "inode \<Rightarrow> inode \<Rightarrow> bool" where
  "same_inode x y = (i_dev x = i_dev y \<and> i_inum x = i_inum y)"

lemma table_ok_upd:
  assumes T: "table_ok T" and l: "ip < NINODE \<Longrightarrow> length (i_addrs x) = NADDRS"
    and u: "\<And>j. j < NINODE \<Longrightarrow> j \<noteq> ip \<Longrightarrow> 0 < i_ref x \<Longrightarrow> 0 < i_ref (T j) \<Longrightarrow> \<not> same_inode x (T j)"
  shows "table_ok (T(ip := x))"
  unfolding table_ok_def
proof (intro conjI allI impI, elim conjE)
  fix i j assume ij: "i < NINODE" "j < NINODE" "0 < i_ref ((T(ip := x)) i)" "0 < i_ref ((T(ip := x)) j)"
    and k: "i_dev ((T(ip := x)) i) = i_dev ((T(ip := x)) j)" "i_inum ((T(ip := x)) i) = i_inum ((T(ip := x)) j)"
  show "i = j"
  proof (cases "i = ip \<or> j = ip")
    case True
    then show ?thesis using ij k u [of i] u [of j] by (auto simp: same_inode_def split: if_splits)
  next
    case False
    then show ?thesis using T ij k unfolding table_ok_def by (metis fun_upd_other)
  qed
next
  fix i assume "i < NINODE"
  then show "length (i_addrs ((T(ip := x)) i)) = NADDRS" using T l by (simp add: table_ok_def)
qed

lemma table_okD: "table_ok T \<Longrightarrow> i < NINODE \<Longrightarrow> j < NINODE \<Longrightarrow> 0 < i_ref (T i) \<Longrightarrow> 0 < i_ref (T j) \<Longrightarrow>
    same_inode (T i) (T j) \<Longrightarrow> i = j"
  by (simp add: table_ok_def same_inode_def)

lemma table_ok_length: "table_ok T \<Longrightarrow> i < NINODE \<Longrightarrow> length (i_addrs (T i)) = NADDRS"
  by (simp add: table_ok_def)

lemma table_ok_outside: "table_ok T \<Longrightarrow> \<not> ip < NINODE \<Longrightarrow> table_ok (T(ip := x))"
  unfolding table_ok_def by (metis fun_upd_other)

lemma table_ok_same:
  assumes "table_ok T" "same_inode x (T ip)" "0 < i_ref x \<Longrightarrow> 0 < i_ref (T ip)"
    "length (i_addrs (T ip)) = NADDRS \<Longrightarrow> length (i_addrs x) = NADDRS"
  shows "table_ok (T(ip := x))"
proof (cases "ip < NINODE")
  case True
  have "\<not> same_inode x (T j)" if "j < NINODE" "j \<noteq> ip" "0 < i_ref x" "0 < i_ref (T j)" for j
    using table_okD [OF assms(1) that(1) True that(4)] assms(2,3) that by (auto simp: same_inode_def)
  then show ?thesis using table_ok_upd [OF assms(1)] table_ok_length [OF assms(1) True] assms(4) by blast
qed (rule table_ok_outside [OF assms(1)])

lemma table_ok_iupd: "table_ok T \<Longrightarrow> keeps_identity g \<Longrightarrow> table_ok (T(ip := g (T ip)))"
  by (rule table_ok_same) (auto simp: keeps_identity_def same_inode_def)

lemma table_ok_ref: "table_ok T \<Longrightarrow> (0 < r \<Longrightarrow> 0 < i_ref (T ip)) \<Longrightarrow> table_ok (T(ip := (T ip)\<lparr>i_ref := r\<rparr>))"
  by (rule table_ok_same) (auto simp: same_inode_def)

lemma table_ok_recycle:
  assumes "table_ok T" "\<And>j. j < NINODE \<Longrightarrow> \<not> (0 < i_ref (T j) \<and> i_dev (T j) = dev \<and> i_inum (T j) = inum)"
  shows "table_ok (T(ip := (T ip)\<lparr>i_dev := dev, i_inum := inum, i_ref := 1, i_valid := 0\<rparr>))"
  by (rule table_ok_upd [OF assms(1)]) (use assms(2) table_ok_length [OF assms(1)] in \<open>auto simp: same_inode_def\<close>)

lemma table_ok_iget: "table_ok (itable s) \<Longrightarrow> post (\<lambda>(ip, t). table_ok (itable t) \<and> bufs t = bufs s) fs_panic (iget dev inum s)"
  by (auto simp: iget_def fs_panic_def iupd_def scan_Some scan_None split: option.split
      intro!: table_ok_ref table_ok_recycle)

interpretation mem: safe_ops mem_ok fs_panic
proof unfold_locales
  fix s :: "'z fsys_scheme" and dev n inum :: u32 and b ip :: nat and f :: "bytes \<Rightarrow> bytes" and g e
  assume s: "mem_ok s"
  show "post (\<lambda>(b, t). mem_ok t \<and> b < NBUF) fs_panic (bread dev n s)"
    using cache_ok_bread_any [of s dev n] s bread_itable [of dev n s]
    by (cases "bread dev n s") (auto simp: mem_ok_def)
  show "mem_ok (brelse b s)" if "b < NBUF"
    using that s cache_ok_brelse [of s b] bufs_step_fsys(2) [OF bufs_step_brelse [OF bufs_step_refl, of s b]]
    by (simp add: mem_ok_def)
  show "mem_ok (bdata b f s)" if "b < NBUF"
    using s cache_ok_bdata [of s b f] by (simp add: mem_ok_def) (simp add: bdata_def)
  show "mem_ok (iupd ip g s)" if "keeps_identity g"
    using that s cache_ok_cong [of "iupd ip g s" s] table_ok_iupd by (simp add: mem_ok_def iupd_def)
  show "post (\<lambda>(ip, t). mem_ok t) fs_panic (iget dev inum s)"
    using s table_ok_iget [of s dev inum] cache_ok_cong
    by (cases "iget dev inum s") (auto simp: mem_ok_def)
  show "mem_ok (snd (idup ip s))" if "0 < i_ref (itable s ip)"
    using that s cache_ok_cong [of "snd (idup ip s)" s] table_ok_ref
    by (simp add: mem_ok_def idup_def iupd_def)
  show "mem_ok (iupd ip (\<lambda>x. x\<lparr>i_ref := i_ref x - 1\<rparr>) s)"
    using s cache_ok_cong [of "iupd ip (\<lambda>x. x\<lparr>i_ref := i_ref x - 1\<rparr>) s" s]
    by (auto simp: mem_ok_def iupd_def intro!: table_ok_ref)
next
  show "fs_panic e \<Longrightarrow> fs_panic e" for e .
qed

end
