(* ===== verification/Calls.thy ===== *)
theory Calls
  imports Server Ledger Safety
begin

text \<open>
  The file system calls as a whole: the invariants of the memory tables through every call, and
  the ledger of references between file descriptors, open files and inodes.
\<close>

section \<open>Invariants through the calls\<close>

text \<open>Calls on descriptors need the files behind them to be in use.\<close>

definition live_files :: "'z fstate_scheme \<Rightarrow> bool" where
  "live_files s = (\<forall>fd f. ofile s fd = Some f \<longrightarrow> 0 < f_ref (ftable s f) \<and> f_type (ftable s f) \<noteq> FD_NONE)"

lemma argfd_live:
  "live_files s \<Longrightarrow> argfd m n s = Some (fd, f) \<Longrightarrow> 0 < f_ref (ftable s f) \<and> f_type (ftable s f) \<noteq> FD_NONE"
  by (auto simp: argfd_def live_files_def Let_def split: if_splits option.splits)

lemma fileseek_files:
  "fileseek f off w s = Inr (r, t) \<Longrightarrow> itable t = itable s \<and> bufs t = bufs s \<and> f_type (ftable t g) = f_type (ftable s g)"
  by (auto simp: fileseek_def Let_def guardE_def fupd_def elim!: bndE split: if_splits)

lemma fdalloc_files: "fdalloc f s = (r, t) \<Longrightarrow> ftable t = ftable s"
  by (auto simp: fdalloc_def split: option.splits)

text \<open>
  The extension of \<open>safe_ops\<close> to the server's state: an invariant that does not look at the
  file table, the descriptors or the client's memory.
\<close>

locale safe_calls = safe_ops P E for P :: "'z fstate_scheme \<Rightarrow> bool" and E :: "panic \<Rightarrow> bool" +
  assumes P_ext: "bufs s = bufs t \<Longrightarrow> itable s = itable t \<Longrightarrow> P s \<Longrightarrow> P t"
begin

lemma P_files [simp]: "P (s\<lparr>ftable := ft\<rparr>) = P s" "P (s\<lparr>umem := m\<rparr>) = P s" "P (s\<lparr>ustat := u\<rparr>) = P s"
  "P (s\<lparr>ofile := o'\<rparr>) = P s" "P (s\<lparr>cwd_path := p\<rparr>) = P s" "P (s\<lparr>cwd := c\<rparr>) = P s" "P (fupd f g s) = P s"
  by (auto simp: fupd_def intro: P_ext [rotated 2])

lemma P_cwd [simp]: "P (s\<lparr>cwd := c, cwd_path := p\<rparr>) = P s"
  by (auto intro: P_ext [rotated 2])

lemma P_filealloc: "filealloc s = (r, t) \<Longrightarrow> P s \<Longrightarrow> P t"
  by (auto simp: filealloc_def split: option.splits)

lemma P_fdalloc: "fdalloc f s = (r, t) \<Longrightarrow> P s \<Longrightarrow> P t"
  by (auto simp: fdalloc_def split: option.splits)

lemma fileclose: "P s \<Longrightarrow> 0 < f_ref (ftable s f) \<Longrightarrow> keep (fileclose f s)"
  by (auto simp: fileclose_def Let_def intro!: iput)

lemma filestat: "P s \<Longrightarrow> keeps (filestat f addr s)"
  by (auto simp: filestat_def Let_def intro!: bnd_keep [OF ilock] iunlock)

lemma fileseek: "P s \<Longrightarrow> keeps (fileseek f off whence s)"
  by (auto simp: fileseek_def Let_def guardE_def intro!: post_bnd [where R = P] post_bnd [where R = "\<lambda>_. True"])

lemma fileread: "P s \<Longrightarrow> f_type (ftable s f) \<noteq> FD_NONE \<Longrightarrow> keeps (fileread f addr n s)"
  by (cases "f_type (ftable s f)")
    (auto simp: fileread_def Let_def devsw_def intro!: bnd_keep [OF ilock] bnd_keeps [OF readi] iunlock)

lemma filewrite_loop: "P s \<Longrightarrow> keeps (filewrite_loop f addr n i s)"
proof (induction f addr n i s rule: filewrite_loop.induct)
  case (1 f addr n i s)
  show ?case
    by (subst filewrite_loop.simps)
      (auto simp: Let_def "1.prems" intro!: post_bnd_eq [OF ilock] post_bnd_eq [OF writei] iunlock "1.IH")
qed

lemma filewrite: "P s \<Longrightarrow> f_type (ftable s f) \<noteq> FD_NONE \<Longrightarrow> keeps (filewrite f addr n s)"
  by (cases "f_type (ftable s f)") (auto simp: filewrite_def Let_def devsw_def intro!: filewrite_loop)

lemma unlink_bad: "P s \<Longrightarrow> keeps (unlink_bad dp s)"
  by (auto simp: unlink_bad_def intro!: bnd_keep [OF iunlockput])

lemma isdirempty: "P s \<Longrightarrow> keeps (isdirempty dp s)"
  by (auto simp: isdirempty_def isdirempty_try_def intro!: bnd_keeps [OF post_for_upto] bnd_keeps [OF read_dirent])

lemma bnd_if: "bnd (if c then m else m') f = (if c then bnd m f else bnd m' f)"
  by simp

lemmas call_intros = bnd_keep [OF ilock] bnd_keep [OF iunlockput] bnd_keep [OF iput] bnd_keep [OF iupdate]
  bnd_keep [OF itrunc] bnd_keeps [OF writei] bnd_keeps [OF dirlookup] bnd_keeps [OF dirlink]
  bnd_keeps [OF ialloc] bnd_keeps [OF isdirempty] P_iupd

lemma unlink_found: "P s \<Longrightarrow> keeps (unlink_found dp ip off s)"
  unfolding unlink_found_def bnd_if by (auto intro!: call_intros unlink_bad)

lemma bnd_nameiparent:
  assumes "P s" "0 < irefs s (cwd s)"
    "\<And>r nm t. nameiparent path s = Inr (r, nm, t) \<Longrightarrow> P t \<Longrightarrow> post Q E (f (r, nm, t))"
  shows "post Q E (bnd (nameiparent path s) f)"
  by (rule post_bnd_eq [OF nameiparent]) (use assms in \<open>auto simp: irefs_def\<close>)

lemma bnd_namei:
  assumes "P s" "0 < irefs s (cwd s)" "\<And>r t. namei path s = Inr (r, t) \<Longrightarrow> P t \<Longrightarrow> post Q E (f (r, t))"
  shows "post Q E (bnd (namei path s) f)"
  by (rule post_bnd_eq [OF namei]) (use assms in \<open>auto simp: irefs_def\<close>)

lemma create_fail: "P s \<Longrightarrow> keeps (create_fail dp ip s)"
  unfolding create_fail_def by (auto intro!: call_intros)

lemma create_entries: "P s \<Longrightarrow> keeps (create_entries dp ip name type s)"
  unfolding create_entries_def bnd_if by (auto simp: bnd_assoc intro!: call_intros)

lemma create: "P s \<Longrightarrow> 0 < irefs s (cwd s) \<Longrightarrow> keeps (create path type major minor s)"
  unfolding create_def bnd_if
  by (auto intro!: bnd_nameiparent call_intros bnd_keeps [OF create_entries] create_fail split: option.split)

lemma open_inode: "P s \<Longrightarrow> keeps (open_inode ip omode s)"
proof -
  assume s: "P s"
  obtain r1 s1 where 1: "filealloc s = (r1, s1)" "P s1" using P_filealloc [OF _ s] by (cases "filealloc s") auto
  show ?thesis
  proof (cases r1)
    case None
    then show ?thesis using s 1 unfolding open_inode_def Let_def bnd_if by (auto intro!: call_intros)
  next
    case (Some f)
    obtain fd s2 where 2: "fdalloc f s1 = (fd, s2)" "P s2" using P_fdalloc [OF _ 1(2)] by (cases "fdalloc f s1") auto
    have "0 < f_ref (ftable s2 f)" using 1 2(1) Some
      by (auto simp: filealloc_def fdalloc_def fupd_def split: option.splits)
    then show ?thesis using s 1 2 Some unfolding open_inode_def Let_def bnd_if
      by (auto intro!: call_intros bnd_keep [OF fileclose])
  qed
qed

lemma xv6fs_open: "P s \<Longrightarrow> 0 < irefs s (cwd s) \<Longrightarrow> keeps (xv6fs_open m s)"
  unfolding xv6fs_open_def Let_def bnd_if
  by (auto simp: bnd_assoc intro!: bnd_keeps [OF create] bnd_namei call_intros open_inode split: option.split)

lemma xv6fs_unlink: "P s \<Longrightarrow> 0 < irefs s (cwd s) \<Longrightarrow> keeps (xv6fs_unlink m s)"
  unfolding xv6fs_unlink_def
  by (auto intro!: bnd_nameiparent call_intros unlink_bad unlink_found split: option.split)

lemma xv6fs_mkdir: "P s \<Longrightarrow> 0 < irefs s (cwd s) \<Longrightarrow> keeps (xv6fs_mkdir m s)"
  unfolding xv6fs_mkdir_def by (auto intro!: bnd_keeps [OF create] call_intros split: option.split)

lemma xv6fs_mknod: "P s \<Longrightarrow> 0 < irefs s (cwd s) \<Longrightarrow> keeps (xv6fs_mknod m s)"
  unfolding xv6fs_mknod_def Let_def by (auto intro!: bnd_keeps [OF create] call_intros split: option.split)

lemma xv6fs_chdir: "P s \<Longrightarrow> 0 < irefs s (cwd s) \<Longrightarrow> keeps (xv6fs_chdir m s)"
  unfolding xv6fs_chdir_def by (auto intro!: bnd_namei call_intros split: option.split)

lemma xv6fs_lstat: "P s \<Longrightarrow> 0 < irefs s (cwd s) \<Longrightarrow> keeps (xv6fs_lstat m s)"
  unfolding xv6fs_lstat_def Let_def by (auto intro!: bnd_namei split: option.split)

lemma xv6fs_dup: "P s \<Longrightarrow> live_files s \<Longrightarrow> keeps (xv6fs_dup m s)"
  unfolding xv6fs_dup_def filedup_def
  by (auto split: option.split prod.split) (auto dest: P_fdalloc, metis argfd_live fdalloc_files zero_less_one_class.zero_less_one linorder_not_less int_one_le_iff_zero_less)

lemma xv6fs_read: "P s \<Longrightarrow> live_files s \<Longrightarrow> keeps (xv6fs_read m s)"
  unfolding xv6fs_read_def Let_def by (auto intro!: fileread dest: argfd_live split: option.split)

lemma xv6fs_write: "P s \<Longrightarrow> live_files s \<Longrightarrow> keeps (xv6fs_write m s)"
  unfolding xv6fs_write_def Let_def by (auto intro!: filewrite dest: argfd_live split: option.split)

lemma bnd_fileseek:
  assumes "P s" "f_type (ftable s f) \<noteq> FD_NONE"
    "\<And>r t. P t \<Longrightarrow> f_type (ftable t f) \<noteq> FD_NONE \<Longrightarrow> post Q E (g (r, t))"
  shows "post Q E (bnd (fileseek f off w s) g)"
proof (rule post_bnd_eq [OF fileseek [OF assms(1)]])
  fix x assume x: "fileseek f off w s = Inr x" "case x of (r, t) \<Rightarrow> P t"
  then show "post Q E (g x)"
    using assms(3) [of "snd x" "fst x"] assms(2) fileseek_files [of f off w s "fst x" "snd x" f] by (cases x) simp
qed

lemma xv6fs_pread: "P s \<Longrightarrow> live_files s \<Longrightarrow> keeps (xv6fs_pread m s)"
  unfolding xv6fs_pread_def Let_def
  by (auto intro!: bnd_fileseek fileread dest: argfd_live split: option.split)

lemma xv6fs_pwrite: "P s \<Longrightarrow> live_files s \<Longrightarrow> keeps (xv6fs_pwrite m s)"
  unfolding xv6fs_pwrite_def Let_def
  by (auto intro!: bnd_fileseek filewrite dest: argfd_live split: option.split)

lemma xv6fs_close: "P s \<Longrightarrow> live_files s \<Longrightarrow> keeps (xv6fs_close m s)"
  unfolding xv6fs_close_def by (auto intro!: bnd_keep [OF fileclose] dest: argfd_live split: option.split)

lemma xv6fs_fstat: "P s \<Longrightarrow> keeps (xv6fs_fstat m s)"
  unfolding xv6fs_fstat_def Let_def by (auto intro!: filestat split: option.split)

lemma xv6fs_lseek: "P s \<Longrightarrow> keeps (xv6fs_lseek m s)"
  unfolding xv6fs_lseek_def Let_def by (auto intro!: fileseek split: option.split)

lemma xv6fs_getcwd: "P s \<Longrightarrow> keeps (xv6fs_getcwd m s)"
  by (simp add: xv6fs_getcwd_def)

lemma fs_dispatch:
  "P s \<Longrightarrow> live_files s \<Longrightarrow> 0 < irefs s (cwd s) \<Longrightarrow> keeps (fs_dispatch L label m s)"
  by (simp add: fs_dispatch_def xv6fs_open xv6fs_close xv6fs_fstat xv6fs_getcwd xv6fs_lstat xv6fs_read
      xv6fs_write xv6fs_pread xv6fs_pwrite xv6fs_lseek xv6fs_unlink)

end

interpretation calls: safe_calls mem_ok fs_panic
proof unfold_locales
  fix s t :: "'z fstate_scheme"
  assume "bufs s = bufs t" "itable s = itable t" "mem_ok s"
  then show "mem_ok t" using cache_ok_cong [of s t] by (simp add: mem_ok_def)
qed

end
