(* ===== verification/Refs.thy ===== *)
theory Refs
  imports Calls
begin

text \<open>
  The ledger through the calls: which descriptor holds which open file, which open file and
  which working directory hold which inode.
\<close>

section \<open>What a call observes\<close>

definition fobs :: "'z fstate_scheme \<Rightarrow> nat \<Rightarrow> int \<times> fdtype \<times> nat" where
  "fobs s = (\<lambda>f. (f_ref (ftable s f), f_type (ftable s f), f_ip (ftable s f)))"

definition sys :: "'z fstate_scheme \<Rightarrow>
    (nat \<Rightarrow> bytes) \<times> superblock \<times> nat \<times> (nat \<Rightarrow> nat option) \<times> (nat \<Rightarrow> int \<times> fdtype \<times> nat)" where
  "sys s = (disk s, fs_sb s, cwd s, ofile s, fobs s)"

lemma more_files:
  "fsys.more t = fsys.more s \<Longrightarrow> ftable t = ftable (s :: 'z fstate_scheme) \<and> ofile t = ofile s \<and> umem t = umem s
     \<and> ustat t = ustat s \<and> cwd_path t = cwd_path s"
  by (cases s, cases t) simp

lemma rest_sys: "rest t = rest s \<Longrightarrow> sys t = sys (s :: 'z fstate_scheme)"
  using more_files [of t s] by (simp add: rest_def sys_def fobs_def)

lemma rest_files: "rest t = rest s \<Longrightarrow> ftable t = ftable (s :: 'z fstate_scheme) \<and> ofile t = ofile s"
  using more_files [of t s] by (simp add: rest_def)

lemma fupd_obs [simp]: "brefs (fupd f g s) = brefs s" "irefs (fupd f g s) = irefs s"
  "disk (fupd f g s) = disk s" "cwd (fupd f g s) = cwd s" "fs_sb (fupd f g s) = fs_sb s"
  "ofile (fupd f g s) = ofile s" "itable (fupd f g s) = itable s"
  by (simp_all add: fupd_def brefs_def irefs_def)

lemma ext_obs [simp]:
  "brefs (s\<lparr>umem := m\<rparr>) = brefs s" "irefs (s\<lparr>umem := m\<rparr>) = irefs s"
  "brefs (s\<lparr>ustat := u\<rparr>) = brefs s" "irefs (s\<lparr>ustat := u\<rparr>) = irefs s"
  "brefs (s\<lparr>ofile := h\<rparr>) = brefs s" "irefs (s\<lparr>ofile := h\<rparr>) = irefs s"
  "brefs (s\<lparr>cwd := c, cwd_path := p\<rparr>) = brefs s" "irefs (s\<lparr>cwd := c, cwd_path := p\<rparr>) = irefs s"
  "sys (s\<lparr>umem := m\<rparr>) = sys s" "sys (s\<lparr>ustat := u\<rparr>) = sys s"
  by (simp_all add: brefs_def irefs_def sys_def fobs_def)

lemma sys_fupd [simp]:
  assumes "\<And>x. f_ref (g x) = f_ref x" "\<And>x. f_type (g x) = f_type x" "\<And>x. f_ip (g x) = f_ip x"
  shows "sys (fupd f g s) = sys s"
proof -
  have "fobs (fupd f g s) = fobs s"
    by (rule ext) (simp add: fobs_def fupd_def fun_upd_apply assms)
  then show ?thesis by (simp add: sys_def)
qed

text \<open>\<open>calm s t\<close>: a call that leaves every count and every table as it found them.\<close>

definition calm :: "'z fstate_scheme \<Rightarrow> 'z fstate_scheme \<Rightarrow> bool" where
  "calm s t = (sys t = sys s \<and> brefs t = brefs s \<and> irefs t = irefs s)"

lemma even_calm: "even_refs s t \<Longrightarrow> calm s t"
  by (auto simp: even_refs_def calm_def dest: rest_sys)

lemma calm_refl [simp]: "calm s s"
  by (simp add: calm_def)

section \<open>Calls on open files\<close>

lemma filestat_calm: "filestat f a s = Inr (r, t) \<Longrightarrow> calm s t"
  by (auto simp: filestat_def Let_def calm_def elim!: bndE split: if_splits dest!: ledger rest_sys)

lemma fileseek_calm: "fileseek f off w s = Inr (r, t) \<Longrightarrow> calm s t"
  by (auto simp: fileseek_def Let_def guardE_def calm_def elim!: bndE split: if_splits)

lemma fileread_calm: "fileread f a n s = Inr (r, t) \<Longrightarrow> calm s t"
  by (cases "f_type (ftable s f)")
    (auto simp: fileread_def Let_def devsw_def calm_def elim!: bndE split: if_splits dest!: ledger rest_sys)

lemma filewrite_loop_calm: "filewrite_loop f a n i s = Inr (r, t) \<Longrightarrow> calm s t"
proof (induction f a n i s rule: filewrite_loop.induct)
  case (1 f a n i s)
  show ?case
  proof (cases "i < n")
    case True
    let ?n1 = "min (n - i) write_max" and ?ip = "f_ip (ftable s f)"
    obtain s1 where l: "ilock ?ip s = Inr s1"
      using "1.prems" True by (subst (asm) filewrite_loop.simps) (auto simp: Let_def elim!: bndE)
    obtain w s2 where w: "writei ?ip (uload (a + word_of_int i) (umem s1)) (f_off (ftable s1 f))
        (word_of_int ?n1) s1 = Inr (w, s2)"
      using "1.prems" True l by (subst (asm) filewrite_loop.simps) (auto simp: Let_def elim!: bndE)
    let ?s3 = "if 0 < w then fupd f (\<lambda>x. x\<lparr>f_off := f_off x + word_of_int w\<rparr>) s2 else s2"
    have c: "calm s ?s3" using l w by (auto simp: calm_def dest!: ledger rest_sys)
    show ?thesis
    proof (cases "w = ?n1")
      case True
      have "calm ?s3 t"
        using "1.IH" [OF \<open>i < n\<close> refl refl l w refl refl refl] True "1.prems" \<open>i < n\<close> l w
        by (subst (asm) filewrite_loop.simps) (auto simp: Let_def)
      then show ?thesis using c by (simp add: calm_def)
    next
      case False
      then show ?thesis using c "1.prems" \<open>i < n\<close> l w
        by (subst (asm) filewrite_loop.simps) (auto simp: Let_def split: if_splits)
    qed
  qed (use "1.prems" in \<open>subst (asm) filewrite_loop.simps; auto\<close>)
qed

lemma filewrite_calm: "filewrite f a n s = Inr (r, t) \<Longrightarrow> calm s t"
  by (cases "f_type (ftable s f)")
    (auto simp: filewrite_def Let_def devsw_def split: if_splits dest!: filewrite_loop_calm)

lemma calm_trans: "calm s t \<Longrightarrow> calm t u \<Longrightarrow> calm s u"
  by (simp add: calm_def)

lemma file_calls_calm:
  "xv6fs_read m s = Inr (r, t) \<Longrightarrow> calm s t" "xv6fs_write m s = Inr (r, t) \<Longrightarrow> calm s t"
  "xv6fs_pread m s = Inr (r, t) \<Longrightarrow> calm s t" "xv6fs_pwrite m s = Inr (r, t) \<Longrightarrow> calm s t"
  "xv6fs_fstat m s = Inr (r, t) \<Longrightarrow> calm s t" "xv6fs_lseek m s = Inr (r, t) \<Longrightarrow> calm s t"
  by (auto simp: xv6fs_read_def xv6fs_write_def xv6fs_pread_def xv6fs_pwrite_def xv6fs_fstat_def
      xv6fs_lseek_def Let_def elim!: bndE split: option.splits if_splits
      dest!: fileread_calm filewrite_calm filestat_calm fileseek_calm dest: calm_trans)

lemma getcwd_calm: "xv6fs_getcwd m s = Inr (r, t) \<Longrightarrow> calm s t"
  by (auto simp: xv6fs_getcwd_def calm_def)

section \<open>Calls on paths\<close>

lemma inc_ge: "r i \<le> inc k r i" for r :: "'k \<Rightarrow> int"
  by (simp add: inc_def)

lemma isdirempty_ledger [ledger]: "isdirempty dp s = Inr (r, t) \<Longrightarrow> even_refs s t"
proof -
  have "isdirempty_try dp k s = Inr (q, u) \<Longrightarrow> even_refs s u" for k s q and u :: "'a fstate_scheme"
    by (auto simp: isdirempty_try_def elim!: bndE dest!: read_dirent_ledger)
  then show "isdirempty dp s = Inr (r, t) \<Longrightarrow> even_refs s t"
    by (auto simp: isdirempty_def elim!: bndE for_upto_even)
qed

lemma unlink_bad_ledger [ledger]:
  "unlink_bad dp s = Inr (r, t) \<Longrightarrow> rest t = rest s \<and> brefs t = brefs s \<and> irefs t = dec dp (irefs s)"
  by (auto simp: unlink_bad_def elim!: bndE dest!: ledger)

lemma dec_dec_swap: "dec a (dec b r) = dec b (dec a r)"
  by (auto simp: dec_def fun_eq_iff)

lemma unlink_found_ledger [ledger]:
  "unlink_found dp ip off s = Inr (r, t) \<Longrightarrow>
     rest t = rest s \<and> brefs t = brefs s \<and> irefs t = dec dp (dec ip (irefs s))"
  by (auto simp: unlink_found_def elim!: bndE split: if_splits dest!: ledger simp: dec_dec_swap)

lemma xv6fs_unlink_calm:
  assumes "xv6fs_unlink m s = Inr (r, t)" "cwd s < NINODE"
  shows "calm s t"
proof -
  have "rest t = rest s \<and> brefs t = brefs s \<and> irefs t = irefs s"
    using assms
    by (auto simp: xv6fs_unlink_def elim!: bndE split: option.splits if_splits
        dest!: nameiparent_ledger ledger)
  then show ?thesis by (auto simp: calm_def dest: rest_sys)
qed

text \<open>
  A directory entry of that name already there: \<open>create\<close> puts the parent but not the inode it
  found, whose reference is lost.
\<close>

lemma create_fail_ledger:
  "create_fail dp ip s = Inr (r, t) \<Longrightarrow> rest t = rest s \<and> brefs t = brefs s \<and>
     irefs t = dec dp (dec ip (irefs s)) \<and> r = None"
  by (auto simp: create_fail_def elim!: bndE dest!: ledger)

lemma create_entries_ledger [ledger]: "create_entries dp ip name type s = Inr (r, t) \<Longrightarrow> even_refs s t"
  by (auto simp: create_entries_def even_refs_def elim!: bndE split: if_splits dest!: ledger)

lemma create_ledger:
  assumes "create path type major minor s = Inr (r, t)" "cwd s < NINODE"
  shows "rest t = rest s \<and> brefs t = brefs s \<and>
     (case r of Some ip \<Rightarrow> irefs t = inc ip (irefs s) \<and> ip < NINODE
      | None \<Rightarrow> irefs t = irefs s \<or> (\<exists>ip. irefs t = inc ip (irefs s)))"
  using assms
  by (auto simp: create_def elim!: bndE split: option.splits if_splits
      dest!: nameiparent_ledger create_fail_ledger ledger; metis)

lemma lstat_ledger:
  assumes "xv6fs_lstat m s = Inr (r, t)" "cwd s < NINODE"
  shows "sys t = sys s \<and> brefs t = brefs s \<and> (\<exists>ip. irefs t = (if r = 0 then inc ip (irefs s) else irefs s))"
  using assms
  by (auto simp: xv6fs_lstat_def Let_def EINVAL_def ENOENT_def elim!: bndE split: option.splits
      dest!: namei_ledger ledger rest_sys; metis)

section \<open>The invariant\<close>

definition fds :: "(nat \<Rightarrow> nat option) \<Rightarrow> nat \<Rightarrow> nat" where
  "fds o' f = card {fd. fd < NOFILE \<and> o' fd = Some f}"

definition holders :: "(nat \<Rightarrow> int \<times> fdtype \<times> nat) \<Rightarrow> nat \<Rightarrow> nat \<Rightarrow> nat" where
  "holders F c ip = card {f. f < NFILE \<and> 0 < fst (F f) \<and> snd (snd (F f)) = ip} + (if c = ip then 1 else 0)"

definition files_ok :: "(nat \<Rightarrow> nat option) \<Rightarrow> (nat \<Rightarrow> int \<times> fdtype \<times> nat) \<Rightarrow> bool" where
  "files_ok o' F = ((\<forall>f < NFILE. fst (F f) = int (fds o' f) \<and>
       (0 < fst (F f) \<longrightarrow> fst (snd (F f)) \<in> {FD_INODE, FD_DEVICE} \<and> snd (snd (F f)) < NINODE) \<and>
       (fst (F f) = 0 \<longrightarrow> fst (snd (F f)) = FD_NONE)) \<and>
     (\<forall>fd f. o' fd = Some f \<longrightarrow> fd < NOFILE \<and> f < NFILE))"

text \<open>
  Every descriptor's file counts its descriptors; every inode counts at least the files and the
  working directory that hold it.
\<close>

definition refs_ok :: "'z fstate_scheme \<Rightarrow> bool" where
  "refs_ok s = (cwd s < NINODE \<and> files_ok (ofile s) (fobs s) \<and>
     (\<forall>ip < NINODE. int (holders (fobs s) (cwd s) ip) \<le> irefs s ip))"

lemma refs_ok_mono: "refs_ok s \<Longrightarrow> sys t = sys s \<Longrightarrow> (\<And>i. irefs s i \<le> irefs t i) \<Longrightarrow> refs_ok t"
  unfolding refs_ok_def sys_def by (auto intro: order_trans)

lemma refs_ok_calm: "refs_ok s \<Longrightarrow> calm s t \<Longrightarrow> refs_ok t"
  by (erule refs_ok_mono) (simp_all add: calm_def)

lemma refs_ok_cwd: "refs_ok s \<Longrightarrow> cwd s < NINODE \<and> 0 < irefs s (cwd s)"
  unfolding refs_ok_def holders_def by (auto dest!: spec [where x = "cwd s"])

lemma card_fds_pos: "o' fd = Some f \<Longrightarrow> fd < NOFILE \<Longrightarrow> 0 < fds o' f"
  unfolding fds_def by (subst card_gt_0_iff) auto

lemma refs_ok_live: "refs_ok s \<Longrightarrow> live_files s"
  unfolding live_files_def
proof (intro allI impI)
  fix fd f assume r: "refs_ok s" and o': "ofile s fd = Some f"
  then have fd: "fd < NOFILE" "f < NFILE" and
    c: "fst (fobs s f) = int (fds (ofile s) f)" "0 < fst (fobs s f) \<longrightarrow> fst (snd (fobs s f)) \<in> {FD_INODE, FD_DEVICE}"
    by (auto simp: refs_ok_def files_ok_def)
  then show "0 < f_ref (ftable s f) \<and> f_type (ftable s f) \<noteq> FD_NONE"
    using card_fds_pos [of "ofile s" fd f] o' by (auto simp: fobs_def)
qed

lemma fds_upd_new: "o' fd = None \<Longrightarrow> fd < NOFILE \<Longrightarrow> fds (o'(fd := Some f)) g = fds o' g + (if g = f then 1 else 0)"
proof -
  assume n: "o' fd = None" and fd: "fd < NOFILE"
  show ?thesis
  proof (cases "g = f")
    case True
    have "{x. x < NOFILE \<and> (o'(fd := Some f)) x = Some f} = insert fd {x. x < NOFILE \<and> o' x = Some f}"
      using fd by auto
    then show ?thesis using n True by (simp add: fds_def)
  next
    case False
    have "{x. x < NOFILE \<and> (o'(fd := Some f)) x = Some g} = {x. x < NOFILE \<and> o' x = Some g}"
      using n False by auto
    then show ?thesis using False by (simp add: fds_def)
  qed
qed

lemma fds_upd_None:
  assumes "o' fd = Some f" "fd < NOFILE"
  shows "fds o' g = fds (o'(fd := None)) g + (if g = f then 1 else 0)"
proof -
  have "o' = (o'(fd := None))(fd := Some f)" using assms(1) by auto
  then show ?thesis using fds_upd_new [of "o'(fd := None)" fd f g] assms(2) by (metis fun_upd_same)
qed

lemma holders_new:
  assumes "f < NFILE" "\<not> 0 < fst (F f)" "0 < fst x"
  shows "holders (F(f := x)) c ip = holders F c ip + (if snd (snd x) = ip then 1 else 0)"
proof (cases "snd (snd x) = ip")
  case True
  have "{g. g < NFILE \<and> 0 < fst ((F(f := x)) g) \<and> snd (snd ((F(f := x)) g)) = ip} =
      insert f {g. g < NFILE \<and> 0 < fst (F g) \<and> snd (snd (F g)) = ip}"
    using assms True by auto
  then show ?thesis using assms True by (simp add: holders_def)
next
  case False
  have "{g. g < NFILE \<and> 0 < fst ((F(f := x)) g) \<and> snd (snd ((F(f := x)) g)) = ip} =
      {g. g < NFILE \<and> 0 < fst (F g) \<and> snd (snd (F g)) = ip}"
    using assms False by auto
  then show ?thesis using False by (simp add: holders_def)
qed

lemma holders_drop:
  assumes "f < NFILE" "0 < fst (F f)" "\<not> 0 < fst x"
  shows "holders F c ip = holders (F(f := x)) c ip + (if snd (snd (F f)) = ip then 1 else 0)"
  using holders_new [of f "F(f := x)" "F f" c ip] assms by simp

lemma holders_same:
  assumes "0 < fst (F f) \<longleftrightarrow> 0 < fst x" "snd (snd x) = snd (snd (F f))"
  shows "holders (F(f := x)) c ip = holders F c ip"
proof -
  have "{g. g < NFILE \<and> 0 < fst ((F(f := x)) g) \<and> snd (snd ((F(f := x)) g)) = ip} =
      {g. g < NFILE \<and> 0 < fst (F g) \<and> snd (snd (F g)) = ip}"
    using assms by auto
  then show ?thesis by (simp add: holders_def)
qed

lemma files_okD:
  assumes "files_ok o' F" "f < NFILE"
  shows "fst (F f) = int (fds o' f)" "0 < fst (F f) \<Longrightarrow> fst (snd (F f)) \<in> {FD_INODE, FD_DEVICE}"
    "0 < fst (F f) \<Longrightarrow> snd (snd (F f)) < NINODE" "fst (F f) = 0 \<Longrightarrow> fst (snd (F f)) = FD_NONE"
  using assms by (auto simp: files_ok_def)

text \<open>A file and a descriptor change together.\<close>

lemma files_ok_upd:
  assumes ok: "files_ok o' F" and f: "f < NFILE"
    and n: "fst x = int (fds o'' f)" "\<And>g. g \<noteq> f \<Longrightarrow> fds o'' g = fds o' g"
    and x: "0 < fst x \<longrightarrow> fst (snd x) \<in> {FD_INODE, FD_DEVICE} \<and> snd (snd x) < NINODE"
      "fst x = 0 \<longrightarrow> fst (snd x) = FD_NONE"
    and b: "\<And>fd g. o'' fd = Some g \<Longrightarrow> fd < NOFILE \<and> g < NFILE"
  shows "files_ok o'' (F(f := x))"
  using ok n x b by (auto simp: files_ok_def)

lemma fobs_fupd: "fobs (fupd f g s) = (fobs s)(f := (f_ref (g (ftable s f)), f_type (g (ftable s f)), f_ip (g (ftable s f))))"
  by (auto simp: fobs_def fupd_def fun_eq_iff)

lemma fobs_ext [simp]: "fobs (s\<lparr>ofile := h\<rparr>) = fobs s" "fobs (s\<lparr>cwd := c, cwd_path := p\<rparr>) = fobs s"
  by (simp_all add: fobs_def)

lemma argfd_SomeD: "argfd m n s = Some (fd, f) \<Longrightarrow> ofile s fd = Some f \<and> fd < NOFILE"
  by (auto simp: argfd_def Let_def split: if_splits option.splits)

lemma fdalloc_SomeD:
  "fdalloc f s = (fd, t) \<Longrightarrow> 0 \<le> fd \<Longrightarrow> ofile s (nat fd) = None \<and> nat fd < NOFILE \<and> t = s\<lparr>ofile := (ofile s)(nat fd \<mapsto> f)\<rparr>"
  by (auto simp: fdalloc_def scan_Some split: option.splits)

lemma fdalloc_None: "fdalloc f s = (fd, t) \<Longrightarrow> fd < 0 \<Longrightarrow> t = s"
  by (auto simp: fdalloc_def split: option.splits)

lemma filealloc_SomeD: "filealloc s = (Some f, t) \<Longrightarrow> f < NFILE \<and> f_ref (ftable s f) = 0 \<and> t = fupd f (\<lambda>x. x\<lparr>f_ref := 1\<rparr>) s"
  by (auto simp: filealloc_def scan_Some split: option.splits)

text \<open>What a call does to the disk and the buffers when it also moves files.\<close>

definition steady :: "'z fstate_scheme \<Rightarrow> 'z fstate_scheme \<Rightarrow> bool" where
  "steady s t = (disk t = disk s \<and> fs_sb t = fs_sb s \<and> brefs t = brefs s)"

lemma calm_steady: "calm s t \<Longrightarrow> steady s t"
  by (simp add: calm_def steady_def sys_def)

lemma xv6fs_dup_refs:
  assumes "xv6fs_dup m s = Inr (r, t)" "refs_ok s"
  shows "refs_ok t \<and> steady s t"
proof (cases "t = s")
  case False
  then obtain fd0 f fd s1 where a: "argfd m 0 s = Some (fd0, f)" and fd: "fdalloc f s = (fd, s1)" "0 \<le> fd"
    and t: "t = fupd f (\<lambda>x. x\<lparr>f_ref := f_ref x + 1\<rparr>) s1" and p: "1 \<le> f_ref (ftable s1 f)"
    using assms(1) fdalloc_None
    by (auto simp: xv6fs_dup_def filedup_def split: option.splits prod.splits if_splits; force)
  from fdalloc_SomeD [OF fd] have s1: "ofile s (nat fd) = None" "nat fd < NOFILE"
    "s1 = s\<lparr>ofile := (ofile s)(nat fd \<mapsto> f)\<rparr>" by auto
  have ok: "files_ok (ofile s) (fobs s)" and c: "cwd s < NINODE"
    and h: "\<forall>ip < NINODE. int (holders (fobs s) (cwd s) ip) \<le> irefs s ip"
    using assms(2) by (auto simp: refs_ok_def)
  have f: "f < NFILE" using ok argfd_SomeD [OF a] by (auto simp: files_ok_def)
  let ?x = "(f_ref (ftable s f) + 1, f_type (ftable s f), f_ip (ftable s f))"
  have F: "fobs t = (fobs s)(f := ?x)" using t s1 by (simp add: fobs_fupd)
  have pos: "0 < fst (fobs s f)" using p s1 by (simp add: fobs_def)
  have "files_ok ((ofile s)(nat fd \<mapsto> f)) ((fobs s)(f := ?x))"
    by (rule files_ok_upd [OF ok f])
      (use files_okD [OF ok f] pos s1 f ok in \<open>auto simp: fds_upd_new fobs_def files_ok_def split: if_splits\<close>)
  moreover have "holders ((fobs s)(f := ?x)) (cwd s) ip = holders (fobs s) (cwd s) ip" for ip
    by (rule holders_same) (use pos in \<open>auto simp: fobs_def\<close>)
  ultimately show ?thesis using t s1 c h F by (simp add: refs_ok_def steady_def)
qed (use assms in \<open>simp add: steady_def\<close>)

text \<open>
  Closing a file whose one descriptor is gone: the file is free again and the inode it held is
  put.
\<close>

lemma fileclose_ledger:
  assumes "fileclose f s = Inr t" "f_ref (ftable s f) = 0 \<or> f_type (ftable s f) \<noteq> FD_PIPE"
  shows "disk t = disk s \<and> fs_sb t = fs_sb s \<and> cwd t = cwd s \<and> brefs t = brefs s \<and> ofile t = ofile s \<and>
    (if 1 < f_ref (ftable s f) then irefs t = irefs s \<and>
       fobs t = (fobs s)(f := (f_ref (ftable s f) - 1, f_type (ftable s f), f_ip (ftable s f)))
     else fobs t = (fobs s)(f := (0, FD_NONE, f_ip (ftable s f))) \<and>
       irefs t = (if f_type (ftable s f) \<in> {FD_INODE, FD_DEVICE} then dec (f_ip (ftable s f)) (irefs s) else irefs s))"
proof -
  let ?x = "ftable s f"
  let ?s = "fupd f (\<lambda>x. x\<lparr>f_ref := 0, f_type := FD_NONE\<rparr>) (fupd f (\<lambda>x. x\<lparr>f_ref := f_ref x - 1\<rparr>) s)"
  have x: "ftable (fupd f g s) f = g ?x" for g by (simp add: fupd_def)
  have F: "fobs ?s = (fobs s)(f := (0, FD_NONE, f_ip ?x))"
    by (simp add: fobs_fupd) (simp add: fupd_def fobs_def)
  have s: "disk ?s = disk s" "fs_sb ?s = fs_sb s" "cwd ?s = cwd s" "brefs ?s = brefs s" "ofile ?s = ofile s"
    "irefs ?s = irefs s" by simp_all
  consider "1 < f_ref ?x" | "f_ref ?x = 1" "f_type ?x \<in> {FD_INODE, FD_DEVICE}" | "f_ref ?x = 1" "f_type ?x = FD_NONE"
    using assms by (cases "f_type ?x") (auto simp: fileclose_def split: if_splits, linarith+)
  then show ?thesis
  proof cases
    case 1
    then show ?thesis using assms(1) by (auto simp: fileclose_def Let_def x fobs_fupd)
  next
    case 2
    then have "iput (f_ip ?x) ?s = Inr t" using assms(1) by (auto simp: fileclose_def Let_def x)
    from iput_ledger [OF this] show ?thesis using 2 F s
      by (auto dest: rest_sys simp: sys_def)
  next
    case 3
    then have "t = ?s" using assms(1) by (auto simp: fileclose_def Let_def x)
    then show ?thesis using 3 F s by simp
  qed
qed

lemma xv6fs_close_refs:
  assumes "xv6fs_close m s = Inr (r, t)" "refs_ok s"
  shows "refs_ok t \<and> steady s t"
proof (cases "argfd m 0 s")
  case None
  then show ?thesis using assms by (auto simp: xv6fs_close_def steady_def)
next
  case (Some a)
  obtain fd f where a: "a = (fd, f)" by (cases a)
  have o': "ofile s fd = Some f" "fd < NOFILE" using argfd_SomeD [of m 0 s fd f] Some a by auto
  let ?s = "s\<lparr>ofile := (ofile s)(fd := None)\<rparr>" and ?x = "ftable s f"
  have c: "fileclose f ?s = Inr t" using assms(1) Some a by (auto simp: xv6fs_close_def elim!: bndE)
  have ok: "files_ok (ofile s) (fobs s)" and cw: "cwd s < NINODE"
    and h: "\<forall>ip < NINODE. int (holders (fobs s) (cwd s) ip) \<le> irefs s ip"
    using assms(2) by (auto simp: refs_ok_def)
  have f: "f < NFILE" using ok o' by (auto simp: files_ok_def)
  note fx = files_okD [OF ok f]
  have n: "fds (ofile s) g = fds ((ofile s)(fd := None)) g + (if g = f then 1 else 0)" for g
    using fds_upd_None [of "ofile s" fd f g] o' by simp
  have pos: "1 \<le> f_ref ?x" "f_type ?x \<in> {FD_INODE, FD_DEVICE}" "f_ip ?x < NINODE"
    using fx n [of f] by (auto simp: fobs_def)
  from fileclose_ledger [OF c] pos have L: "disk t = disk s" "fs_sb t = fs_sb s" "cwd t = cwd s" "brefs t = brefs s"
    "ofile t = (ofile s)(fd := None)"
    and B: "if 1 < f_ref ?x then irefs t = irefs s \<and> fobs t = (fobs s)(f := (f_ref ?x - 1, f_type ?x, f_ip ?x))
      else fobs t = (fobs s)(f := (0, FD_NONE, f_ip ?x)) \<and> irefs t = dec (f_ip ?x) (irefs s)"
    by (auto split: if_splits)
  have up: "files_ok ((ofile s)(fd := None)) ((fobs s)(f := x))"
    if "fst x = f_ref ?x - 1" "0 < fst x \<longrightarrow> fst (snd x) \<in> {FD_INODE, FD_DEVICE} \<and> snd (snd x) < NINODE"
      "fst x = 0 \<longrightarrow> fst (snd x) = FD_NONE" for x
    by (rule files_ok_upd [OF ok f]) (use fx(1) n that ok in \<open>auto simp: fobs_def files_ok_def split: if_splits\<close>)
  show ?thesis
  proof (cases "1 < f_ref ?x")
    case True
    then have F: "fobs t = (fobs s)(f := (f_ref ?x - 1, f_type ?x, f_ip ?x))" "irefs t = irefs s" using B by auto
    have "files_ok (ofile t) (fobs t)" unfolding L F by (rule up) (use pos True in auto)
    moreover have "holders (fobs t) (cwd t) ip = holders (fobs s) (cwd s) ip" for ip
      unfolding L F by (rule holders_same) (use True in \<open>auto simp: fobs_def\<close>)
    ultimately show ?thesis using L F h cw by (simp add: refs_ok_def steady_def)
  next
    case False
    then have F: "fobs t = (fobs s)(f := (0, FD_NONE, f_ip ?x))" "irefs t = dec (f_ip ?x) (irefs s)" using B by auto
    have "files_ok (ofile t) (fobs t)" unfolding L F by (rule up) (use pos False in auto)
    moreover have "int (holders (fobs t) (cwd t) ip) \<le> irefs t ip" if "ip < NINODE" for ip
    proof -
      have "holders (fobs s) (cwd s) ip =
          holders ((fobs s)(f := (0, FD_NONE, f_ip ?x))) (cwd s) ip + (if snd (snd (fobs s f)) = ip then 1 else 0)"
        by (rule holders_drop [OF f]) (use pos in \<open>auto simp: fobs_def\<close>)
      then show ?thesis using h [rule_format, OF that] L F by (auto simp: dec_def fobs_def split: if_splits)
    qed
    ultimately show ?thesis using L cw by (simp add: refs_ok_def steady_def)
  qed
qed

text \<open>
  Opening: the reference that came with the inode becomes the file's, or is put again.
\<close>

lemma open_inode_refs:
  assumes run: "open_inode ip omode s = Inr (r, t)" and ok: "files_ok (ofile s) (fobs s)" and cw: "cwd s < NINODE"
    and ip: "ip < NINODE" and h: "\<forall>i < NINODE. int (holders (fobs s) (cwd s) i) \<le> dec ip (irefs s) i"
  shows "refs_ok t \<and> steady s t \<and> (r < 0 \<longrightarrow> irefs t = dec ip (irefs s))"
proof -
  let ?x = "itable s ip"
  have put: ?thesis if "iunlockput ip s = Inr t" "r = - 1"
    using iunlockput_ledger [OF that(1)] ok cw h that(2)
    by (auto simp: refs_ok_def steady_def dest!: rest_sys) (auto simp: sys_def)
  obtain r1 s1 where a: "filealloc s = (r1, s1)" by (cases "filealloc s")
  show ?thesis
  proof (cases "(i_type ?x = T_DEVICE \<and> (sint (i_major ?x) < 0 \<or> NDEV \<le> sint (i_major ?x))) \<or> r1 = None")
    case True
    then show ?thesis using run a put
      by (auto simp: open_inode_def Let_def filealloc_def elim!: bndE split: if_splits option.splits)
  next
    case False
    then obtain f where f: "r1 = Some f" by auto
    obtain fd s2 where b: "fdalloc f s1 = (fd, s2)" by (cases "fdalloc f s1")
    have s1: "f < NFILE" "f_ref (ftable s f) = 0" "s1 = fupd f (\<lambda>x. x\<lparr>f_ref := 1\<rparr>) s"
      using filealloc_SomeD a f by auto
    note fx = files_okD [OF ok s1(1)]
    have F0: "fobs s f = (0, FD_NONE, f_ip (ftable s f))" using fx(4) s1(2) by (simp add: fobs_def)
    have z: "fds (ofile s) f = 0" using fx(1) F0 by simp
    show ?thesis
    proof (cases "fd < 0")
      case True
      then obtain s3 where c: "fileclose f s1 = Inr s3" and p: "iunlockput ip s3 = Inr t" and r: "r = - 1"
        using run a b f False fdalloc_None [OF b]
        by (auto simp: open_inode_def Let_def elim!: bndE split: if_splits)
      have x1: "ftable s1 f = (ftable s f)\<lparr>f_ref := 1\<rparr>" using s1(3) by (simp add: fupd_def)
      have "fobs s1 = (fobs s)(f := (1, FD_NONE, f_ip (ftable s f)))" using s1(3) F0
        by (simp add: fobs_fupd) (simp add: fobs_def)
      then have "fobs s3 = fobs s" "irefs s3 = irefs s" "cwd s3 = cwd s" "ofile s3 = ofile s" "steady s s3"
        using fileclose_ledger [OF c] x1 F0 s1(3)
        by (auto simp: fobs_def steady_def fun_upd_idem_iff split: if_splits)
      then show ?thesis using iunlockput_ledger [OF p] ok cw h r
        by (auto simp: refs_ok_def steady_def dest!: rest_sys) (auto simp: sys_def)
    next
      case fdok: False
      from fdalloc_SomeD [OF b] fdok have s2: "ofile s (nat fd) = None" "nat fd < NOFILE"
        "s2 = s1\<lparr>ofile := (ofile s)(nat fd \<mapsto> f)\<rparr>" using s1(3) by auto
      let ?T = "if i_type ?x = T_DEVICE then FD_DEVICE else FD_INODE"
      let ?s = "fupd f (\<lambda>y. y\<lparr>f_ip := ip, f_readable := (omode AND O_WRONLY = 0),
          f_writable := (omode AND O_WRONLY \<noteq> 0 \<or> omode AND O_RDWR \<noteq> 0)\<rparr>)
          (if i_type ?x = T_DEVICE then fupd f (\<lambda>y. y\<lparr>f_type := FD_DEVICE, f_major := i_major ?x\<rparr>) s2
           else fupd f (\<lambda>y. y\<lparr>f_type := FD_INODE, f_off := 0\<rparr>) s2)"
      have x2: "ftable s2 f = (ftable s f)\<lparr>f_ref := 1\<rparr>" using s2(3) s1(3) by (simp add: fupd_def)
      have F2: "fobs s2 = (fobs s)(f := (1, FD_NONE, f_ip (ftable s f)))"
        using s2(3) s1(3) F0 by (simp add: fobs_fupd) (simp add: fobs_def)
      define s3 where "s3 = ?s"
      have c: "\<not> (i_type ?x = T_DEVICE \<and> (sint (i_major ?x) < 0 \<or> NDEV \<le> sint (i_major ?x)))" using False by auto
      have run3: "bnd (if omode AND O_TRUNC \<noteq> 0 \<and> i_type ?x = T_FILE then itrunc ip s3 else Inr s3)
          (\<lambda>s. Inr (fd, iunlock ip s)) = Inr (r, t)"
        using run c fdok by (simp only: open_inode_def Let_def if_False a f b prod.case option.case s3_def)
      have e: "even_refs s3 t" and r: "r = fd"
        using run3 by (auto elim!: bndE split: if_splits dest!: itrunc_ledger)
      have s3: "fobs s3 = (fobs s)(f := (1, ?T, ip))" "ofile s3 = (ofile s)(nat fd \<mapsto> f)"
          "cwd s3 = cwd s" "irefs s3 = irefs s" "steady s s3"
        using s2(3) s1(3) F2 x2 by (auto simp: s3_def fobs_fupd steady_def) (auto simp: fupd_def)
      have F: "sys t = sys s3" "irefs t = irefs s" "brefs t = brefs s3"
        using even_calm [OF e] s3(4) by (auto simp: calm_def)
      have t: "fobs t = (fobs s)(f := (1, ?T, ip))" "ofile t = (ofile s)(nat fd \<mapsto> f)" "cwd t = cwd s" "steady s t"
        using F s3 by (auto simp: sys_def steady_def)
      have "files_ok (ofile t) (fobs t)" unfolding t
        by (rule files_ok_upd [OF ok s1(1)])
          (use z s2 ok ip s1(1) in \<open>auto simp: fds_upd_new files_ok_def split: if_splits\<close>)
      moreover have "int (holders (fobs t) (cwd t) i) \<le> irefs t i" if i: "i < NINODE" for i
      proof -
        have "holders ((fobs s)(f := (1, ?T, ip))) (cwd s) i = holders (fobs s) (cwd s) i + (if ip = i then 1 else 0)"
          using holders_new [OF s1(1), of "fobs s" "(1, ?T, ip)" "cwd s" i] F0 by simp
        then show ?thesis using h [rule_format, OF i] t F by (auto simp: dec_def split: if_splits)
      qed
      ultimately show ?thesis using t cw r fdok by (simp add: refs_ok_def)
    qed
  qed
qed

lemma xv6fs_open_refs:
  assumes run: "xv6fs_open m s = Inr (r, t)" and ok: "refs_ok s"
  shows "refs_ok t \<and> steady s t"
proof -
  have c: "cwd s < NINODE" using refs_ok_cwd [OF ok] by simp
  let ?om = "argint m 1"
  show ?thesis
  proof (cases "argstr m 0 MAXPATH")
    case None
    then show ?thesis using run ok by (auto simp: xv6fs_open_def steady_def)
  next
    case (Some path)
    let ?look = "if ?om AND O_CREAT \<noteq> 0 then create path T_FILE 0 0 s
       else bnd (namei path s) (\<lambda>(r, s). case r of None \<Rightarrow> Inr (None, s)
              | Some ip \<Rightarrow> bnd (ilock ip s) (\<lambda>s. Inr (Some ip, s)))"
    obtain q s1 where l: "?look = Inr (q, s1)" and
      rest: "(case q of None \<Rightarrow> Inr (- 1, s1) | Some ip \<Rightarrow> open_inode ip ?om s1) = Inr (r, t)"
      using run Some by (simp only: xv6fs_open_def Let_def option.case) (elim bndE, auto)
    have L: "rest s1 = rest s \<and> brefs s1 = brefs s \<and>
       (case q of Some ip \<Rightarrow> irefs s1 = inc ip (irefs s) \<and> ip < NINODE
        | None \<Rightarrow> irefs s1 = irefs s \<or> (\<exists>ip. irefs s1 = inc ip (irefs s)))"
    proof (cases "?om AND O_CREAT \<noteq> 0")
      case True
      then show ?thesis using l create_ledger [of path T_FILE 0 0 s q s1] c by simp
    next
      case False
      then show ?thesis using l c
        by (auto elim!: bndE split: option.splits dest!: namei_ledger ledger)
    qed
    then have sy: "sys s1 = sys s" and st: "steady s s1" by (auto dest!: rest_sys simp: steady_def sys_def)
    show ?thesis
    proof (cases q)
      case None
      then have "t = s1" "\<And>i. irefs s i \<le> irefs s1 i" using rest L inc_ge [of "irefs s"] by auto
      then show ?thesis using refs_ok_mono [OF ok sy] st by simp
    next
      case (Some ip)
      then have "irefs s1 = inc ip (irefs s)" "ip < NINODE" "open_inode ip ?om s1 = Inr (r, t)" using L rest by auto
      moreover have "files_ok (ofile s1) (fobs s1)" "cwd s1 < NINODE" "fobs s1 = fobs s" "cwd s1 = cwd s"
        "\<forall>i < NINODE. int (holders (fobs s) (cwd s) i) \<le> irefs s i"
        using ok sy by (auto simp: refs_ok_def sys_def)
      ultimately have "refs_ok t \<and> steady s1 t" using open_inode_refs [of ip ?om s1 r t] by simp
      then show ?thesis using st by (simp add: steady_def)
    qed
  qed
qed

lemma xv6fs_lstat_refs: "xv6fs_lstat m s = Inr (r, t) \<Longrightarrow> refs_ok s \<Longrightarrow> refs_ok t \<and> steady s t"
  using lstat_ledger [of m s r t] refs_ok_cwd [of s] refs_ok_mono [of s t] inc_ge [of "irefs s"]
  by (auto simp: steady_def sys_def split: if_splits)

lemma calm_refs: "calm s t \<Longrightarrow> refs_ok s \<Longrightarrow> refs_ok t \<and> steady s t"
  using refs_ok_calm calm_steady by blast

theorem fs_dispatch_refs:
  assumes "fs_dispatch L label m s = Inr (r, t)" "refs_ok s"
  shows "refs_ok t \<and> steady s t"
  using assms file_calls_calm [of m s r t] getcwd_calm [of m s r t] xv6fs_unlink_calm [of m s r t]
    calm_refs [of s t] xv6fs_open_refs [of m s r t] xv6fs_close_refs [of m s r t]
    xv6fs_lstat_refs [of m s r t] refs_ok_cwd [of s] calm_refs [of s s]
  unfolding fs_dispatch_def by (simp split: if_splits)

section \<open>The server\<close>

text \<open>
  The state the server starts from: zeroed static data, and client memory that holds no open
  file (\<open>malloc\<close> does not promise that, the first requests rely on it).
\<close>

definition boot :: "'z fstate_scheme \<Rightarrow> bool" where
  "boot s = ((\<forall>i. b_dev (bufs s i) = 0 \<and> b_blockno (bufs s i) = 0 \<and> b_refcnt (bufs s i) = 0) \<and> freeinode s = 1 \<and>
     (\<forall>i. i_ref (itable s i) = 0 \<and> length (i_addrs (itable s i)) = NADDRS) \<and>
     (\<forall>f. f_ref (ftable s f) = 0 \<and> f_type (ftable s f) = FD_NONE) \<and> (\<forall>fd. ofile s fd = None))"

inductive reach :: "fs_labels \<Rightarrow> 'z fstate_scheme \<Rightarrow> bool" for L where
  start: "boot s \<Longrightarrow> server_init s = Inr t \<Longrightarrow> reach L t"
| request: "reach L s \<Longrightarrow> fs_dispatch L label m s = Inr (r, t) \<Longrightarrow> reach L t"

inductive_cases reachE: "reach L t"

lemma fsinit_frame:
  assumes "fsinit dev s = Inr t" "freeinode s = 1"
  shows "itable t = itable s \<and> cwd t = cwd s \<and> fsys.more t = fsys.more s \<and> brefs t = brefs s"
proof -
  obtain d where c: "create_image s = Inr (s\<lparr>fs_sb := image_sb0, freeblock := 51, freeinode := 2, disk := d\<rparr>)"
    (is "_ = Inr ?s") using create_image_fresh [OF assms(2)] by blast
  obtain bp u where r: "bread dev 1 ?s = Inr (bp, u)" and
    t: "t = brelse bp (u\<lparr>fs_sb := get_sb (b_data (bufs u bp))\<rparr>)"
    using assms(1) c by (auto simp: fsinit_def readsb_def elim!: bndE split: if_splits)
  have b: "brefs (x\<lparr>fs_sb := q\<rparr>) = brefs x" "brefs ?s = brefs s" for x :: "'a fsys_scheme" and q
    by (simp_all add: brefs_def)
  have "rest t = rest (u\<lparr>fs_sb := get_sb (b_data (bufs u bp))\<rparr>)" "brefs t = dec bp (brefs u)" "itable t = itable u"
    unfolding t using b by simp_all
  then show ?thesis using bread_ledger [OF r] b by (simp add: rest_def)
qed

definition server_inv :: "'z fstate_scheme \<Rightarrow> bool" where
  "server_inv s = (refs_ok s \<and> mem_ok s \<and> (\<forall>b. brefs s b = 0) \<and> fs_sb s = image_sb0 \<and>
     fresh_image image_sb0 (disk s))"

lemma namei_root:
  assumes "\<forall>i. i_ref (itable s i) = 0"
  shows "namei [SLASH] s = Inr (Some 0, iupd 0 (\<lambda>x. x\<lparr>i_dev := ROOTDEV, i_inum := ROOTINO, i_ref := 1, i_valid := 0\<rparr>) s)"
proof -
  have "scan (\<lambda>i. 0 < i_ref (itable s i) \<and> i_dev (itable s i) = ROOTDEV \<and> i_inum (itable s i) = ROOTINO) 0 NINODE = None"
    "scan (\<lambda>i. i_ref (itable s i) = 0) 0 NINODE = Some 0"
    using assms by (simp_all add: scan_None scan_Some NINODE_def)
  then show ?thesis
    by (simp add: namei_def namex_def iget_def chr_def namex_loop.simps skipelem_def)
qed

theorem server_starts:
  assumes b: "boot s"
  shows "\<exists>t. server_init s = Inr t \<and> server_inv t"
proof -
  let ?s1 = "iupd 0 (\<lambda>x. x\<lparr>i_dev := ROOTDEV, i_inum := ROOTINO, i_ref := 1, i_valid := 0\<rparr>) s"
  let ?s2 = "?s1\<lparr>cwd := 0, cwd_path := [SLASH]\<rparr>"
  have n: "namei [SLASH] s = Inr (Some 0, ?s1)" using b by (intro namei_root) (simp add: boot_def)
  have B: "bufs ?s2 = bufs s" by (simp add: iupd_def)
  have d: "b_dev (bufs (binit ?s2) i) = 0" "b_refcnt (bufs (binit ?s2) i) = 0" for i
    using b by (simp_all add: binit_fields B boot_def)
  have co: "cache_ok (binit ?s2)" by (rule cache_ok_binit) (use b B in \<open>simp add: boot_def\<close>)
  have fb: "free_buf (binit ?s2)" unfolding free_buf_def is_free_def using d by (intro exI [of _ 0]) (simp add: size_defs)
  have nh: "\<forall>b. \<not> hits (binit ?s2) ROOTDEV 1 b" using d by (auto simp: hits_def is_key_def ROOTDEV_def)
  have bi: "itable (binit ?s2) = itable ?s2" "cwd (binit ?s2) = 0" "fsys.more (binit ?s2) = fsys.more ?s2"
    "freeinode (binit ?s2) = freeinode s"
    by (simp_all add: binit_def Let_def iupd_def)
  have f1: "freeinode (binit ?s2) = 1" using bi b by (simp add: boot_def)
  obtain t where t: "fsinit ROOTDEV (binit ?s2) = Inr t" "fs_sb t = image_sb0" "fresh_image image_sb0 (disk t)" "cache_ok t"
    using fsinit_ok [OF f1 co fb _ nh] by (auto simp: ROOTDEV_def)
  have fr: "itable t = itable ?s2" "cwd t = 0" "fsys.more t = fsys.more ?s2" "brefs t = brefs (binit ?s2)"
    using fsinit_frame [OF t(1) f1] bi by auto
  have ft: "ftable t = ftable s" "ofile t = ofile s"
    using more_files [OF fr(3)] by (simp_all add: iupd_def)
  have it: "itable t = (itable s)(0 := (itable s 0)\<lparr>i_dev := ROOTDEV, i_inum := ROOTINO, i_ref := 1, i_valid := 0\<rparr>)"
    using fr(1) by (simp add: iupd_def)
  have "table_ok (itable t)" unfolding it by (rule table_ok_recycle) (use b in \<open>auto simp: boot_def table_ok_def\<close>)
  moreover have "refs_ok t"
    using b fr(2) by (auto simp: refs_ok_def files_ok_def holders_def fds_def fobs_def irefs_def it ft boot_def NINODE_def)
  moreover have "brefs t b = 0" for b using fr(4) d by (simp add: brefs_def)
  ultimately have "server_inv t" using t by (simp add: server_inv_def mem_ok_def)
  then show ?thesis using n t(1) by (simp add: server_init_def iinit_def fileinit_def)
qed

theorem server_inv_request:
  assumes "server_inv s" "fs_dispatch L label m s = Inr (r, t)"
  shows "server_inv t"
proof -
  have "refs_ok s" "mem_ok s" using assms(1) by (simp_all add: server_inv_def)
  then have "refs_ok t \<and> steady s t" "mem_ok t"
    using fs_dispatch_refs [OF assms(2)] calls.fs_dispatch [of s L label m] assms(2) refs_ok_live [of s] refs_ok_cwd [of s]
    by auto
  then show ?thesis using assms(1) by (simp add: server_inv_def steady_def)
qed

theorem reach_inv: "reach L s \<Longrightarrow> server_inv s"
  by (induction rule: reach.induct) (use server_starts server_inv_request in force)+

lemma fs_run_inv: "fs_run L rs s = Inr (rets, t) \<Longrightarrow> server_inv s \<Longrightarrow> server_inv t"
  by (induction L rs s arbitrary: rets t rule: fs_run.induct)
    (auto elim!: bndE dest: server_inv_request)

theorem reach_panics:
  assumes "reach L s" "fs_dispatch L label m s = Inl e"
  shows "fs_panic e"
proof -
  have "server_inv s" by (rule reach_inv [OF assms(1)])
  then have "refs_ok s" "mem_ok s" by (simp_all add: server_inv_def)
  then show ?thesis
    using calls.fs_dispatch [of s L label m] assms(2) refs_ok_live [of s] refs_ok_cwd [of s] by auto
qed

end
