(* ===== verification/Coherence.thy ===== *)
theory Coherence
  imports Safety
begin

text \<open>
  What the file system reads through the cache. \<open>cview\<close> is the content of each block as the
  cache answers it; these lemmas say how every cache operation changes it. Nothing ever writes
  a buffer back (\<open>bwrite\<close> has no caller), so a buffer that is reused takes the block it held
  back to its content on the disk. What was used last is safe: the buffer just released is the
  last one to be reused.
\<close>

section \<open>Reading and evicting\<close>

lemma hits_valid: "cache_ok s \<Longrightarrow> dev \<noteq> 0 \<Longrightarrow> hits s dev n b \<Longrightarrow> b_valid (bufs s b) \<noteq> 0 \<Longrightarrow>
    cview s dev n = b_data (bufs s b)"
  by (simp add: cview_hit)

lemma hits_key: "hits s d n b \<Longrightarrow> hits s d' n' b \<Longrightarrow> d = d' \<and> n = n'"
  by (auto simp: hits_def is_key_def)

lemma cview_cong: "bufs s = bufs t \<Longrightarrow> disk s = disk t \<Longrightarrow> cview s = cview t"
  unfolding cview_def by (simp cong: option.case_cong)

lemma bread_post_bufs: "bread_post dev n s b t \<Longrightarrow> bufs t = (bufs s)(b := bufs t b)"
  unfolding bread_post_def by (metis bio.ext_inject bio.surjective bio.update_convs(1))

lemma bread_post_disk: "bread_post dev n s b t \<Longrightarrow> disk t = disk s"
  unfolding bread_post_def by (metis bio.ext_inject bio.surjective bio.update_convs(1))

lemma bread_post_hits: "bread_post dev n s b t \<Longrightarrow> hits t dev n b"
  by (simp add: bread_post_def hits_def)

lemma bread_post_other:
  assumes "bread_post dev n s b t" "c \<noteq> b"
  shows "bufs t c = bufs s c"
  using bread_post_bufs [OF assms(1)] assms(2) by (metis fun_upd_other)

theorem bread_view:
  assumes ok: "cache_ok s" and d: "dev \<noteq> 0" "dev' \<noteq> 0" and r: "bread dev n s = Inr (b, t)"
  shows "cview t dev' k = (if hits s dev' k b \<and> (dev', k) \<noteq> (dev, n) then disk s (unat k) else cview s dev' k)"
proof -
  have p: "bread_post dev n s b t" by (rule bread_post_result [OF ok d(1) r])
  have ok': "cache_ok t" by (rule cache_ok_bread [OF ok d(1) r])
  have o': "bufs t c = bufs s c" if "c \<noteq> b" for c by (rule bread_post_other [OF p that])
  show ?thesis
  proof (cases "(dev', k) = (dev, n)")
    case True
    then show ?thesis using p cview_hit [OF ok' d(1) bread_post_hits [OF p]] by (simp add: bread_post_def)
  next
    case False
    have nb: "\<not> hits t dev' k b" using False hits_key bread_post_hits [OF p] by fastforce
    have same: "hits t dev' k c = hits s dev' k c" if "c \<noteq> b" for c using o' [OF that] by (simp add: hits_def)
    show ?thesis
    proof (cases "\<exists>c. hits s dev' k c")
      case True
      then obtain c where c: "hits s dev' k c" by blast
      show ?thesis
      proof (cases "c = b")
        case True
        have "\<not> hits t dev' k e" for e
          using nb same [of e] hits_unique [OF ok d(2) c, of e] True by (cases "e = b") auto
        then have "cview t dev' k = disk t (unat k)" by (intro cview_miss) simp
        then show ?thesis using c True False bread_post_disk [OF p] by simp
      next
        case cb: False
        have nh: "\<not> hits s dev' k b" using hits_unique [OF ok d(2) c] cb by auto
        have "hits t dev' k c" using same [OF cb] c by simp
        from cview_hit [OF ok' d(2) this] show ?thesis
          using cview_hit [OF ok d(2) c] o' [OF cb] nh bread_post_disk [OF p] by simp
      qed
    next
      case none: False
      then have "\<not> hits t dev' k e" for e using nb same [of e] by (cases "e = b") auto
      then show ?thesis using cview_miss [of t dev' k] cview_miss [of s dev' k] none bread_post_disk [OF p] by simp
    qed
  qed
qed

lemma bdata_view:
  assumes ok: "cache_ok s" and d: "dev \<noteq> 0" and h: "hits s dev n b" "b_valid (bufs s b) \<noteq> 0"
  shows "cview (bdata b f s) dev n = f (cview s dev n)"
  using cview_hit [OF cache_ok_bdata [OF ok] d, of b f n b] hits_bdata [of b f s dev n b] h
    cview_hit [OF ok d h(1)] by (simp add: bdata_fields)

lemma bdata_view_other:
  assumes "\<not> hits s dev n b"
  shows "cview (bdata b f s) dev n = cview s dev n"
proof -
  have "scan (\<lambda>c. is_key dev n (bufs (bdata b f s) c) \<and> b_valid (bufs (bdata b f s) c) \<noteq> 0) 0 NBUF =
      scan (\<lambda>c. is_key dev n (bufs s c) \<and> b_valid (bufs s c) \<noteq> 0) 0 NBUF"
    by (rule scan_cong) (simp add: is_key_def bdata_fields)
  moreover have "scan (\<lambda>c. is_key dev n (bufs s c) \<and> b_valid (bufs s c) \<noteq> 0) 0 NBUF = Some c \<Longrightarrow> c \<noteq> b" for c
    using assms by (auto simp: scan_Some hits_def)
  ultimately show ?thesis by (simp add: cview_def bdata_fields split: option.split)
qed

text \<open>On a miss the buffer taken is the least recently used free one.\<close>

lemma bread_victim:
  assumes xs: "order_ok (bufs s) xs" and m: "\<And>c. \<not> hits s dev n c" and r: "bread dev n s = Inr (b, t)"
  shows "find (\<lambda>i. is_free (bufs s i)) (rev xs) = Some b"
  using r by (auto simp: bread_def bget_miss [OF xs m] disk_rw_def elim!: bndE split: option.splits if_splits)

section \<open>An idle cache\<close>

text \<open>Between two requests nobody holds a buffer. The head of the list was released last.\<close>

definition idle :: "'z bio_scheme \<Rightarrow> bool" where
  "idle s = (\<forall>b < NBUF. is_free (bufs s b))"

definition recent :: "'z bio_scheme \<Rightarrow> u32 \<Rightarrow> u32 \<Rightarrow> bool" where
  "recent s dev n = (\<exists>b xs. order_ok (bufs s) (b # xs) \<and> hits s dev n b)"

lemma idle_free_buf: "idle s \<Longrightarrow> free_buf s"
  unfolding idle_def free_buf_def by (rule exI [of _ 0]) (simp add: size_defs)

lemma recent_kept:
  assumes ok: "cache_ok s" and i: "idle s" and d: "dev \<noteq> 0" "dev' \<noteq> 0" and r: "bread dev n s = Inr (b, t)"
    and rec: "recent s dev' m" and ne: "(dev', m) \<noteq> (dev, n)"
  shows "\<not> hits s dev' m b"
proof
  assume h: "hits s dev' m b"
  obtain c xs where c: "order_ok (bufs s) (c # xs)" "hits s dev' m c" using rec by (auto simp: recent_def)
  have p: "bread_post dev n s b t" by (rule bread_post_result [OF ok d(1) r])
  show False
  proof (cases "hits s dev n b")
    case True
    from hits_key [OF h this] show False using ne by simp
  next
    case False
    then have m: "\<And>c. \<not> hits s dev n c" using p by (simp add: bread_post_def)
    have v: "find (\<lambda>i. is_free (bufs s i)) (rev (c # xs)) = Some b" by (rule bread_victim [OF c(1) m r])
    have "length (c # xs) = 30" using order_ok_length [OF c(1)] by (simp add: size_defs)
    then obtain y ys where ys: "rev xs = y # ys" by (cases "rev xs") auto
    have "y \<in> set (rev xs)" using ys by simp
    then have yx: "y \<in> set xs" by simp
    have "distinct (HEAD # c # xs)" "set (c # xs) = {0..<NBUF}" using c(1) unfolding order_ok_def ring_def by blast+
    then have y: "y < NBUF" "y \<noteq> c" using yx by (metis atLeastLessThan_iff list.set_intros(2), auto)
    have "is_free (bufs s y)" using i y(1) by (simp add: idle_def)
    then have "b = y" using v ys by simp
    moreover have "b = c" by (rule hits_unique [OF ok d(2) h c(2)])
    ultimately show False using y(2) by simp
  qed
qed

text \<open>
  Using a block in an idle cache: read it, change it, release it. The new content is what the
  cache answers from then on, and the block used before keeps its content.
\<close>

theorem use_block:
  fixes s :: "'z bio_scheme"
  assumes ok: "cache_ok s" and i: "idle s" and d: "dev \<noteq> 0" and n: "unat n < FSSIZE"
  shows "\<exists>b t. bread dev n s = Inr (b, t) \<and> b < NBUF \<and> b_data (bufs t b) = cview s dev n \<and> bufs_step s t \<and>
    (\<forall>f. let u = brelse b (bdata b f t) in
      cache_ok u \<and> idle u \<and> bufs_step s u \<and> recent u dev n \<and> cview u dev n = f (cview s dev n) \<and>
      (\<forall>dev' m. dev' \<noteq> 0 \<and> recent s dev' m \<and> (dev', m) \<noteq> (dev, n) \<longrightarrow> cview u dev' m = cview s dev' m))"
proof -
  obtain b t where r: "bread dev n s = Inr (b, t)" and p: "bread_post dev n s b t"
    using bread_total [OF ok d n] idle_free_buf [OF i] by blast
  have okt: "cache_ok t" by (rule cache_ok_bread [OF ok d r])
  have b: "b < NBUF" and v: "b_valid (bufs t b) \<noteq> 0" and dt: "b_data (bufs t b) = cview s dev n"
    using p by (auto simp: bread_post_def)
  have ht: "hits t dev n b" by (rule bread_post_hits [OF p])
  have rc: "b_refcnt (bufs t b) = 1"
    using p i b by (auto simp: bread_post_def idle_def is_free_def split: if_splits)
  have ct: "cview t dev n = cview s dev n" using hits_valid [OF okt d ht v] dt by simp
  have st: "bufs_step s t" by (rule bufs_step_bread [OF r]) simp
  show ?thesis
  proof (intro exI conjI allI, rule r, rule b, rule dt, rule st, unfold Let_def, intro conjI allI impI)
    fix f
    let ?w = "bdata b f t" and ?u = "brelse b (bdata b f t)"
    have okw: "cache_ok ?w" by (rule cache_ok_bdata [OF okt])
    show "cache_ok ?u" by (rule cache_ok_brelse [OF okw b])
    show "idle ?u"
      using i rc bread_post_other [OF p] by (auto simp: idle_def is_free_def brelse_fields bdata_fields)
    show "bufs_step s ?u" by (intro bufs_step_brelse bufs_step_bdata st)
    show "recent ?u dev n"
    proof -
      obtain xs where xs: "order_ok (bufs ?w) xs" using okw by (auto simp: cache_ok_def)
      have "order_ok (bufs ?u) (mru b xs)"
        using brelse_order [OF xs b] rc by (simp add: released_def bdata_fields)
      then show ?thesis using ht unfolding recent_def mru_def by (auto simp: hits_brelse hits_bdata)
    qed
    show "cview ?u dev n = f (cview s dev n)"
      using bdata_view [OF okt d ht v] ct by (simp add: cview_brelse)
    show "cview ?u dev' m = cview s dev' m"
      if "dev' \<noteq> 0 \<and> recent s dev' m \<and> (dev', m) \<noteq> (dev, n)" for dev' m
    proof -
      have nh: "\<not> hits s dev' m b" using recent_kept [OF ok i d _ r] that by blast
      have "\<not> hits t dev' m b" using hits_key [OF ht] that by blast
      then have "cview ?u dev' m = cview t dev' m" by (simp add: cview_brelse bdata_view_other)
      also have "\<dots> = cview s dev' m" using bread_view [OF ok d _ r, of dev' m] that nh by simp
      finally show ?thesis .
    qed
  qed
qed

text \<open>
  C8. Nothing writes a modified buffer back before it is recycled: when the least recently used free
  buffer holds a block with modifications and another block is read, the modifications are gone
  and the block reads as the disk has it.
\<close>

theorem dirty_buffer_lost:
  assumes ok: "cache_ok s" and d: "dev \<noteq> 0" "dev' \<noteq> 0" and h: "hits s dev' k b" and m: "\<forall>c. \<not> hits s dev n c"
    and xs: "order_ok (bufs s) xs" "find (\<lambda>i. is_free (bufs s i)) (rev xs) = Some b"
    and r: "bread dev n s = Inr (b', t)"
  shows "cview t dev' k = disk s (unat k) \<and> disk t = disk s"
proof -
  have "b' = b" using bread_victim [OF xs(1) _ r] m xs(2) by simp
  moreover have "(dev', k) \<noteq> (dev, n)" using h m by auto
  ultimately show ?thesis using bread_view [OF ok d r, of k] h bufs_step_disk [OF bufs_step_bread [OF r bufs_step_refl]]
    by simp
qed

text \<open>
  C6. \<open>bread\<close> succeeds if and only if the block is cached or a buffer is free, and then delivers the
  content of the block as the cache holds it; the only other block whose content changes is the
  one that was evicted, which falls back to the disk. Otherwise the panic is \<open>no buffers\<close>.
\<close>

theorem bread_answers_view:
  assumes ok: "cache_ok s" and d: "dev \<noteq> 0" and n: "unat n < FSSIZE"
  shows "if (\<exists>b. hits s dev n b) \<or> free_buf s
    then \<exists>b t. bread dev n s = Inr (b, t) \<and> cache_ok t \<and> b_data (bufs t b) = cview s dev n \<and>
      (\<forall>dev' k. dev' \<noteq> 0 \<longrightarrow> cview t dev' k =
         (if hits s dev' k b \<and> (dev', k) \<noteq> (dev, n) then disk s (unat k) else cview s dev' k))
    else bread dev n s = Inl BgetNoBuffers"
proof (cases "(\<exists>b. hits s dev n b) \<or> free_buf s")
  case True
  then obtain b t where "bread dev n s = Inr (b, t)" "bread_post dev n s b t"
    using bread_total [OF ok d n] by blast
  then show ?thesis using True bread_view [OF ok d] cache_ok_bread [OF ok d] by (auto simp: bread_post_def)
next
  case False
  then show ?thesis using bread_no_buffers [OF ok] by simp
qed

text \<open>
  C7. The doubly linked list of buffers stays a permutation of all buffers, linked both ways, in the
  order of their last use: releasing the last reference moves a buffer to the front, releasing
  another one changes nothing, and no content changes.
\<close>

theorem brelse_keeps_lru:
  assumes "order_ok (bufs s) xs" "b < NBUF"
  shows "order_ok (bufs (brelse b s)) (if b_refcnt (bufs s b) = 1 then b # remove1 b xs else xs) \<and>
    cview (brelse b s) = cview s"
  using brelse_order [OF assms] by (simp add: released_def mru_def cview_brelse split: if_splits)

end
