(* ===== verification/Demo.thy ===== *)
theory Demo
  imports Coherence
begin

text \<open>
  Concrete states for the witnesses: a file system whose cache is as \<open>binit\<close> leaves it, whose
  bitmap has three blocks in use and whose table holds one open directory with an entry \<open>a\<close>, and the same with a
  modified buffer that is the next to be recycled.
\<close>

definition blank_buf :: buf where
  "blank_buf = \<lparr>b_valid = 0, b_dev = 0, b_blockno = 0, b_refcnt = 0, b_prev = 0, b_next = 0, b_data = \<lambda>_. 0\<rparr>"

definition demo_inode :: inode where
  "demo_inode = \<lparr>i_dev = 1, i_inum = 1, i_ref = 1, i_valid = 1, i_type = T_DIR, i_major = 0, i_minor = 0,
     i_nlink = 1, i_size = 128, i_addrs = 50 # replicate 12 0\<rparr>"

definition demo_disk :: "nat \<Rightarrow> bytes" where
  "demo_disk = (\<lambda>_ _. 0)(45 := (\<lambda>_. 0)(0 := 7), 50 := dirent_bytes 1 [97])"

definition demo_fs :: fsys where
  "demo_fs = binit \<lparr>bufs = \<lambda>_. blank_buf, disk = demo_disk, fs_sb = image_sb0, freeinode = 1, freeblock = 0,
     itable = \<lambda>_. demo_inode, cwd = 0\<rparr>"

lemma binit_more [simp]: "itable (binit s) = itable s" "fs_sb (binit s) = fs_sb s" "freeinode (binit s) = freeinode s"
  by (simp_all add: binit_def Let_def)

lemma demo_bufs [simp]: "b_dev (bufs demo_fs i) = 0" "b_refcnt (bufs demo_fs i) = 0"
  by (simp_all add: demo_fs_def frame_simps blank_buf_def)

lemma demo_parts [simp]: "itable demo_fs = (\<lambda>_. demo_inode)" "fs_sb demo_fs = image_sb0" "disk demo_fs = demo_disk"
    "freeinode demo_fs = 1"
  by (simp_all add: demo_fs_def frame_simps)

lemma demo_idle [simp]: "idle demo_fs" "cache_ok demo_fs"
  unfolding demo_fs_def
  by (auto simp: idle_def is_free_def frame_simps blank_buf_def intro!: cache_ok_binit)

lemma demo_misses: "d \<noteq> 0 \<Longrightarrow> \<not> hits demo_fs d n b"
  by (auto simp: hits_def is_key_def)

lemma demo_view [simp]: "d \<noteq> 0 \<Longrightarrow> cview demo_fs d n = demo_disk (unat n)"
  using cview_miss [of demo_fs d n] by (simp add: demo_misses)

lemma demo_inode_parts [simp]: "i_dev demo_inode = 1" "i_inum demo_inode = 1" "i_ref demo_inode = 1" "i_valid demo_inode = 1"
    "i_type demo_inode = T_DIR" "i_size demo_inode = 128" "length (i_addrs demo_inode) = NADDRS" "i_addrs demo_inode ! 0 = 50"
  by (simp_all add: demo_inode_def size_defs)

lemma demo_blocks [simp]: "IBLOCK 1 image_sb0 = 32" "BBLOCK b image_sb0 = of_nat (unat b div BPB) + 45"
    "sb_size image_sb0 = 32768"
  by (simp_all add: IBLOCK_def BBLOCK_def image_sb0_def layout_num)

lemma demo_order: "order_ok (bufs demo_fs) (rev [0..<NBUF])"
  unfolding demo_fs_def by (rule binit_order)

text \<open>Buffer 0, the first to be recycled, holds block 7 with a modification.\<close>

definition dirty_fs :: fsys where
  "dirty_fs = demo_fs\<lparr>bufs := (bufs demo_fs)(0 := (bufs demo_fs 0)
     \<lparr>b_dev := 1, b_blockno := 7, b_valid := 1, b_data := \<lambda>_. 1\<rparr>)\<rparr>"

lemma dirty_order: "order_ok (bufs dirty_fs) (rev [0..<NBUF])"
  unfolding dirty_fs_def using demo_order by (simp add: order_ok_upd)

lemma dirty_ok [simp]: "cache_ok dirty_fs"
proof -
  have "uniq (bufs dirty_fs)" by (auto simp: uniq_def dirty_fs_def is_key_def)
  then show ?thesis using dirty_order by (auto simp: cache_ok_def)
qed

lemma dirty_hits: "d \<noteq> 0 \<Longrightarrow> hits dirty_fs d n b = (d = 1 \<and> n = 7 \<and> b = 0)"
  by (auto simp: hits_def is_key_def dirty_fs_def size_defs)

lemma dirty_victim: "find (\<lambda>i. is_free (bufs dirty_fs i)) (rev (rev [0..<NBUF])) = Some 0"
proof -
  have "[0..<NBUF] = 0 # [1..<NBUF]" by (simp add: upt_conv_Cons size_defs)
  then show ?thesis by (simp add: is_free_def dirty_fs_def)
qed

lemma demo_bits: "j < BPB \<Longrightarrow> bit_rd (demo_disk 45) j = (j < 3)"
proof -
  assume "j < BPB"
  have "bit (7 :: u8) k \<longleftrightarrow> k < 3" if "k < 8" for k
    using that by (auto simp: less_Suc_eq eval_nat_numeral bit_simps)
  then show ?thesis
    by (auto simp: bit_rd_bit demo_disk_def)
qed

section \<open>Witnesses of the properties of cache and image\<close>

theorem bread_answers_view_witness:
  "\<exists>b t. bread 1 45 demo_fs = Inr (b, t) \<and> b_data (bufs t b) 0 = 7 \<and> cview t 1 50 = cview demo_fs 1 50"
proof -
  have "free_buf demo_fs" by (rule idle_free_buf) simp
  then obtain b t where "bread 1 45 demo_fs = Inr (b, t)" "b_data (bufs t b) = cview demo_fs 1 45"
    "\<forall>dev' k. dev' \<noteq> 0 \<longrightarrow> cview t dev' k =
         (if hits demo_fs dev' k b \<and> (dev', k) \<noteq> (1, 45) then disk demo_fs (unat k) else cview demo_fs dev' k)"
    using bread_answers_view [of demo_fs 1 45] by (auto simp: layout_num)
  then show ?thesis by (auto simp: demo_misses demo_disk_def)
qed

theorem brelse_keeps_lru_witness:
  "order_ok (bufs (brelse 3 (bpin 3 demo_fs))) (3 # remove1 3 (rev [0..<NBUF])) \<and> order_ok (bufs (binit demo_fs)) (rev [0..<NBUF])"
proof -
  have "order_ok (bufs (bpin 3 demo_fs)) (rev [0..<NBUF])" using demo_order by (simp add: bpin_def order_ok_upd)
  then show ?thesis using brelse_keeps_lru [of "bpin 3 demo_fs" _ 3] binit_order [of demo_fs] by (simp add: bpin_def size_defs)
qed

theorem dirty_buffer_lost_witness:
  "\<exists>b t. bread 1 8 dirty_fs = Inr (b, t) \<and> cview dirty_fs 1 7 = (\<lambda>_. 1) \<and> cview t 1 7 = (\<lambda>_. 0)"
proof -
  have h: "hits dirty_fs 1 7 0" "\<forall>c. \<not> hits dirty_fs 1 8 c" by (simp_all add: dirty_hits)
  have "free_buf dirty_fs" using dirty_victim by (auto simp: free_buf_def dest!: find_SomeD)
  then obtain b t where r: "bread 1 8 dirty_fs = Inr (b, t)"
    using bread_total [of dirty_fs 1 8] by (auto simp: layout_num)
  have "cview dirty_fs 1 7 = (\<lambda>_. 1)" using hits_valid [OF dirty_ok _ h(1)] by (simp add: dirty_fs_def)
  then show ?thesis
    using r dirty_buffer_lost [OF dirty_ok _ _ h dirty_order dirty_victim r] by (simp add: dirty_fs_def demo_disk_def)
qed

theorem image_is_built_witness:
  "\<exists>t. fsinit 1 demo_fs = Inr t \<and> de_inum (get_dirent (disk t 50) 0) = 1 \<and> di_type (get_dinode (disk t 32) 1) = T_DIR"
proof -
  have "free_buf demo_fs" by (rule idle_free_buf) simp
  then obtain t where t: "fsinit 1 demo_fs = Inr t" "fresh_image image_sb0 (disk t)"
    using image_is_built [of demo_fs 1] by (auto simp: demo_misses)
  have "1 < IPB" by (simp add: layout_num)
  then have "get_dinode (disk t 32) 1 = root_dinode" using t(2) by (simp add: fresh_image_def)
  then show ?thesis using t by (auto simp: fresh_image_def root_dinode_def)
qed

theorem inode_on_disk_roundtrip_witness:
  "\<exists>t. winode 1 root_dinode demo_fs = Inr t \<and> rinode 1 t = Inr (root_dinode, t) \<and> (\<exists>e. rinode 2 t = Inr (e, t))"
proof -
  have "dinode_ok root_dinode" by (simp add: dinode_ok_def root_dinode_def layout_num)
  then show ?thesis
    using inode_on_disk_roundtrip [of 1 demo_fs 2 root_dinode]
    by (auto simp: IBLOCK_def image_sb0_def layout_num)
qed

end
