(* ===== verification/Storage.thy ===== *)
theory Storage
  imports Demo Ledger
begin

text \<open>
  What the operations of fs.c mean for the content of the disk as the cache answers it: the
  block allocator on the free map, an inode written and loaded again, file contents written and
  read back, and what truncation leaves behind.
\<close>

section \<open>The free map\<close>

text \<open>
  A block allocated from the first bitmap block: the lowest clear bit, set afterwards, with no
  other bit changed, and the block zeroed.
\<close>

lemma balloc_first:
  assumes ok: "cache_ok s" "idle s" "dev \<noteq> 0"
    and sb: "BBLOCK 0 (fs_sb s) = bm" "unat bm < FSSIZE" "unat (sb_size (fs_sb s)) \<le> FSSIZE"
    and x: "scan (\<lambda>i. i < unat (sb_size (fs_sb s)) \<and> \<not> bit_rd (cview s dev bm) i) 0 BPB = Some x"
    and nbm: "of_nat x \<noteq> bm"
  shows "\<exists>t. balloc dev s = Inr (of_nat x, t) \<and> cache_ok t \<and> idle t \<and> bufs_step s t \<and>
    (\<forall>y < BPB. bit_rd (cview t dev bm) y = (y = x \<or> bit_rd (cview s dev bm) y)) \<and>
    (\<forall>i < BSIZE. cview t dev (of_nat x) i = 0)"
proof -
  have xx: "x < unat (sb_size (fs_sb s))" "x < BPB" "\<not> bit_rd (cview s dev bm) x"
    using x by (auto simp: scan_Some)
  obtain bp t1 where r1: "bread dev bm s = Inr (bp, t1)" and d1: "b_data (bufs t1 bp) = cview s dev bm"
    and st1: "bufs_step s t1" and u1: "\<And>f. let u = brelse bp (bdata bp f t1) in
      cache_ok u \<and> idle u \<and> bufs_step s u \<and> recent u dev bm \<and> cview u dev bm = f (cview s dev bm)"
    using use_block [OF ok sb(2)] by (auto simp: Let_def)
  let ?u = "brelse bp (bdata bp (\<lambda>d. bit_set d x) t1)"
  from u1 [of "\<lambda>d. bit_set d x"] have u: "cache_ok ?u" "idle ?u" "bufs_step s ?u" "recent ?u dev bm"
    "cview ?u dev bm = bit_set (cview s dev bm) x" by (simp_all add: Let_def)
  have "x < FSSIZE" using xx sb(3) by simp
  then have ux: "unat (of_nat x :: u32) = x" by (intro unat_u32) (simp add: FSSIZE_def)
  then have "unat (of_nat x :: u32) < FSSIZE" using \<open>x < FSSIZE\<close> by simp
  from use_block [OF u(1,2) ok(3) this] obtain b2 t2 where r2: "bread dev (of_nat x) ?u = Inr (b2, t2)" and
    u2: "\<And>f. let w = brelse b2 (bdata b2 f t2) in cache_ok w \<and> idle w \<and> bufs_step ?u w \<and>
      cview w dev (of_nat x) = f (cview ?u dev (of_nat x)) \<and>
      (\<forall>dev' m. dev' \<noteq> 0 \<and> recent ?u dev' m \<and> (dev', m) \<noteq> (dev, of_nat x) \<longrightarrow> cview w dev' m = cview ?u dev' m)"
    by (auto simp: Let_def)
  let ?w = "brelse b2 (bdata b2 (\<lambda>d. fill d 0 0 BSIZE) t2)"
  from u2 [of "\<lambda>d. fill d 0 0 BSIZE"] have w: "cache_ok ?w" "idle ?w" "bufs_step ?u ?w"
    "cview ?w dev (of_nat x) = fill (cview ?u dev (of_nat x)) 0 0 BSIZE"
    "cview ?w dev bm = cview ?u dev bm" using u(4) nbm ok(3) by (auto simp: Let_def)
  have fs: "fs_sb t1 = fs_sb s" "fs_sb ?u = fs_sb s" using bufs_step_fsys(1) [OF st1] bufs_step_fsys(1) [OF u(3)] by simp_all
  have z: "zero_block dev (of_nat x) ?u = Inr ?w" by (simp add: zero_block_def r2)
  have bb: "balloc_block dev 0 s = Inr (Some (of_nat x), ?w)"
    using x sb(1) z by (simp add: balloc_block_def r1 d1 fs Let_def)
  have "0 < (unat (sb_size (fs_sb s)) + BPB - 1) div BPB"
    using xx(1) by (simp add: size_defs div_greater_zero_iff)
  then have "balloc dev s = Inr (of_nat x, ?w)" using bb by (simp add: balloc_def for_upto_step)
  moreover have "bufs_step s ?w" using u(3) w(3) by (rule bufs_step_trans)
  moreover have "bit_rd (cview ?w dev bm) y = (y = x \<or> bit_rd (cview s dev bm) y)" for y
    using bit_rd_wr [of "cview s dev bm" x True y] by (auto simp: w u bit_wr_def)
  moreover have "cview ?w dev (of_nat x) i = 0" if "i < BSIZE" for i
    unfolding w(4) using that by (simp add: fill_def)
  ultimately show ?thesis using w(1,2) by blast
qed

text \<open>Freeing: the bit is cleared, and a block that is already free is a panic.\<close>

lemma bfree_effect:
  assumes ok: "cache_ok s" "idle s" "dev \<noteq> 0" and bm: "BBLOCK b (fs_sb s) = bm" "unat bm < FSSIZE"
  shows "if bit_rd (cview s dev bm) (unat b mod BPB)
    then \<exists>t. bfree dev b s = Inr t \<and> cache_ok t \<and> idle t \<and> bufs_step s t \<and>
      (\<forall>y < BPB. bit_rd (cview t dev bm) y = (y \<noteq> unat b mod BPB \<and> bit_rd (cview s dev bm) y))
    else bfree dev b s = Inl FreeingFreeBlock"
proof -
  let ?bi = "unat b mod BPB"
  obtain bp t1 where r1: "bread dev bm s = Inr (bp, t1)" and d1: "b_data (bufs t1 bp) = cview s dev bm"
    and u1: "\<And>f. let u = brelse bp (bdata bp f t1) in
      cache_ok u \<and> idle u \<and> bufs_step s u \<and> cview u dev bm = f (cview s dev bm)"
    using use_block [OF ok bm(2)] by (auto simp: Let_def)
  have "bit_rd (bit_clear m i) y = (y \<noteq> i \<and> bit_rd m y)" for m i y
    using bit_rd_wr [of m i False y] by (auto simp: bit_wr_def)
  then show ?thesis using u1 [of "\<lambda>d. bit_clear d ?bi"]
    by (auto simp: bfree_def bm(1) r1 d1 Let_def)
qed



section \<open>An inode written and loaded again\<close>

lemma to_dinode_load: "to_dinode (load_dinode d x) = d"
  by (simp add: to_dinode_def load_dinode_def)

lemma inode_index: "unat n mod IPB < IPB"
  by (simp add: IPB_def BSIZE_def DISIZE_def NADDRS_def NDIRECT_def)

lemma iupdate_effect:
  assumes ok: "cache_ok s" "idle s" and x: "itable s ip = x" "i_dev x \<noteq> 0" "length (i_addrs x) = NADDRS"
    and blk: "IBLOCK (i_inum x) (fs_sb s) = blk" "unat blk < FSSIZE"
  shows "\<exists>t. iupdate ip s = Inr t \<and> cache_ok t \<and> idle t \<and> bufs_step s t \<and> recent t (i_dev x) blk \<and>
    (\<forall>j < IPB. get_dinode (cview t (i_dev x) blk) j =
       (if j = unat (i_inum x) mod IPB then to_dinode x else get_dinode (cview s (i_dev x) blk) j)) \<and>
    (\<forall>dev' m. dev' \<noteq> 0 \<and> recent s dev' m \<and> (dev', m) \<noteq> (i_dev x, blk) \<longrightarrow> cview t dev' m = cview s dev' m)"
proof -
  let ?j = "unat (i_inum x) mod IPB"
  obtain bp t1 where r1: "bread (i_dev x) blk s = Inr (bp, t1)"
    and u1: "\<And>f. let u = brelse bp (bdata bp f t1) in cache_ok u \<and> idle u \<and> bufs_step s u \<and> recent u (i_dev x) blk \<and>
      cview u (i_dev x) blk = f (cview s (i_dev x) blk) \<and>
      (\<forall>dev' m. dev' \<noteq> 0 \<and> recent s dev' m \<and> (dev', m) \<noteq> (i_dev x, blk) \<longrightarrow> cview u dev' m = cview s dev' m)"
    using use_block [OF ok x(2) blk(2)] by (auto simp: Let_def)
  have "dinode_ok (to_dinode x)" using x(3) by (simp add: dinode_ok_def to_dinode_def)
  then have "get_dinode (put_dinode m ?j (to_dinode x)) j = (if j = ?j then to_dinode x else get_dinode m j)" if "j < IPB" for m j
    using dinodes.rd_wr_if [OF inode_index [of "i_inum x"] that, of "to_dinode x" m] by auto
  then show ?thesis using u1 [of "\<lambda>d. put_dinode d ?j (to_dinode x)"]
    by (auto simp: iupdate_def x blk(1) r1 Let_def)
qed

text \<open>\<open>ilock\<close> on an entry that is not valid loads the inode the cache answers.\<close>

lemma ilock_effect:
  assumes ok: "cache_ok s" "idle s" and x: "itable s ip = x" "i_dev x \<noteq> 0" "0 < i_ref x" "i_valid x = 0"
    and blk: "IBLOCK (i_inum x) (fs_sb s) = blk" "unat blk < FSSIZE"
    and d: "get_dinode (cview s (i_dev x) blk) (unat (i_inum x) mod IPB) = d"
  shows "if di_type d = 0 then ilock ip s = Inl IlockNoType
    else \<exists>t. ilock ip s = Inr t \<and> itable t = (itable s)(ip := (load_dinode d x)\<lparr>i_valid := 1\<rparr>) \<and> cache_ok t \<and> idle t"
proof -
  obtain bp t1 where r1: "bread (i_dev x) blk s = Inr (bp, t1)" and d1: "b_data (bufs t1 bp) = cview s (i_dev x) blk"
    and b: "bp < NBUF" and st: "bufs_step s t1"
    and u1: "\<And>f. let u = brelse bp (bdata bp f t1) in cache_ok u \<and> idle u \<and> bufs_step s u"
    using use_block [OF ok x(2) blk(2)] by (auto simp: Let_def)
  have it: "itable t1 = itable s" by (rule bufs_step_fsys(2) [OF st])
  let ?v = "iupd ip (load_dinode d) t1"
  let ?t = "iupd ip (\<lambda>x. x\<lparr>i_valid := 1\<rparr>) (brelse bp ?v)"
  have bu: "bufs ?t = bufs (brelse bp (bdata bp (\<lambda>d. d) t1))"
    by (simp add: iupd_def brelse_def bdata_def Let_def)
  have "itable ?t = (itable s)(ip := (load_dinode d x)\<lparr>i_valid := 1\<rparr>)"
    using it x(1) by (simp add: iupd_def)
  moreover have "cache_ok ?t" "idle ?t"
    using u1 [of "\<lambda>d. d"] cache_ok_cong [OF bu] bu by (auto simp: idle_def Let_def)
  moreover have "i_type (itable ?t ip) = di_type d"
    using \<open>itable ?t = _\<close> by (simp add: load_dinode_def)
  ultimately show ?thesis using x blk(1) d
    by (auto simp: ilock_def r1 d1 Let_def)
qed

text \<open>
  C12. An inode written by \<open>iupdate\<close> and loaded again by \<open>ilock\<close>, into any table entry for the
  same inode, has all its on-disk fields back, whatever the entry held; the entry keeps its
  reference count and becomes valid.
\<close>

theorem ilock_after_iupdate:
  assumes ok: "cache_ok s" "idle s" and x: "itable s ip = x" "i_dev x \<noteq> 0" "length (i_addrs x) = NADDRS" "i_type x \<noteq> 0"
    and blk: "unat (IBLOCK (i_inum x) (fs_sb s)) < FSSIZE"
    and y: "i_dev y = i_dev x" "i_inum y = i_inum x" "0 < i_ref y" "i_valid y = 0"
  shows "\<exists>t u. iupdate ip s = Inr t \<and> ilock jp (iupd jp (\<lambda>_. y) t) = Inr u \<and>
     to_dinode (itable u jp) = to_dinode x \<and> i_ref (itable u jp) = i_ref y \<and> i_valid (itable u jp) = 1"
proof -
  let ?b = "IBLOCK (i_inum x) (fs_sb s)"
  obtain t where t: "iupdate ip s = Inr t" "cache_ok t" "idle t" "bufs_step s t"
    and g: "get_dinode (cview t (i_dev x) ?b) (unat (i_inum x) mod IPB) = to_dinode x"
    using iupdate_effect [OF ok x(1-3) refl blk] inode_index [of "i_inum x"] by auto
  let ?v = "iupd jp (\<lambda>_. y) t"
  have bu: "bufs ?v = bufs t" "disk ?v = disk t" by (simp_all add: iupd_def)
  then have v: "cache_ok ?v" "idle ?v" "cview ?v = cview t"
    using t cache_ok_cong [OF bu(1)] cview_cong [OF bu] bu by (simp_all add: idle_def)
  have fs: "fs_sb ?v = fs_sb s" using bufs_step_fsys(1) [OF t(4)] by (simp add: iupd_def)
  have it: "itable ?v jp = y" by (simp add: iupd_def)
  have "get_dinode (cview ?v (i_dev y) ?b) (unat (i_inum y) mod IPB) = to_dinode x" using g v(3) y by simp
  from ilock_effect [OF v(1,2) it _ y(3,4) _ blk this] obtain u where
    "ilock jp ?v = Inr u" "itable u = (itable ?v)(jp := (load_dinode (to_dinode x) y)\<lparr>i_valid := 1\<rparr>)"
    using x(2,4) y(1,2) fs by (auto simp: to_dinode_def)
  moreover have "to_dinode ((load_dinode (to_dinode x) y)\<lparr>i_valid := 1\<rparr>) = to_dinode x"
    by (simp add: load_dinode_def to_dinode_def)
  ultimately show ?thesis using t(1) by (auto simp: load_dinode_def)
qed

lemma ilock_after_iupdate_witness:
  "\<exists>t u. iupdate 0 demo_fs = Inr t \<and> ilock 3 (iupd 3 (\<lambda>_. demo_inode\<lparr>i_valid := 0, i_size := 9\<rparr>) t) = Inr u \<and>
     i_size (itable u 3) = 128"
  using ilock_after_iupdate [of demo_fs 0 demo_inode "demo_inode\<lparr>i_valid := 0, i_size := 9\<rparr>" 3]
  by (auto simp: layout_num T_DIR_def to_dinode_def)

section \<open>The block map\<close>

text \<open>
  A direct block of a file is allocated at most once: a successful \<open>bmap\<close> records the block in
  the inode and changes no other field, leaves the state alone when the block was there, and a
  second call answers the same block and changes nothing.
\<close>

lemma bmap_direct:
  assumes n: "unat bn < NDIRECT" and l: "length (i_addrs (itable s ip)) = NADDRS"
    and r: "bmap ip bn s = Inr (a, t)" "a \<noteq> 0"
  shows "itable t = (itable s)(ip := (itable s ip)\<lparr>i_addrs := (i_addrs (itable s ip))[unat bn := a]\<rparr>) \<and>
    (i_addrs (itable s ip) ! unat bn \<noteq> 0 \<longrightarrow> t = s) \<and> bmap ip bn t = Inr (a, t)"
proof -
  have slot: "addr_slot ip (unat bn) s = Inr (a, t)" using r n by (simp add: bmap_def Let_def)
  have k: "unat bn < length (i_addrs (itable s ip))" using n l by (simp add: NADDRS_def)
  show ?thesis
  proof (cases "i_addrs (itable s ip) ! unat bn = 0")
    case True
    then obtain u where u: "balloc (i_dev (itable s ip)) s = Inr (a, u)"
      and t: "t = iupd ip (\<lambda>x. x\<lparr>i_addrs := (i_addrs x)[unat bn := a]\<rparr>) u"
      using slot r(2) by (auto simp: addr_slot_def Let_def elim!: bndE split: if_splits)
    have "itable u = itable s" using bufs_step_fsys(2) [OF bufs_step_balloc [OF u bufs_step_refl]] .
    then have it: "itable t = (itable s)(ip := (itable s ip)\<lparr>i_addrs := (i_addrs (itable s ip))[unat bn := a]\<rparr>)"
      using t by (simp add: iupd_def)
    then have "i_addrs (itable t ip) ! unat bn = a" using k by simp
    then show ?thesis using it n r(2) True by (simp add: bmap_def addr_slot_def Let_def)
  next
    case False
    then have "t = s" "a = i_addrs (itable s ip) ! unat bn" using slot by (auto simp: addr_slot_def Let_def)
    moreover have "(itable s)(ip := (itable s ip)\<lparr>i_addrs := i_addrs (itable s ip)\<rparr>) = itable s" by simp
    ultimately show ?thesis using r(1) by simp
  qed
qed

lemma bmap_out_of_range: "MAXFILE \<le> unat bn \<Longrightarrow> bmap ip bn s = Inl BmapOutOfRange"
  by (auto simp: bmap_def MAXFILE_def Let_def)

lemma bmap_allocated:
  "unat bn < NDIRECT \<Longrightarrow> i_addrs (itable s ip) ! unat bn = a \<Longrightarrow> a \<noteq> 0 \<Longrightarrow> bmap ip bn s = Inr (a, s)"
  by (simp add: bmap_def addr_slot_def Let_def)

section \<open>Contents\<close>

lemma length_readi_loop: "readi_loop ip off n tot acc s = Inr (bs, t) \<Longrightarrow> length bs \<le> length acc + (n - tot)"
proof (induction ip off n tot acc s rule: readi_loop.induct)
  case (1 ip off n tot acc s)
  show ?case
  proof (cases "tot < n")
    case True
    obtain a s1 where b: "bmap ip (of_nat (off div BSIZE)) s = Inr (a, s1)"
      using "1.prems" True by (subst (asm) readi_loop.simps) (auto elim!: bndE)
    show ?thesis
    proof (cases "a = 0")
      case False
      then obtain bp s2 where r: "bread (i_dev (itable s1 ip)) a s1 = Inr (bp, s2)"
        using "1.prems" True b by (subst (asm) readi_loop.simps) (auto elim!: bndE)
      show ?thesis
        using "1.IH" [OF True b refl False r refl refl] "1.prems" True False b r
        by (subst (asm) readi_loop.simps) (simp add: Let_def)
    qed (use "1.prems" True b in \<open>subst (asm) readi_loop.simps; auto\<close>)
  qed (use "1.prems" in \<open>subst (asm) readi_loop.simps; auto\<close>)
qed

lemma unat_add_no_wrap: "\<not> off + n < off \<Longrightarrow> unat (off + n) = unat off + unat (n :: u32)"
  by (simp add: unat_plus_simple linorder_not_less)

text \<open>
  \<open>readi\<close> never delivers more bytes than were asked for, and never a byte at or beyond the size
  of the file, for any offset and length, wrap-around of \<open>off + n\<close> included.
\<close>

lemma readi_bounds:
  assumes r: "readi ip off n s = Inr (bs, t)"
  defines "sz \<equiv> i_size (itable s ip)"
  shows "length bs \<le> unat n \<and> (bs \<noteq> [] \<longrightarrow> unat off + length bs \<le> unat sz)"
proof (cases "sz < off \<or> off + n < off")
  case True
  then show ?thesis using r by (auto simp: readi_def sz_def Let_def)
next
  case False
  then have le: "off \<le> sz" and w: "unat (off + n) = unat off + unat n"
    using unat_add_no_wrap by auto
  let ?n = "if sz < off + n then sz - off else n"
  have len: "length bs \<le> unat ?n"
    using r False length_readi_loop [of ip "unat off" "unat ?n" 0 "[]" s bs t]
    unfolding readi_def sz_def [symmetric] Let_def by simp
  have d: "unat (sz - off) = unat sz - unat off" using le by (simp add: unat_sub)
  show ?thesis
  proof (cases "sz < off + n")
    case True
    then have "unat sz < unat off + unat n" using w by (simp add: word_less_nat_alt)
    then show ?thesis using len True d le by (cases bs) (simp_all add: word_le_nat_alt, linarith)
  next
    case False
    then have "unat off + unat n \<le> unat sz" using w by (simp add: word_less_nat_alt)
    then show ?thesis using len False by simp
  qed
qed

lemma writei_loop_le: "writei_loop ip src off n tot s = Inr (k, t) \<Longrightarrow> tot \<le> n \<Longrightarrow> k \<le> n"
proof (induction ip src off n tot s rule: writei_loop.induct)
  case (1 ip src off n tot s)
  show ?case
  proof (cases "tot < n")
    case True
    obtain a s1 where b: "bmap ip (of_nat (off div BSIZE)) s = Inr (a, s1)"
      using "1.prems" True by (subst (asm) writei_loop.simps) (auto elim!: bndE)
    show ?thesis
    proof (cases "a = 0")
      case False
      then obtain bp s2 where r: "bread (i_dev (itable s1 ip)) a s1 = Inr (bp, s2)"
        using "1.prems" True b by (subst (asm) writei_loop.simps) (auto elim!: bndE)
      show ?thesis
        using "1.IH" [OF True b refl False r refl refl] "1.prems" True False b r
        by (subst (asm) writei_loop.simps) (simp add: Let_def)
    qed (use "1.prems" True b in \<open>subst (asm) writei_loop.simps; auto\<close>)
  qed (use "1.prems" in \<open>subst (asm) writei_loop.simps; auto\<close>)
qed

text \<open>
  C15. \<open>writei\<close> answers -1 exactly when \<open>off + n\<close> wraps or the end lies beyond the largest file, and
  then changes nothing; every other answer is between 0 and \<open>n\<close>.
\<close>

theorem writei_result:
  assumes r: "writei ip src off n s = Inr (w, t)"
  shows "(w = - 1 \<longleftrightarrow> off + n < off \<or> MAXFILE * BSIZE < unat (off + n)) \<and> (w \<noteq> - 1 \<longrightarrow> 0 \<le> w \<and> w \<le> int (unat n)) \<and>
    (w = - 1 \<longrightarrow> t = s)"
proof (cases "off + n < off \<or> MAXFILE * BSIZE < unat (off + n)")
  case True
  then show ?thesis using r by (auto simp: writei_def split: if_splits)
next
  case False
  then obtain k u where k: "writei_loop ip src (unat off) (unat n) 0 s = Inr (k, u)" "w = int k"
    using r by (auto simp: writei_def Let_def elim!: bndE)
  have "k \<le> unat n" by (rule writei_loop_le [OF k(1)]) simp
  then have "w \<le> int (unat n)" unfolding k(2) by (rule of_nat_mono)
  moreover have "0 \<le> w" using k(2) by simp
  ultimately show ?thesis using False by auto
qed

text \<open>One block at a time: a read inside one allocated direct block returns its bytes.\<close>

lemma readi_loop_end: "readi_loop ip off n n acc s = Inr (acc, s)"
  by (simp add: readi_loop.simps)

lemma writei_loop_end: "writei_loop ip src off n n s = Inr (n, s)"
  by (simp add: writei_loop.simps)

lemma direct_index: "k < NDIRECT * BSIZE \<Longrightarrow> unat (of_nat (k div BSIZE) :: u32) = k div BSIZE \<and> k div BSIZE < NDIRECT"
  by (auto simp: size_defs less_mult_imp_div_less unat_u32)

lemma readi_loop_block:
  assumes ok: "cache_ok s" "idle s" "i_dev (itable s ip) = dev" "dev \<noteq> 0"
    and n: "0 < n" "off mod BSIZE + n \<le> BSIZE" "off < NDIRECT * BSIZE"
    and a: "i_addrs (itable s ip) ! (off div BSIZE) = a" "a \<noteq> 0" "unat a < FSSIZE"
  shows "\<exists>u. readi_loop ip off n 0 [] s = Inr (get_list (cview s dev a) (off mod BSIZE) n, u) \<and>
    cache_ok u \<and> idle u \<and> bufs_step s u \<and> recent u dev a \<and> cview u dev a = cview s dev a"
proof -
  have ix: "bmap ip (of_nat (off div BSIZE)) s = Inr (a, s)"
    using direct_index [OF n(3)] a by (intro bmap_allocated) auto
  obtain bp t where r: "bread dev a s = Inr (bp, t)" "b_data (bufs t bp) = cview s dev a"
    and u: "\<And>f. let u = brelse bp (bdata bp f t) in cache_ok u \<and> idle u \<and> bufs_step s u \<and> recent u dev a \<and>
      cview u dev a = f (cview s dev a)"
    using use_block [OF ok(1,2,4) a(3)] by (auto simp: Let_def)
  have id: "bdata bp (\<lambda>d. d) t = t" by (simp add: bdata_def)
  have m: "min n (BSIZE - off mod BSIZE) = n" using n by simp
  have "readi_loop ip off n 0 [] s = Inr (get_list (cview s dev a) (off mod BSIZE) n, brelse bp t)"
    using n(1) a(2) ix r ok(3) m by (subst readi_loop.simps) (simp add: readi_loop_end Let_def)
  then show ?thesis using u [of "\<lambda>d. d"] id by (simp add: Let_def)
qed

lemma readi_block:
  assumes ok: "cache_ok s" "idle s" "i_dev (itable s ip) = dev" "dev \<noteq> 0"
    and n: "0 < n" "unat off mod BSIZE + unat n \<le> BSIZE" "unat off < NDIRECT * BSIZE"
    and sz: "unat off + unat n \<le> unat (i_size (itable s ip))"
    and a: "i_addrs (itable s ip) ! (unat off div BSIZE) = a" "a \<noteq> 0" "unat a < FSSIZE"
  shows "\<exists>u. readi ip off n s = Inr (get_list (cview s dev a) (unat off mod BSIZE) (unat n), u) \<and>
    cache_ok u \<and> idle u \<and> bufs_step s u \<and> recent u dev a \<and> cview u dev a = cview s dev a"
proof -
  have nz: "0 < unat n" using n(1) by (simp add: unat_gt_0 word_greater_zero_iff)
  have "unat (i_size (itable s ip)) < 2 ^ LENGTH(32)" by (rule unsigned_less)
  then have "unat off + unat n < 2 ^ 32" using sz by simp
  then have w: "unat (off + n) = unat off + unat n" "\<not> off + n < off"
    by (simp_all add: unat_word_ariths word_less_nat_alt)
  have "\<not> i_size (itable s ip) < off" "\<not> i_size (itable s ip) < off + n"
    using sz w by (simp_all add: word_less_nat_alt)
  then have "readi ip off n s = readi_loop ip (unat off) (unat n) 0 [] s"
    using w by (simp add: readi_def Let_def)
  then show ?thesis using readi_loop_block [OF ok nz n(2,3) a] by simp
qed

lemma writei_loop_block:
  assumes ok: "cache_ok s" "idle s" "i_dev (itable s ip) = dev" "dev \<noteq> 0"
    and n: "0 < n" "off mod BSIZE + n \<le> BSIZE" "off < NDIRECT * BSIZE"
    and a: "i_addrs (itable s ip) ! (off div BSIZE) = a" "a \<noteq> 0" "unat a < FSSIZE"
  shows "\<exists>u. writei_loop ip src off n 0 s = Inr (n, u) \<and> cache_ok u \<and> idle u \<and> bufs_step s u \<and>
    recent u dev a \<and> cview u dev a = copy (cview s dev a) (off mod BSIZE) src 0 n"
proof -
  have ix: "bmap ip (of_nat (off div BSIZE)) s = Inr (a, s)"
    using direct_index [OF n(3)] a by (intro bmap_allocated) auto
  obtain bp t where r: "bread dev a s = Inr (bp, t)"
    and u: "\<And>f. let u = brelse bp (bdata bp f t) in cache_ok u \<and> idle u \<and> bufs_step s u \<and> recent u dev a \<and>
      cview u dev a = f (cview s dev a)"
    using use_block [OF ok(1,2,4) a(3)] by (auto simp: Let_def)
  have m: "min n (BSIZE - off mod BSIZE) = n" using n by simp
  let ?f = "\<lambda>d. copy d (off mod BSIZE) src 0 n"
  have "writei_loop ip src off n 0 s = Inr (n, brelse bp (bdata bp ?f t))"
    using n(1) a(2) ix r ok(3) m by (subst writei_loop.simps) (simp add: writei_loop_end Let_def)
  then show ?thesis using u [of ?f] by (simp add: Let_def)
qed

text \<open>
  A write inside one allocated block: the bytes are in the block, the size grows to the end of
  the write, and the inode is written back.
\<close>

lemma writei_block:
  assumes ok: "cache_ok s" "idle s" and x: "itable s ip = x" "i_dev x \<noteq> 0" "length (i_addrs x) = NADDRS"
    and n: "0 < n" "unat off mod BSIZE + unat n \<le> BSIZE" "unat off < NDIRECT * BSIZE"
    and a: "i_addrs x ! (unat off div BSIZE) = a" "a \<noteq> 0" "unat a < FSSIZE"
    and blk: "unat (IBLOCK (i_inum x) (fs_sb s)) < FSSIZE" "IBLOCK (i_inum x) (fs_sb s) \<noteq> a"
  shows "\<exists>t. writei ip src off n s = Inr (int (unat n), t) \<and> unat (off + n) = unat off + unat n \<and>
    itable t = (itable s)(ip := x\<lparr>i_size := max (i_size x) (off + n)\<rparr>) \<and> fs_sb t = fs_sb s \<and>
    cache_ok t \<and> idle t \<and>
    cview t (i_dev x) a = copy (cview s (i_dev x) a) (unat off mod BSIZE) src 0 (unat n)"
proof -
  let ?dev = "i_dev x" and ?blk = "IBLOCK (i_inum x) (fs_sb s)"
  have nz: "0 < unat n" using n(1) by (simp add: unat_gt_0 word_greater_zero_iff)
  have b: "unat off + unat n \<le> NDIRECT * BSIZE + BSIZE" using n(2,3) nz by (simp add: size_defs)
  then have "unat off + unat n < 2 ^ 32" "unat off + unat n \<le> MAXFILE * BSIZE" by (simp_all add: size_defs)
  then have w: "unat (off + n) = unat off + unat n" "\<not> off + n < off" "\<not> MAXFILE * BSIZE < unat (off + n)"
    by (simp_all add: unat_word_ariths word_less_nat_alt)
  obtain u1 where l: "writei_loop ip src (unat off) (unat n) 0 s = Inr (unat n, u1)" and
    u1: "cache_ok u1" "idle u1" "bufs_step s u1" "recent u1 ?dev a"
      "cview u1 ?dev a = copy (cview s ?dev a) (unat off mod BSIZE) src 0 (unat n)"
    using writei_loop_block [of s ip ?dev "unat n" "unat off" a src] ok x n nz a by auto
  have it1: "itable u1 = itable s" "fs_sb u1 = fs_sb s" using bufs_step_fsys [OF u1(3)] by simp_all
  define u2 where "u2 = (if i_size (itable u1 ip) < off + n then iupd ip (\<lambda>x. x\<lparr>i_size := off + n\<rparr>) u1 else u1)"
  have bu: "bufs u2 = bufs u1" "disk u2 = disk u1" "fs_sb u2 = fs_sb s" using it1 by (auto simp: u2_def iupd_def)
  have it2: "itable u2 = (itable s)(ip := x\<lparr>i_size := max (i_size x) (off + n)\<rparr>)"
    using it1 x(1) by (auto simp: u2_def iupd_def max_def fun_eq_iff)
  have ok2: "cache_ok u2" "idle u2" "recent u2 ?dev a"
    using u1 cache_ok_cong [OF bu(1)] hits_cong [OF bu(1)] bu(1) by (auto simp: idle_def recent_def)
  let ?x = "x\<lparr>i_size := max (i_size x) (off + n)\<rparr>"
  have "itable u2 ip = ?x" using it2 by simp
  from iupdate_effect [OF ok2(1,2) this _ _ _, of ?blk] x blk bu(3) obtain t where
    t: "iupdate ip u2 = Inr t" "cache_ok t" "idle t" "bufs_step u2 t" and
    v: "\<forall>dev' m. dev' \<noteq> 0 \<and> recent u2 dev' m \<and> (dev', m) \<noteq> (?dev, ?blk) \<longrightarrow> cview t dev' m = cview u2 dev' m"
    by auto
  have it: "itable t = itable u2" "fs_sb t = fs_sb s" using bufs_step_fsys [OF t(4)] bu(3) by simp_all
  have "cview t ?dev a = cview u2 ?dev a" using v x(2) ok2(3) blk(2) by auto
  then have cv: "cview t ?dev a = copy (cview s ?dev a) (unat off mod BSIZE) src 0 (unat n)"
    using u1(5) cview_cong [OF bu(1,2)] by simp
  have "writei ip src off n s = Inr (int (unat n), t)"
    using w l t(1) unfolding u2_def
    by (cases "i_size (itable u1 ip) < off + n") (simp_all add: writei_def Let_def)
  then show ?thesis using w(1) it it2 t(2,3) cv by (intro exI conjI) simp_all
qed

text \<open>
  Bytes written by \<open>writei\<close> into an allocated direct block are the bytes \<open>readi\<close> delivers at
  the same offset from the state it left, with the size of the file extended as far as the write
  went: the round trip through block map, buffer cache and the update of the inode.
\<close>

lemma read_after_writei:
  assumes ok: "cache_ok s" "idle s" and x: "itable s ip = x" "i_dev x \<noteq> 0" "length (i_addrs x) = NADDRS"
    and n: "0 < n" "unat off mod BSIZE + unat n \<le> BSIZE" "unat off < NDIRECT * BSIZE"
    and a: "i_addrs x ! (unat off div BSIZE) = a" "a \<noteq> 0" "unat a < FSSIZE"
    and blk: "unat (IBLOCK (i_inum x) (fs_sb s)) < FSSIZE" "IBLOCK (i_inum x) (fs_sb s) \<noteq> a"
  shows "\<exists>t u. writei ip src off n s = Inr (int (unat n), t) \<and>
    itable t = (itable s)(ip := x\<lparr>i_size := max (i_size x) (off + n)\<rparr>) \<and>
    readi ip off n t = Inr (map src [0..<unat n], u) \<and> cache_ok u \<and> idle u"
proof -
  obtain t where t: "writei ip src off n s = Inr (int (unat n), t)" "unat (off + n) = unat off + unat n"
    "itable t = (itable s)(ip := x\<lparr>i_size := max (i_size x) (off + n)\<rparr>)" "cache_ok t" "idle t"
    "cview t (i_dev x) a = copy (cview s (i_dev x) a) (unat off mod BSIZE) src 0 (unat n)"
    using writei_block [OF assms] by blast
  have "unat off + unat n \<le> unat (i_size (itable t ip))"
    using t(2,3) by (auto simp: max_def word_le_nat_alt)
  moreover have "i_dev (itable t ip) = i_dev x" "i_addrs (itable t ip) ! (unat off div BSIZE) = a"
    using t(3) a(1) by simp_all
  ultimately obtain u where "readi ip off n t = Inr (map src [0..<unat n], u)" "cache_ok u" "idle u"
    using readi_block [OF t(4,5) _ x(2) n _ _ a(2,3)] t(6) get_list_copy by (metis (no_types, lifting))
  then show ?thesis using t(1,3) by (intro exI conjI)
qed

section \<open>Truncation\<close>

lemma for_upto_bufs_step:
  assumes "for_upto body i n s = Inr (r, t)" "\<And>j s r t. body j s = Inr (r, t) \<Longrightarrow> bufs_step s t"
  shows "bufs_step s t"
proof (cases "i \<le> n")
  case True
  show ?thesis
    by (rule for_upto_rule [OF assms(1), where I = "\<lambda>_. bufs_step s" and Q = "\<lambda>_. bufs_step s"])
      (use True in \<open>auto dest!: assms(2) intro: bufs_step_trans\<close>)
qed (use assms(1) in simp)

lemma bufs_step_trunc_entry: "trunc_entry dev bp j s = Inr (r, t) \<Longrightarrow> bufs_step s t"
  by (auto simp: trunc_entry_def Let_def elim!: bndE split: if_splits intro: frame_intros)

lemma bufs_step_trunc_entries [frame_intros]:
  "for_upto (trunc_entry dev bp) i n u = Inr (r, t) \<Longrightarrow> bufs_step s u \<Longrightarrow> bufs_step s t"
  by (rule bufs_step_trans, assumption, erule for_upto_bufs_step) (rule bufs_step_trunc_entry)

lemma bufs_step_trunc_entry2: "trunc_entry2 dev bp j s = Inr (r, t) \<Longrightarrow> bufs_step s t"
  by (auto simp: trunc_entry2_def Let_def elim!: bndE split: if_splits; blast intro: frame_intros bufs_step_refl)

lemma bufs_step_trunc_entries2 [frame_intros]:
  "for_upto (trunc_entry2 dev bp) i n u = Inr (r, t) \<Longrightarrow> bufs_step s u \<Longrightarrow> bufs_step s t"
  by (rule bufs_step_trans, assumption, erule for_upto_bufs_step) (rule bufs_step_trunc_entry2)

lemma bufs_step_iupdate [frame_intros]: "iupdate ip u = Inr t \<Longrightarrow> bufs_step s u \<Longrightarrow> bufs_step s t"
  by (auto simp: iupdate_def Let_def elim!: bndE; blast intro: frame_intros)

lemma trunc_direct_addrs:
  assumes "trunc_direct ip i s = Inr (r, t)"
  shows "r = None \<and> i_addrs (itable t ip) = (i_addrs (itable s ip))[i := 0]"
proof (cases "i_addrs (itable s ip) ! i = 0")
  case True
  then have "(i_addrs (itable s ip))[i := 0] = i_addrs (itable s ip)" by (metis list_update_id)
  then show ?thesis using assms True by (auto simp: trunc_direct_def Let_def)
next
  case False
  then obtain u where u: "bfree (i_dev (itable s ip)) (i_addrs (itable s ip) ! i) s = Inr u"
    and t: "t = iupd ip (\<lambda>x. x\<lparr>i_addrs := (i_addrs x)[i := 0]\<rparr>) u" "r = None"
    using assms by (auto simp: trunc_direct_def Let_def elim!: bndE)
  have "itable u = itable s" by (rule bufs_step_fsys(2) [OF bufs_step_bfree [OF u bufs_step_refl]])
  then show ?thesis using t by (simp add: iupd_def)
qed

lemma trunc_directs_addrs:
  assumes "for_upto (trunc_direct ip) 0 NDIRECT s = Inr (r, t)"
  shows "length (i_addrs (itable t ip)) = length (i_addrs (itable s ip)) \<and>
    (\<forall>k < length (i_addrs (itable s ip)). i_addrs (itable t ip) ! k = (if k < NDIRECT then 0 else i_addrs (itable s ip) ! k))"
proof -
  let ?A = "i_addrs (itable s ip)"
  let ?I = "\<lambda>n t. length (i_addrs (itable t ip)) = length ?A \<and>
    (\<forall>k < length ?A. i_addrs (itable t ip) ! k = (if k < n then 0 else ?A ! k))"
  show ?thesis
    by (rule for_upto_rule [OF assms, where I = ?I and Q = "\<lambda>_. ?I NDIRECT"])
      (auto dest!: trunc_direct_addrs simp: nth_list_update less_Suc_eq)
qed

lemma bufs_step_indirect:
  assumes "bnd (bread dev a s) (\<lambda>(bp, s). bnd (for_upto (body bp) 0 n s) (\<lambda>(_, s).
      bnd (bfree dev a (brelse bp s)) (\<lambda>s. Inr (g s)))) = Inr t"
    and "\<And>bp u r t. for_upto (body bp) 0 n u = Inr (r, t) \<Longrightarrow> bufs_step s u \<Longrightarrow> bufs_step s t"
  shows "\<exists>u. bufs_step s u \<and> t = g u"
proof -
  obtain bp s1 q s2 u where "bread dev a s = Inr (bp, s1)" "for_upto (body bp) 0 n s1 = Inr (q, s2)"
    "bfree dev a (brelse bp s2) = Inr u" "t = g u"
    using assms(1) by (auto elim!: bndE)
  then have "bufs_step s s1" "bufs_step s s2" "bufs_step s u"
    using assms(2) bufs_step_bread [of dev a s bp s1 s] bufs_step_brelse [of s s2 bp]
      bufs_step_bfree [of dev a "brelse bp s2" u s] by auto
  then show ?thesis using \<open>t = g u\<close> by blast
qed

section \<open>What truncation leaves behind\<close>

text \<open>A file with no direct block and an empty double indirect block, block 1.\<close>

definition hollow_fs :: fsys where
  "hollow_fs = iupd 0 (\<lambda>x. x\<lparr>i_addrs := replicate 12 0 @ [1]\<rparr>) demo_fs"

lemma hollow_parts [simp]: "cache_ok hollow_fs" "idle hollow_fs" "fs_sb hollow_fs = image_sb0"
  "i_dev (itable hollow_fs 0) = 1" "i_inum (itable hollow_fs 0) = 1" "i_addrs (itable hollow_fs 0) = replicate 12 0 @ [1]"
  using cache_ok_cong [of hollow_fs demo_fs] demo_idle
  by (simp_all add: hollow_fs_def iupd_def idle_def)

lemma hollow_view: "d \<noteq> 0 \<Longrightarrow> cview hollow_fs d n = demo_disk (unat n)"
  using cview_cong [of hollow_fs demo_fs] by (simp add: hollow_fs_def iupd_def)

lemma bdata_id: "bdata b (\<lambda>d. d) s = s"
  by (simp add: bdata_def)

lemma hollow_itrunc: "\<exists>t. itrunc 0 hollow_fs = Inr t"
proof -
  have 1: "for_upto (trunc_direct 0) 0 NDIRECT hollow_fs = Inr (None, hollow_fs)"
    by (rule for_upto_skip) (simp add: trunc_direct_def nth_append layout_num)
  obtain b s where s: "bread 1 1 hollow_fs = Inr (b, s)" "b < NBUF" "b_data (bufs s b) = cview hollow_fs 1 1"
    and u': "let u = brelse b (bdata b (\<lambda>d. d) s) in cache_ok u \<and> idle u \<and> bufs_step hollow_fs u"
    using use_block [of hollow_fs 1 1] by (auto simp: layout_num Let_def)
  have s3: "b_data (bufs s b) = demo_disk 1" using s(3) by (simp add: hollow_view)
  have u: "cache_ok (brelse b s)" "idle (brelse b s)" "bufs_step hollow_fs (brelse b s)"
    using u' by (simp_all add: bdata_id Let_def)
  have 2: "for_upto (trunc_entry2 1 b) 0 NINDIRECT s = Inr (None, s)"
    by (rule for_upto_skip) (simp add: trunc_entry2_def s3 demo_disk_def addr_rd_def get32_def)
  have "\<not> hits hollow_fs 1 45 b" using demo_misses [of 1 45 b] by (simp add: hits_def hollow_fs_def iupd_def)
  then have v: "cview (brelse b s) 1 45 = demo_disk 45"
    using bread_view [OF hollow_parts(1) _ _ s(1), of 1 45] hollow_view [of 1 45] by (simp add: cview_brelse)
  obtain w where w: "bfree 1 1 (brelse b s) = Inr w" "cache_ok w" "idle w" "bufs_step hollow_fs w"
    using bfree_effect [of "brelse b s" 1 1 45] u v demo_bits [of 1] bufs_step_fsys(1) [OF u(3)]
      bufs_step_trans [OF u(3)] by (auto simp: layout_num)
  have it: "itable w = itable hollow_fs" "fs_sb w = image_sb0" using bufs_step_fsys [OF w(4)] by simp_all
  let ?z = "iupd 0 (\<lambda>x. x\<lparr>i_size := 0\<rparr>) (iupd 0 (\<lambda>x. x\<lparr>i_addrs := (i_addrs x)[NDIRECT := 0]\<rparr>) w)"
  have "cache_ok ?z" "idle ?z" using w cache_ok_cong [of ?z w] by (simp_all add: iupd_def idle_def)
  then obtain t where "iupdate 0 ?z = Inr t"
    using iupdate_effect [of ?z 0 _ 32] it by (auto simp: iupd_def layout_num)
  then show ?thesis using 1 2 s w
    by (auto simp: itrunc_def nth_append layout_num)
qed

text \<open>
  \<open>itrunc\<close> frees the double indirect block and keeps its address: the last assignment clears
  \<open>addrs[NDIRECT]\<close>, which is 0 already.
\<close>

text \<open>The two indirect parts of \<open>itrunc\<close> have one shape.\<close>

definition trunc_ind ::
  "nat \<Rightarrow> u32 \<Rightarrow> u32 \<Rightarrow> (nat \<Rightarrow> nat \<Rightarrow> 'z fsys_scheme \<Rightarrow> (unit option \<times> 'z fsys_scheme) res) \<Rightarrow> 'z fsys_scheme \<Rightarrow> 'z fsys_scheme res" where
  "trunc_ind ip dev addr body s =
     (if addr \<noteq> 0 then
        bnd (bread dev addr s) (\<lambda>(bp, s).
        bnd (for_upto (body bp) 0 NINDIRECT s) (\<lambda>(_, s).
        bnd (bfree dev addr (brelse bp s)) (\<lambda>s.
        Inr (iupd ip (\<lambda>x. x\<lparr>i_addrs := (i_addrs x)[NDIRECT := 0]\<rparr>) s))))
      else Inr s)"

lemma itrunc_ind: "itrunc ip s =
     bnd (for_upto (trunc_direct ip) 0 NDIRECT s) (\<lambda>(_, s).
     let dev = i_dev (itable s ip) in
     bnd (trunc_ind ip dev (i_addrs (itable s ip) ! NDIRECT) (trunc_entry dev) s) (\<lambda>s.
     bnd (trunc_ind ip dev (i_addrs (itable s ip) ! (NDIRECT + 1)) (trunc_entry2 dev) s) (\<lambda>s.
     iupdate ip (iupd ip (\<lambda>x. x\<lparr>i_size := 0\<rparr>) s))))"
  unfolding itrunc_def trunc_ind_def Let_def by (rule refl)

lemma trunc_ind_addrs:
  assumes r: "trunc_ind ip dev a body s = Inr t"
    and step: "\<And>bp u r t. for_upto (body bp) 0 NINDIRECT u = Inr (r, t) \<Longrightarrow> bufs_step s u \<Longrightarrow> bufs_step s t"
  shows "i_addrs (itable t ip) = (if a = 0 then i_addrs (itable s ip) else (i_addrs (itable s ip))[NDIRECT := 0])"
proof (cases "a = 0")
  case False
  have "\<exists>u. bufs_step s u \<and> t = iupd ip (\<lambda>x. x\<lparr>i_addrs := (i_addrs x)[NDIRECT := 0]\<rparr>) u"
    by (rule bufs_step_indirect [where body = body and n = NINDIRECT])
      (use r False step in \<open>auto simp: trunc_ind_def\<close>)
  then obtain u where "bufs_step s u" "t = iupd ip (\<lambda>x. x\<lparr>i_addrs := (i_addrs x)[NDIRECT := 0]\<rparr>) u" by blast
  then show ?thesis using False bufs_step_fsys(2) [of s u] by (simp add: iupd_def)
qed (use r in \<open>simp add: trunc_ind_def\<close>)



lemma writei_result_witness:
  "(\<exists>w t. writei 0 (\<lambda>_. 5) 0 64 demo_fs = Inr (w, t) \<and> 0 \<le> w \<and> w \<le> 64) \<and>
   writei 0 (\<lambda>_. 5) 0xFFFFFFFF 2 demo_fs = Inr (- 1, demo_fs)"
proof -
  obtain w t where r: "writei 0 (\<lambda>_. 5) 0 64 demo_fs = Inr (w, t)"
    using writei_block [of demo_fs 0 demo_inode 64 0 50 "\<lambda>_. 5"] by (auto simp: layout_num)
  have w: "w \<noteq> - 1" using writei_result [OF r] by (simp add: MAXFILE_def layout_num)
  have "writei 0 (\<lambda>_. 5) 0xFFFFFFFF 2 demo_fs = Inr (- 1, demo_fs)" by (simp add: writei_def)
  then show ?thesis using writei_result [OF r] w r by auto
qed

end
