(* ===== verification/Names.thy ===== *)
theory Names
  imports Storage
begin

text \<open>
  Names and directories: \<open>skipelem\<close> cuts a path exactly at its slashes, name comparison is
  equality of C strings up to the length of an entry, and a directory that fits one block is a
  table of entries that \<open>dirlookup\<close> searches and \<open>dirlink\<close> extends.
\<close>

section \<open>Path elements\<close>

function path_elems :: "u8 list \<Rightarrow> u8 list list" where
  "path_elems path = (case skipelem path of None \<Rightarrow> [] | Some (name, path) \<Rightarrow> name # path_elems path)"
  by pat_completeness auto
termination
  by (relation "measure length") (auto dest: skipelem_shorter)

declare path_elems.simps [simp del]

fun split_on :: "'a \<Rightarrow> 'a list \<Rightarrow> 'a list list" where
  "split_on c [] = [[]]"
| "split_on c (x # xs) = (if x = c then [] # split_on c xs
     else (x # hd (split_on c xs)) # tl (split_on c xs))"

lemma split_on_ne [simp]: "split_on c xs \<noteq> []"
  by (cases xs) auto

lemma split_on_take:
  "split_on c xs = takeWhile (\<lambda>x. x \<noteq> c) xs #
     (case dropWhile (\<lambda>x. x \<noteq> c) xs of [] \<Rightarrow> [] | _ # r \<Rightarrow> split_on c r)"
  by (induction xs) (auto split: list.split)

lemma filter_split_drop:
  "filter (\<lambda>e. e \<noteq> []) (split_on c (dropWhile (\<lambda>x. x = c) xs)) = filter (\<lambda>e. e \<noteq> []) (split_on c xs)"
  by (induction xs) auto

lemma filter_split_tail:
  "filter (\<lambda>e. e \<noteq> []) (case dropWhile (\<lambda>x. x \<noteq> c) xs of [] \<Rightarrow> [] | _ # r \<Rightarrow> split_on c r) =
   filter (\<lambda>e. e \<noteq> []) (split_on c (dropWhile (\<lambda>x. x \<noteq> c) xs))"
proof (cases "dropWhile (\<lambda>x. x \<noteq> c) xs")
  case (Cons y r)
  then have "y = c" using hd_dropWhile [of "\<lambda>x. x \<noteq> c" xs] by simp
  then show ?thesis using Cons by simp
next
  case Nil
  show ?thesis unfolding Nil by simp
qed

text \<open>
  Cutting a path with \<open>skipelem\<close> until it answers 0 gives exactly the non-empty pieces between
  the slashes, in order, each cut to the length of a directory entry: leading, trailing and
  repeated slashes make no element.
\<close>

lemma path_elems_split:
  "path_elems path = map (take DIRSIZ) (filter (\<lambda>e. e \<noteq> []) (split_on SLASH path))"
proof (induction path rule: path_elems.induct)
  case (1 path)
  let ?p = "dropWhile (\<lambda>c. c = SLASH) path"
  let ?e = "takeWhile (\<lambda>c. c \<noteq> SLASH) ?p" and ?r = "dropWhile (\<lambda>c. c \<noteq> SLASH) ?p"
  let ?ne = "filter (\<lambda>e. e \<noteq> [])"
  show ?case
  proof (cases "?p = []")
    case True
    then have "?ne (split_on SLASH path) = ?ne (split_on SLASH [])" 
      using filter_split_drop [of SLASH path] unfolding True by simp
    then show ?thesis using True by (simp add: path_elems.simps [of path] skipelem_def)
  next
    case False
    have sk: "skipelem path = Some (take DIRSIZ ?e, dropWhile (\<lambda>c. c = SLASH) ?r)"
      using False by (simp add: skipelem_def Let_def)
    have "hd ?p \<noteq> SLASH" using False hd_dropWhile [of "\<lambda>c. c = SLASH" path] by simp
    then have e: "?e \<noteq> []" using False by (cases ?p) auto
    have "?ne (split_on SLASH path) = ?ne (split_on SLASH ?p)" by (simp add: filter_split_drop)
    also have "\<dots> = ?e # ?ne (case ?r of [] \<Rightarrow> [] | _ # r \<Rightarrow> split_on SLASH r)"
      using e by (subst split_on_take) simp
    also have "\<dots> = ?e # ?ne (split_on SLASH (dropWhile (\<lambda>c. c = SLASH) ?r))"
      by (simp add: filter_split_tail filter_split_drop)
    finally show ?thesis
      using "1.IH" [OF sk refl] by (simp add: path_elems.simps [of path] sk)
  qed
qed

text \<open>The end of a path: no element is left exactly when only slashes are.\<close>

lemma skipelem_None: "skipelem path = None \<longleftrightarrow> set path \<subseteq> {SLASH}"
  by (auto simp: skipelem_def Let_def)

lemma namecmp_eq: "namecmp s t = 0 \<longleftrightarrow> take DIRSIZ (cstr s) = take DIRSIZ (cstr t)"
  by (simp add: namecmp_def strncmp_eq_0)

lemma take_cstr_strncpy: "take DIRSIZ (cstr (strncpy s DIRSIZ)) = take DIRSIZ (cstr s)"
proof -
  have "takeWhile (\<lambda>c. c \<noteq> 0) (take n (takeWhile (\<lambda>c. c \<noteq> 0) s @ replicate n 0)) = take n (takeWhile (\<lambda>c. c \<noteq> 0) s)" for n
  proof (induction s arbitrary: n)
    case (Cons a s)
    then show ?case by (cases n) (auto simp: replicate_append_same [symmetric] simp del: replicate_Suc)
  next
    case Nil
    show ?case by (cases n) auto
  qed
  then show ?thesis by (simp add: cstr_def strncpy_def)
qed

lemma namecmp_strncpy: "namecmp q (strncpy name DIRSIZ) = 0 \<longleftrightarrow> namecmp q name = 0"
  by (simp add: namecmp_eq take_cstr_strncpy)

lemma namecmp_same: "namecmp q name = 0 \<Longrightarrow> namecmp q x = 0 \<longleftrightarrow> namecmp name x = 0"
  by (simp add: namecmp_eq)

section \<open>A directory in one block\<close>

text \<open>Directory \<open>dp\<close> has \<open>m\<close> entries in its first direct block \<open>a\<close>.\<close>

definition small_dir :: "nat \<Rightarrow> nat \<Rightarrow> u32 \<Rightarrow> 'z fsys_scheme \<Rightarrow> bool" where
  "small_dir dp m a s = (i_type (itable s dp) = T_DIR \<and> i_dev (itable s dp) \<noteq> 0 \<and>
     unat (i_size (itable s dp)) = m * DESIZE \<and> m * DESIZE \<le> BSIZE \<and>
     i_addrs (itable s dp) ! 0 = a \<and> a \<noteq> 0 \<and> unat a < FSSIZE)"

definition entry :: "nat \<Rightarrow> u32 \<Rightarrow> 'z fsys_scheme \<Rightarrow> nat \<Rightarrow> dirent" where
  "entry dp a s k = get_dirent (cview s (i_dev (itable s dp)) a) k"

text \<open>A state as good as \<open>s\<close> for reading the directory.\<close>

definition same_dir :: "nat \<Rightarrow> u32 \<Rightarrow> 'z fsys_scheme \<Rightarrow> 'z fsys_scheme \<Rightarrow> bool" where
  "same_dir dp a s t = (cache_ok t \<and> idle t \<and> bufs_step s t \<and>
     cview t (i_dev (itable s dp)) a = cview s (i_dev (itable s dp)) a)"

lemma same_dir_refl: "cache_ok s \<Longrightarrow> idle s \<Longrightarrow> same_dir dp a s s"
  by (simp add: same_dir_def)

lemma same_dirD:
  assumes "same_dir dp a s t"
  shows "itable t = itable s" "fs_sb t = fs_sb s" "entry dp a t = entry dp a s"
    "small_dir dp m a t = small_dir dp m a s" "dir_turns dp t = dir_turns dp s"
proof -
  have st: "bufs_step s t" and v: "cview t (i_dev (itable s dp)) a = cview s (i_dev (itable s dp)) a"
    using assms by (auto simp: same_dir_def)
  show it: "itable t = itable s" "fs_sb t = fs_sb s" using bufs_step_fsys [OF st] by simp_all
  then show "entry dp a t = entry dp a s" "small_dir dp m a t = small_dir dp m a s" "dir_turns dp t = dir_turns dp s"
    using v by (simp_all add: entry_def [abs_def] small_dir_def dir_turns_def)
qed

lemma same_dir_trans:
  assumes "same_dir dp a s t" "same_dir dp a t u"
  shows "same_dir dp a s u"
  using assms same_dirD(1) [OF assms(1)] by (auto simp: same_dir_def intro: bufs_step_trans)

lemma dir_turns_small: "small_dir dp m a s \<Longrightarrow> dir_turns dp s = m"
  by (auto simp: small_dir_def dir_turns_def size_defs)

lemma get_dirent_list:
  "get_dirent (\<lambda>i. get_list d (k * DESIZE) DESIZE ! i) 0 = get_dirent d k"
  by (simp add: get_dirent_def get16_def get_list_def Let_def DESIZE_def DIRSIZ_def mult.commute)

lemma read_dirent_small:
  assumes ok: "cache_ok s" "idle s" and d: "small_dir dp m a s" and k: "k < m"
  shows "\<exists>t. read_dirent e dp k s = Inr (entry dp a s k, t) \<and> same_dir dp a s t"
proof -
  have m: "m \<le> 16" "k \<le> 15" using d k by (auto simp: small_dir_def size_defs)
  have u: "unat (of_nat (k * DESIZE) :: u32) = k * DESIZE" "unat (of_nat DESIZE :: u32) = DESIZE"
    by (rule unat_u32, use m in \<open>simp add: size_defs\<close>)+
  have z: "k * DESIZE div BSIZE = 0" "k * DESIZE mod BSIZE = k * DESIZE" using m by (simp_all add: size_defs)
  have D: "i_dev (itable s dp) \<noteq> 0" "i_addrs (itable s dp) ! 0 = a" "a \<noteq> 0" "unat a < FSSIZE"
    "unat (i_size (itable s dp)) = m * DESIZE" using d by (auto simp: small_dir_def)
  have "k * DESIZE + DESIZE \<le> m * DESIZE" using k by (simp add: size_defs)
  then have sz: "unat (of_nat (k * DESIZE) :: u32) + unat (of_nat DESIZE :: u32) \<le> unat (i_size (itable s dp))"
    using u D by simp
  obtain t where t: "readi dp (of_nat (k * DESIZE)) (of_nat DESIZE) s =
      Inr (get_list (cview s (i_dev (itable s dp)) a) (k * DESIZE) DESIZE, t)"
    "cache_ok t" "idle t" "bufs_step s t" "cview t (i_dev (itable s dp)) a = cview s (i_dev (itable s dp)) a"
    using readi_block [OF ok refl D(1) _ _ _ sz _ D(3,4)] u z D(2) m by (auto simp: size_defs)
  then show ?thesis
    by (auto simp: read_dirent_def get_dirent_list entry_def same_dir_def)
qed

definition matches :: "u8 list \<Rightarrow> dirent \<Rightarrow> bool" where
  "matches name de = (de_inum de \<noteq> 0 \<and> namecmp name (de_name de) = 0)"

text \<open>\<open>dirlookup\<close> takes a reference to the inode of the first entry in use with that name.\<close>

lemma dirlookup_first:
  assumes ok: "cache_ok s" "idle s" and d: "small_dir dp m a s"
  shows "\<exists>t. same_dir dp a s t \<and> dirlookup dp name s =
    (case scan (\<lambda>k. matches name (entry dp a s k)) 0 m of
       None \<Rightarrow> Inr (None, t)
     | Some k \<Rightarrow> bnd (iget (i_dev (itable s dp)) (ucast (de_inum (entry dp a s k))) t)
         (\<lambda>(ip, u). Inr (Some (ip, of_nat (k * DESIZE)), u)))"
proof -
  let ?F = "\<lambda>k t. bnd (iget (i_dev (itable s dp)) (ucast (de_inum (entry dp a s k))) t)
         (\<lambda>(ip, u). Inr (Some (ip, (of_nat (k * DESIZE) :: u32)), u))"
  have body: "\<exists>t. same_dir dp a s t \<and> dirlookup_try dp name k u =
      (if matches name (entry dp a s k) then ?F k t else Inr (None, t))" if "k < m" "same_dir dp a s u" for k u
  proof -
    note sd = same_dirD [OF that(2)]
    have "cache_ok u" "idle u" "small_dir dp m a u" using that(2) sd d by (auto simp: same_dir_def)
    from read_dirent_small [OF this that(1), of DirlookupRead] obtain t where
      t: "read_dirent DirlookupRead dp k u = Inr (entry dp a u k, t)" "same_dir dp a u t" by blast
    have "same_dir dp a s t" by (rule same_dir_trans [OF that(2) t(2)])
    then show ?thesis using t(1) sd(1,3) same_dirD(1) [OF t(2)]
      by (auto simp: dirlookup_try_def matches_def)
  qed
  have "dirlookup dp name s = for_upto (dirlookup_try dp name) 0 m s"
    using d dir_turns_small [OF d] by (simp add: dirlookup_def small_dir_def)
  moreover have F: "r \<noteq> None" if "?F k t = Inr (r, u)" for k t r u
    using that by (auto elim!: bndE)
  moreover have "\<exists>t. same_dir dp a s t \<and> for_upto (dirlookup_try dp name) 0 m s =
      (case scan (\<lambda>k. matches name (entry dp a s k)) 0 m of None \<Rightarrow> Inr (None, t) | Some k \<Rightarrow> ?F k t)"
    by (rule for_upto_scan [where S = "same_dir dp a s"]) (rule same_dir_refl [OF ok], rule body, assumption+, rule F)
  ultimately show ?thesis by simp
qed

text \<open>
  A new entry goes to the first free place or to the end, and is found there: no other entry
  has changed.
\<close>

definition dir_place :: "nat \<Rightarrow> u32 \<Rightarrow> nat \<Rightarrow> 'z fsys_scheme \<Rightarrow> nat" where
  "dir_place dp a m s = (case scan (\<lambda>k. de_inum (entry dp a s k) = 0) 0 m of None \<Rightarrow> m | Some k \<Rightarrow> k)"

lemma dir_place_le: "dir_place dp a m s \<le> m"
  by (auto simp: dir_place_def scan_Some split: option.split)

lemma dirlink_adds:
  assumes ok: "cache_ok s" "idle s" and d: "small_dir dp m a s" and l: "length (i_addrs (itable s dp)) = NADDRS"
    and new: "\<forall>k < m. \<not> matches name (entry dp a s k)" and fits: "dir_place dp a m s < BSIZE div DESIZE"
    and blk: "unat (IBLOCK (i_inum (itable s dp)) (fs_sb s)) < FSSIZE" "IBLOCK (i_inum (itable s dp)) (fs_sb s) \<noteq> a"
  defines "p \<equiv> dir_place dp a m s"
  shows "\<exists>t. dirlink dp name inum s = Inr (0, t) \<and> cache_ok t \<and> idle t \<and> small_dir dp (max m (p + 1)) a t \<and>
    (\<forall>k < BSIZE div DESIZE. entry dp a t k =
       (if k = p then \<lparr>de_inum = ucast inum, de_name = strncpy name DIRSIZ\<rparr> else entry dp a s k))"
proof -
  let ?dev = "i_dev (itable s dp)"
  have "scan (\<lambda>k. matches name (entry dp a s k)) 0 m = None" using new by (auto simp: scan_None)
  then obtain t1 where t1: "same_dir dp a s t1" "dirlookup dp name s = Inr (None, t1)"
    using dirlookup_first [OF ok d, of name] by auto
  note sd1 = same_dirD [OF t1(1)]
  have body: "\<exists>t. same_dir dp a s t \<and> dirlink_try dp k u =
      (if de_inum (entry dp a s k) = 0 then Inr (Some k, t) else Inr (None, t))" if "k < m" "same_dir dp a s u" for k u
  proof -
    note sd = same_dirD [OF that(2)]
    have "cache_ok u" "idle u" "small_dir dp m a u" using that(2) sd d by (auto simp: same_dir_def)
    from read_dirent_small [OF this that(1), of DirlinkRead] obtain t where
      t: "read_dirent DirlinkRead dp k u = Inr (entry dp a u k, t)" "same_dir dp a u t" by blast
    have "same_dir dp a s t" by (rule same_dir_trans [OF that(2) t(2)])
    then show ?thesis using t(1) sd(3) by (auto simp: dirlink_try_def)
  qed
  have dt: "dir_turns dp t1 = m" using sd1(5) dir_turns_small [OF d] by simp
  obtain t2 where t2: "same_dir dp a s t2" "for_upto (dirlink_try dp) 0 m t1 =
      (case scan (\<lambda>k. de_inum (entry dp a s k) = 0) 0 m of None \<Rightarrow> Inr (None, t2) | Some k \<Rightarrow> Inr (Some k, t2))"
    using for_upto_scan [of "same_dir dp a s" t1 0 m "dirlink_try dp" "\<lambda>k. de_inum (entry dp a s k) = 0"
        "\<lambda>k t. Inr (Some k, t)"] t1(1) body by auto
  note sd2 = same_dirD [OF t2(1)]
  have dt2: "dir_turns dp t2 = m" using sd2(5) dir_turns_small [OF d] by simp
  have p: "p < 16" "p \<le> m" using fits dir_place_le [of dp a m s] by (auto simp: p_def size_defs)
  have D: "?dev \<noteq> 0" "i_addrs (itable s dp) ! 0 = a" "a \<noteq> 0" "unat a < FSSIZE" "i_type (itable s dp) = T_DIR"
    "unat (i_size (itable s dp)) = m * DESIZE" "m * DESIZE \<le> BSIZE" using d by (auto simp: small_dir_def)
  have u: "unat (of_nat (p * DESIZE) :: u32) = p * DESIZE" "unat (of_nat DESIZE :: u32) = DESIZE"
    by (rule unat_u32, use p in \<open>simp add: size_defs\<close>)+
  have z: "p * DESIZE div BSIZE = 0" "p * DESIZE mod BSIZE = p * DESIZE" "p * DESIZE + DESIZE \<le> BSIZE"
    using p by (simp_all add: size_defs)
  have ok2: "cache_ok t2" "idle t2" using t2(1) by (auto simp: same_dir_def)
  let ?src = "dirent_bytes (ucast inum) name" and ?x = "itable s dp"
  have "0 < (of_nat DESIZE :: u32)" using u(2) by (simp add: word_less_nat_alt size_defs)
  then obtain t3 where t3: "writei dp ?src (of_nat (p * DESIZE)) (of_nat DESIZE) t2 = Inr (int DESIZE, t3)"
    "unat (of_nat (p * DESIZE) + of_nat DESIZE :: u32) = p * DESIZE + DESIZE"
    "itable t3 = (itable t2)(dp := ?x\<lparr>i_size := max (i_size ?x) (of_nat (p * DESIZE) + of_nat DESIZE)\<rparr>)"
    "cache_ok t3" "idle t3" "cview t3 ?dev a = copy (cview t2 ?dev a) (p * DESIZE) ?src 0 DESIZE"
    using writei_block [OF ok2 sd2(1) [THEN fun_cong, of dp] D(1) l, of "of_nat DESIZE" "of_nat (p * DESIZE)" a ?src]
      u z D blk sd2(2) by (auto simp: size_defs)
  have link: "dirlink dp name inum s = Inr (0, t3)"
    using t1(2) t2(2) dt dt2 t3(1)
    by (simp add: dirlink_def p_def dir_place_def Let_def split: option.splits)
  have x3: "itable t3 dp = ?x\<lparr>i_size := max (i_size ?x) (of_nat (p * DESIZE) + of_nat DESIZE)\<rparr>" using t3(3) by simp
  have "unat (max (i_size ?x) (of_nat (p * DESIZE) + of_nat DESIZE)) = max m (p + 1) * DESIZE"
    using t3(2) D(6) by (auto simp: max_def word_le_nat_alt size_defs split: if_splits)
  then have "small_dir dp (max m (p + 1)) a t3"
    using D x3 z(3) by (auto simp: small_dir_def max_def algebra_simps)
  moreover have "entry dp a t3 k = (if k = p then \<lparr>de_inum = ucast inum, de_name = strncpy name DIRSIZ\<rparr> else entry dp a s k)" for k
  proof -
    have "cview t2 ?dev a = cview s ?dev a" using t2(1) by (simp add: same_dir_def)
    then have "entry dp a t3 k = get_dirent (copy (cview s ?dev a) (DESIZE * p) ?src 0 DESIZE) k"
      using t3(6) x3 by (simp add: entry_def mult.commute)
    then show ?thesis
      using get_dirent_copy [of "cview s ?dev a" p ?src] get_dirent_copy_other [of p k "cview s ?dev a" ?src]
        get_dirent_bytes [of "ucast inum" name] by (simp add: entry_def)
  qed
  ultimately show ?thesis using link t3(4,5) by blast
qed

text \<open>
  The search in the table after an entry for \<open>name\<close> went to place \<open>p\<close>, the first free one or the
  one behind the last: it finds \<open>p\<close> for a name equal to \<open>name\<close> and what it found before otherwise.
\<close>

lemma scan_after_link:
  assumes p: "p \<le> m" and free: "p < m \<Longrightarrow> de_inum (e p) = 0" and new: "\<forall>k < m. \<not> matches name (e k)"
    and at_p: "\<And>q. matches q (e' p) \<longleftrightarrow> namecmp q name = 0" and at_k: "\<And>k. k < m \<Longrightarrow> k \<noteq> p \<Longrightarrow> e' k = e k"
  shows "scan (\<lambda>k. matches q (e' k)) 0 (max m (p + 1)) =
      (if namecmp q name = 0 then Some p else scan (\<lambda>k. matches q (e k)) 0 m)"
proof (cases "namecmp q name = 0")
  case True
  have "\<not> matches q (e' k)" if "k < max m (p + 1)" "k \<noteq> p" for k
  proof -
    have "k < m" using that p by (auto simp: max_def split: if_splits)
    then show ?thesis using that(2) at_k [of k] new namecmp_same [OF True] by (auto simp: matches_def)
  qed
  then show ?thesis using True at_p [of q] by (auto intro!: scan_unique)
next
  case False
  have "matches q (e' k) = matches q (e k)" if "k < m" for k
    using that at_k [of k] at_p [of q] False free by (cases "k = p") (auto simp: matches_def)
  then have "scan (\<lambda>k. matches q (e' k)) 0 m = scan (\<lambda>k. matches q (e k)) 0 m"
    by (auto intro!: scan_cong)
  moreover have "scan (\<lambda>k. matches q (e' k)) 0 (max m (p + 1)) = scan (\<lambda>k. matches q (e' k)) 0 m"
  proof (cases "p < m")
    case False
    then have "p = m" using p by simp
    then show ?thesis using at_p [of q] \<open>namecmp q name \<noteq> 0\<close> by (simp add: scan_last)
  qed (auto simp: max_def le_less_Suc_eq dest: le_antisym)
  ultimately show ?thesis using False by simp
qed


section \<open>A witness\<close>

lemma demo_entries: "k < 16 \<Longrightarrow> entry 0 50 demo_fs k = (if k = 0 then \<lparr>de_inum = 1, de_name = strncpy [97] DIRSIZ\<rparr> else get_dirent (\<lambda>_. 0) k)"
  using dirents.rd_wr_other [of 0 k "\<lparr>de_inum = 1, de_name = strncpy [97] DIRSIZ\<rparr>" "\<lambda>_. 0"]
  by (auto simp: entry_def demo_disk_def get_dirent_bytes) (simp add: dirent_bytes_def dirent_ok_def size_defs)

lemma demo_dir: "small_dir 0 2 50 demo_fs"
  by (simp add: small_dir_def layout_num)

lemma demo_name: "namecmp [98] (strncpy [97] DIRSIZ) \<noteq> 0"
  by (simp add: namecmp_strncpy) (simp add: namecmp_eq cstr_def DIRSIZ_def)

lemma demo_place: "dir_place 0 50 2 demo_fs = 1"
proof -
  have "scan (\<lambda>k. de_inum (entry 0 50 demo_fs k) = 0) 0 2 = Some 1"
    by (auto simp: scan_Some demo_entries get_zero_dirent)
  then show ?thesis by (simp add: dir_place_def)
qed


end
