(* ===== verification/Slots.thy ===== *)
theory Slots
  imports Refs Names
begin

text \<open>
  The two tables of slots the calls take from: open files and descriptors. Both hand out the
  lowest free slot; the interface below is what that means, and its lemmas give the sequence of
  slots any number of requests receives.
\<close>

section \<open>The interface\<close>

primrec alloc_n :: "('s \<Rightarrow> nat option \<times> 's) \<Rightarrow> nat \<Rightarrow> 's \<Rightarrow> nat list \<times> 's" where
  "alloc_n alloc 0 s = ([], s)"
| "alloc_n alloc (Suc n) s = (case alloc s of
     (None, t) \<Rightarrow> ([], t)
   | (Some k, t) \<Rightarrow> (let (ks, u) = alloc_n alloc n t in (k # ks, u)))"

lemma scan_filter: "scan p i n = (case filter p [i..<n] of [] \<Rightarrow> None | k # _ \<Rightarrow> Some k)"
proof (induction p i n rule: scan.induct)
  case (1 p i n)
  then show ?case by (cases "i < n") (auto simp: scan.simps [of p i n] upt_rec [of i n])
qed

locale slot_table =
  fixes free :: "'s \<Rightarrow> nat \<Rightarrow> bool" and lo hi :: nat
    and occupy :: "nat \<Rightarrow> 's \<Rightarrow> 's" and alloc :: "'s \<Rightarrow> nat option \<times> 's"
  assumes alloc_eq: "alloc s = (case scan (free s) lo hi of Some k \<Rightarrow> (Some k, occupy k s) | None \<Rightarrow> (None, s))"
    and free_occupy: "free s k \<Longrightarrow> free (occupy k s) j = (j \<noteq> k \<and> free s j)"
begin

lemma alloc_full: "fst (alloc s) = None \<longleftrightarrow> (\<forall>j. lo \<le> j \<and> j < hi \<longrightarrow> \<not> free s j)"
  unfolding alloc_eq by (auto simp: scan_None [symmetric] split: option.splits)

lemma alloc_lowest:
  "alloc s = (Some k, t) \<Longrightarrow> lo \<le> k \<and> k < hi \<and> free s k \<and> t = occupy k s \<and> (\<forall>j. lo \<le> j \<and> j < k \<longrightarrow> \<not> free s j)"
  unfolding alloc_eq by (auto simp: scan_Some split: option.splits)

lemma filter_occupy:
  assumes "filter (free s) [lo..<hi] = k # ks"
  shows "filter (free (occupy k s)) [lo..<hi] = ks"
proof -
  have "distinct (k # ks)" using assms by (metis distinct_filter distinct_upt)
  then have k: "free s k" "k \<notin> set ks" using assms by (auto simp: filter_eq_Cons_iff)
  have "free (occupy k s) = (\<lambda>j. j \<noteq> k \<and> free s j)" using free_occupy [OF k(1)] by auto
  then have "filter (free (occupy k s)) [lo..<hi] = filter (\<lambda>j. j \<noteq> k) (k # ks)"
    unfolding assms [symmetric] by (simp add: conj_commute)
  then show ?thesis using k(2) by (auto simp: filter_id_conv)
qed

theorem alloc_n_slots: "fst (alloc_n alloc n s) = take n (filter (free s) [lo..<hi])"
proof (induction n arbitrary: s)
  case (Suc n)
  show ?case
  proof (cases "filter (free s) [lo..<hi]")
    case Nil
    then show ?thesis by (simp add: alloc_eq scan_filter)
  next
    case (Cons k ks)
    then show ?thesis using Suc [of "occupy k s"] filter_occupy [OF Cons]
      by (simp add: alloc_eq scan_filter case_prod_beta Let_def)
  qed
qed simp

end

section \<open>Open files and descriptors\<close>

definition file_free :: "'z fstate_scheme \<Rightarrow> nat \<Rightarrow> bool" where
  "file_free s f = (f_ref (ftable s f) = 0)"

definition fd_free :: "'z fstate_scheme \<Rightarrow> nat \<Rightarrow> bool" where
  "fd_free s fd = (ofile s fd = None)"

text \<open>\<open>fdalloc\<close> with its answer as an option.\<close>

definition fdalloc_opt :: "nat \<Rightarrow> 'z fstate_scheme \<Rightarrow> nat option \<times> 'z fstate_scheme" where
  "fdalloc_opt f s = (let (fd, t) = fdalloc f s in (if fd < 0 then None else Some (nat fd), t))"

interpretation files: slot_table file_free 0 NFILE "\<lambda>f. fupd f (\<lambda>x. x\<lparr>f_ref := 1\<rparr>)" filealloc
  by unfold_locales (auto simp: filealloc_def file_free_def [abs_def] fupd_def)

interpretation descriptors: slot_table fd_free 3 NOFILE "\<lambda>fd s. s\<lparr>ofile := (ofile s)(fd \<mapsto> f)\<rparr>" "fdalloc_opt f" for f
  by unfold_locales
    (auto simp: fdalloc_opt_def fdalloc_def fd_free_def [abs_def] split: option.split)

text \<open>
  Any number of allocations in a row hands out the free entries of the table of open files in
  ascending order, each once, until none is left; the same for descriptors from 3 up, 0, 1 and 2
  being reserved. \<open>filealloc\<close> and \<open>fdalloc\<close> refine one abstract slot table.
\<close>

lemma slots_lowest_first:
  "fst (alloc_n filealloc n s) = take n (filter (\<lambda>i. f_ref (ftable s i) = 0) [0..<NFILE]) \<and>
   fst (alloc_n (fdalloc_opt f) n s) = take n (filter (\<lambda>fd. ofile s fd = None) [3..<NOFILE])"
  using files.alloc_n_slots [of n s] descriptors.alloc_n_slots [of f n s]
  by (simp_all add: file_free_def [abs_def] fd_free_def [abs_def])

section \<open>Concrete states and requests\<close>

definition blank_file :: openfile where
  "blank_file = \<lparr>f_type = FD_NONE, f_ref = 0, f_readable = False, f_writable = False, f_ip = 0, f_off = 0, f_major = 0\<rparr>"

definition boot_state :: fstate where
  "boot_state = \<lparr>bufs = \<lambda>_. blank_buf, disk = \<lambda>_ _. 0, fs_sb = image_sb0, freeinode = 1, freeblock = 0,
     itable = \<lambda>_. demo_inode\<lparr>i_ref := 0, i_valid := 0\<rparr>, cwd = 0,
     ftable = \<lambda>_. blank_file, umem = \<lambda>_. 0, ustat = \<lambda>_. None, ofile = \<lambda>_. None, cwd_path = []\<rparr>"

lemma boot_boot_state: "boot boot_state"
  by (simp add: boot_def boot_state_def blank_buf_def blank_file_def)

definition demo_labels :: fs_labels where
  "demo_labels = \<lparr>FS_OPEN = 1, FS_CLOSE = 2, FS_FSTAT = 3, FS_GETCWD = 4, FS_LSTAT = 5, FS_READ = 6,
     FS_WRITE = 7, FS_PREAD = 8, FS_PWRITE = 9, FS_LSEEK = 10, FS_UNLINK = 11, FS_RET = 12\<rparr>"

text \<open>A request for the path \<open>p\<close>.\<close>

definition path_args :: "u8 list \<Rightarrow> sysargs" where
  "path_args p = \<lparr>argint = \<lambda>_. 0, argaddr = \<lambda>_. 0, argstr = \<lambda>_ _. Some p\<rparr>"

definition demo_state :: fstate where
  "demo_state = fsys.extend demo_fs
     \<lparr>ftable = \<lambda>_. blank_file, umem = \<lambda>_. 0, ustat = \<lambda>_. None, ofile = \<lambda>_. None, cwd_path = [47]\<rparr>"

lemma demo_state_parts: "bufs demo_state = bufs demo_fs" "disk demo_state = demo_disk" "fs_sb demo_state = image_sb0"
  "itable demo_state = (\<lambda>_. demo_inode)" "cwd demo_state = 0" "ofile demo_state = (\<lambda>_. None)"
  by (simp_all add: demo_state_def fsys.defs) (simp add: demo_fs_def binit_def Let_def)

lemma demo_iget: "iget 1 1 s = Inr (0, iupd 0 (\<lambda>x. x\<lparr>i_ref := i_ref x + 1\<rparr>) s)"
  if "i_dev (itable s 0) = 1" "i_inum (itable s 0) = 1" "0 < i_ref (itable s 0)" for s :: "'z fsys_scheme"
proof -
  have "scan (\<lambda>i. 0 < i_ref (itable s i) \<and> i_dev (itable s i) = 1 \<and> i_inum (itable s i) = 1) 0 NINODE = Some 0"
    using that by (simp add: scan_Some NINODE_def)
  then show ?thesis by (simp add: iget_def)
qed

lemma demo_namei_root: "namei [SLASH] demo_state = Inr (Some 0, iupd 0 (\<lambda>x. x\<lparr>i_ref := i_ref x + 1\<rparr>) demo_state)"
  using demo_iget [of demo_state]
  by (simp add: namei_def namex_def chr_def namex_loop.simps skipelem_def ROOTDEV_def ROOTINO_def demo_state_parts)

lemma demo_parent: "nameiparent [97] demo_state = Inr (Some 0, [97], iupd 0 (\<lambda>x. x\<lparr>i_ref := i_ref x + 1\<rparr>) demo_state)"
  by (simp add: nameiparent_def namex_def chr_def namex_loop.simps skipelem_def SLASH_def idup_def ilock_def iunlock_def
      demo_state_parts iupd_def DIRSIZ_def)


text \<open>\<open>create\<close> of a name that is there, up to the end of the look-up.\<close>

lemma demo_create:
  defines "s1 \<equiv> iupd 0 (\<lambda>x. x\<lparr>i_ref := i_ref x + 1\<rparr>) demo_state"
  shows "\<exists>s3 t. ilock 0 s1 = Inr s1 \<and> dirlookup 0 [97] s1 = Inr (Some (0, 0), s3) \<and> iunlockput 0 s3 = Inr t"
proof -
  have b: "bufs s1 = bufs demo_fs" and d: "disk s1 = demo_disk"
    and i: "itable s1 0 = demo_inode\<lparr>i_ref := 2\<rparr>"
    by (simp_all add: s1_def iupd_def demo_state_parts)
  have ok: "cache_ok s1" "idle s1" using demo_idle b by (simp_all add: cache_ok_def idle_def)
  have v: "cview s1 1 50 = demo_disk 50"
    using cview_miss [of s1 1 50] demo_misses [of 1 50] b d by (simp add: hits_def)
  have e: "entry 0 50 s1 0 = \<lparr>de_inum = 1, de_name = strncpy [97] DIRSIZ\<rparr>"
    using demo_entries [of 0] v i by (simp add: entry_def)
  have "matches [97] (entry 0 50 s1 0)" by (simp add: e matches_def namecmp_strncpy) (simp add: namecmp_eq)
  then have sc: "scan (\<lambda>k. matches [97] (entry 0 50 s1 k)) 0 2 = Some 0" by (simp add: scan_Some)
  have sd: "small_dir 0 2 50 s1" by (simp add: small_dir_def i layout_num)
  obtain t where t: "same_dir 0 50 s1 t" "dirlookup 0 [97] s1 = bnd (iget 1 1 t) (\<lambda>(ip, u). Inr (Some (ip, 0), u))"
    using dirlookup_first [OF ok sd, of "[97]"] e sc i by auto
  have it: "itable t 0 = demo_inode\<lparr>i_ref := 2\<rparr>" using same_dirD(1) [OF t(1)] i by simp
  then have g: "iget 1 1 t = Inr (0, iupd 0 (\<lambda>x. x\<lparr>i_ref := i_ref x + 1\<rparr>) t)" by (intro demo_iget) simp_all
  have "iunlockput 0 (iupd 0 (\<lambda>x. x\<lparr>i_ref := i_ref x + 1\<rparr>) t) =
      Inr (iupd 0 (\<lambda>x. x\<lparr>i_ref := i_ref x - 1\<rparr>) (iupd 0 (\<lambda>x. x\<lparr>i_ref := i_ref x + 1\<rparr>) t))"
    using it by (simp add: iunlockput_def iput_def iunlock_def iupd_def)
  then show ?thesis using t(2) g i by (auto simp: ilock_def)
qed

section \<open>References that are lost\<close>

text \<open>A successful \<open>lstat\<close> keeps the reference the path lookup took.\<close>



text \<open>\<open>create\<close> on a name that exists.\<close>

text \<open>
  C17. \<open>create\<close> of a name that exists answers 0 (so an open with \<open>O_CREAT\<close> of an existing file fails)
  and loses the reference \<open>dirlookup\<close> took to the inode: nothing releases it.
\<close>

theorem create_exists:
  assumes p: "nameiparent path s = Inr (Some dp, name, s1)" and l: "ilock dp s1 = Inr s2"
    and d: "dirlookup dp name s2 = Inr (Some (ip, off), s3)" and u: "iunlockput dp s3 = Inr t" and c: "cwd s < NINODE"
  shows "create path type major minor s = Inr (None, t) \<and> irefs t = inc ip (irefs s)"
  using assms by (auto simp: create_def dest!: nameiparent_ledger ledger)

lemma create_exists_witness:
  "\<exists>t. create [97] T_FILE 0 0 demo_state = Inr (None, t) \<and> irefs t = inc 0 (irefs demo_state)"
proof -
  obtain s3 t where "ilock 0 (iupd 0 (\<lambda>x. x\<lparr>i_ref := i_ref x + 1\<rparr>) demo_state) = Inr (iupd 0 (\<lambda>x. x\<lparr>i_ref := i_ref x + 1\<rparr>) demo_state)"
    "dirlookup 0 [97] (iupd 0 (\<lambda>x. x\<lparr>i_ref := i_ref x + 1\<rparr>) demo_state) = Inr (Some (0, 0), s3)" "iunlockput 0 s3 = Inr t"
    using demo_create by blast
  from create_exists [OF demo_parent this] show ?thesis by (auto simp: demo_state_parts NINODE_def)
qed

section \<open>Other facts about the calls\<close>

lemma dispatch_unknown:
  assumes "label \<notin> {FS_OPEN L, FS_CLOSE L, FS_FSTAT L, FS_GETCWD L, FS_LSTAT L, FS_READ L, FS_WRITE L,
     FS_PREAD L, FS_PWRITE L, FS_LSEEK L, FS_UNLINK L}"
  shows "fs_dispatch L label m s = Inr (- EINVAL, s)"
  using assms by (simp add: fs_dispatch_def)

text \<open>A device file has no driver behind it.\<close>

lemma device_io:
  assumes "f_type (ftable s f) = FD_DEVICE"
  shows "fileread f a n s = Inr (if f_readable (ftable s f) then - EINVAL else - EBADF, s)"
    "filewrite f a n s = Inr (if f_writable (ftable s f) then - EINVAL else - EBADF, s)"
  using assms by (auto simp: fileread_def filewrite_def devsw_def Let_def)

end
