(* ===== verification/Contents.thy ===== *)
theory Contents
  imports Slots
begin

text \<open>
  File contents through the system calls: from the client's memory through descriptor, open file, inode,
  block map and buffer cache, and back.
\<close>

section \<open>One request to write, one to read\<close>

text \<open>A descriptor of an open regular file that may be read and written, with its inode loaded.\<close>

definition open_rw :: "nat \<Rightarrow> 'z fstate_scheme \<Rightarrow> bool" where
  "open_rw f s = (let x = ftable s f in f_type x = FD_INODE \<and> f_readable x \<and> f_writable x \<and>
     1 \<le> i_ref (itable s (f_ip x)) \<and> i_valid (itable s (f_ip x)) \<noteq> 0)"

lemma ilock_loaded: "1 \<le> i_ref (itable s ip) \<Longrightarrow> i_valid (itable s ip) \<noteq> 0 \<Longrightarrow> ilock ip s = Inr s"
  by (simp add: ilock_def)

lemma small_int: "0 < n \<Longrightarrow> n \<le> 1024 \<Longrightarrow> unat (word_of_int n :: u32) = nat n"
proof -
  assume n: "0 < n" "n \<le> 1024"
  then have "(word_of_int n :: u32) = of_nat (nat n)" by (metis int_nat_eq of_int_of_nat_eq order_less_imp_le word_of_int_nat)
  then show ?thesis using n unat_u32 [of "nat n"] by simp
qed

lemma fupd_parts:
  "bufs (fupd f g s) = bufs s" "itable (fupd f g s) = itable s" "fs_sb (fupd f g s) = fs_sb s" "disk (fupd f g s) = disk s"
  "ftable (fupd f g s) f = g (ftable s f)" "umem (fupd f g s) = umem s" "ofile (fupd f g s) = ofile s"
  by (simp_all add: fupd_def)

text \<open>A write inside one allocated block through an open file.\<close>

lemma filewrite_block:
  fixes s :: "'z fstate_scheme"
  assumes o: "open_rw f s" "f_ip (ftable s f) = ip" "f_off (ftable s f) = off"
    and ok: "cache_ok s" "idle s" and x: "itable s ip = x" "i_dev x \<noteq> 0" "length (i_addrs x) = NADDRS"
    and n: "0 < n" "unat off mod BSIZE + nat n \<le> BSIZE" "unat off < NDIRECT * BSIZE"
    and a: "i_addrs x ! (unat off div BSIZE) = a" "a \<noteq> 0" "unat a < FSSIZE"
    and blk: "unat (IBLOCK (i_inum x) (fs_sb s)) < FSSIZE" "IBLOCK (i_inum x) (fs_sb s) \<noteq> a"
  shows "\<exists>t. filewrite f addr n s = Inr (n, t) \<and> ofile t = ofile s \<and> umem t = umem s \<and>
    ftable t = (ftable s)(f := (ftable s f)\<lparr>f_off := off + word_of_int n\<rparr>) \<and>
    itable t = (itable s)(ip := x\<lparr>i_size := max (i_size x) (off + word_of_int n)\<rparr>) \<and>
    unat (off + word_of_int n) = unat off + nat n \<and> cache_ok t \<and> idle t \<and>
    cview t (i_dev x) a = copy (cview s (i_dev x) a) (unat off mod BSIZE) (uload addr (umem s)) 0 (nat n)"
proof -
  have le: "n \<le> 1024" using n(2) by (simp add: BSIZE_def)
  have un: "unat (word_of_int n :: u32) = nat n" using small_int [OF n(1) le] .
  obtain t where t: "writei ip (uload addr (umem s)) off (word_of_int n) s = Inr (n, t)"
    "unat (off + word_of_int n) = unat off + nat n"
    "itable t = (itable s)(ip := x\<lparr>i_size := max (i_size x) (off + word_of_int n)\<rparr>)" "cache_ok t" "idle t"
    "cview t (i_dev x) a = copy (cview s (i_dev x) a) (unat off mod BSIZE) (uload addr (umem s)) 0 (nat n)"
    using writei_block [OF ok x _ _ n(3) a blk, of "word_of_int n" "uload addr (umem s)"] n(1,2) un
    by (auto simp: word_greater_zero_iff unat_gt_0 [symmetric])
  have r: "ftable t = ftable s" "ofile t = ofile s" "umem t = umem s"
    using writei_ledger [OF t(1)] more_files [of t s] by (auto simp: even_refs_def rest_def)
  let ?t = "fupd f (\<lambda>x. x\<lparr>f_off := f_off x + word_of_int n\<rparr>) t"
  have "min (n - 0) write_max = n" using le by (simp add: write_max_def MAXOPBLOCKS_def BSIZE_def)
  moreover have "ilock ip s = Inr s" using o by (intro ilock_loaded) (auto simp: open_rw_def Let_def)
  ultimately have "filewrite_loop f addr n 0 s = filewrite_loop f addr n n ?t"
    using n(1) o(2,3) t(1) r(1) by (subst filewrite_loop.simps) (simp add: Let_def iunlock_def)
  then have "filewrite f addr n s = Inr (n, ?t)"
    using o(1) by (simp add: filewrite_def open_rw_def Let_def filewrite_loop.simps)
  moreover have "cview ?t = cview t" "cache_ok ?t" "idle ?t"
    using t(4,5) cview_cong [of ?t t] cache_ok_cong [of ?t t] by (simp_all add: fupd_parts idle_def)
  ultimately show ?thesis using t r o(3)
    by (intro exI [of _ ?t]) (simp add: fupd_def)
qed

text \<open>A read inside one allocated block.\<close>

lemma fileread_block:
  fixes s :: "'z fstate_scheme"
  assumes o: "open_rw f s" "f_ip (ftable s f) = ip" "f_off (ftable s f) = off"
    and ok: "cache_ok s" "idle s" and x: "i_dev (itable s ip) = dev" "dev \<noteq> 0"
    and n: "0 < n" "unat off mod BSIZE + nat n \<le> BSIZE" "unat off < NDIRECT * BSIZE"
    and sz: "unat off + nat n \<le> unat (i_size (itable s ip))"
    and a: "i_addrs (itable s ip) ! (unat off div BSIZE) = a" "a \<noteq> 0" "unat a < FSSIZE"
  shows "\<exists>t. fileread f addr n s = Inr (n, t) \<and>
    umem t = ustore addr (get_list (cview s dev a) (unat off mod BSIZE) (nat n)) (umem s)"
proof -
  have le: "n \<le> 1024" using n(2) by (simp add: BSIZE_def)
  have un: "unat (word_of_int n :: u32) = nat n" using small_int [OF n(1) le] .
  let ?bs = "get_list (cview s dev a) (unat off mod BSIZE) (nat n)"
  obtain u where u: "readi ip off (word_of_int n) s = Inr (?bs, u)"
    using readi_block [OF ok x(1,2) _ _ n(3) _ a, of "word_of_int n"] n(1,2) sz un
    by (auto simp: word_greater_zero_iff unat_gt_0 [symmetric])
  have r: "ftable u = ftable s" "umem u = umem s"
    using readi_ledger [OF u] more_files [of u s] by (auto simp: even_refs_def rest_def)
  have len: "sint (of_nat (length ?bs) :: u32) = n"
    using n(1) le by (simp add: get_list_def signed_of_int signed_take_bit_int_eq_self)
  have "ilock ip s = Inr s" using o by (intro ilock_loaded) (auto simp: open_rw_def Let_def)
  then show ?thesis
    using o u len n(1) r by (auto simp: fileread_def open_rw_def Let_def iunlock_def fupd_parts split: prod.splits)
qed

text \<open>
  C9. What a client writes through a descriptor it reads back: after a write of \<open>n\<close> bytes into an
  allocated direct block, setting the position back and reading \<open>n\<close> bytes, all three calls succeed and the memory at
  the destination holds the bytes that were at the source when they were written, through system call, open file, inode, block map and buffer cache.
\<close>

theorem write_seek_read:
  fixes s :: "'z fstate_scheme"
  assumes fd: "argfd w 0 s = Some (fd, f)" "argint k 0 = argint w 0" "argint r 0 = argint w 0"
    and o: "open_rw f s" "f_ip (ftable s f) = ip" "f_off (ftable s f) = off"
    and ok: "cache_ok s" "idle s" and x: "itable s ip = x" "i_dev x \<noteq> 0" "length (i_addrs x) = NADDRS"
    and n: "sint (argint w 2) = n" "sint (argint r 2) = n" "0 < n" "unat off mod BSIZE + nat n \<le> BSIZE" "unat off < NDIRECT * BSIZE"
    and seek: "argaddr k 1 = ucast off" "sint (argint k 2) = SEEK_SET"
    and a: "i_addrs x ! (unat off div BSIZE) = a" "a \<noteq> 0" "unat a < FSSIZE"
    and blk: "unat (IBLOCK (i_inum x) (fs_sb s)) < FSSIZE" "IBLOCK (i_inum x) (fs_sb s) \<noteq> a"
  shows "\<exists>t u v. xv6fs_write w s = Inr (n, t) \<and> xv6fs_lseek k t = Inr (int (unat off), u) \<and> xv6fs_read r u = Inr (n, v) \<and>
    map (\<lambda>i. umem v (argaddr r 1 + of_nat i)) [0..<nat n] = map (\<lambda>i. umem s (argaddr w 1 + of_nat i)) [0..<nat n]"
proof -
  obtain t where t: "filewrite f (argaddr w 1) n s = Inr (n, t)" "ofile t = ofile s" "umem t = umem s"
    "ftable t = (ftable s)(f := (ftable s f)\<lparr>f_off := off + word_of_int n\<rparr>)"
    "itable t = (itable s)(ip := x\<lparr>i_size := max (i_size x) (off + word_of_int n)\<rparr>)"
    "unat (off + word_of_int n) = unat off + nat n" "cache_ok t" "idle t"
    "cview t (i_dev x) a = copy (cview s (i_dev x) a) (unat off mod BSIZE) (uload (argaddr w 1) (umem s)) 0 (nat n)"
    using filewrite_block [OF o ok x n(3-5) a blk] by blast
  let ?u = "fupd f (\<lambda>x. x\<lparr>f_off := off\<rparr>) t"
  have w: "xv6fs_write w s = Inr (n, t)" using fd(1) n(1) t(1) by (simp add: xv6fs_write_def Let_def)
  have fdt: "argfd k 0 t = Some (fd, f)" "argfd r 0 ?u = Some (fd, f)"
    using fd(1) unfolding argfd_def fd(2,3) fupd_parts t(2) by simp_all
  have so: "sint off = int (unat off)" using n(5) by (intro sint_small) (simp add: size_defs)
  have ft: "f_type (ftable t f) = FD_INODE" using t(4) o(1) by (simp add: open_rw_def Let_def)
  have uu: "(ucast (ucast off :: u64) :: u32) = off" by (rule bit_word_eqI) (simp add: bit_ucast_iff)
  have k: "xv6fs_lseek k t = Inr (int (unat off), ?u)"
    using fdt(1) seek ft so uu by (simp add: xv6fs_lseek_def fileseek_def Let_def SEEK_SET_def SEEK_CUR_def SEEK_END_def fupd_parts)
  have ou: "open_rw f ?u" "f_ip (ftable ?u f) = ip" "f_off (ftable ?u f) = off"
    using o t(4,5) x(1) by (auto simp: open_rw_def Let_def fupd_parts)
  have ku: "cache_ok ?u" "idle ?u" "cview ?u = cview t"
    using t(7,8) cview_cong [of ?u t] cache_ok_cong [of ?u t] by (simp_all add: fupd_parts idle_def)
  have iu: "i_dev (itable ?u ip) = i_dev x" "i_addrs (itable ?u ip) ! (unat off div BSIZE) = a"
    using t(5) a(1) by (simp_all add: fupd_parts)
  have sz: "unat off + nat n \<le> unat (i_size (itable ?u ip))"
    using t(5,6) by (auto simp: fupd_parts max_def word_le_nat_alt)
  obtain v where v: "fileread f (argaddr r 1) n ?u = Inr (n, v)"
    "umem v = ustore (argaddr r 1) (get_list (cview ?u (i_dev x) a) (unat off mod BSIZE) (nat n)) (umem ?u)"
    using fileread_block [OF ou ku(1,2) iu(1) x(2) n(3-5) sz iu(2) a(2,3)] by blast
  have rd: "xv6fs_read r ?u = Inr (n, v)" using fdt(2) n(2) v(1) by (simp add: xv6fs_read_def Let_def)
  have "get_list (cview ?u (i_dev x) a) (unat off mod BSIZE) (nat n) = map (\<lambda>i. umem s (argaddr w 1 + of_nat i)) [0..<nat n]"
    unfolding ku(3) t(9) get_list_copy by (simp add: uload_def)
  then have "umem v (argaddr r 1 + of_nat i) = umem s (argaddr w 1 + of_nat i)" if "i < nat n" for i
  proof -
    have "nat n \<le> 1024" using n(4) by (simp add: BSIZE_def)
    then have "unat (of_nat i :: u64) = i" using that by (simp add: unsigned_of_nat take_bit_nat_eq_self)
    then show ?thesis using v(2) that \<open>get_list _ _ _ = _\<close> by (simp add: ustore_def)
  qed
  then show ?thesis using w k rd by (intro exI [of _ t] exI [of _ ?u] exI [of _ v]) simp
qed

text \<open>A file open for reading and writing at offset 126, with four bytes to write in the client's memory.\<close>

definition demo_open :: fstate where
  "demo_open = demo_state\<lparr>ftable := \<lambda>_. \<lparr>f_type = FD_INODE, f_ref = 1, f_readable = True, f_writable = True,
       f_ip = 0, f_off = 126, f_major = 0\<rparr>, ofile := [3 \<mapsto> 0], umem := ucast\<rparr>"

definition demo_request :: "u32 \<Rightarrow> u64 \<Rightarrow> sysargs" where
  "demo_request n a = \<lparr>argint = (\<lambda>_. n)(0 := 3), argaddr = \<lambda>_. a, argstr = \<lambda>_ _. None\<rparr>"

lemma demo_open_parts: "bufs demo_open = bufs demo_fs" "fs_sb demo_open = image_sb0" "disk demo_open = disk demo_fs"
  "itable demo_open = (\<lambda>_. demo_inode)" "ofile demo_open = [3 \<mapsto> 0]" "umem demo_open = ucast"
  by (simp_all add: demo_open_def demo_state_parts)

lemma write_seek_read_witness:
  "\<exists>t u v. xv6fs_write (demo_request 4 100) demo_open = Inr (4, t) \<and> xv6fs_lseek (demo_request 0 126) t = Inr (126, u) \<and>
     xv6fs_read (demo_request 4 200) u = Inr (4, v) \<and> map (umem v) [200, 201, 202, 203] = [100, 101, 102, 103]"
proof -
  have ok: "cache_ok demo_open" "idle demo_open"
    using cache_ok_cong [of demo_open demo_fs] demo_idle by (simp_all add: demo_open_parts idle_def)
  have o: "open_rw 0 demo_open" "f_ip (ftable demo_open 0) = 0" "f_off (ftable demo_open 0) = 126"
    by (simp_all add: open_rw_def demo_open_parts) (simp_all add: demo_open_def)
  have fd: "argfd (demo_request 4 100) 0 demo_open = Some (3, 0)"
    by (simp add: argfd_def demo_request_def demo_open_parts NOFILE_def)
  show ?thesis
    using write_seek_read [OF fd _ _ o ok, of "demo_request 0 126" "demo_request 4 200" demo_inode 4 50]
    by (auto simp: demo_request_def demo_open_parts layout_num upt_rec SEEK_SET_def)
qed

end
