(* ===== verification/Bench_Prelude.thy ===== *)
theory Bench_Prelude
  imports Fs_Prelude
begin

text \<open>
  Vocabulary of the benchmark program sqlite3/src: how a run of it ends before its time, C
  strings in buffers of a given capacity, and the arithmetic of \<open>double\<close>.
\<close>

section \<open>How a run ends\<close>

text \<open>
  \<open>Overrun\<close> is an access outside an object (a buffer, an array, a null pointer), \<open>Overflow\<close> a
  signed integer out of the range of its type, \<open>DivZero\<close> a division by zero, \<open>Assertion\<close> a failed \<open>assert\<close>, \<open>Exit n\<close> a call \<open>exit(n)\<close>, \<open>Forever\<close> a loop
  that makes no progress.
\<close>

datatype halt = Overrun | Overflow | DivZero | Assertion | Exit int | Forever

type_synonym 'a run = "halt + 'a"

section \<open>C strings\<close>

text \<open>
  A C string is the list of its bytes before the terminating NUL. \<open>strcat_to cap dst src\<close> is
  \<open>strcat(dst, src)\<close> where \<open>dst\<close> lies in an object of \<open>cap\<close> bytes: the two strings and the NUL
  have to fit.
\<close>

type_synonym cstring = "u8 list"

definition strcat_to :: "nat \<Rightarrow> cstring \<Rightarrow> cstring \<Rightarrow> cstring run" where
  "strcat_to cap dst src = (if length dst + length src + 1 \<le> cap then Inr (dst @ src) else Inl Overrun)"

lemma strcat_to_Inr: "strcat_to cap dst src = Inr r \<longleftrightarrow> r = dst @ src \<and> length dst + length src < cap"
  by (auto simp: strcat_to_def)

definition isspace :: "u8 \<Rightarrow> bool" where
  "isspace c = (c = 32 \<or> 9 \<le> c \<and> c \<le> 13)"

text \<open>A string literal of the source.\<close>

definition str :: "string \<Rightarrow> cstring" where
  "str s = map of_char s"

lemma str_simps [simp]: "str [] = []" "str (c # cs) = of_char c # str cs"
  by (simp_all add: str_def)

lemma str_append: "str (s @ t) = str s @ str t"
  by (simp add: str_def)

section \<open>Integers and their decimal text\<close>

definition is_int :: "int \<Rightarrow> bool" where
  "is_int n = (- 2147483648 \<le> n \<and> n \<le> 2147483647)"

text \<open>What \<open>%d\<close> prints: digits, most significant first, after a sign when negative.\<close>

fun digits :: "nat \<Rightarrow> cstring" where
  "digits n = (if n < 10 then [of_nat (48 + n)] else digits (n div 10) @ [of_nat (48 + n mod 10)])"

declare digits.simps [simp del]

definition decimal :: "int \<Rightarrow> cstring" where
  "decimal n = (if n < 0 then str ''-'' @ digits (nat (- n)) else digits (nat n))"

text \<open>What \<open>%016d\<close> prints: the same, filled with zeros after the sign to 16 characters.\<close>

definition decimal16 :: "int \<Rightarrow> cstring" where
  "decimal16 n = (let sign = (if n < 0 then str ''-'' else []); ds = digits (nat \<bar>n\<bar>)
     in sign @ replicate (16 - length sign - length ds) 48 @ ds)"

text \<open>The number a row of digits stands for.\<close>

definition number :: "cstring \<Rightarrow> nat" where
  "number ds = fold (\<lambda>d n. 10 * n + (unat d - 48)) ds 0"

definition is_digit :: "u8 \<Rightarrow> bool" where
  "is_digit c = (48 \<le> c \<and> c \<le> 57)"

lemma digit_byte: "k < 10 \<Longrightarrow> unat (of_nat (48 + k) :: u8) = 48 + k"
  by (simp add: unsigned_of_nat take_bit_nat_eq_self del: of_nat_add)

lemma number_snoc: "number (ds @ [d]) = 10 * number ds + (unat d - 48)"
  by (simp add: number_def)

lemma digits_digits: "\<forall>c \<in> set (digits n). is_digit c"
proof (induction n rule: digits.induct)
  case (1 n)
  have "is_digit (of_nat (48 + k))" if "k < 10" for k
    using digit_byte [OF that] that by (simp add: is_digit_def word_le_nat_alt del: of_nat_add)
  then show ?case using 1 by (cases "n < 10") (simp_all add: digits.simps [of n] del: of_nat_add)
qed

lemma number_digits: "number (digits n) = n"
proof (induction n rule: digits.induct)
  case (1 n)
  then show ?case
    using digit_byte [of n] digit_byte [of "n mod 10"]
    by (cases "n < 10") (simp_all add: digits.simps [of n] number_snoc del: of_nat_add, simp add: number_def del: of_nat_add)
qed

lemma digits_nonempty: "digits n \<noteq> []"
  by (simp add: digits.simps [of n])

lemma length_digits: "n < 10 ^ Suc k \<Longrightarrow> length (digits n) \<le> Suc k"
proof (induction n arbitrary: k rule: digits.induct)
  case (1 n)
  show ?case
  proof (cases "n < 10")
    case False
    then obtain j where k: "k = Suc j" using "1.prems" by (cases k) auto
    then have "n div 10 < 10 ^ Suc j" using "1.prems" by (simp add: div_less_iff_less_mult mult.commute)
    then show ?thesis using "1.IH" [OF False] False k by (simp add: digits.simps [of n])
  qed (simp add: digits.simps [of n])
qed

lemma number_zeros: "number (replicate k 48 @ ds) = number ds"
  by (induction k) (simp_all add: number_def)

text \<open>The keys of the benchmarks: 16 characters, different for different numbers.\<close>

lemma decimal16_key:
  assumes "0 \<le> n" "n < 10 ^ 16"
  shows "length (decimal16 n) = 16 \<and> number (decimal16 n) = nat n"
proof -
  have "nat n < 10 ^ Suc 15" using assms by (simp add: nat_less_iff)
  then have "length (digits (nat n)) \<le> 16" using length_digits [of "nat n" 15] by simp
  then show ?thesis using assms by (simp add: decimal16_def Let_def number_zeros number_digits)
qed

lemma decimal16_inj: "0 \<le> m \<Longrightarrow> m < 10 ^ 16 \<Longrightarrow> 0 \<le> n \<Longrightarrow> n < 10 ^ 16 \<Longrightarrow> decimal16 m = decimal16 n \<longleftrightarrow> m = n"
  using decimal16_key [of m] decimal16_key [of n] by (metis eq_nat_nat_iff)

section \<open>Floating point\<close>

text \<open>
  The operations of \<open>double\<close> the program uses are an argument of the definitions that compute
  with them: what rounding they do is up to the machine. \<open>flit\<close> is the value of a literal.
\<close>

record 'd fp =
  fadd :: "'d \<Rightarrow> 'd \<Rightarrow> 'd"
  fsub :: "'d \<Rightarrow> 'd \<Rightarrow> 'd"
  fmul :: "'d \<Rightarrow> 'd \<Rightarrow> 'd"
  fdiv :: "'d \<Rightarrow> 'd \<Rightarrow> 'd"
  fsqrt :: "'d \<Rightarrow> 'd"
  fle :: "'d \<Rightarrow> 'd \<Rightarrow> bool"
  flt :: "'d \<Rightarrow> 'd \<Rightarrow> bool"
  flit :: "int \<Rightarrow> 'd"

text \<open>
  What the properties rely on, all of it behaviour of IEEE 754: comparison is a linear order (no
  NaN among the values), literals up to 2^53 are ordered as the integers they stand for, and sums
  of such integers are exact as long as they stay below that bound.
\<close>

definition fp_ok :: "'d fp \<Rightarrow> bool" where
  "fp_ok F = ((\<forall>x y. flt F x y = (\<not> fle F y x)) \<and> (\<forall>x y. fle F x y \<or> fle F y x) \<and>
     (\<forall>x y z. fle F x y \<and> fle F y z \<longrightarrow> fle F x z) \<and> (\<forall>x y. fle F x y \<and> fle F y x \<longrightarrow> x = y) \<and>
     (\<forall>m n. 0 \<le> m \<and> m \<le> 2 ^ 53 \<and> 0 \<le> n \<and> n \<le> 2 ^ 53 \<longrightarrow> fle F (flit F m) (flit F n) = (m \<le> n)) \<and>
     (\<forall>m n. 0 \<le> m \<and> 0 \<le> n \<and> m + n \<le> 2 ^ 53 \<longrightarrow> fadd F (flit F m) (flit F n) = flit F (m + n)))"

text \<open>An instance: exact rational arithmetic.\<close>

definition int_fp :: "int fp" where
  "int_fp = \<lparr>fadd = (+), fsub = (-), fmul = (*), fdiv = (div), fsqrt = id, fle = (\<le>), flt = (<), flit = id\<rparr>"

lemma fp_ok_int: "fp_ok int_fp"
  by (auto simp: fp_ok_def int_fp_def)

end
