(* ===== verification/Util.thy ===== *)
theory Util
  imports Bench_Prelude
begin

text \<open>
  The string functions of the benchmark, sqlite3/src/util.c. The clock, \<open>now_micros\<close>, is a
  parameter of the definitions that read it.
\<close>

section \<open>Operations\<close>

text \<open>\<open>strncmp\<close> of as many bytes as the prefix has.\<close>

definition starts_with :: "cstring \<Rightarrow> cstring \<Rightarrow> bool" where
  "starts_with s pre = (if length s < length pre then False else take (length pre) s = pre)"

function trim_start :: "cstring \<Rightarrow> nat \<Rightarrow> nat" where
  "trim_start s start = (if start < length s \<and> isspace (s ! start) then trim_start s (Suc start) else start)"
  by pat_completeness auto
termination
  by (relation "measure (\<lambda>(s, start). length s - start)") auto

fun trim_limit :: "cstring \<Rightarrow> nat \<Rightarrow> nat \<Rightarrow> nat" where
  "trim_limit s start limit =
     (if start < limit \<and> isspace (s ! (limit - 1)) then trim_limit s start (limit - 1) else limit)"

declare trim_start.simps [simp del] trim_limit.simps [simp del]

text \<open>
  A buffer of \<open>limit - start + 1\<close> bytes, cleared by \<open>calloc\<close>, filled by index and terminated; what
  is left after it is the string up to its first NUL, which is the terminator.
\<close>

definition trim_space :: "cstring \<Rightarrow> cstring" where
  "trim_space s =
     (let start = trim_start s 0; limit = trim_limit s start (length s);
          res = replicate (limit - start + 1) 0;
          res = fold (\<lambda>i res. res[i := s ! (start + i)]) [0..<limit - start] res;
          res = res[limit - start := 0]
      in take (limit - start) res)"

section \<open>What they compute\<close>

lemma starts_with_prefix: "starts_with s pre \<longleftrightarrow> (\<exists>rest. s = pre @ rest)"
  by (auto simp: starts_with_def) (metis append_take_drop_id)

lemma starts_with_append [simp]: "starts_with (pre @ rest) pre"
  by (simp add: starts_with_def)

lemma trim_start_eq: "start \<le> length s \<Longrightarrow> trim_start s start = start + length (takeWhile isspace (drop start s))"
proof (induction s start rule: trim_start.induct)
  case (1 s start)
  show ?case
  proof (cases "start < length s")
    case True
    then show ?thesis using 1 by (simp add: trim_start.simps [of s start] Cons_nth_drop_Suc [OF True, symmetric])
  qed (simp add: trim_start.simps [of s start] \<open>start \<le> length s\<close>)
qed

lemma trim_limit_eq:
  "start \<le> limit \<Longrightarrow> limit \<le> length s \<Longrightarrow>
   trim_limit s start limit = limit - length (takeWhile isspace (rev (drop start (take limit s))))"
proof (induction s start limit rule: trim_limit.induct)
  case (1 s start limit)
  show ?case
  proof (cases "start < limit")
    case True
    then have t: "drop start (take limit s) = drop start (take (limit - 1) s) @ [s ! (limit - 1)]"
      using "1.prems" take_Suc_conv_app_nth [of "limit - 1" s] by simp
    then show ?thesis using 1 True by (simp add: trim_limit.simps [of s start limit])
  next
    case False
    then show ?thesis using "1.prems" by (subst trim_limit.simps) simp
  qed
qed

lemma fill_by_index:
  "n \<le> length xs \<Longrightarrow> fold (\<lambda>i xs. xs[i := f i]) [0..<n] xs = map f [0..<n] @ drop n xs"
proof (induction n)
  case (Suc n)
  then show ?case by (simp add: list_update_append Cons_nth_drop_Suc [symmetric])
qed simp

lemma trim_space_range:
  "trim_space s = drop (trim_start s 0) (take (trim_limit s (trim_start s 0) (length s)) s)"
proof -
  define a where "a = trim_start s 0"
  define z where "z = trim_limit s a (length s)"
  have a: "a \<le> length s" using trim_start_eq [of 0 s] length_takeWhile_le [of isspace s] by (simp add: a_def)
  have z: "z \<le> length s" using trim_limit_eq [of a "length s" s] a by (simp add: z_def)
  have "trim_space s = map (\<lambda>i. s ! (a + i)) [0..<z - a]"
    using fill_by_index [of "z - a" "replicate (z - a + 1) (0 :: u8)" "\<lambda>i. s ! (a + i)"]
    by (simp add: trim_space_def Let_def a_def [symmetric] z_def [symmetric])
  also have "\<dots> = drop a (take z s)" using z by (intro nth_equalityI) auto
  finally show ?thesis by (simp add: a_def z_def)
qed

definition strip_end :: "cstring \<Rightarrow> cstring" where
  "strip_end s = rev (dropWhile isspace (rev s))"

text \<open>
  \<open>trim_space\<close> removes all white space at both ends of a string and nothing else: what it
  answers neither begins nor ends with a space, and the string is the answer between two runs of
  spaces. \<open>starts_with\<close> holds exactly of the extensions of the prefix.
\<close>

lemma trim_space_strips:
  "trim_space s = strip_end (dropWhile isspace s) \<and>
   (\<exists>l r. s = l @ trim_space s @ r \<and> (\<forall>c \<in> set (l @ r). isspace c)) \<and>
   (trim_space s \<noteq> [] \<longrightarrow> \<not> isspace (hd (trim_space s)) \<and> \<not> isspace (last (trim_space s))) \<and>
   starts_with s pre = (\<exists>rest. s = pre @ rest)"
proof -
  define a where "a = length (takeWhile isspace s)"
  let ?d = "drop a s"
  have a: "trim_start s 0 = a" "a \<le> length s"
    using trim_start_eq [of 0 s] length_takeWhile_le [of isspace s] by (simp_all add: a_def)
  have d: "?d = dropWhile isspace s" by (simp add: a_def dropWhile_eq_drop)
  let ?w = "takeWhile isspace (rev ?d)"
  have z: "trim_limit s a (length s) = length s - length ?w" using trim_limit_eq [of a "length s" s] a by simp
  have "length s - length ?w = (length ?d - length ?w) + a"
    using length_takeWhile_le [of isspace "rev ?d"] a(2) by simp
  then have "drop a (take (length s - length ?w) s) = take (length ?d - length ?w) ?d"
    by (simp only: take_drop)
  also have "\<dots> = strip_end ?d"
    by (simp only: strip_end_def dropWhile_eq_drop rev_drop [of _ "rev ?d"] rev_rev_ident length_rev)
  finally have t: "trim_space s = strip_end (dropWhile isspace s)"
    unfolding trim_space_range a(1) z d [symmetric] .
  have e: "dropWhile isspace s = trim_space s @ rev ?w"
    unfolding t strip_end_def d by (metis rev_append rev_rev_ident takeWhile_dropWhile_id)
  have s: "s = takeWhile isspace s @ trim_space s @ rev ?w" using e by (metis takeWhile_dropWhile_id)
  have sp: "\<forall>c \<in> set (takeWhile isspace s @ rev ?w). isspace c" by (auto dest: set_takeWhileD)
  have first: "\<not> isspace (hd (trim_space s))" if "trim_space s \<noteq> []"
    using hd_dropWhile [of isspace s] that e by (metis append_is_Nil_conv hd_append2)
  have final: "\<not> isspace (last (trim_space s))" if "trim_space s \<noteq> []"
    using hd_dropWhile [of isspace "rev (dropWhile isspace s)"] that unfolding t strip_end_def by (simp add: last_rev)
  show ?thesis using t s sp first final starts_with_prefix by blast
qed

lemma trim_space_strips_witness:
  "trim_space (str '' x y '') = str ''x y'' \<and> starts_with (str ''--db=/'') (str ''--db='')"
  using trim_space_strips [of "str '' x y ''" "[]"] by (simp add: strip_end_def isspace_def of_char_def starts_with_def)

end
