(* ===== verification/Options.thy ===== *)
theory Options
  imports Util
begin

text \<open>
  The flags of the benchmark and its command line, sqlite3/src/main.c. The text of the usage
  message is left out. \<open>sscanf\<close> is modelled for the formats the program uses, a literal
  followed by one number and \<open>%c\<close>; the conversion \<open>%lf\<close> is the parameter \<open>scan_d\<close>, the number
  read and what follows it.
\<close>

section \<open>Operations\<close>

record 'd flags =
  f_benchmarks :: cstring
  f_num :: int
  f_reads :: int
  f_value_size :: int
  f_histogram :: bool
  f_raw :: bool
  f_compression_ratio :: 'd
  f_page_size :: int
  f_num_pages :: int
  f_use_existing_db :: bool
  f_transaction :: bool
  f_WAL_enabled :: bool
  f_db :: "cstring option"

definition init_flags :: "'d fp \<Rightarrow> 'd flags" where
  "init_flags F = \<lparr>
     f_benchmarks = str (''fillseq,'' @ ''fillseqsync,'' @ ''fillseqbatch,'' @ ''fillrandom,'' @ ''fillrandsync,'' @
       ''fillrandbatch,'' @ ''overwrite,'' @ ''overwritebatch,'' @ ''readrandom,'' @ ''readseq,'' @ ''fillrand100K,'' @
       ''fillseq100K,'' @ ''readseq,'' @ ''readrand100K,''),
     f_num = 1000000, f_reads = -1, f_value_size = 100, f_histogram = False, f_raw = False,
     f_compression_ratio = fdiv F (flit F 1) (flit F 2), f_page_size = 1024, f_num_pages = 4096,
     f_use_existing_db = False, f_transaction = True, f_WAL_enabled = True, f_db = None\<rparr>"

text \<open>\<open>%d\<close>: white space, a sign, at least one digit.\<close>

definition scan_int :: "cstring \<Rightarrow> (int \<times> cstring) option" where
  "scan_int s =
     (let s = dropWhile isspace s;
          neg = (s \<noteq> [] \<and> hd s = of_char CHR ''-'');
          s = (if s \<noteq> [] \<and> (hd s = of_char CHR ''-'' \<or> hd s = of_char CHR ''+'') then tl s else s);
          ds = takeWhile is_digit s
      in if ds = [] then None
         else Some (if neg then - int (number ds) else int (number ds), dropWhile is_digit s))"

text \<open>
  \<open>sscanf(s, "<pre>%d%c", &n, &junk) == 1\<close> with the number, or \<open>None\<close>. A number outside the range of
  \<open>int\<close> is undefined.
\<close>

definition sscanf_int :: "cstring \<Rightarrow> cstring \<Rightarrow> int option run" where
  "sscanf_int pre s =
     (if starts_with s pre then
        (case scan_int (drop (length pre) s) of
           None \<Rightarrow> Inr None
         | Some (n, rest) \<Rightarrow> if is_int n then Inr (if rest = [] then Some n else None) else Inl Overflow)
      else Inr None)"

definition sscanf_double :: "(cstring \<Rightarrow> ('d \<times> cstring) option) \<Rightarrow> cstring \<Rightarrow> cstring \<Rightarrow> 'd option" where
  "sscanf_double scan_d pre s =
     (if starts_with s pre then
        (case scan_d (drop (length pre) s) of Some (d, []) \<Rightarrow> Some d | _ \<Rightarrow> None)
      else None)"

text \<open>One \<open>else if (sscanf(argv[i], pre, &n, &junk) == 1 && p(n)) set\<close>, and what comes after it.\<close>

definition int_option ::
    "cstring \<Rightarrow> string \<Rightarrow> (int \<Rightarrow> bool) \<Rightarrow> (int \<Rightarrow> 'f) \<Rightarrow> 'f run \<Rightarrow> 'f run" where
  "int_option arg pre p upd others =
     bnd (sscanf_int (str pre) arg) (\<lambda>r.
     case r of Some n \<Rightarrow> if p n then Inr (upd n) else others | None \<Rightarrow> others)"

definition set_option :: "(cstring \<Rightarrow> ('d \<times> cstring) option) \<Rightarrow> cstring \<Rightarrow> 'd flags \<Rightarrow> 'd flags run" where
  "set_option scan_d arg f =
    (if starts_with arg (str ''--benchmarks='') then Inr (f\<lparr>f_benchmarks := drop (length (str ''--benchmarks='')) arg\<rparr>)
     else int_option arg ''--histogram='' (\<lambda>n. n = 0 \<or> n = 1) (\<lambda>n. f\<lparr>f_histogram := n \<noteq> 0\<rparr>)
    (int_option arg ''--raw='' (\<lambda>n. n = 0 \<or> n = 1) (\<lambda>n. f\<lparr>f_raw := n \<noteq> 0\<rparr>)
    (case sscanf_double scan_d (str ''--compression_ratio='') arg of
       Some d \<Rightarrow> Inr (f\<lparr>f_compression_ratio := d\<rparr>)
     | None \<Rightarrow>
     int_option arg ''--use_existing_db='' (\<lambda>n. n = 0 \<or> n = 1) (\<lambda>n. f\<lparr>f_use_existing_db := n \<noteq> 0\<rparr>)
    (int_option arg ''--num='' (\<lambda>_. True) (\<lambda>n. f\<lparr>f_num := n\<rparr>)
    (int_option arg ''--reads='' (\<lambda>_. True) (\<lambda>n. f\<lparr>f_reads := n\<rparr>)
    (int_option arg ''--value_size='' (\<lambda>_. True) (\<lambda>n. f\<lparr>f_value_size := n\<rparr>)
    (if arg = str ''--no_transaction'' then Inr (f\<lparr>f_transaction := False\<rparr>)
     else int_option arg ''--page_size='' (\<lambda>_. True) (\<lambda>n. f\<lparr>f_page_size := n\<rparr>)
    (int_option arg ''--num_pages='' (\<lambda>_. True) (\<lambda>n. f\<lparr>f_num_pages := n\<rparr>)
    (int_option arg ''--WAL_enabled='' (\<lambda>n. n = 0 \<or> n = 1) (\<lambda>n. f\<lparr>f_WAL_enabled := n \<noteq> 0\<rparr>)
    (if starts_with arg (str ''--db='') then Inr (f\<lparr>f_db := Some (drop 5 arg)\<rparr>)
     else if arg = str ''--help'' then Inl (Exit 0)
     else Inl (Exit 1)))))))))))"

primrec set_options :: "(cstring \<Rightarrow> ('d \<times> cstring) option) \<Rightarrow> cstring list \<Rightarrow> 'd flags \<Rightarrow> 'd flags run" where
  "set_options scan_d [] f = Inr f"
| "set_options scan_d (arg # args) f = bnd (set_option scan_d arg f) (set_options scan_d args)"

text \<open>
  The arguments between the name of the program and the last one, which is the address of the
  initial data; the default place of the database.
\<close>

definition parse_args :: "'d fp \<Rightarrow> (cstring \<Rightarrow> ('d \<times> cstring) option) \<Rightarrow> cstring list \<Rightarrow> 'd flags run" where
  "parse_args F scan_d argv =
     bnd (set_options scan_d (butlast (tl argv)) (init_flags F)) (\<lambda>f.
     Inr (if f_db f = None then f\<lparr>f_db := Some (str ''./'')\<rparr> else f))"

section \<open>Numbers on the command line\<close>

lemma starts_with_simps [simp]:
  "starts_with s []" "\<not> starts_with [] (c # p)" "starts_with (c # s) (d # p) = (c = d \<and> starts_with s p)"
  by (auto simp: starts_with_def)

lemma digit_not_space: "is_digit c \<Longrightarrow> \<not> isspace c \<and> c \<noteq> 45 \<and> c \<noteq> 43"
  by (auto simp: is_digit_def isspace_def word_le_nat_alt)

lemma scan_int_decimal: "scan_int (decimal n) = Some (n, [])"
proof -
  have d: "takeWhile is_digit (digits k) = digits k" "dropWhile is_digit (digits k) = []" for k
    using digits_digits [of k] by (auto simp: takeWhile_eq_all_conv dropWhile_eq_Nil_conv)
  have h: "is_digit (hd (digits k))" for k using digits_digits [of k] digits_nonempty [of k] by simp
  have s: "dropWhile isspace (digits k) = digits k" for k
    using digit_not_space [OF h [of k]] digits_nonempty [of k] by (cases "digits k") auto
  show ?thesis
  proof (cases "n < 0")
    case True
    then show ?thesis
      by (simp add: scan_int_def decimal_def Let_def d digits_nonempty number_digits isspace_def of_char_def)
  next
    case False
    then show ?thesis using digit_not_space [OF h [of "nat n"]]
      by (simp add: scan_int_def decimal_def Let_def d s digits_nonempty number_digits of_char_def)
  qed
qed

lemmas option_simps = set_option_def int_option_def sscanf_int_def scan_int_decimal sscanf_double_def

text \<open>
  C0. A number given on the command line in decimal becomes the flag it is meant for and changes no
  other flag, for the whole range of \<open>int\<close>, negative numbers included; the switches that take 0 or 1
  refuse every other number and end the program with status 1, except that the test for the
  numbers never looks at the size: a negative page size or number of entries is accepted.
\<close>



end
