(* ===== verification/Rand.thy ===== *)
theory Rand
  imports Bench_Prelude
begin

text \<open>
  The random number generator and the generator of values, sqlite3/src/random.c. The generator's
  state is its seed; the buffers are C strings with the capacity they were allocated with.
\<close>

section \<open>Operations\<close>

definition rand_init :: "u32 \<Rightarrow> u32" where
  "rand_init s = (let seed = s AND 0x7fffffff in if seed = 0 \<or> seed = 2147483647 then 1 else seed)"

definition rand_next :: "u32 \<Rightarrow> u32 \<times> u32" where
  "rand_next seed =
     (let M = 2147483647 :: u32; product = (ucast seed :: u64) * 16807;
          seed = ucast (drop_bit 31 product + (product AND ucast M)) :: u32;
          seed = (if M < seed then seed - M else seed)
      in (seed, seed))"

text \<open>The answer and the new seed; the \<open>int\<close> argument is converted to unsigned.\<close>

definition rand_uniform :: "u32 \<Rightarrow> u32 \<Rightarrow> (u32 \<times> u32) run" where
  "rand_uniform n seed =
     (if n = 0 then Inl DivZero
      else let (r, seed) = rand_next seed in Inr (r mod n, seed))"

primrec random_string :: "nat \<Rightarrow> u32 \<Rightarrow> (cstring \<times> u32) run" where
  "random_string 0 seed = Inr ([], seed)"
| "random_string (Suc n) seed =
     bnd (rand_uniform 95 seed) (\<lambda>(r, seed).
     bnd (random_string n seed) (\<lambda>(cs, seed). Inr (ucast (32 + r) # cs, seed)))"

text \<open>The loop of \<open>compressible_string\<close>, into a buffer of \<open>cap\<close> bytes.\<close>

function append_until :: "nat \<Rightarrow> nat \<Rightarrow> cstring \<Rightarrow> nat \<Rightarrow> cstring \<Rightarrow> cstring run" where
  "append_until cap len piece pos dst =
     (if pos < len then
        if piece = [] then Inl Forever
        else bnd (strcat_to cap dst piece) (append_until cap len piece (pos + length piece))
      else Inr dst)"
  by pat_completeness auto
termination
  by (relation "measure (\<lambda>(cap, len, piece, pos, dst). len - pos)") (auto intro!: diff_less_mono2)

declare append_until.simps [simp del]

text \<open>\<open>scale n\<close> is \<open>(int)(n * compressed_fraction)\<close>, a product of doubles.\<close>

definition compressible_string :: "(nat \<Rightarrow> int) \<Rightarrow> nat \<Rightarrow> u32 \<Rightarrow> (cstring \<times> u32) run" where
  "compressible_string scale len seed =
     (let raw = scale len; raw = (if raw < 1 then 1 else raw) in
      bnd (random_string (nat raw) seed) (\<lambda>(raw_data, seed).
      bnd (append_until (len + 1) len raw_data 0 []) (\<lambda>dst. Inr (dst, seed))))"

record rand_gen =
  g_data :: cstring
  g_size :: nat
  g_pos :: nat

text \<open>
  The loop of \<open>rand_gen_init\<close>. Its buffer has 1024 bytes; a piece is never empty, so the loop
  makes progress.
\<close>

function fill_gen :: "(nat \<Rightarrow> int) \<Rightarrow> cstring \<Rightarrow> nat \<Rightarrow> u32 \<Rightarrow> (cstring \<times> nat) run" where
  "fill_gen scale data n seed =
     (if n < 1024 then
        bnd (compressible_string scale 100 seed) (\<lambda>(piece, seed).
        if piece = [] then Inl Forever
        else bnd (strcat_to 1024 data piece) (\<lambda>data. fill_gen scale data (n + length piece) seed))
      else Inr (data, n))"
  by pat_completeness auto
termination
  by (relation "measure (\<lambda>(scale, data, n, seed). 1024 - n)") (auto intro!: diff_less_mono2)

declare fill_gen.simps [simp del]

definition rand_gen_init :: "(nat \<Rightarrow> int) \<Rightarrow> rand_gen run" where
  "rand_gen_init scale =
     bnd (fill_gen scale [] 0 (rand_init 301)) (\<lambda>(data, n). Inr \<lparr>g_data = data, g_size = n, g_pos = 0\<rparr>)"

text \<open>
  The answer is the block of \<open>len\<close> bytes; nothing terminates it. \<open>strncpy\<close> stops at the end of
  the string and pads with NULs.
\<close>

definition rand_gen_generate :: "nat \<Rightarrow> rand_gen \<Rightarrow> (u8 list \<times> rand_gen) run" where
  "rand_gen_generate len g =
     bnd (if g_size g < g_pos g + len then
            if len < g_size g then Inr (g\<lparr>g_pos := 0\<rparr>) else Inl Assertion
          else Inr g) (\<lambda>g.
     let g = g\<lparr>g_pos := g_pos g + len\<rparr>; from = drop (g_pos g - len) (g_data g) in
     if length (g_data g) < g_pos g - len then Inl Overrun
     else Inr (take len (from @ replicate len 0), g))"

section \<open>The sequence of seeds\<close>

lemma lehmer_fold:
  fixes s :: nat
  assumes "0 < s" "s < 2147483647"
  defines "p \<equiv> s * 16807"
  shows "(let q = p div 2147483648 + p mod 2147483648 in if 2147483647 < q then q - 2147483647 else q) = p mod 2147483647
    \<and> 0 < p mod 2147483647"
proof -
  define a where "a = p div 2147483648"
  define b where "b = p mod 2147483648"
  have p: "p = a * 2147483648 + b" "b < 2147483648" by (simp_all add: a_def b_def)
  have a: "a < 16807" using assms by (simp add: a_def p_def less_mult_imp_div_less)
  have nd: "\<not> 2147483647 dvd p"
  proof
    assume "2147483647 dvd p"
    moreover have "coprime (2147483647 :: nat) 16807" by (simp add: coprime_iff_gcd_eq_1 gcd_nat.simps gcd_non_0_nat)
    ultimately have "2147483647 dvd s" by (simp add: p_def coprime_dvd_mult_left_iff)
    then show False using assms(1,2) by (auto dest: dvd_imp_le)
  qed
  have pos: "0 < p mod 2147483647" using nd by (simp add: dvd_eq_mod_eq_0)
  have m: "p mod 2147483647 = (a + b) mod 2147483647"
  proof -
    have "p = (a + b) + a * 2147483647" using p by simp
    then show ?thesis by (simp only: mod_mult_self1)
  qed
  have "a + b \<noteq> 2147483647" using m pos by auto
  then have "(a + b) mod 2147483647 = (if 2147483647 < a + b then a + b - 2147483647 else a + b)"
    using a p(2) by (auto simp: mod_if)
  then show ?thesis using m pos by (simp add: a_def [symmetric] b_def [symmetric] Let_def)
qed

lemma seed_product:
  assumes "unat (seed :: u32) < 2147483647"
  shows "unat ((ucast seed :: u64) * 16807) = unat seed * 16807"
proof -
  have u: "unat (ucast seed :: u64) = unat seed" using assms by (simp add: unsigned_ucast_eq take_bit_nat_eq_self_iff)
  have "unat seed * 16807 < 2 ^ 64" using assms by simp
  then show ?thesis using u by (simp add: unat_word_ariths(2))
qed

lemma unat_rand_next:
  assumes "0 < unat seed" "unat seed < 2147483647"
  shows "unat (fst (rand_next seed)) = unat seed * 16807 mod 2147483647"
proof -
  let ?w = "(ucast seed :: u64) * 16807" and ?p = "unat seed * 16807"
  let ?q = "?p div 2147483648 + ?p mod 2147483648"
  have p: "unat ?w = ?p" by (rule seed_product [OF assms(2)])
  have hi: "unat (drop_bit 31 ?w) = ?p div 2147483648"
    by (simp add: drop_bit_eq_div unat_div_distrib p)
  have "(ucast (2147483647 :: u32) :: u64) = mask 31" by (simp add: mask_eq_exp_minus_1)
  then have "?w AND ucast (2147483647 :: u32) = take_bit 31 ?w" by (simp only: take_bit_eq_mask)
  then have lo: "unat (?w AND ucast (2147483647 :: u32)) = ?p mod 2147483648"
    by (simp only: take_bit_eq_mod) (simp add: unat_mod_distrib p)
  define A where "A = drop_bit 31 ?w"
  define B where "B = ?w AND ucast (2147483647 :: u32)"
  have b: "?p div 2147483648 < 16807" using assms by (simp add: less_mult_imp_div_less)
  then have q: "?q < 2 ^ 32" using mod_less_divisor [of 2147483648 ?p] by simp
  have s: "unat (A + B) = ?q" using q hi [folded A_def] lo [folded B_def] by (simp add: unat_word_ariths(1))
  define t where "t = (ucast (A + B) :: u32)"
  have u: "unat t = ?q" using q by (simp add: t_def unsigned_ucast_eq s take_bit_nat_eq_self_iff)
  have "fst (rand_next seed) = (if 2147483647 < t then t - 2147483647 else t)"
    by (simp only: rand_next_def Let_def A_def [symmetric] B_def [symmetric] t_def [symmetric] fst_conv)
  also have "unat \<dots> = (if 2147483647 < ?q then ?q - 2147483647 else ?q)"
    using u by (auto simp: word_less_nat_alt unat_sub_if_size)
  finally show ?thesis using lehmer_fold [OF assms] by (simp add: Let_def)
qed


definition seeds :: "u32 set" where
  "seeds = {s. 0 < unat s \<and> unat s < 2147483647}"

lemma rand_init_seed: "rand_init s \<in> seeds"
proof -
  have m: "(0x7fffffff :: u32) = mask 31" by (simp add: mask_eq_exp_minus_1)
  have "unat (s AND 0x7fffffff) < 2 ^ 31"
    unfolding m take_bit_eq_mask [symmetric] unsigned_take_bit_eq by (rule take_bit_nat_less_exp)
  moreover have "unat x = 2147483647 \<longleftrightarrow> x = 2147483647" for x :: u32
    using word_unat_eq_iff [of x 2147483647] by simp
  ultimately show ?thesis
    using less_linear [of "unat (s AND 0x7fffffff)" 2147483647]
    by (auto simp: rand_init_def seeds_def Let_def unat_gt_0)
qed

lemma rand_init_id: "s \<in> seeds \<Longrightarrow> rand_init s = s"
proof -
  assume s: "s \<in> seeds"
  have m: "(0x7fffffff :: u32) = mask 31" by (simp add: mask_eq_exp_minus_1)
  have "unat (s AND 0x7fffffff) = unat s"
    unfolding m take_bit_eq_mask [symmetric] using s
    by (simp add: unsigned_take_bit_eq take_bit_nat_eq_self_iff seeds_def)
  then have "s AND 0x7fffffff = s" by (simp only: word_unat_eq_iff)
  then show ?thesis using s by (auto simp: rand_init_def seeds_def)
qed

lemma rand_next_seed: "s \<in> seeds \<Longrightarrow> fst (rand_next s) \<in> seeds"
  using lehmer_fold [of "unat s"] by (simp add: seeds_def unat_rand_next)

lemma rand_next_inj: "inj_on (\<lambda>s. fst (rand_next s)) seeds"
proof (rule inj_onI)
  have le: "unat x = unat y" if "x \<in> seeds" "y \<in> seeds" "unat x \<le> unat y"
    "unat x * 16807 mod 2147483647 = unat y * 16807 mod 2147483647" for x y :: u32
  proof -
    have "2147483647 dvd unat y * 16807 - unat x * 16807"
      using that(3,4) mod_eq_dvd_iff_nat [of "unat x * 16807" "unat y * 16807" 2147483647] by simp
    then have "2147483647 dvd (unat y - unat x) * 16807" by (simp add: diff_mult_distrib)
    moreover have "coprime (2147483647 :: nat) 16807" by (simp add: coprime_iff_gcd_eq_1 gcd_non_0_nat)
    ultimately have "2147483647 dvd unat y - unat x" by (simp add: coprime_dvd_mult_left_iff)
    then show ?thesis using that(1-3)
      by (cases "unat x < unat y") (auto dest!: dvd_imp_le simp: seeds_def)
  qed
  fix x y assume xy: "x \<in> seeds" "y \<in> seeds" "fst (rand_next x) = fst (rand_next y)"
  then have m: "unat x * 16807 mod 2147483647 = unat y * 16807 mod 2147483647"
    using unat_rand_next [of x] unat_rand_next [of y] by (simp add: seeds_def)
  then have "unat x = unat y"
    using le [of x y] le [of y x] xy(1,2) by (cases "unat x \<le> unat y") auto
  then show "x = y" by (simp only: word_unat_eq_iff)
qed

text \<open>
  C32. \<open>rand_next\<close> computes the multiplicative congruence 16807 x mod (2^31 - 1) without a division,
  and permutes the seeds \<open>rand_init\<close> can give: no seed ever becomes 0 or 2^31 - 1, where the
  generator would be stuck, and no two seeds run together.
\<close>

theorem rand_next_permutes:
  "unat (fst (rand_next (rand_init s))) = unat (rand_init s) * 16807 mod 2147483647 \<and>
   bij_betw (\<lambda>s. fst (rand_next s)) (range rand_init) (range rand_init)"
proof
  show "unat (fst (rand_next (rand_init s))) = unat (rand_init s) * 16807 mod 2147483647"
    using rand_init_seed [of s] by (simp add: seeds_def unat_rand_next)
  have r: "range rand_init = seeds" using rand_init_seed rand_init_id by (metis image_subsetI rangeI subsetI subset_antisym)
  have "finite seeds" by simp
  then show "bij_betw (\<lambda>s. fst (rand_next s)) (range rand_init) (range rand_init)"
    unfolding r bij_betw_def using rand_next_inj rand_next_seed endo_inj_surj [of seeds "\<lambda>s. fst (rand_next s)"]
    by (simp add: image_subset_iff)
qed

section \<open>Buffers\<close>

lemma random_string_total:
  "\<exists>cs t. random_string n seed = Inr (cs, t) \<and> length cs = n \<and> (\<forall>c \<in> set cs. 32 \<le> c \<and> c \<le> 126)"
proof (induction n arbitrary: seed)
  case (Suc n)
  obtain r s where r: "rand_uniform 95 seed = Inr (r, s)" "unat r < 95"
    by (auto simp: rand_uniform_def Let_def case_prod_beta unat_mod)
  have c: "32 \<le> (ucast (32 + r) :: u8) \<and> (ucast (32 + r) :: u8) \<le> 126"
  proof -
    have "unat (32 + r) = 32 + unat r" using r(2) by (simp add: unat_word_ariths(1))
    then have "unat (ucast (32 + r) :: u8) = 32 + unat r"
      using r(2) by (simp add: unsigned_ucast_eq take_bit_nat_eq_self_iff)
    then show ?thesis using r(2) by (simp add: word_le_nat_alt)
  qed
  show ?case using Suc [of s] r c by auto
qed simp

lemma append_until_fits:
  assumes "piece \<noteq> []" "length dst \<le> len"
  shows "append_until (len + 1) len piece (length dst) dst =
    (if length piece dvd len - length dst
     then Inr (dst @ concat (replicate ((len - length dst) div length piece) piece)) else Inl Overrun)"
  using assms
proof (induction "len - length dst" arbitrary: dst rule: less_induct)
  case less
  let ?L = "length piece" and ?D = "length dst"
  have L: "0 < ?L" using less.prems by simp
  consider "len \<le> ?D" | "?D < len" "len < ?D + ?L" | "?D < len" "?D + ?L \<le> len" by linarith
  then show ?case
  proof cases
    case 1
    then show ?thesis using less.prems by (subst append_until.simps) simp
  next
    case 2
    then have "\<not> ?L dvd len - ?D" by (auto dest: dvd_imp_le)
    then show ?thesis using 2 less.prems by (subst append_until.simps) (simp add: strcat_to_def)
  next
    case 3
    define k where "k = len - (?D + ?L)"
    have k: "len - ?D = ?L + k" using 3 by (simp add: k_def)
    have "append_until (len + 1) len piece ?D dst = append_until (len + 1) len piece (length (dst @ piece)) (dst @ piece)"
      using 3 less.prems by (subst append_until.simps) (simp add: strcat_to_def)
    also have "\<dots> = (if ?L dvd k then Inr ((dst @ piece) @ concat (replicate (k div ?L) piece)) else Inl Overrun)"
    proof -
      have lt: "len - length (dst @ piece) < len - ?D" using 3 L unfolding length_append by linarith
      have e: "len - length (dst @ piece) = k" by (simp add: k_def)
      have "length (dst @ piece) \<le> len" using 3 by simp
      from less.hyps [OF lt less.prems(1) this] show ?thesis unfolding e .
    qed
    finally show ?thesis unfolding k using L by simp
  qed
qed

lemma compressible_string_fits:
  "if nat (max 1 (scale len)) dvd len
   then \<exists>dst t. compressible_string scale len seed = Inr (dst, t) \<and> length dst = len
   else compressible_string scale len seed = Inl Overrun"
proof -
  let ?r = "nat (max 1 (scale len))"
  have r: "nat (if scale len < 1 then 1 else scale len) = ?r" "0 < ?r" by (auto simp: max_def)
  obtain cs t where cs: "random_string ?r seed = Inr (cs, t)" "length cs = ?r"
    using random_string_total by blast
  have "cs \<noteq> []" using cs(2) r(2) by auto
  then show ?thesis using append_until_fits [of cs "[]" len] cs r
    by (simp add: compressible_string_def Let_def length_concat sum_list_replicate)
qed

lemma fill_gen_overruns: "length data = n \<Longrightarrow> n < 1024 \<Longrightarrow> fill_gen scale data n seed = Inl Overrun"
proof (induction "1024 - n" arbitrary: data n seed rule: less_induct)
  case less
  show ?case
  proof (cases "compressible_string scale 100 seed")
    case (Inr x)
    obtain piece t where x: "x = (piece, t)" by (cases x)
    have p: "length piece = 100" using compressible_string_fits [of scale 100 seed] Inr x by (auto split: if_splits)
    then have "piece \<noteq> []" by auto
    then show ?thesis
      using Inr x p less.prems less.hyps [of "n + 100" "data @ piece" t]
      by (cases "n + 100 < 1024") (simp_all add: fill_gen.simps [of _ _ n] strcat_to_def)
  next
    case (Inl e)
    then have "e = Overrun" using compressible_string_fits [of scale 100 seed] by (auto split: if_splits)
    then show ?thesis using Inl less.prems by (simp add: fill_gen.simps [of _ _ n])
  qed
qed

text \<open>
  The buffer of the value generator overflows for every compression ratio: pieces of 100 bytes are
  appended while fewer than 1024 are there, to a buffer of 1024 bytes, and the piece itself
  overflows its own buffer unless the length of the random part divides 100.
\<close>

lemma rand_gen_init_overruns: "rand_gen_init scale = Inl Overrun"
  by (simp add: rand_gen_init_def fill_gen_overruns)

definition gen_ok :: "rand_gen \<Rightarrow> bool" where
  "gen_ok g = (length (g_data g) = g_size g \<and> g_pos g \<le> g_size g)"

text \<open>
  Every block \<open>rand_gen_generate\<close> hands out, of any length below the size of the data, is a
  stretch of the generated data that lies inside it: it starts where the last one ended, or at 0
  when the rest is too short, and the generator is ready for the next call.
\<close>

lemma rand_gen_generate_inside:
  assumes "gen_ok g" "len < g_size g"
  shows "\<exists>p g'. rand_gen_generate len g = Inr (take len (drop p (g_data g)), g') \<and> p + len \<le> g_size g \<and>
    p = (if g_pos g + len \<le> g_size g then g_pos g else 0) \<and> g_data g' = g_data g \<and> g_pos g' = p + len \<and> gen_ok g'"
  using assms by (auto simp: rand_gen_generate_def gen_ok_def Let_def)

lemma rand_gen_generate_inside_witness:
  "\<exists>g'. rand_gen_generate 2 \<lparr>g_data = [65, 66, 67], g_size = 3, g_pos = 2\<rparr> = Inr ([65, 66], g') \<and> g_pos g' = 2"
  using rand_gen_generate_inside [of "\<lparr>g_data = [65, 66, 67], g_size = 3, g_pos = 2\<rparr>" 2]
  by (auto simp: gen_ok_def numeral_2_eq_2)

end
