(* ===== verification/Raw_Data.thy ===== *)
theory Raw_Data
  imports Bench_Prelude
begin

text \<open>
  The growing array of timings, sqlite3/src/raw.c. \<open>fmt\<close> is what \<open>snprintf\<close> makes of a value
  (at most 199 bytes, the size of its buffer less the NUL), \<open>room n\<close> whether the allocator has
  \<open>n\<close> elements.
\<close>

section \<open>Operations\<close>

definition kNumData :: nat where "kNumData = 1000000"

record 'd raw =
  r_data :: "'d list option"
  r_size :: nat
  r_pos :: nat

definition raw_calloc :: "(nat \<Rightarrow> bool) \<Rightarrow> 'd \<Rightarrow> 'd raw \<Rightarrow> 'd raw" where
  "raw_calloc room zero r =
     r\<lparr>r_size := kNumData, r_data := (if room kNumData then Some (replicate kNumData zero) else None), r_pos := 0\<rparr>"

text \<open>\<open>pad n\<close> is what the new half of an array of \<open>2 n\<close> elements holds.\<close>

definition raw_realloc :: "(nat \<Rightarrow> bool) \<Rightarrow> (nat \<Rightarrow> 'd list) \<Rightarrow> 'd raw \<Rightarrow> 'd raw run" where
  "raw_realloc room pad r =
     (let n = r_size r * 2 in
      if room n then Inr (r\<lparr>r_size := n, r_data := map_option (\<lambda>xs. take n (xs @ pad (r_size r))) (r_data r)\<rparr>)
      else Inl (Exit 1))"

definition raw_clear :: "(nat \<Rightarrow> bool) \<Rightarrow> 'd \<Rightarrow> 'd raw \<Rightarrow> 'd raw" where
  "raw_clear room zero r = raw_calloc room zero r"

definition raw_add :: "(nat \<Rightarrow> bool) \<Rightarrow> 'd \<Rightarrow> (nat \<Rightarrow> 'd list) \<Rightarrow> 'd \<Rightarrow> 'd raw \<Rightarrow> 'd raw run" where
  "raw_add room zero pad value r =
     (let r = (if r_data r = None then raw_calloc room zero r else r) in
      bnd (if r_size r < r_pos r + 1 then raw_realloc room pad r else Inr r) (\<lambda>r.
      case r_data r of
        None \<Rightarrow> Inl Overrun
      | Some xs \<Rightarrow>
          if r_pos r < length xs then Inr (r\<lparr>r_data := Some (xs[r_pos r := value]), r_pos := r_pos r + 1\<rparr>)
          else Inl Overrun))"

text \<open>
  The growing string of \<open>raw_to_string\<close>: one check and one doubling before each \<open>strcat\<close>, and
  the check does not count the NUL.
\<close>

primrec grow_all :: "cstring list \<Rightarrow> nat \<Rightarrow> cstring \<Rightarrow> (cstring \<times> nat) run" where
  "grow_all [] cap r = Inr (r, cap)"
| "grow_all (buf # bufs) cap r =
     (let cap = (if cap < length r + length buf then cap * 2 else cap) in
      bnd (strcat_to cap r buf) (grow_all bufs cap))"

definition raw_values :: "'d raw \<Rightarrow> 'd list" where
  "raw_values r = take (r_pos r) (case r_data r of None \<Rightarrow> [] | Some xs \<Rightarrow> xs)"

definition raw_to_string :: "(nat \<Rightarrow> bool) \<Rightarrow> 'd \<Rightarrow> ('d \<Rightarrow> cstring) \<Rightarrow> 'd raw \<Rightarrow> (cstring \<times> 'd raw) run" where
  "raw_to_string room zero fmt r =
     (let r = (if r_data r = None then raw_calloc room zero r else r) in
      bnd (grow_all (map fmt (raw_values r)) 1024 []) (\<lambda>(s, _). Inr (s, r)))"

text \<open>The lines of \<open>raw_print\<close>: the header, then \<open>line i value\<close> for each value.\<close>

definition raw_print :: "(nat \<Rightarrow> bool) \<Rightarrow> 'd \<Rightarrow> cstring \<Rightarrow> (nat \<Rightarrow> 'd \<Rightarrow> cstring) \<Rightarrow> 'd raw \<Rightarrow> cstring list \<times> 'd raw" where
  "raw_print room zero header line r =
     (let r = (if r_data r = None then raw_calloc room zero r else r) in
      (header # map (\<lambda>i. line i (raw_values r ! i)) [0..<length (raw_values r)], r))"

section \<open>An array that grows\<close>

text \<open>The object behind \<open>data_\<close> has \<open>data_size_\<close> elements, \<open>kNumData\<close> doubled some times.\<close>

definition raw_ok :: "'d raw \<Rightarrow> bool" where
  "raw_ok r = (\<exists>xs k. r_data r = Some xs \<and> length xs = r_size r \<and> r_size r = kNumData * 2 ^ k \<and> r_pos r \<le> r_size r)"

lemma raw_clear_ok: "room kNumData \<Longrightarrow> raw_ok (raw_clear room zero r) \<and> raw_values (raw_clear room zero r) = []"
  unfolding raw_ok_def raw_clear_def raw_calloc_def raw_values_def by (auto intro: exI [of _ 0])

lemma raw_add_step:
  assumes ok: "raw_ok r" and f: "r_size r \<le> length (pad (r_size r))"
    and room: "r_pos r = r_size r \<Longrightarrow> room (2 * r_size r)"
  shows "\<exists>t. raw_add room zero pad v r = Inr t \<and> raw_ok t \<and> raw_values t = raw_values r @ [v] \<and>
    r_size t = (if r_pos r = r_size r then 2 * r_size r else r_size r)"
proof -
  obtain xs k where r: "r_data r = Some xs" "length xs = r_size r" "r_size r = kNumData * 2 ^ k" "r_pos r \<le> r_size r"
    using ok unfolding raw_ok_def by blast
  have pos: "0 < r_size r" using r(3) by (simp add: kNumData_def)
  show ?thesis
  proof (cases "r_pos r = r_size r")
    case True
    let ?ys = "take (2 * r_size r) (xs @ pad (r_size r))"
    have ys: "length ?ys = 2 * r_size r" "take (r_size r) ?ys = xs" using r f by simp_all
    have "raw_add room zero pad v r =
        Inr (r\<lparr>r_size := 2 * r_size r, r_data := Some (?ys[r_pos r := v]), r_pos := r_pos r + 1\<rparr>)" (is "_ = Inr ?t")
      using True room r(1) ys(1) pos by (simp add: raw_add_def raw_realloc_def Let_def mult.commute)
    moreover have "raw_ok ?t"
      unfolding raw_ok_def using ys(1) r(3) True pos by (auto intro!: exI [of _ "Suc k"])
    moreover have "raw_values ?t = raw_values r @ [v]"
      using True r ys pos by (simp add: raw_values_def take_Suc_conv_app_nth nth_list_update take_update_cancel)
    ultimately show ?thesis using True by auto
  next
    case False
    then have lt: "r_pos r < r_size r" using r(4) by simp
    then have "raw_add room zero pad v r = Inr (r\<lparr>r_data := Some (xs[r_pos r := v]), r_pos := r_pos r + 1\<rparr>)" (is "_ = Inr ?t")
      using r by (simp add: raw_add_def Let_def)
    moreover have "raw_ok ?t" unfolding raw_ok_def using r lt by auto
    moreover have "raw_values ?t = raw_values r @ [v]"
      using r lt by (simp add: raw_values_def take_Suc_conv_app_nth)
    ultimately show ?thesis using False by auto
  qed
qed

primrec raw_adds :: "(nat \<Rightarrow> bool) \<Rightarrow> 'd \<Rightarrow> (nat \<Rightarrow> 'd list) \<Rightarrow> 'd list \<Rightarrow> 'd raw \<Rightarrow> 'd raw run" where
  "raw_adds room zero pad [] r = Inr r"
| "raw_adds room zero pad (v # vs) r = bnd (raw_add room zero pad v r) (raw_adds room zero pad vs)"

lemma raw_adds_values:
  assumes "\<forall>n. room n" "\<forall>n. n \<le> length (pad n)"
  shows "raw_ok r \<Longrightarrow> \<exists>t. raw_adds room zero pad vs r = Inr t \<and> raw_values t = raw_values r @ vs \<and>
    r_size t \<le> max (r_size r) (2 * (r_pos r + length vs))"
proof (induction vs arbitrary: r)
  case (Cons v vs)
  obtain s where s: "raw_add room zero pad v r = Inr s" "raw_ok s" "raw_values s = raw_values r @ [v]"
    "r_size s = (if r_pos r = r_size r then 2 * r_size r else r_size r)"
    using raw_add_step [OF Cons.prems, of pad room zero v] assms by auto
  have l: "raw_ok x \<Longrightarrow> length (raw_values x) = r_pos x" for x :: "'a raw" by (auto simp: raw_ok_def raw_values_def)
  have "r_pos s = r_pos r + 1" using l [OF s(2)] l [OF Cons.prems] s(3) by simp
  then show ?case using Cons.IH [OF s(2)] s by (auto split: if_splits)
qed simp



section \<open>The string that grows\<close>

lemma pow_gap: "2 ^ k < n \<Longrightarrow> n < 2 * 2 ^ k \<Longrightarrow> n \<noteq> (2 :: nat) ^ j"
proof
  assume a: "2 ^ k < n" "n < 2 * 2 ^ k" "n = (2 :: nat) ^ j"
  then have "(2 :: nat) ^ k < 2 ^ j" "(2 :: nat) ^ j < 2 ^ Suc k" by simp_all
  then have "k < j" "j < Suc k" by (simp_all only: power_strict_increasing_iff one_less_numeral_iff semiring_norm)
  then show False by simp
qed

lemma grow_all_exact:
  assumes "cap = 1024 * 2 ^ k" "length r < cap" "k = 0 \<or> cap < 2 * length r" "\<forall>b \<in> set bufs. length b < 200"
  shows "if \<exists>i \<le> length bufs. \<exists>j. length r + length (concat (take i bufs)) = 1024 * 2 ^ j
    then grow_all bufs cap r = Inl Overrun
    else \<exists>c. grow_all bufs cap r = Inr (r @ concat bufs, c)"
proof -
  have inside: "length r \<noteq> 1024 * 2 ^ j"
    if "cap = 1024 * 2 ^ k" "length r < cap" "k = 0 \<or> cap < 2 * length r" for k cap j and r :: cstring
  proof (cases k)
    case 0
    have "1024 \<le> 1024 * (2 :: nat) ^ j" by simp
    then show ?thesis using that 0 by auto
  next
    case (Suc m)
    then show ?thesis using that pow_gap [of "10 + m" "length r" "10 + j"] by (simp add: power_add)
  qed
  show ?thesis
    using assms
  proof (induction bufs arbitrary: cap k r)
    case Nil
    then show ?case using inside [of cap k r] by simp
  next
    case (Cons b bufs)
    let ?r = "r @ b"
    have shift: "(\<exists>i \<le> length (b # bufs). \<exists>j. length r + length (concat (take i (b # bufs))) = 1024 * 2 ^ j) \<longleftrightarrow>
        (\<exists>i \<le> length bufs. \<exists>j. length ?r + length (concat (take i bufs)) = 1024 * 2 ^ j)" (is "?A \<longleftrightarrow> ?B")
    proof
      assume ?A
      then obtain i j where i: "i \<le> length (b # bufs)" "length r + length (concat (take i (b # bufs))) = 1024 * 2 ^ j" by blast
      then obtain m where "i = Suc m" using inside [OF Cons.prems(1-3), of j] by (cases i) auto
      then have "m \<le> length bufs" "length ?r + length (concat (take m bufs)) = 1024 * 2 ^ j" using i by simp_all
      then show ?B by blast
    next
      assume ?B
      then obtain i j where "i \<le> length bufs" "length ?r + length (concat (take i bufs)) = 1024 * 2 ^ j" by blast
      then have "Suc i \<le> length (b # bufs)" "length r + length (concat (take (Suc i) (b # bufs))) = 1024 * 2 ^ j" by simp_all
      then show ?A by blast
    qed
    have b: "length b < 200" "1024 \<le> cap" using Cons.prems by auto
    have e: "r @ concat (b # bufs) = ?r @ concat bufs" by simp
    consider "length ?r < cap" | "length ?r = cap" | "cap < length ?r" by linarith
    then show ?case
    proof cases
      case 1
      then have g: "grow_all (b # bufs) cap r = grow_all bufs cap ?r" by (simp add: strcat_to_def)
      show ?thesis unfolding shift g e by (rule Cons.IH [of cap k]) (use Cons.prems 1 in auto)
    next
      case 2
      then have "length ?r + length (concat (take 0 bufs)) = 1024 * 2 ^ k" using Cons.prems(1) by simp
      then have "?B" by blast
      moreover have "grow_all (b # bufs) cap r = Inl Overrun" using 2 by (simp add: strcat_to_def)
      ultimately show ?thesis unfolding shift by simp
    next
      case 3
      then have g: "grow_all (b # bufs) cap r = grow_all bufs (cap * 2) ?r"
        using Cons.prems(2) b by (simp add: strcat_to_def)
      have lt: "length ?r < cap * 2" using Cons.prems(2) b unfolding length_append by linarith
      have c: "cap * 2 = 1024 * 2 ^ Suc k" using Cons.prems(1) by simp
      show ?thesis unfolding shift g e by (rule Cons.IH [OF c lt]) (use Cons.prems 3 in auto)
    qed
  qed
qed

text \<open>
  \<open>raw_to_string\<close> answers the concatenation of the formatted values, except when the text so far
  is at some point exactly 1024 bytes, or 1024 doubled some times: then the check before
  \<open>strcat\<close>, which does not count the NUL, lets it write one byte behind the buffer.
\<close>

lemma raw_to_string_exact:
  assumes "raw_ok r" "\<forall>v. length (fmt v) < 200"
  defines "chars \<equiv> \<lambda>i. length (concat (map fmt (take i (raw_values r))))"
  shows "if \<exists>i \<le> r_pos r. \<exists>j. chars i = 1024 * 2 ^ j
    then raw_to_string room zero fmt r = Inl Overrun
    else raw_to_string room zero fmt r = Inr (concat (map fmt (raw_values r)), r)"
proof -
  have d: "r_data r \<noteq> None" "length (raw_values r) = r_pos r" using assms(1) by (auto simp: raw_ok_def raw_values_def)
  have "if \<exists>i \<le> r_pos r. \<exists>j. chars i = 1024 * 2 ^ j
    then grow_all (map fmt (raw_values r)) 1024 [] = Inl Overrun
    else \<exists>c. grow_all (map fmt (raw_values r)) 1024 [] = Inr (concat (map fmt (raw_values r)), c)"
    using grow_all_exact [of 1024 0 "[]" "map fmt (raw_values r)"] assms(2) d(2) by (simp add: chars_def take_map cong: if_cong)
  then show ?thesis using d(1) by (auto simp: raw_to_string_def Let_def split: if_splits)
qed

end
