(* ===== verification/Hist.thy ===== *)
theory Hist
  imports Bench_Prelude
begin

text \<open>
  The histogram of timings, sqlite3/src/histogram.c, over the arithmetic \<open>F\<close> of \<open>double\<close>. The
  array \<open>buckets_\<close> is a function of the index. Printing the report is left out.
\<close>

section \<open>Operations\<close>

definition kNumBuckets :: nat where "kNumBuckets = 154"

record 'd hist =
  h_min :: 'd
  h_max :: 'd
  h_num :: 'd
  h_sum :: 'd
  h_sum_squares :: 'd
  h_buckets :: "nat \<Rightarrow> 'd"

definition bucket_limit :: "int list" where
  "bucket_limit = [
    1, 2, 3, 4, 5, 6, 7, 8, 9, 10, 12, 14, 16, 18, 20, 25, 30, 35, 40, 45,
    50, 60, 70, 80, 90, 100, 120, 140, 160, 180, 200, 250, 300, 350, 400, 450,
    500, 600, 700, 800, 900, 1000, 1200, 1400, 1600, 1800, 2000, 2500, 3000,
    3500, 4000, 4500, 5000, 6000, 7000, 8000, 9000, 10000, 12000, 14000,
    16000, 18000, 20000, 25000, 30000, 35000, 40000, 45000, 50000, 60000,
    70000, 80000, 90000, 100000, 120000, 140000, 160000, 180000, 200000,
    250000, 300000, 350000, 400000, 450000, 500000, 600000, 700000, 800000,
    900000, 1000000, 1200000, 1400000, 1600000, 1800000, 2000000, 2500000,
    3000000, 3500000, 4000000, 4500000, 5000000, 6000000, 7000000, 8000000,
    9000000, 10000000, 12000000, 14000000, 16000000, 18000000, 20000000,
    25000000, 30000000, 35000000, 40000000, 45000000, 50000000, 60000000,
    70000000, 80000000, 90000000, 100000000, 120000000, 140000000, 160000000,
    180000000, 200000000, 250000000, 300000000, 350000000, 400000000,
    450000000, 500000000, 600000000, 700000000, 800000000, 900000000,
    1000000000, 1200000000, 1400000000, 1600000000, 1800000000, 2000000000,
    2500000000, 3000000000, 3500000000, 4000000000, 4500000000,
    5000000000, 6000000000, 7000000000, 8000000000, 9000000000,
    10 ^ 200]"

definition limit :: "'d fp \<Rightarrow> nat \<Rightarrow> 'd" where
  "limit F b = flit F (bucket_limit ! b)"

definition histogram_clear :: "'d fp \<Rightarrow> 'd hist" where
  "histogram_clear F = \<lparr>h_min = limit F (kNumBuckets - 1), h_max = flit F 0, h_num = flit F 0,
     h_sum = flit F 0, h_sum_squares = flit F 0, h_buckets = \<lambda>_. flit F 0\<rparr>"

text \<open>The first bucket whose limit is above the value, the last one if there is none.\<close>

definition bucket_of :: "'d fp \<Rightarrow> 'd \<Rightarrow> nat" where
  "bucket_of F v = (case scan (\<lambda>b. \<not> fle F (limit F b) v) 0 (kNumBuckets - 1) of Some b \<Rightarrow> b | None \<Rightarrow> kNumBuckets - 1)"

definition histogram_add :: "'d fp \<Rightarrow> 'd \<Rightarrow> 'd hist \<Rightarrow> 'd hist" where
  "histogram_add F v h =
     (let b = bucket_of F v;
          h = h\<lparr>h_buckets := (h_buckets h)(b := fadd F (h_buckets h b) (flit F 1))\<rparr>;
          h = (if flt F v (h_min h) then h\<lparr>h_min := v\<rparr> else h);
          h = (if flt F (h_max h) v then h\<lparr>h_max := v\<rparr> else h)
      in h\<lparr>h_num := fadd F (h_num h) (flit F 1), h_sum := fadd F (h_sum h) v,
           h_sum_squares := fadd F (h_sum_squares h) (fmul F v v)\<rparr>)"

definition histogram_merge :: "'d fp \<Rightarrow> 'd hist \<Rightarrow> 'd hist \<Rightarrow> 'd hist" where
  "histogram_merge F h other =
     (let h = (if flt F (h_min other) (h_min h) then h\<lparr>h_min := h_min other\<rparr> else h);
          h = (if flt F (h_max h) (h_max other) then h\<lparr>h_max := h_max other\<rparr> else h)
      in h\<lparr>h_num := fadd F (h_num h) (h_num other), h_sum := fadd F (h_sum h) (h_sum other),
           h_sum_squares := fadd F (h_sum_squares h) (h_sum_squares other),
           h_buckets := \<lambda>b. if b < kNumBuckets then fadd F (h_buckets h b) (h_buckets other b) else h_buckets h b\<rparr>)"

text \<open>The loop of \<open>percentile\<close>, with what it has summed up before bucket \<open>b\<close>.\<close>

function percentile_from :: "'d fp \<Rightarrow> 'd hist \<Rightarrow> 'd \<Rightarrow> nat \<Rightarrow> 'd \<Rightarrow> 'd" where
  "percentile_from F h threshold b s =
     (if b < kNumBuckets then
        let s = fadd F s (h_buckets h b) in
        if fle F threshold s then
          let left_point = (if b = 0 then flit F 0 else limit F (b - 1));
              right_point = limit F b;
              left_sum = fsub F s (h_buckets h b);
              right_sum = s;
              pos = fdiv F (fsub F threshold left_sum) (fsub F right_sum left_sum);
              r = fadd F left_point (fmul F (fsub F right_point left_point) pos);
              r = (if flt F r (h_min h) then h_min h else r)
          in (if flt F (h_max h) r then h_max h else r)
        else percentile_from F h threshold (Suc b) s
      else h_max h)"
  by pat_completeness auto
termination
  by (relation "measure (\<lambda>(F, h, threshold, b, s). kNumBuckets - b)") auto

declare percentile_from.simps [simp del]

definition percentile :: "'d fp \<Rightarrow> 'd hist \<Rightarrow> 'd \<Rightarrow> 'd" where
  "percentile F h p = percentile_from F h (fmul F (h_num h) (fdiv F p (flit F 100))) 0 (flit F 0)"

definition median :: "'d fp \<Rightarrow> 'd hist \<Rightarrow> 'd" where
  "median F h = percentile F h (flit F 50)"

definition average :: "'d fp \<Rightarrow> 'd hist \<Rightarrow> 'd" where
  "average F h = (if h_num h = flit F 0 then flit F 0 else fdiv F (h_sum h) (h_num h))"

definition standard_deviation :: "'d fp \<Rightarrow> 'd hist \<Rightarrow> 'd" where
  "standard_deviation F h =
     (if h_num h = flit F 0 then flit F 0
      else let variance = fdiv F (fsub F (fmul F (h_sum_squares h) (h_num h)) (fmul F (h_sum h) (h_sum h)))
                            (fmul F (h_num h) (h_num h))
           in fsqrt F variance)"

section \<open>What the buckets count\<close>

lemma fp_okD:
  assumes "fp_ok F"
  shows "flt F x y = (\<not> fle F y x)" "fle F x y \<or> fle F y x" "fle F x y \<Longrightarrow> fle F y z \<Longrightarrow> fle F x z"
    "fle F x y \<Longrightarrow> fle F y x \<Longrightarrow> x = y"
    "0 \<le> m \<Longrightarrow> m \<le> 2 ^ 53 \<Longrightarrow> 0 \<le> n \<Longrightarrow> n \<le> 2 ^ 53 \<Longrightarrow> fle F (flit F m) (flit F n) = (m \<le> n)"
    "0 \<le> i \<Longrightarrow> 0 \<le> j \<Longrightarrow> i + j \<le> 2 ^ 53 \<Longrightarrow> fadd F (flit F i) (flit F j) = flit F (i + j)"
  using assms unfolding fp_ok_def by blast+

lemma bucket_of_less: "bucket_of F v < kNumBuckets"
  by (auto simp: bucket_of_def kNumBuckets_def scan_Some split: option.split)

lemma bucket_limits: "length bucket_limit = kNumBuckets"
  by (simp add: bucket_limit_def kNumBuckets_def)

text \<open>A value goes to the bucket between the last limit it reaches and the next one.\<close>

lemma bucket_of_bounds:
  "(0 < bucket_of F v \<longrightarrow> fle F (limit F (bucket_of F v - 1)) v) \<and>
   (bucket_of F v < kNumBuckets - 1 \<longrightarrow> \<not> fle F (limit F (bucket_of F v)) v)"
proof (cases "scan (\<lambda>b. \<not> fle F (limit F b) v) 0 (kNumBuckets - 1)")
  case None
  then have "bucket_of F v = kNumBuckets - 1" by (simp add: bucket_of_def)
  then show ?thesis using None by (auto simp: scan_None kNumBuckets_def)
next
  case (Some b)
  then have "bucket_of F v = b" by (simp add: bucket_of_def)
  then show ?thesis using Some by (auto simp: scan_Some)
qed

definition hist_of :: "'d fp \<Rightarrow> 'd list \<Rightarrow> 'd hist" where
  "hist_of F vs = fold (histogram_add F) vs (histogram_clear F)"

lemma histogram_add_fields:
  "h_buckets (histogram_add F v h) = (h_buckets h)(bucket_of F v := fadd F (h_buckets h (bucket_of F v)) (flit F 1))"
  "h_num (histogram_add F v h) = fadd F (h_num h) (flit F 1)"
  "h_min (histogram_add F v h) = (if flt F v (h_min h) then v else h_min h)"
  "h_max (histogram_add F v h) = (if flt F (h_max h) v then v else h_max h)"
  by (simp_all add: histogram_add_def Let_def)

lemma hist_of_snoc: "hist_of F (vs @ [v]) = histogram_add F v (hist_of F vs)"
  by (simp add: hist_of_def)

lemma hist_counts:
  assumes "fp_ok F" "int (length vs) \<le> 2 ^ 53"
  shows "h_num (hist_of F vs) = flit F (int (length vs)) \<and>
    (\<forall>b. h_buckets (hist_of F vs) b = flit F (int (length (filter (\<lambda>v. bucket_of F v = b) vs))))"
  using assms(2)
proof (induction vs rule: rev_induct)
  case Nil
  then show ?case by (simp add: hist_of_def histogram_clear_def)
next
  case (snoc v vs)
  have c: "int (length (filter p vs)) \<le> int (length vs)" for p by simp
  have a: "fadd F (flit F n) (flit F 1) = flit F (n + 1)" if "0 \<le> n" "n \<le> int (length vs)" for n
    using fp_okD(6) [OF assms(1), of n 1] that snoc.prems by simp
  then show ?case using snoc c by (auto simp: hist_of_snoc histogram_add_fields add.commute)
qed

text \<open>\<open>if (a > b) a = b\<close> and \<open>if (a < b) a = b\<close>.\<close>

definition fmin :: "'d fp \<Rightarrow> 'd \<Rightarrow> 'd \<Rightarrow> 'd" where "fmin F a b = (if flt F b a then b else a)"
definition fmax :: "'d fp \<Rightarrow> 'd \<Rightarrow> 'd \<Rightarrow> 'd" where "fmax F a b = (if flt F a b then b else a)"

lemma fmin_assoc:
  assumes ok: "fp_ok F"
  shows "fmin F (fmin F a b) c = fmin F a (fmin F b c)"
  using fp_okD(3) [OF ok, of a b c] fp_okD(3) [OF ok, of c b a] fp_okD(2) [OF ok, of a b] fp_okD(2) [OF ok, of b c]
    fp_okD(4) [OF ok, of a c] fp_okD(4) [OF ok, of c a]
  by (auto simp: fmin_def fp_okD(1) [OF ok])

lemma fmax_assoc:
  assumes ok: "fp_ok F"
  shows "fmax F (fmax F a b) c = fmax F a (fmax F b c)"
  using fp_okD(3) [OF ok, of a b c] fp_okD(3) [OF ok, of c b a] fp_okD(2) [OF ok, of a b] fp_okD(2) [OF ok, of b c]
    fp_okD(4) [OF ok, of a c] fp_okD(4) [OF ok, of c a]
  by (auto simp: fmax_def fp_okD(1) [OF ok])

lemma histogram_add_range:
  "h_min (histogram_add F v h) = fmin F (h_min h) v" "h_max (histogram_add F v h) = fmax F (h_max h) v"
  by (simp_all add: histogram_add_fields fmin_def fmax_def)

lemma hist_range:
  assumes "fp_ok F"
  shows "(\<forall>v \<in> set vs. fle F (h_min (hist_of F vs)) v \<and> fle F v (h_max (hist_of F vs))) \<and>
    fle F (h_min (hist_of F vs)) (limit F (kNumBuckets - 1)) \<and> fle F (flit F 0) (h_max (hist_of F vs))"
proof (induction vs rule: rev_induct)
  case Nil
  then show ?case using fp_okD(2) [OF assms] by (auto simp: hist_of_def histogram_clear_def)
next
  case (snoc v vs)
  let ?a = "h_min (hist_of F vs)" and ?z = "h_max (hist_of F vs)"
  note le = fp_okD(1-3) [OF assms]
  have "fle F (fmin F ?a v) ?a" "fle F (fmin F ?a v) v" "fle F ?z (fmax F ?z v)" "fle F v (fmax F ?z v)"
    using le(2) [of ?a v] le(2) [of ?z v] le(2) [of v v] le(2) [of ?a ?a] le(2) [of ?z ?z]
    by (auto simp: fmin_def fmax_def le(1))
  then show ?case
    using snoc le(3) [of "fmin F ?a v" ?a] le(3) [of _ ?z "fmax F ?z v"]
    unfolding hist_of_snoc histogram_add_range by auto
qed

lemma hist_range_append:
  assumes "fp_ok F"
  shows "h_min (hist_of F (xs @ ys)) = fmin F (h_min (hist_of F xs)) (h_min (hist_of F ys)) \<and>
    h_max (hist_of F (xs @ ys)) = fmax F (h_max (hist_of F xs)) (h_max (hist_of F ys))"
proof (induction ys rule: rev_induct)
  case Nil
  then show ?case using hist_range [OF assms, of xs] fp_okD(1) [OF assms]
    by (simp add: fmin_def fmax_def) (simp add: hist_of_def histogram_clear_def)
next
  case (snoc y ys)
  then show ?case
    unfolding append_assoc [symmetric] hist_of_snoc histogram_add_range by (simp add: fmin_assoc fmax_assoc assms)
qed

lemma histogram_merge_fields:
  "h_min (histogram_merge F h k) = fmin F (h_min h) (h_min k)" "h_max (histogram_merge F h k) = fmax F (h_max h) (h_max k)"
  "h_num (histogram_merge F h k) = fadd F (h_num h) (h_num k)"
  "b < kNumBuckets \<Longrightarrow> h_buckets (histogram_merge F h k) b = fadd F (h_buckets h b) (h_buckets k b)"
  by (simp_all add: histogram_merge_def fmin_def fmax_def Let_def)

text \<open>
  C34. Merging the histograms of two runs gives the minimum, the maximum, the count and every bucket of
  the histogram of both runs put together, as long as the counts stay exact (below 2^53); each bucket
  of it counts the values between its limits, and all values lie between the minimum and the maximum.
  Arithmetic of double enters through fp_ok only; the sums are left out because they round.
\<close>

theorem histogram_merge_appends:
  assumes ok: "fp_ok F" and n: "int (length xs + length ys) \<le> 2 ^ 53"
  defines "h \<equiv> histogram_merge F (hist_of F xs) (hist_of F ys)" and "k \<equiv> hist_of F (xs @ ys)"
  shows "h_min h = h_min k \<and> h_max h = h_max k \<and> h_num h = h_num k \<and> (\<forall>b < kNumBuckets. h_buckets h b = h_buckets k b) \<and>
    (\<forall>b < kNumBuckets. h_buckets k b = flit F (int (length (filter (\<lambda>v. bucket_of F v = b) (xs @ ys))))) \<and>
    (\<forall>v \<in> set (xs @ ys). fle F (h_min k) v \<and> fle F v (h_max k))"
proof -
  have c: "h_num (hist_of F vs) = flit F (int (length vs))"
    "h_buckets (hist_of F vs) b = flit F (int (length (filter (\<lambda>v. bucket_of F v = b) vs)))"
    if "int (length vs) \<le> 2 ^ 53" for vs b using hist_counts [OF ok that] by auto
  have l: "int (length xs) \<le> 2 ^ 53" "int (length ys) \<le> 2 ^ 53" "int (length (xs @ ys)) \<le> 2 ^ 53" using n by auto
  have a: "fadd F (flit F (int i)) (flit F (int j)) = flit F (int (i + j))" if "i \<le> length xs" "j \<le> length ys" for i j
    using fp_okD(6) [OF ok, of "int i" "int j"] that n by simp
  have "h_num h = h_num k" unfolding h_def k_def using a [of "length xs" "length ys"] c(1) l
    by (simp add: histogram_merge_fields)
  moreover have "h_buckets h b = h_buckets k b" if "b < kNumBuckets" for b
    unfolding h_def k_def using that a [OF length_filter_le length_filter_le] c(2) l by (simp add: histogram_merge_fields)
  ultimately show ?thesis
    using hist_range_append [OF ok, of xs ys] hist_range [OF ok, of "xs @ ys"] c(2) [OF l(3)]
    unfolding h_def k_def by (simp add: histogram_merge_fields)
qed

theorem histogram_merge_appends_witness:
  "h_num (histogram_merge int_fp (hist_of int_fp [3, 7]) (hist_of int_fp [12])) = 3 \<and>
   h_buckets (hist_of int_fp ([3, 7] @ [12])) (bucket_of int_fp 7) = int (length (filter (\<lambda>v. bucket_of int_fp v = bucket_of int_fp 7) [3, 7, 12]))"
  using histogram_merge_appends [OF fp_ok_int, of "[3, 7]" "[12]"] hist_counts [OF fp_ok_int, of "[3, 7, 12]"] bucket_of_less
  by (simp add: int_fp_def)

section \<open>Percentiles\<close>

lemma percentile_from_clamped:
  assumes "fp_ok F"
  shows "fle F (percentile_from F h th b s) (h_max h) \<and>
    (fle F (h_min h) (h_max h) \<longrightarrow> fle F (h_min h) (percentile_from F h th b s))"
proof (induction "kNumBuckets - b" arbitrary: b s rule: less_induct)
  case less
  show ?case
  proof (cases "b < kNumBuckets \<and> \<not> fle F th (fadd F s (h_buckets h b))")
    case True
    then have "kNumBuckets - Suc b < kNumBuckets - b" by auto
    then show ?thesis using True less [of "Suc b" "fadd F s (h_buckets h b)"]
      by (simp add: percentile_from.simps [of F h th b s] Let_def)
  next
    case False
    have clamp: "fle F (if flt F (h_max h) r then h_max h else r) (h_max h) \<and>
        (fle F (h_min h) (h_max h) \<longrightarrow> fle F (h_min h) (if flt F (h_max h) r then h_max h else r))"
      if "r = (if flt F q (h_min h) then h_min h else q)" for r q
      using that fp_okD(2) [OF assms, of q "h_min h"] fp_okD(2) [OF assms, of r "h_max h"] fp_okD(2) [OF assms, of r r]
        fp_okD(2) [OF assms, of "h_max h" "h_max h"] fp_okD(2) [OF assms, of "h_min h" "h_min h"]
      by (auto simp: fp_okD(1) [OF assms])
    show ?thesis
    proof (cases "b < kNumBuckets")
      case True
      then show ?thesis using False clamp [OF refl]
        by (simp add: percentile_from.simps [of F h th b s] Let_def del: if_split)
    next
      case outside: False
      then show ?thesis using fp_okD(2) [OF assms, of "h_max h" "h_max h"]
        by (simp add: percentile_from.simps [of F h th b s])
    qed
  qed
qed

text \<open>
  Every percentile of a histogram that has recorded at least one value, the median among them, lies
  between the smallest and the largest value recorded, whatever the interpolation inside the bucket
  rounds to.
\<close>

lemma percentile_clamped:
  assumes "fp_ok F" and "vs \<noteq> []"
  shows "fle F (h_min (hist_of F vs)) (percentile F (hist_of F vs) p) \<and>
    fle F (percentile F (hist_of F vs) p) (h_max (hist_of F vs)) \<and>
    fle F (h_min (hist_of F vs)) (median F (hist_of F vs)) \<and> fle F (median F (hist_of F vs)) (h_max (hist_of F vs))"
proof -
  have "fle F (h_min (hist_of F vs)) (h_max (hist_of F vs))"
    using hist_range [OF assms(1), of vs] fp_okD(3) [OF assms(1)] assms(2) by (cases vs) auto
  then show ?thesis using percentile_from_clamped [OF assms(1)] by (simp add: median_def percentile_def)
qed

end
