(* ===== verification/Bench.thy ===== *)
theory Bench
  imports Options Rand Raw_Data Hist
begin

text \<open>
  The benchmark, sqlite3/src/benchmark.c. The SQLite library is a parameter: what a call answers is
  a function of the calls before it and of the call itself. So are the clock, the allocator, and
  the bytes a fresh allocation happens to hold. What is printed is left out, and so is the search
  for the description of the processor. Statements are named by the local variables that hold them.
\<close>

section \<open>The library and the state\<close>

datatype stmt = Begin_Stmt | End_Stmt | Replace_Stmt | Read_Stmt

datatype sql_call =
    Config
  | Open cstring
  | Close
  | Exec "cstring option"
  | Prepare stmt cstring
  | Step stmt
  | Reset stmt
  | Bind stmt nat cstring
  | Clear_Bindings stmt
  | Finalize stmt
  | Checkpoint

definition SQLITE_OK :: int where "SQLITE_OK = 0"
definition SQLITE_ROW :: int where "SQLITE_ROW = 100"
definition SQLITE_DONE :: int where "SQLITE_DONE = 101"

text \<open>
  \<open>e_now n\<close> is the \<open>n\<close>th reading of \<open>now_micros() * 1e-6\<close>, \<open>e_stale\<close> the string an uninitialised
  buffer holds, \<open>e_rate\<close> the text of the rate, \<open>e_rows\<close> a bound on the rows the model fetches.
\<close>

record 'd env =
  e_F :: "'d fp"
  e_answer :: "sql_call list \<Rightarrow> sql_call \<Rightarrow> int"
  e_now :: "nat \<Rightarrow> 'd"
  e_room :: "nat \<Rightarrow> bool"
  e_pad :: "nat \<Rightarrow> 'd list"
  e_scale :: "nat \<Rightarrow> int"
  e_stale :: cstring
  e_rate :: "int \<Rightarrow> 'd \<Rightarrow> cstring"
  e_rows :: nat

record 'd bench =
  b_open :: bool
  b_db_num :: int
  b_num :: int
  b_reads :: int
  b_start :: 'd
  b_last_op_finish :: 'd
  b_bytes :: int
  b_message :: cstring
  b_hist :: "'d hist"
  b_raw :: "'d raw"
  b_gen :: rand_gen
  b_rand :: u32
  b_done :: int
  b_next_report :: int
  b_ticks :: nat
  b_calls :: "sql_call list"
  b_removed :: "cstring list"

definition call :: "'d env \<Rightarrow> sql_call \<Rightarrow> 'd bench \<Rightarrow> int \<times> 'd bench" where
  "call E c b = (e_answer E (b_calls b) c, b\<lparr>b_calls := b_calls b @ [c]\<rparr>)"

definition exec_error_check :: "'d env \<Rightarrow> cstring option \<Rightarrow> 'd bench \<Rightarrow> 'd bench run" where
  "exec_error_check E sql b =
     (let (status, b) = call E (Exec sql) b in if status \<noteq> SQLITE_OK then Inl (Exit 1) else Inr b)"

definition step_error_check :: "int \<Rightarrow> 'd bench \<Rightarrow> 'd bench run" where
  "step_error_check status b = (if status \<noteq> SQLITE_DONE then Inl (Exit 1) else Inr b)"

definition error_check :: "'d env \<Rightarrow> sql_call \<Rightarrow> 'd bench \<Rightarrow> 'd bench run" where
  "error_check E c b =
     (let (status, b) = call E c b in if status \<noteq> SQLITE_OK then Inl (Exit 1) else Inr b)"

definition step :: "'d env \<Rightarrow> stmt \<Rightarrow> 'd bench \<Rightarrow> 'd bench run" where
  "step E s b = (let (status, b) = call E (Step s) b in step_error_check status b)"

definition wal_checkpoint :: "'d env \<Rightarrow> 'd flags \<Rightarrow> 'd bench \<Rightarrow> 'd bench" where
  "wal_checkpoint E fl b = (if f_WAL_enabled fl then snd (call E Checkpoint b) else b)"

definition now :: "'d env \<Rightarrow> 'd bench \<Rightarrow> 'd \<times> 'd bench" where
  "now E b = (e_now E (b_ticks b), b\<lparr>b_ticks := b_ticks b + 1\<rparr>)"

section \<open>Timing\<close>

definition start :: "'d env \<Rightarrow> 'd bench \<Rightarrow> 'd bench" where
  "start E b =
     (let (t, b) = now E b in
      b\<lparr>b_start := t, b_bytes := 0, b_message := [], b_last_op_finish := t,
        b_hist := histogram_clear (e_F E), b_raw := raw_clear (e_room E) (flit (e_F E) 0) (b_raw b),
        b_done := 0, b_next_report := 100\<rparr>)"

definition next_report :: "int \<Rightarrow> int" where
  "next_report n =
     (if n < 1000 then n + 100
      else if n < 5000 then n + 500
      else if n < 10000 then n + 1000
      else if n < 50000 then n + 5000
      else if n < 100000 then n + 10000
      else if n < 500000 then n + 50000
      else n + 100000)"

text \<open>The time an operation took, if anyone wants to know.\<close>

definition time_op :: "'d env \<Rightarrow> 'd flags \<Rightarrow> 'd bench \<Rightarrow> 'd bench run" where
  "time_op E fl b =
     (if f_histogram fl \<or> f_raw fl then
       let (t, b) = now E b;
           micros = fmul (e_F E) (fsub (e_F E) t (b_last_op_finish b)) (flit (e_F E) 1000000);
           b = (if f_histogram fl then b\<lparr>b_hist := histogram_add (e_F E) micros (b_hist b)\<rparr> else b)
       in bnd (if f_raw fl then
                 bnd (raw_add (e_room E) (flit (e_F E) 0) (e_pad E) micros (b_raw b)) (\<lambda>r. Inr (b\<lparr>b_raw := r\<rparr>))
               else Inr b) (\<lambda>b. Inr (b\<lparr>b_last_op_finish := t\<rparr>))
     else Inr b)"

definition finished_single_op :: "'d env \<Rightarrow> 'd flags \<Rightarrow> 'd bench \<Rightarrow> 'd bench run" where
  "finished_single_op E fl b =
     bnd (time_op E fl b) (\<lambda>b.
     bnd (guardE Overflow (is_int (b_done b + 1))) (\<lambda>_.
     let b = b\<lparr>b_done := b_done b + 1\<rparr> in
     if b_next_report b \<le> b_done b then
       bnd (guardE Overflow (is_int (next_report (b_next_report b)))) (\<lambda>_.
       Inr (b\<lparr>b_next_report := next_report (b_next_report b)\<rparr>))
     else Inr b))"

text \<open>
  The length of the rate is limited by \<open>strlen\<close> of the buffer before anything is in it.
\<close>

definition stop :: "'d env \<Rightarrow> 'd flags \<Rightarrow> 'd bench \<Rightarrow> 'd bench run" where
  "stop E fl b =
     (let (finish, b) = now E b;
          b = (if b_done b < 1 then b\<lparr>b_done := 1\<rparr> else b) in
      bnd (if 0 < b_bytes b then
             bnd (guardE Overrun (length (e_stale E) < 100)) (\<lambda>_.
             let rate = (if e_stale E = [] then []
                         else take (length (e_stale E) - 1) (e_rate E (b_bytes b) (fsub (e_F E) finish (b_start b)))) in
             if b_message b = [] then
               bnd (strcat_to 100 rate (str '' '')) (\<lambda>s.
               bnd (strcat_to 100 s (b_message b)) (\<lambda>s. Inr (b\<lparr>b_message := s\<rparr>)))
             else Inr (b\<lparr>b_message := rate\<rparr>))
           else Inr b) (\<lambda>b.
      let (first, b) = now E b; (last, b) = now E b in
      Inr (if f_raw fl then b\<lparr>b_raw := snd (raw_print (e_room E) (flit (e_F E) 0) [] (\<lambda>_ _. []) (b_raw b))\<rparr> else b)))"

section \<open>Opening the database\<close>

text \<open>The directory is the list of its names, \<open>None\<close> when \<open>opendir\<close> fails.\<close>

primrec remove_databases :: "cstring \<Rightarrow> cstring list \<Rightarrow> 'd bench \<Rightarrow> 'd bench run" where
  "remove_databases db [] b = Inr b"
| "remove_databases db (name # names) b =
     bnd (if starts_with name (str ''dbbench_sqlite3'') then
            bnd (strcat_to 1000 [] db) (\<lambda>file. bnd (strcat_to 1000 file name) (\<lambda>file.
            Inr (b\<lparr>b_removed := b_removed b @ [file]\<rparr>)))
          else Inr b) (remove_databases db names)"

definition benchmark_init :: "'d env \<Rightarrow> 'd flags \<Rightarrow> cstring list option \<Rightarrow> 'd bench \<Rightarrow> 'd bench run" where
  "benchmark_init E fl dir b =
     (let b = b\<lparr>b_open := False, b_db_num := 0, b_num := f_num fl,
                b_reads := (if f_reads fl < 0 then f_num fl else f_reads fl), b_bytes := 0\<rparr> in
      bnd (rand_gen_init (e_scale E)) (\<lambda>g.
      let b = b\<lparr>b_gen := g, b_rand := rand_init 301\<rparr> in
      case (f_db fl, dir) of
        (Some db, Some names) \<Rightarrow> if \<not> f_use_existing_db fl then remove_databases db names b else Inr b
      | _ \<Rightarrow> Inl Overrun))"

definition benchmark_fini :: "'d env \<Rightarrow> 'd bench \<Rightarrow> 'd bench run" where
  "benchmark_fini E b = error_check E Close b"

text \<open>The array of statements includes its terminating null pointer, and the loop executes it.\<close>

definition benchmark_open :: "'d env \<Rightarrow> 'd flags \<Rightarrow> 'd bench \<Rightarrow> 'd bench run" where
  "benchmark_open E fl b =
     bnd (guardE Assertion (\<not> b_open b)) (\<lambda>_.
     bnd (guardE Overflow (is_int (b_db_num b + 1))) (\<lambda>_.
     let b = b\<lparr>b_db_num := b_db_num b + 1\<rparr> in
     case f_db fl of None \<Rightarrow> Inl Overrun | Some db \<Rightarrow>
     let file_name = take 99 (db @ str ''dbbench_sqlite3-'' @ decimal (b_db_num b) @ str ''.db'') in
     bnd (error_check E Config b) (\<lambda>b.
     bnd (error_check E (Open file_name) b) (\<lambda>b.
     let b = b\<lparr>b_open := True\<rparr> in
     bnd (exec_error_check E (Some (str ''PRAGMA cache_size = '' @ decimal (f_num_pages fl))) b) (\<lambda>b.
     bnd (if f_page_size fl \<noteq> 1024
          then exec_error_check E (Some (str ''PRAGMA page_size = '' @ decimal (f_page_size fl))) b else Inr b) (\<lambda>b.
     bnd (if f_WAL_enabled fl
          then bnd (exec_error_check E (Some (str ''PRAGMA journal_mode = WAL'')) b)
                 (exec_error_check E (Some (str ''PRAGMA wal_autocheckpoint = 4096'')))
          else Inr b) (\<lambda>b.
     bnd (exec_error_check E (Some (str ''PRAGMA locking_mode = EXCLUSIVE'')) b) (\<lambda>b.
     bnd (exec_error_check E (Some (str ''CREATE TABLE test (key blob, value blob, PRIMARY KEY (key))'')) b)
       (exec_error_check E None)))))))))"

section \<open>The loops\<close>

primrec entries :: "(int \<Rightarrow> 'd bench \<Rightarrow> 'd bench run) \<Rightarrow> int \<Rightarrow> nat \<Rightarrow> 'd bench \<Rightarrow> 'd bench run" where
  "entries body i 0 b = Inr b"
| "entries body i (Suc m) b = bnd (body i b) (entries body (i + 1) m)"

definition begin_trans :: "'d env \<Rightarrow> 'd flags \<Rightarrow> int \<Rightarrow> 'd bench \<Rightarrow> 'd bench run" where
  "begin_trans E fl e b =
     (if f_transaction fl \<and> 1 < e then bnd (step E Begin_Stmt b) (error_check E (Reset Begin_Stmt)) else Inr b)"

definition end_trans :: "'d env \<Rightarrow> 'd flags \<Rightarrow> int \<Rightarrow> 'd bench \<Rightarrow> 'd bench run" where
  "end_trans E fl e b =
     (if f_transaction fl \<and> 1 < e then bnd (step E End_Stmt b) (error_check E (Reset End_Stmt)) else Inr b)"

text \<open>
  \<open>for (i = 0; i < n; i += e)\<close> with the transaction around each turn; \<open>body\<close> is the inner loop's
  body for \<open>i + j\<close>. With no entries in a batch the loop would not advance.
\<close>

function batches ::
    "'d env \<Rightarrow> 'd flags \<Rightarrow> (int \<Rightarrow> 'd bench \<Rightarrow> 'd bench run) \<Rightarrow> int \<Rightarrow> int \<Rightarrow> int \<Rightarrow> 'd bench \<Rightarrow> 'd bench run" where
  "batches E fl body e i n b =
     (if i < n then
        if e \<le> 0 then Inl Forever
        else bnd (begin_trans E fl e b) (\<lambda>b.
             bnd (entries body i (nat e) b) (\<lambda>b.
             bnd (end_trans E fl e b) (\<lambda>b.
             if is_int (i + e) then batches E fl body e (i + e) n b else Inl Overflow)))
      else Inr b)"
  by pat_completeness auto
termination
  by (relation "measure (\<lambda>(E, fl, body, e, i, n, b). nat (n - i))") auto

declare batches.simps [simp del]

text \<open>
  The value to write. A negative size is converted to \<open>size_t\<close> in the comparisons and in
  \<open>malloc\<close>, which cannot succeed.
\<close>

definition gen_value :: "int \<Rightarrow> rand_gen \<Rightarrow> (cstring \<times> rand_gen) run" where
  "gen_value len g =
     (if 0 \<le> len then rand_gen_generate (nat len) g
      else if int (g_pos g) + len < 0 then Inl Assertion else Inl Overrun)"

definition next_key :: "bool \<Rightarrow> int \<Rightarrow> int \<Rightarrow> 'd bench \<Rightarrow> (int \<times> 'd bench) run" where
  "next_key random i n b =
     (if random then let (r, seed) = rand_next (b_rand b) in Inr (int (unat r) mod n, b\<lparr>b_rand := seed\<rparr>)
      else if is_int i then Inr (i, b) else Inl Overflow)"

definition write_entry ::
    "'d env \<Rightarrow> 'd flags \<Rightarrow> bool \<Rightarrow> int \<Rightarrow> int \<Rightarrow> int \<Rightarrow> 'd bench \<Rightarrow> 'd bench run" where
  "write_entry E fl random n value_size i b =
     bnd (gen_value value_size (b_gen b)) (\<lambda>(value, g).
     let b = b\<lparr>b_gen := g\<rparr> in
     bnd (next_key random i n b) (\<lambda>(k, b).
     let key = decimal16 k in
     bnd (error_check E (Bind Replace_Stmt 1 (take 16 key)) b) (\<lambda>b.
     bnd (error_check E (Bind Replace_Stmt 2 value) b) (\<lambda>b.
     let b = b\<lparr>b_bytes := b_bytes b + value_size + int (length key)\<rparr> in
     bnd (step E Replace_Stmt b) (\<lambda>b.
     bnd (error_check E (Clear_Bindings Replace_Stmt) b) (\<lambda>b.
     bnd (error_check E (Reset Replace_Stmt) b) (finished_single_op E fl)))))))"

datatype db_state = FRESH | EXISTING

definition benchmark_write ::
    "'d env \<Rightarrow> 'd flags \<Rightarrow> bool \<Rightarrow> bool \<Rightarrow> db_state \<Rightarrow> int \<Rightarrow> int \<Rightarrow> int \<Rightarrow> 'd bench \<Rightarrow> 'd bench run" where
  "benchmark_write E fl write_sync random state n value_size e b =
     (if state = FRESH \<and> f_use_existing_db fl then
        Inr (b\<lparr>b_message := str ''skipping (--use_existing_db is true)''\<rparr>)
      else
        bnd (if state = FRESH then
               let b = (snd (call E Close b))\<lparr>b_open := False\<rparr> in
               bnd (benchmark_open E fl b) (\<lambda>b. Inr (start E b))
             else Inr b) (\<lambda>b.
        let b = (if n \<noteq> b_num b then b\<lparr>b_message := str ''('' @ decimal n @ str '' ops)''\<rparr> else b) in
        bnd (exec_error_check E (Some (str (if write_sync then ''PRAGMA synchronous = FULL'' else ''PRAGMA synchronous = OFF''))) b) (\<lambda>b.
        bnd (error_check E (Prepare Replace_Stmt (str ''REPLACE INTO test (key, value) VALUES (?, ?)'')) b) (\<lambda>b.
        bnd (error_check E (Prepare Begin_Stmt (str ''BEGIN TRANSACTION'')) b) (\<lambda>b.
        bnd (error_check E (Prepare End_Stmt (str ''END TRANSACTION'')) b) (\<lambda>b.
        bnd (batches E fl (write_entry E fl random n value_size) e 0 n b) (\<lambda>b.
        bnd (error_check E (Finalize Replace_Stmt) b) (\<lambda>b.
        bnd (error_check E (Finalize Begin_Stmt) b) (error_check E (Finalize End_Stmt))))))))))"

text \<open>\<open>while (sqlite3_step(read_stmt) == SQLITE_ROW) {}\<close>, at most \<open>fuel\<close> times.\<close>

primrec step_rows :: "'d env \<Rightarrow> nat \<Rightarrow> 'd bench \<Rightarrow> (int \<times> 'd bench) run" where
  "step_rows E 0 b = Inl Forever"
| "step_rows E (Suc fuel) b =
     (let (status, b) = call E (Step Read_Stmt) b in
      if status = SQLITE_ROW then step_rows E fuel b else Inr (status, b))"

definition read_entry :: "'d env \<Rightarrow> 'd flags \<Rightarrow> bool \<Rightarrow> int \<Rightarrow> 'd bench \<Rightarrow> 'd bench run" where
  "read_entry E fl random i b =
     bnd (next_key random i (b_reads b) b) (\<lambda>(k, b).
     bnd (error_check E (Bind Read_Stmt 1 (take 16 (decimal16 k))) b) (\<lambda>b.
     bnd (step_rows E (e_rows E) b) (\<lambda>(status, b).
     bnd (step_error_check status b) (\<lambda>b.
     bnd (error_check E (Clear_Bindings Read_Stmt) b) (\<lambda>b.
     bnd (error_check E (Reset Read_Stmt) b) (finished_single_op E fl))))))"

definition benchmark_read :: "'d env \<Rightarrow> 'd flags \<Rightarrow> bool \<Rightarrow> int \<Rightarrow> 'd bench \<Rightarrow> 'd bench run" where
  "benchmark_read E fl random e b =
     bnd (error_check E (Prepare Begin_Stmt (str ''BEGIN TRANSACTION'')) b) (\<lambda>b.
     bnd (error_check E (Prepare End_Stmt (str ''END TRANSACTION'')) b) (\<lambda>b.
     bnd (error_check E (Prepare Read_Stmt (str ''SELECT * FROM test WHERE key = ?'')) b) (\<lambda>b.
     bnd (batches E fl (read_entry E fl random) e 0 (b_reads b) b) (\<lambda>b.
     bnd (error_check E (Finalize Read_Stmt) b) (\<lambda>b.
     bnd (error_check E (Finalize Begin_Stmt) b) (error_check E (Finalize End_Stmt)))))))"

section \<open>The run\<close>

text \<open>Division of C, towards zero.\<close>

definition quot :: "int \<Rightarrow> int \<Rightarrow> int" where
  "quot a d = (if a < 0 then - ((- a) div d) else a div d)"

definition write_then_checkpoint ::
    "'d env \<Rightarrow> 'd flags \<Rightarrow> bool \<Rightarrow> bool \<Rightarrow> int \<Rightarrow> int \<Rightarrow> int \<Rightarrow> 'd bench \<Rightarrow> (bool \<times> 'd bench) run" where
  "write_then_checkpoint E fl write_sync random n value_size e b =
     bnd (benchmark_write E fl write_sync random EXISTING n value_size e b) (\<lambda>b. Inr (True, wal_checkpoint E fl b))"

text \<open>The chain of comparisons of the name; the answer says whether the name is known.\<close>

definition run_one :: "'d env \<Rightarrow> 'd flags \<Rightarrow> cstring \<Rightarrow> 'd bench \<Rightarrow> (bool \<times> 'd bench) run" where
  "run_one E fl name b =
     (let n = b_num b; vs = f_value_size fl; write = write_then_checkpoint E fl in
      if name = str ''fillseq'' then write False False n vs 1 b
      else if name = str ''fillseqbatch'' then write False False n vs 1000 b
      else if name = str ''fillrandom'' then write False True n vs 1 b
      else if name = str ''fillrandbatch'' then write False True n vs 1000 b
      else if name = str ''overwrite'' then write False True n vs 1 b
      else if name = str ''overwritebatch'' then write False True n vs 1000 b
      else if name = str ''fillrandsync'' then write True True (quot n 100) vs 1 b
      else if name = str ''fillseqsync'' then write True False (quot n 100) vs 1 b
      else if name = str ''fillrand100K'' then write False True (quot n 1000) (100 * 1000) 1 b
      else if name = str ''fillseq100K'' then write False False (quot n 1000) (100 * 1000) 1 b
      else if name = str ''readseq'' then bnd (benchmark_read E fl False 1 b) (\<lambda>b. Inr (True, b))
      else if name = str ''readrandom'' then bnd (benchmark_read E fl True 1 b) (\<lambda>b. Inr (True, b))
      else if name = str ''readrand100K'' then
        let reads = b_reads b in
        bnd (benchmark_read E fl True 1 (b\<lparr>b_reads := quot reads 1000\<rparr>)) (\<lambda>b. Inr (True, b\<lparr>b_reads := reads\<rparr>))
      else Inr (False, b))"

definition comma :: u8 where "comma = of_char CHR '',''"

text \<open>The loop over the comma-separated names; the rest after a comma may be empty.\<close>

function run_names :: "'d env \<Rightarrow> 'd flags \<Rightarrow> cstring \<Rightarrow> 'd bench \<Rightarrow> 'd bench run" where
  "run_names E fl benchmarks b =
     (let name = takeWhile (\<lambda>c. c \<noteq> comma) benchmarks; sep = dropWhile (\<lambda>c. c \<noteq> comma) benchmarks in
      bnd (run_one E fl name (start E (b\<lparr>b_bytes := 0\<rparr>))) (\<lambda>(known, b).
      bnd (if known then stop E fl b else Inr b) (\<lambda>b.
      if sep = [] then Inr b else run_names E fl (tl sep) b)))"
  by pat_completeness auto
termination
proof (relation "measure (\<lambda>(E, fl, benchmarks, b). length benchmarks)")
  fix E :: "'a env" and fl :: "'a flags" and s b x t c and u :: "'a bench"
  assume "x = takeWhile (\<lambda>c. c \<noteq> comma) s" and t: "t = dropWhile (\<lambda>c. c \<noteq> comma) s" "t \<noteq> []"
  then show "((E, fl, tl t, u), E, fl, s, b) \<in> measure (\<lambda>(E, fl, benchmarks, b). length benchmarks)"
    using length_dropWhile_le [of "\<lambda>c. c \<noteq> comma" s] by (cases t) (auto simp: t)
qed simp

declare run_names.simps [simp del]

definition benchmark_run :: "'d env \<Rightarrow> 'd flags \<Rightarrow> 'd bench \<Rightarrow> 'd bench run" where
  "benchmark_run E fl b = bnd (benchmark_open E fl b) (run_names E fl (f_benchmarks fl))"

definition bench_main :: "'d env \<Rightarrow> (cstring \<Rightarrow> ('d \<times> cstring) option) \<Rightarrow> cstring list \<Rightarrow> cstring list option \<Rightarrow> 'd bench \<Rightarrow> 'd bench run" where
  "bench_main E scan_d argv dir b =
     bnd (parse_args (e_F E) scan_d argv) (\<lambda>fl.
     bnd (benchmark_init E fl dir b) (\<lambda>b. bnd (benchmark_run E fl b) (benchmark_fini E)))"

end
