(* ===== verification/Bench_Runs.thy ===== *)
theory Bench_Runs
  imports Bench
begin

text \<open>
  What the benchmark asks of the SQLite library: the exact sequence of calls of a write and of a
  read, whatever the library answers, and that no failing call goes unnoticed.
\<close>

section \<open>Single calls\<close>

lemma error_check_Inr:
  "error_check E c b = Inr b' \<longleftrightarrow> e_answer E (b_calls b) c = SQLITE_OK \<and> b' = b\<lparr>b_calls := b_calls b @ [c]\<rparr>"
  by (auto simp: error_check_def call_def)

lemma exec_error_check_Inr:
  "exec_error_check E s b = Inr b' \<longleftrightarrow>
   e_answer E (b_calls b) (Exec s) = SQLITE_OK \<and> b' = b\<lparr>b_calls := b_calls b @ [Exec s]\<rparr>"
  by (auto simp: exec_error_check_def call_def)

lemma step_error_check_Inr: "step_error_check st b = Inr b' \<longleftrightarrow> st = SQLITE_DONE \<and> b' = b"
  by (auto simp: step_error_check_def)

lemma step_Inr:
  "step E s b = Inr b' \<longleftrightarrow> e_answer E (b_calls b) (Step s) = SQLITE_DONE \<and> b' = b\<lparr>b_calls := b_calls b @ [Step s]\<rparr>"
  by (auto simp: step_def call_def step_error_check_def)

lemmas call_Inr = bnd_eq_Inr error_check_Inr exec_error_check_Inr step_error_check_Inr step_Inr guardE_Inr

text \<open>What counting an operation leaves alone.\<close>

lemma next_report_more: "n < next_report n"
  by (simp add: next_report_def)

lemma time_op_frame:
  assumes "time_op E fl b = Inr b'"
  shows "b_calls b' = b_calls b \<and> b_num b' = b_num b \<and> b_reads b' = b_reads b \<and> b_open b' = b_open b \<and>
    b_gen b' = b_gen b \<and> b_rand b' = b_rand b \<and> b_bytes b' = b_bytes b \<and> b_done b' = b_done b \<and>
    b_next_report b' = b_next_report b"
  using assms by (auto simp: time_op_def Let_def now_def bnd_eq_Inr split: if_splits)

lemma finished_single_op_frame:
  assumes "finished_single_op E fl b = Inr b'"
  shows "b_calls b' = b_calls b \<and> b_num b' = b_num b \<and> b_reads b' = b_reads b \<and> b_open b' = b_open b \<and>
    b_gen b' = b_gen b \<and> b_rand b' = b_rand b \<and> b_bytes b' = b_bytes b \<and> b_done b' = b_done b + 1 \<and>
    (b_done b < b_next_report b \<longrightarrow> b_done b' < b_next_report b')"
proof -
  obtain c where c: "time_op E fl b = Inr c" "finished_single_op E fl b = bnd (Inr c) (\<lambda>b.
      bnd (guardE Overflow (is_int (b_done b + 1))) (\<lambda>_.
      let b = b\<lparr>b_done := b_done b + 1\<rparr> in
      if b_next_report b \<le> b_done b then
        bnd (guardE Overflow (is_int (next_report (b_next_report b)))) (\<lambda>_.
        Inr (b\<lparr>b_next_report := next_report (b_next_report b)\<rparr>))
      else Inr b))"
    using assms by (auto simp: finished_single_op_def elim: bndE)
  show ?thesis
    using assms c(2) time_op_frame [OF c(1)] next_report_more [of "b_next_report c"]
    by (auto simp: Let_def bnd_eq_Inr guardE_Inr split: if_splits)
qed

section \<open>The loops\<close>

text \<open>The calls of one batch, where \<open>T\<close> gives the calls of an entry.\<close>

definition batch :: "('x \<Rightarrow> sql_call list) \<Rightarrow> 'd flags \<Rightarrow> int \<Rightarrow> 'x list \<Rightarrow> sql_call list" where
  "batch T fl e xs =
     (if f_transaction fl \<and> 1 < e then [Step Begin_Stmt, Reset Begin_Stmt] else []) @ concat (map T xs) @
     (if f_transaction fl \<and> 1 < e then [Step End_Stmt, Reset End_Stmt] else [])"

lemma begin_trans_Inr:
  "begin_trans E fl e b = Inr b' \<Longrightarrow>
   b' = b\<lparr>b_calls := b_calls b @ (if f_transaction fl \<and> 1 < e then [Step Begin_Stmt, Reset Begin_Stmt] else [])\<rparr>"
  by (auto simp: begin_trans_def call_Inr split: if_splits)

lemma end_trans_Inr:
  "end_trans E fl e b = Inr b' \<Longrightarrow>
   b' = b\<lparr>b_calls := b_calls b @ (if f_transaction fl \<and> 1 < e then [Step End_Stmt, Reset End_Stmt] else [])\<rparr>"
  by (auto simp: end_trans_def call_Inr split: if_splits)

text \<open>
  The interface between the loops and the body of the inner loop: for the number \<open>i\<close> it performs
  the calls \<open>T x\<close> of some \<open>x\<close> that suits \<open>i\<close> and counts one operation, if it returns.
\<close>

locale entry_loop =
  fixes body :: "int \<Rightarrow> 'd bench \<Rightarrow> 'd bench run"
    and T :: "'x \<Rightarrow> sql_call list"
    and P :: "int \<Rightarrow> 'x \<Rightarrow> bool"
    and J :: "'d bench \<Rightarrow> bool"
  assumes body_calls: "J b \<Longrightarrow> 0 \<le> i \<Longrightarrow> body i b = Inr b' \<Longrightarrow>
      J b' \<and> b_done b' = b_done b + 1 \<and> (\<exists>x. P i x \<and> b_calls b' = b_calls b @ T x)"
    and J_calls: "J b \<Longrightarrow> J (b\<lparr>b_calls := cs\<rparr>)"
begin

lemma entries_calls:
  "J b \<Longrightarrow> 0 \<le> i \<Longrightarrow> entries body i m b = Inr b' \<Longrightarrow>
   J b' \<and> b_done b' = b_done b + int m \<and>
   (\<exists>xs. list_all2 P [i..i + int m - 1] xs \<and> b_calls b' = b_calls b @ concat (map T xs))"
proof (induction m arbitrary: i b)
  case 0
  then show ?case by (auto intro!: exI [of _ "[]"])
next
  case (Suc m)
  then obtain c where c: "body i b = Inr c" "entries body (i + 1) m c = Inr b'" by (auto simp: bnd_eq_Inr)
  note first = body_calls [OF Suc.prems(1,2) c(1)]
  then obtain x where x: "P i x" "b_calls c = b_calls b @ T x" by auto
  obtain xs where xs: "list_all2 P [i + 1..i + 1 + int m - 1] xs" "b_calls b' = b_calls c @ concat (map T xs)"
    "J b'" "b_done b' = b_done c + int m"
    using Suc.IH [of c "i + 1"] first c(2) Suc.prems(2) by auto
  have "[i..i + int (Suc m) - 1] = i # [i + 1..i + 1 + int m - 1]" by (simp add: upto_rec1)
  then have "list_all2 P [i..i + int (Suc m) - 1] (x # xs)" using x(1) xs(1) by simp
  moreover have "b_calls b' = b_calls b @ concat (map T (x # xs))" using x(2) xs(2) by simp
  ultimately show ?case using xs(3,4) first by auto
qed

lemma batches_calls:
  assumes "0 < e"
  shows "J b \<Longrightarrow> 0 \<le> i \<Longrightarrow> batches E fl body e i n b = Inr b' \<Longrightarrow>
   J b' \<and> (\<exists>xss. list_all2 P [i..i + int (length (concat xss)) - 1] (concat xss) \<and>
     (\<forall>xs \<in> set xss. length xs = nat e) \<and> int (length xss) = (if i < n then (n - i + e - 1) div e else 0) \<and>
     b_done b' = b_done b + int (length (concat xss)) \<and>
     b_calls b' = b_calls b @ concat (map (batch T fl e) xss))"
proof (induction "nat (n - i)" arbitrary: i b rule: less_induct)
  case less
  show ?case
  proof (cases "i < n")
    case False
    then show ?thesis using less.prems by (auto simp: batches.simps [of E fl body e i] intro!: exI [of _ "[]"])
  next
    case True
    then obtain c d f where c: "begin_trans E fl e b = Inr c" and d: "entries body i (nat e) c = Inr d"
      and f: "end_trans E fl e d = Inr f" and rest: "batches E fl body e (i + e) n f = Inr b'"
      using less.prems(3) assms by (auto simp: batches.simps [of E fl body e i] bnd_eq_Inr split: if_splits)
    note cf = begin_trans_Inr [OF c] end_trans_Inr [OF f]
    obtain xs where xs: "J d" "b_done d = b_done c + int (nat e)" "list_all2 P [i..i + int (nat e) - 1] xs"
      "b_calls d = b_calls c @ concat (map T xs)"
      using entries_calls [OF _ less.prems(2) d] J_calls [OF less.prems(1)] cf(1) by auto
    have len: "length xs = nat e" using list_all2_lengthD [OF xs(3)] assms by simp
    have "J f" using J_calls [OF xs(1)] cf(2) by simp
    then obtain xss where xss: "J b'" "list_all2 P [i + e..i + e + int (length (concat xss)) - 1] (concat xss)"
      "\<forall>xs \<in> set xss. length xs = nat e" "int (length xss) = (if i + e < n then (n - (i + e) + e - 1) div e else 0)"
      "b_done b' = b_done f + int (length (concat xss))" "b_calls b' = b_calls f @ concat (map (batch T fl e) xss)"
      using less.hyps [of "i + e" f] True assms less.prems(2) rest by auto
    have "[i..i + e + int (length (concat xss)) - 1] =
        [i..i + int (nat e) - 1] @ [i + e..i + e + int (length (concat xss)) - 1]"
      using upto_split2 [of i "i + e - 1" "i + e + int (length (concat xss)) - 1"] assms by (simp add: algebra_simps)
    then have "list_all2 P [i..i + int (length (concat (xs # xss))) - 1] (concat (xs # xss))"
      using list_all2_appendI [OF xs(3) xss(2)] assms len by (simp add: algebra_simps)
    moreover have "int (length (xs # xss)) = (n - i + e - 1) div e"
    proof -
      have "n - i + e - 1 = (n - i - 1) + e" by simp
      then have d: "(n - i + e - 1) div e = (n - i - 1) div e + 1" using assms by (simp only: div_add_self2)
      show ?thesis using xss(4) True assms d by (auto simp: div_pos_pos_trivial)
    qed
    moreover have "b_calls b' = b_calls b @ concat (map (batch T fl e) (xs # xss))"
      using xss(6) xs(4) cf by (simp add: batch_def)
    moreover have "b_done b' = b_done b + int (length (concat (xs # xss)))" using xss(5) xs(2) cf len by simp
    ultimately show ?thesis using xss(1,3) len True by (intro conjI exI [of _ "xs # xss"]) auto
  qed
qed

end

text \<open>
  The library as documented: every call answers \<open>SQLITE_OK\<close>, a step of a statement that delivers
  nothing \<open>SQLITE_DONE\<close>, and a look-up by primary key delivers at most one row.
\<close>

definition lib_ok :: "'d env \<Rightarrow> bool" where
  "lib_ok E = ((\<forall>h c. (\<forall>s. c \<noteq> Step s) \<longrightarrow> e_answer E h c = SQLITE_OK) \<and>
     (\<forall>h s. s \<noteq> Read_Stmt \<longrightarrow> e_answer E h (Step s) = SQLITE_DONE) \<and>
     (\<forall>h. e_answer E h (Step Read_Stmt) = SQLITE_DONE \<or>
       e_answer E h (Step Read_Stmt) = SQLITE_ROW \<and> e_answer E (h @ [Step Read_Stmt]) (Step Read_Stmt) = SQLITE_DONE))"

text \<open>The report comes within the next 100000 operations, so the counter of the next one fits.\<close>

definition reporting :: "'d bench \<Rightarrow> bool" where
  "reporting b = (b_done b < b_next_report b \<and> b_next_report b \<le> b_done b + 100000)"

definition ops_limit :: int where "ops_limit = 2147283647"

lemma lib_ok_calls:
  assumes "lib_ok E"
  shows "(\<forall>s. c \<noteq> Step s) \<Longrightarrow> error_check E c b = Inr (b\<lparr>b_calls := b_calls b @ [c]\<rparr>)"
    "exec_error_check E q b = Inr (b\<lparr>b_calls := b_calls b @ [Exec q]\<rparr>)"
    "s \<noteq> Read_Stmt \<Longrightarrow> step E s b = Inr (b\<lparr>b_calls := b_calls b @ [Step s]\<rparr>)"
  using assms by (auto simp: lib_ok_def error_check_Inr exec_error_check_Inr step_Inr)

lemma trans_total:
  assumes "lib_ok E"
  shows "\<exists>c. begin_trans E fl e b = Inr c" "\<exists>c. end_trans E fl e b = Inr c"
  by (simp_all add: begin_trans_def end_trans_def lib_ok_calls [OF assms])

lemma time_op_total: "\<not> f_raw fl \<Longrightarrow> \<exists>c. time_op E fl b = Inr c"
  by (cases "f_histogram fl") (auto simp: time_op_def Let_def now_def)

lemma finished_single_op_total:
  assumes "\<not> f_raw fl" "reporting b" "0 \<le> b_done b" "b_done b < ops_limit"
  shows "\<exists>c. finished_single_op E fl b = Inr c \<and> reporting c \<and> b_done c = b_done b + 1 \<and> b_gen c = b_gen b \<and>
    b_num c = b_num b \<and> b_reads c = b_reads b \<and> b_open c = b_open b"
proof -
  obtain c where c: "time_op E fl b = Inr c" using time_op_total [OF assms(1)] by blast
  have "next_report (b_next_report b) \<le> b_next_report b + 100000" by (simp add: next_report_def)
  moreover have "next_report (b_next_report b) < 2147483648" if "b_next_report b \<le> 2147383647"
    using that by (simp add: next_report_def)
  ultimately show ?thesis
    using assms(2-4) c time_op_frame [OF c] next_report_more [of "b_next_report c"]
    by (auto simp: finished_single_op_def Let_def guardE_def reporting_def ops_limit_def is_int_def)
qed

text \<open>A body that returns, under a condition \<open>K\<close> that it keeps.\<close>

locale entry_total = entry_loop +
  fixes K :: "'a bench \<Rightarrow> bool"
  assumes body_total: "J b \<Longrightarrow> K b \<Longrightarrow> reporting b \<Longrightarrow> 0 \<le> b_done b \<Longrightarrow> b_done b < ops_limit \<Longrightarrow>
      0 \<le> i \<Longrightarrow> i < ops_limit \<Longrightarrow> \<exists>b'. body i b = Inr b' \<and> reporting b' \<and> K b'"
    and K_calls: "K b \<Longrightarrow> K (b\<lparr>b_calls := cs\<rparr>)"
begin

lemma entries_total:
  "J b \<Longrightarrow> K b \<Longrightarrow> reporting b \<Longrightarrow> 0 \<le> b_done b \<Longrightarrow> b_done b + int m \<le> ops_limit \<Longrightarrow> 0 \<le> i \<Longrightarrow> i + int m \<le> ops_limit \<Longrightarrow>
   \<exists>b'. entries body i m b = Inr b' \<and> reporting b' \<and> K b'"
proof (induction m arbitrary: i b)
  case (Suc m)
  obtain c where c: "body i b = Inr c" "reporting c" "K c" using body_total [of b i] Suc.prems by auto
  then have "J c" "b_done c = b_done b + 1" using body_calls [OF Suc.prems(1) _ c(1)] Suc.prems by auto
  then show ?case using Suc.IH [of c "i + 1"] Suc.prems c by simp
qed simp

lemma batches_total:
  assumes ok: "lib_ok E" and e: "0 < e"
  shows "J b \<Longrightarrow> K b \<Longrightarrow> reporting b \<Longrightarrow> 0 \<le> b_done b \<Longrightarrow> b_done b + (n - i) + e \<le> ops_limit \<Longrightarrow> 0 \<le> i \<Longrightarrow> n + e \<le> ops_limit \<Longrightarrow>
   \<exists>b'. batches E fl body e i n b = Inr b'"
proof (induction "nat (n - i)" arbitrary: i b rule: less_induct)
  case less
  show ?case
  proof (cases "i < n")
    case True
    obtain c where c: "begin_trans E fl e b = Inr c" using trans_total [OF ok] by blast
    note c' = begin_trans_Inr [OF c]
    have cJ: "J c" "K c" "reporting c" using c' J_calls K_calls less.prems by (auto simp: reporting_def)
    obtain d where d: "entries body i (nat e) c = Inr d" "reporting d" "K d"
      using entries_total [OF cJ, of "nat e" i] less.prems True e c' by auto
    note d' = entries_calls [OF cJ(1) less.prems(6) d(1)]
    obtain f where f: "end_trans E fl e d = Inr f" using trans_total [OF ok] by blast
    note f' = end_trans_Inr [OF f]
    have fJ: "J f" "K f" "reporting f" using f' J_calls K_calls d d' by (auto simp: reporting_def)
    have "b_done f = b_done b + e" using f' d' c' e by auto
    then have "\<exists>b'. batches E fl body e (i + e) n f = Inr b'"
      using less.hyps [of "i + e" f] fJ less.prems True e by auto
    moreover have "is_int (i + e)" using less.prems True e by (auto simp: is_int_def ops_limit_def)
    ultimately show ?thesis using True e c d f by (simp add: batches.simps [of E fl body e i])
  qed (simp add: batches.simps [of E fl body e i])
qed

end

section \<open>Writing and reading\<close>

definition write_calls :: "cstring \<times> cstring \<Rightarrow> sql_call list" where
  "write_calls kv = [Bind Replace_Stmt 1 (fst kv), Bind Replace_Stmt 2 (snd kv), Step Replace_Stmt,
     Clear_Bindings Replace_Stmt, Reset Replace_Stmt]"

text \<open>The number of the key: the running number, or some number below \<open>n\<close>.\<close>

definition key_for :: "bool \<Rightarrow> int \<Rightarrow> int \<Rightarrow> cstring \<Rightarrow> bool" where
  "key_for random n i key = (if random then \<exists>k. 0 \<le> k \<and> k < n \<and> key = decimal16 k else key = decimal16 i)"

text \<open>What the loops keep.\<close>

definition running :: "int \<Rightarrow> int \<Rightarrow> bool \<Rightarrow> 'd bench \<Rightarrow> bool" where
  "running N M rep b = (b_num b = N \<and> b_reads b = M \<and> b_open b \<and> (rep \<longrightarrow> b_done b < b_next_report b))"

lemma running_calls: "running N M rep b \<Longrightarrow> running N M rep (b\<lparr>b_calls := cs\<rparr>)"
  by (simp add: running_def)

lemma length_key16: "is_int k \<Longrightarrow> 0 \<le> k \<Longrightarrow> length (decimal16 k) = 16"
  using decimal16_key [of k] by (simp add: is_int_def)

lemma next_key_Inr:
  assumes "next_key random i n b = Inr (k, c)" "0 \<le> i" "is_int n" "0 < n \<or> \<not> random"
  shows "0 \<le> k \<and> is_int k \<and> (if random then k < n else k = i) \<and> (\<exists>s. c = b\<lparr>b_rand := s\<rparr>)"
proof (cases random)
  case True
  then show ?thesis
    using assms pos_mod_bound [of n "int (unat (fst (rand_next (b_rand b))))"]
      pos_mod_sign [of n "int (unat (fst (rand_next (b_rand b))))"]
    by (auto simp: next_key_def Let_def case_prod_beta is_int_def)
next
  case False
  then have "k = i \<and> is_int i \<and> c = b" using assms(1) by (auto simp: next_key_def split: if_splits)
  then show ?thesis using assms(2) False by (auto intro: exI [of _ "b_rand b"])
qed

lemma write_entry_calls:
  assumes run: "write_entry E fl random n vs i b = Inr b'" and b: "running N M rep b" and i: "0 \<le> i"
    and n: "is_int n" "0 < n"
  shows "running N M rep b' \<and> b_done b' = b_done b + 1 \<and>
    (\<exists>kv. key_for random n i (fst kv) \<and> b_calls b' = b_calls b @ write_calls kv)"
proof -
  obtain v g k c where v: "gen_value vs (b_gen b) = Inr (v, g)" "next_key random i n (b\<lparr>b_gen := g\<rparr>) = Inr (k, c)"
    using run by (auto simp: write_entry_def Let_def bnd_eq_Inr)
  have k: "0 \<le> k" "is_int k" "if random then k < n else k = i" and c: "\<exists>s. c = b\<lparr>b_gen := g, b_rand := s\<rparr>"
    using next_key_Inr [OF v(2) i n(1)] n(2) by auto
  have len: "length (decimal16 k) = 16" using length_key16 k by simp
  obtain d where d: "finished_single_op E fl d = Inr b'" "b_calls d = b_calls b @ write_calls (decimal16 k, v)"
    "b_num d = b_num b" "b_reads d = b_reads b" "b_open d = b_open b" "b_done d = b_done b" "b_next_report d = b_next_report b"
    using run v c len by (auto simp: write_entry_def Let_def call_Inr write_calls_def)
  have "key_for random n i (fst (decimal16 k, v))" using k by (cases random) (auto simp: key_for_def)
  then show ?thesis
    using finished_single_op_frame [OF d(1)] d(2-) b by (auto simp: running_def)
qed

definition read_calls :: "cstring \<times> nat \<Rightarrow> sql_call list" where
  "read_calls kr = Bind Read_Stmt 1 (fst kr) # replicate (Suc (snd kr)) (Step Read_Stmt) @
     [Clear_Bindings Read_Stmt, Reset Read_Stmt]"

lemma step_rows_calls:
  "step_rows E fuel b = Inr (st, b') \<Longrightarrow> \<exists>r. b' = b\<lparr>b_calls := b_calls b @ replicate (Suc r) (Step Read_Stmt)\<rparr>"
proof (induction fuel arbitrary: b)
  case (Suc fuel)
  let ?c = "b\<lparr>b_calls := b_calls b @ [Step Read_Stmt]\<rparr>"
  show ?case
  proof (cases "e_answer E (b_calls b) (Step Read_Stmt) = SQLITE_ROW")
    case True
    then obtain r where "b' = ?c\<lparr>b_calls := b_calls ?c @ replicate (Suc r) (Step Read_Stmt)\<rparr>"
      using Suc.IH [of ?c] Suc.prems by (auto simp: call_def)
    then show ?thesis by (auto intro!: exI [of _ "Suc r"])
  next
    case False
    then show ?thesis using Suc.prems by (auto simp: call_def intro!: exI [of _ 0])
  qed
qed simp

lemma read_entry_calls:
  assumes run: "read_entry E fl random i b = Inr b'" and b: "running N M rep b" and i: "0 \<le> i"
    and n: "is_int M" "0 < M"
  shows "running N M rep b' \<and> b_bytes b' = b_bytes b \<and> b_done b' = b_done b + 1 \<and>
    (\<exists>kr. key_for random M i (fst kr) \<and> b_calls b' = b_calls b @ read_calls kr)"
proof -
  have M: "b_reads b = M" using b by (simp add: running_def)
  obtain k c where v: "next_key random i M b = Inr (k, c)" using run by (auto simp: read_entry_def bnd_eq_Inr M)
  have k: "0 \<le> k" "is_int k" "if random then k < M else k = i" and c: "\<exists>s. c = b\<lparr>b_rand := s\<rparr>"
    using next_key_Inr [OF v i n(1)] n(2) by auto
  have len: "length (decimal16 k) = 16" using length_key16 k by simp
  obtain d r where d: "finished_single_op E fl d = Inr b'" "b_calls d = b_calls b @ read_calls (decimal16 k, r)"
    "b_num d = b_num b" "b_reads d = b_reads b" "b_open d = b_open b" "b_done d = b_done b" "b_next_report d = b_next_report b"
    "b_bytes d = b_bytes b"
  proof -
    obtain st e where e: "step_rows E (e_rows E) (c\<lparr>b_calls := b_calls c @ [Bind Read_Stmt 1 (decimal16 k)]\<rparr>) = Inr (st, e)"
      using run v len by (auto simp: read_entry_def M call_Inr)
    then obtain r where r: "e = c\<lparr>b_calls := b_calls c @ Bind Read_Stmt 1 (decimal16 k) # replicate (Suc r) (Step Read_Stmt)\<rparr>"
      using step_rows_calls [OF e] by auto
    show thesis
      by (rule that [of "c\<lparr>b_calls := b_calls c @ read_calls (decimal16 k, r)\<rparr>" r])
        (use run v len e r c in \<open>auto simp: read_entry_def M call_Inr read_calls_def\<close>)
  qed
  have "key_for random M i (fst (decimal16 k, r))" using k by (cases random) (auto simp: key_for_def)
  then show ?thesis
    using finished_single_op_frame [OF d(1)] d(2-) b by (auto simp: running_def)
qed

text \<open>Both bodies implement the interface.\<close>

interpretation writes: entry_loop "write_entry E fl random n vs" write_calls "\<lambda>i kv. key_for random n i (fst kv)"
    "\<lambda>b. running N M rep b \<and> is_int n \<and> 0 < n"
  for E :: "'d env" and fl random n vs N M rep
  by unfold_locales (use write_entry_calls running_calls in blast)+

interpretation reads: entry_loop "read_entry E fl random" read_calls "\<lambda>i kr. key_for random M i (fst kr)"
    "\<lambda>b. running N M rep b \<and> b_bytes b = B \<and> is_int M \<and> 0 < M"
  for E :: "'d env" and fl random N M rep B
  by unfold_locales (use read_entry_calls in blast, simp add: running_calls)

definition gen_room :: "int \<Rightarrow> 'd bench \<Rightarrow> bool" where
  "gen_room vs b = (gen_ok (b_gen b) \<and> 0 \<le> vs \<and> nat vs < g_size (b_gen b))"

lemma gen_value_total:
  assumes "gen_ok g" "0 \<le> vs" "nat vs < g_size g"
  shows "\<exists>v g'. gen_value vs g = Inr (v, g') \<and> gen_ok g' \<and> g_size g' = g_size g"
  using assms by (auto simp: gen_value_def rand_gen_generate_def gen_ok_def Let_def)

lemma next_key_total: "i < ops_limit \<Longrightarrow> 0 \<le> i \<Longrightarrow> \<exists>k s. next_key random i n b = Inr (k, b\<lparr>b_rand := s\<rparr>)"
proof (cases random)
  case False
  assume "i < ops_limit" "0 \<le> i"
  then have "next_key random i n b = Inr (i, b\<lparr>b_rand := b_rand b\<rparr>)"
    using False by (simp add: next_key_def is_int_def ops_limit_def)
  then show ?thesis by blast
qed (auto simp: next_key_def Let_def case_prod_beta)

lemma write_entry_total:
  assumes lib: "lib_ok E" and raw: "\<not> f_raw fl" and room: "gen_room vs b"
    and r: "reporting b" "0 \<le> b_done b" "b_done b < ops_limit" and i: "0 \<le> i" "i < ops_limit"
  shows "\<exists>b'. write_entry E fl random n vs i b = Inr b' \<and> reporting b' \<and> gen_room vs b'"
proof -
  obtain v g where g: "gen_value vs (b_gen b) = Inr (v, g)" "gen_ok g" "g_size g = g_size (b_gen b)"
    using gen_value_total [of "b_gen b" vs] room by (auto simp: gen_room_def)
  obtain k s where k: "next_key random i n (b\<lparr>b_gen := g\<rparr>) = Inr (k, b\<lparr>b_gen := g, b_rand := s\<rparr>)"
    using next_key_total [OF i(2,1), of random n "b\<lparr>b_gen := g\<rparr>"] by auto
  obtain d where d: "write_entry E fl random n vs i b = finished_single_op E fl d" "b_gen d = g" "b_done d = b_done b"
      "b_next_report d = b_next_report b"
    using g(1) k by (auto simp: write_entry_def Let_def lib_ok_calls [OF lib])
  have "reporting d" "0 \<le> b_done d" "b_done d < ops_limit" using d r by (simp_all add: reporting_def)
  from finished_single_op_total [OF raw this, of E] d(1,2) show ?thesis
    using room g by (auto simp: gen_room_def)
qed

lemma step_rows_total:
  assumes lib: "lib_ok E" and fuel: "2 \<le> fuel"
  shows "\<exists>r. step_rows E fuel b = Inr (SQLITE_DONE, b\<lparr>b_calls := b_calls b @ replicate (Suc r) (Step Read_Stmt)\<rparr>)"
proof -
  obtain f where f: "fuel = Suc (Suc f)" using fuel by (metis Suc_le_D numeral_2_eq_2 Suc_le_mono)
  have "e_answer E (b_calls b) (Step Read_Stmt) = SQLITE_DONE \<or> e_answer E (b_calls b) (Step Read_Stmt) = SQLITE_ROW \<and>
      e_answer E (b_calls b @ [Step Read_Stmt]) (Step Read_Stmt) = SQLITE_DONE"
    using lib by (simp add: lib_ok_def)
  then show ?thesis unfolding f
    by (elim disjE) (auto simp: call_def SQLITE_DONE_def SQLITE_ROW_def intro: exI [of _ 0] exI [of _ 1])
qed

lemma read_entry_total:
  assumes lib: "lib_ok E" and fuel: "2 \<le> e_rows E" and raw: "\<not> f_raw fl"
    and r: "reporting b" "0 \<le> b_done b" "b_done b < ops_limit" and i: "0 \<le> i" "i < ops_limit"
  shows "\<exists>b'. read_entry E fl random i b = Inr b' \<and> reporting b'"
proof -
  obtain k s where k: "next_key random i (b_reads b) b = Inr (k, b\<lparr>b_rand := s\<rparr>)"
    using next_key_total [OF i(2,1)] by blast
  let ?c = "b\<lparr>b_rand := s, b_calls := b_calls b @ [Bind Read_Stmt 1 (take 16 (decimal16 k))]\<rparr>"
  obtain n where n: "step_rows E (e_rows E) ?c = Inr (SQLITE_DONE, ?c\<lparr>b_calls := b_calls ?c @ replicate (Suc n) (Step Read_Stmt)\<rparr>)"
    using step_rows_total [OF lib fuel] by blast
  obtain d where d: "read_entry E fl random i b = finished_single_op E fl d" "b_done d = b_done b"
      "b_next_report d = b_next_report b"
    using k n by (auto simp: read_entry_def lib_ok_calls [OF lib] step_error_check_def)
  have "reporting d" "0 \<le> b_done d" "b_done d < ops_limit" using d r by (simp_all add: reporting_def)
  from finished_single_op_total [OF raw this, of E] d(1) show ?thesis by auto
qed

interpretation writes_total: entry_total "write_entry E fl random n vs" write_calls "\<lambda>i kv. key_for random n i (fst kv)"
    "\<lambda>b. running N M rep b \<and> is_int n \<and> 0 < n \<and> lib_ok E \<and> \<not> f_raw fl" "gen_room vs"
  for E :: "'d env" and fl random n vs N M rep
  by unfold_locales
    (use write_entry_calls running_calls in blast, use running_calls in blast, use write_entry_total in blast, simp add: gen_room_def)

interpretation reads_total: entry_total "read_entry E fl random" read_calls "\<lambda>i kr. key_for random M i (fst kr)"
    "\<lambda>b. running N M rep b \<and> b_bytes b = B \<and> is_int M \<and> 0 < M \<and> lib_ok E \<and> 2 \<le> e_rows E \<and> \<not> f_raw fl" "\<lambda>_. True"
  for E :: "'d env" and fl random N M rep B
  by unfold_locales
    (use read_entry_calls in blast, simp add: running_calls, use read_entry_total in blast, simp)

section \<open>The calls of a run\<close>

definition write_prologue :: "bool \<Rightarrow> sql_call list" where
  "write_prologue sync = [Exec (Some (str (if sync then ''PRAGMA synchronous = FULL'' else ''PRAGMA synchronous = OFF''))),
     Prepare Replace_Stmt (str ''REPLACE INTO test (key, value) VALUES (?, ?)''),
     Prepare Begin_Stmt (str ''BEGIN TRANSACTION''), Prepare End_Stmt (str ''END TRANSACTION'')]"

definition batches_of :: "int \<Rightarrow> int \<Rightarrow> int" where
  "batches_of n e = (if 0 < n then (n + e - 1) div e else 0)"

text \<open>What a write does before and after its loop.\<close>

lemma benchmark_write_parts:
  assumes "benchmark_write E fl sync random EXISTING n vs e b = Inr b'"
  shows "\<exists>c d. b_calls c = b_calls b @ write_prologue sync \<and> b_num c = b_num b \<and> b_reads c = b_reads b \<and> b_open c = b_open b \<and>
      b_done c = b_done b \<and> b_next_report c = b_next_report b \<and>
      batches E fl (write_entry E fl random n vs) e 0 n c = Inr d \<and>
      b' = d\<lparr>b_calls := b_calls d @ [Finalize Replace_Stmt, Finalize Begin_Stmt, Finalize End_Stmt]\<rparr>"
proof -
  define c where "c = (if n \<noteq> b_num b then b\<lparr>b_message := str ''('' @ decimal n @ str '' ops)''\<rparr> else b)\<lparr>
    b_calls := b_calls b @ write_prologue sync\<rparr>"
  have c: "b_calls c = b_calls b @ write_prologue sync" "b_num c = b_num b" "b_reads c = b_reads b" "b_open c = b_open b"
    "b_done c = b_done b" "b_next_report c = b_next_report b" by (simp_all add: c_def)
  obtain d where "batches E fl (write_entry E fl random n vs) e 0 n c = Inr d"
      "b' = d\<lparr>b_calls := b_calls d @ [Finalize Replace_Stmt, Finalize Begin_Stmt, Finalize End_Stmt]\<rparr>"
    using assms by (cases "n = b_num b") (auto simp: benchmark_write_def call_Inr c_def write_prologue_def)
  then show ?thesis using c by blast
qed

lemma length_concat_same: "\<forall>xs \<in> set xss. length xs = m \<Longrightarrow> length (concat xss) = m * length xss"
  by (induction xss) auto

text \<open>
  C28. Whatever the library answers, a write of n entries that returns has made exactly these calls: the
  pragma, the three preparations, then ceil(n / e) batches of e entries each, every batch in a
  transaction of its own when batches have more than one entry and transactions are on, then the
  three finalizations. In sequential order the keys are the numbers from 0 in 16 digits, at random
  they lie below n; so a write in batches of 1000 may insert up to 999 more entries than n. Every
  entry is counted, and the next report always lies ahead.
\<close>

theorem write_trace:
  assumes run: "benchmark_write E fl sync random EXISTING n vs e b = Inr b'"
    and e: "0 < e" and n: "is_int n" and b: "b_open b" "b_done b < b_next_report b"
  shows "\<exists>kvss. b_calls b' = b_calls b @ write_prologue sync @ concat (map (batch write_calls fl e) kvss) @
      [Finalize Replace_Stmt, Finalize Begin_Stmt, Finalize End_Stmt] \<and>
    int (length kvss) = batches_of n e \<and> (\<forall>kvs \<in> set kvss. int (length kvs) = e) \<and>
    (if random then \<forall>kv \<in> set (concat kvss). \<exists>k. 0 \<le> k \<and> k < n \<and> fst kv = decimal16 k
     else map fst (concat kvss) = map decimal16 [0..e * batches_of n e - 1]) \<and>
    b_done b' = b_done b + e * batches_of n e \<and> b_done b' < b_next_report b' \<and> b_num b' = b_num b \<and> b_reads b' = b_reads b"
proof -
  obtain c d where c: "b_calls c = b_calls b @ write_prologue sync" "b_num c = b_num b" "b_reads c = b_reads b"
      "b_open c = b_open b" "b_done c = b_done b" "b_next_report c = b_next_report b"
    and d: "batches E fl (write_entry E fl random n vs) e 0 n c = Inr d"
    and b': "b' = d\<lparr>b_calls := b_calls d @ [Finalize Replace_Stmt, Finalize Begin_Stmt, Finalize End_Stmt]\<rparr>"
    using benchmark_write_parts [OF run] by blast
  show ?thesis
  proof (cases "0 < n")
    case False
    then have "d = c" using d by (simp add: batches.simps [of E fl _ e 0])
    then show ?thesis using b' c b False by (intro exI [of _ "[]"]) (simp add: batches_of_def)
  next
    case True
    have J: "running (b_num b) (b_reads b) True c \<and> is_int n \<and> 0 < n" using c b n True by (simp add: running_def)
    obtain kvss where k: "list_all2 (\<lambda>i kv. key_for random n i (fst kv)) [0..int (length (concat kvss)) - 1] (concat kvss)"
      "\<forall>kvs \<in> set kvss. length kvs = nat e" "int (length kvss) = batches_of n e"
      "b_done d = b_done c + int (length (concat kvss))" "b_calls d = b_calls c @ concat (map (batch write_calls fl e) kvss)"
      "running (b_num b) (b_reads b) True d"
      using writes.batches_calls [OF e J _ d] True by (auto simp: batches_of_def)
    have len: "int (length (concat kvss)) = e * batches_of n e"
      using length_concat_same [OF k(2)] k(3) e by simp
    have "if random then \<forall>kv \<in> set (concat kvss). \<exists>k. 0 \<le> k \<and> k < n \<and> fst kv = decimal16 k
      else map fst (concat kvss) = map decimal16 [0..e * batches_of n e - 1]"
    proof (cases random)
      case True
      then show ?thesis using k(1) unfolding key_for_def list_all2_conv_all_nth all_set_conv_all_nth by simp
    next
      case False
      then show ?thesis using k(1) unfolding len key_for_def
        by (auto simp: list_all2_conv_all_nth intro!: nth_equalityI)
    qed
    then show ?thesis using k len b' c e by (intro exI [of _ kvss]) (auto simp: running_def)
  qed
qed

definition read_prologue :: "sql_call list" where
  "read_prologue = [Prepare Begin_Stmt (str ''BEGIN TRANSACTION''), Prepare End_Stmt (str ''END TRANSACTION''),
     Prepare Read_Stmt (str ''SELECT * FROM test WHERE key = ?'')]"

lemma benchmark_read_parts:
  "benchmark_read E fl random e b = Inr b' \<Longrightarrow>
   \<exists>d. batches E fl (read_entry E fl random) e 0 (b_reads b) (b\<lparr>b_calls := b_calls b @ read_prologue\<rparr>) = Inr d \<and>
     b' = d\<lparr>b_calls := b_calls d @ [Finalize Read_Stmt, Finalize Begin_Stmt, Finalize End_Stmt]\<rparr>"
  by (auto simp: benchmark_read_def call_Inr read_prologue_def)

lemma read_trace:
  assumes run: "benchmark_read E fl random e b = Inr b'"
    and e: "0 < e" and n: "is_int (b_reads b)" "0 < b_reads b" and b: "b_open b" "b_done b < b_next_report b"
  shows "\<exists>krss. b_calls b' = b_calls b @ read_prologue @ concat (map (batch read_calls fl e) krss) @
      [Finalize Read_Stmt, Finalize Begin_Stmt, Finalize End_Stmt] \<and>
    int (length krss) = batches_of (b_reads b) e \<and> (\<forall>krs \<in> set krss. int (length krs) = e) \<and>
    list_all2 (\<lambda>i kr. key_for random (b_reads b) i (fst kr)) [0..e * batches_of (b_reads b) e - 1] (concat krss) \<and>
    b_done b' = b_done b + e * batches_of (b_reads b) e \<and> b_done b' < b_next_report b' \<and> b_num b' = b_num b \<and>
    b_reads b' = b_reads b \<and> b_open b' \<and> b_bytes b' = b_bytes b"
proof -
  let ?c = "b\<lparr>b_calls := b_calls b @ read_prologue\<rparr>"
  obtain d where d: "batches E fl (read_entry E fl random) e 0 (b_reads b) ?c = Inr d"
    and b': "b' = d\<lparr>b_calls := b_calls d @ [Finalize Read_Stmt, Finalize Begin_Stmt, Finalize End_Stmt]\<rparr>"
    using benchmark_read_parts [OF run] by blast
  have J: "running (b_num b) (b_reads b) True ?c \<and> b_bytes ?c = b_bytes b \<and> is_int (b_reads b) \<and> 0 < b_reads b" using b n by (simp add: running_def)
  obtain krss where k: "list_all2 (\<lambda>i kr. key_for random (b_reads b) i (fst kr)) [0..int (length (concat krss)) - 1] (concat krss)"
    "\<forall>krs \<in> set krss. length krs = nat e" "int (length krss) = batches_of (b_reads b) e"
    "b_done d = b_done b + int (length (concat krss))"
    "b_calls d = b_calls b @ read_prologue @ concat (map (batch read_calls fl e) krss)"
    "running (b_num b) (b_reads b) True d" "b_bytes d = b_bytes b"
    using reads.batches_calls [OF e J _ d] n(2) by (auto simp: batches_of_def)
  have "int (length (concat krss)) = e * batches_of (b_reads b) e" using length_concat_same [OF k(2)] k(3) e by simp
  then show ?thesis using k b' e by (intro exI [of _ krss]) (auto simp: running_def)
qed

section \<open>Runs that come to their end\<close>

lemma write_returns:
  assumes lib: "lib_ok E" and raw: "\<not> f_raw fl" and gen: "gen_room vs b" and e: "0 < e"
    and n: "0 < n" "n + e \<le> ops_limit" and b: "b_open b" "b_done b = 0" "b_next_report b = 100"
  shows "\<exists>b'. benchmark_write E fl sync random EXISTING n vs e b = Inr b'"
proof -
  define c where "c = (if n \<noteq> b_num b then b\<lparr>b_message := str ''('' @ decimal n @ str '' ops)''\<rparr> else b)\<lparr>
    b_calls := b_calls b @ write_prologue sync\<rparr>"
  have i: "is_int n" using n e by (simp add: is_int_def ops_limit_def)
  have c: "running (b_num b) (b_reads b) True c \<and> is_int n \<and> 0 < n \<and> lib_ok E \<and> \<not> f_raw fl" "gen_room vs c" "reporting c"
      "b_done c = 0"
    using b lib raw gen i n by (simp_all add: c_def running_def gen_room_def reporting_def)
  obtain d where d: "batches E fl (write_entry E fl random n vs) e 0 n c = Inr d"
    using writes_total.batches_total [OF lib e c(1,2,3), of n 0] c(4) n by auto
  have "benchmark_write E fl sync random EXISTING n vs e b =
      Inr (d\<lparr>b_calls := b_calls d @ [Finalize Replace_Stmt, Finalize Begin_Stmt, Finalize End_Stmt]\<rparr>)"
    using d by (cases "n = b_num b") (simp_all add: benchmark_write_def lib_ok_calls [OF lib] c_def write_prologue_def)
  then show ?thesis by blast
qed

lemma read_returns:
  assumes lib: "lib_ok E" and rows: "2 \<le> e_rows E" and raw: "\<not> f_raw fl" and e: "0 < e"
    and n: "0 < b_reads b" "b_reads b + e \<le> ops_limit" and b: "b_open b" "b_done b = 0" "b_next_report b = 100"
  shows "\<exists>b'. benchmark_read E fl random e b = Inr b'"
proof -
  let ?c = "b\<lparr>b_calls := b_calls b @ read_prologue\<rparr>"
  have i: "is_int (b_reads b)" using n e by (simp add: is_int_def ops_limit_def)
  have c: "running (b_num b) (b_reads b) True ?c \<and> b_bytes ?c = b_bytes b \<and> is_int (b_reads b) \<and> 0 < b_reads b \<and> lib_ok E \<and> 2 \<le> e_rows E \<and> \<not> f_raw fl"
      "True" "reporting ?c"
    using b lib raw rows i n by (simp_all add: running_def reporting_def)
  obtain d where d: "batches E fl (read_entry E fl random) e 0 (b_reads b) ?c = Inr d"
    using reads_total.batches_total [OF lib e c, of "b_reads b" 0] b n by auto
  then have "benchmark_read E fl random e b =
      Inr (d\<lparr>b_calls := b_calls d @ [Finalize Read_Stmt, Finalize Begin_Stmt, Finalize End_Stmt]\<rparr>)"
    by (simp add: benchmark_read_def lib_ok_calls [OF lib] read_prologue_def)
  then show ?thesis by blast
qed

definition open_calls :: "'d flags \<Rightarrow> cstring \<Rightarrow> int \<Rightarrow> sql_call list" where
  "open_calls fl db n =
     [Config, Open (take 99 (db @ str ''dbbench_sqlite3-'' @ decimal n @ str ''.db'')),
      Exec (Some (str ''PRAGMA cache_size = '' @ decimal (f_num_pages fl)))] @
     (if f_page_size fl \<noteq> 1024 then [Exec (Some (str ''PRAGMA page_size = '' @ decimal (f_page_size fl)))] else []) @
     (if f_WAL_enabled fl then [Exec (Some (str ''PRAGMA journal_mode = WAL'')),
        Exec (Some (str ''PRAGMA wal_autocheckpoint = 4096''))] else []) @
     [Exec (Some (str ''PRAGMA locking_mode = EXCLUSIVE'')),
      Exec (Some (str ''CREATE TABLE test (key blob, value blob, PRIMARY KEY (key))'')), Exec None]"

lemma open_returns:
  assumes "lib_ok E" "\<not> b_open b" "is_int (b_db_num b + 1)" "f_db fl = Some db"
  shows "benchmark_open E fl b = Inr (b\<lparr>b_db_num := b_db_num b + 1, b_open := True,
    b_calls := b_calls b @ open_calls fl db (b_db_num b + 1)\<rparr>)"
  using assms(2-) by (simp add: benchmark_open_def Let_def lib_ok_calls [OF assms(1)] open_calls_def)

section \<open>A small run\<close>

text \<open>A library that always succeeds and whose table is empty, a generator of eight bytes.\<close>

definition demo_env :: "int env" where
  "demo_env = \<lparr>e_F = int_fp, e_answer = \<lambda>_ c. (case c of Step _ \<Rightarrow> 101 | _ \<Rightarrow> 0), e_now = int, e_room = \<lambda>_. True,
     e_pad = \<lambda>n. replicate n 0, e_scale = \<lambda>_. 50, e_stale = [], e_rate = \<lambda>_ _. [], e_rows = 2\<rparr>"

definition demo_flags :: "int flags" where
  "demo_flags = (init_flags int_fp)\<lparr>f_benchmarks := [], f_db := Some (str ''./'')\<rparr>"

definition demo_bench :: "int bench" where
  "demo_bench = \<lparr>b_open = False, b_db_num = 0, b_num = 3, b_reads = 3, b_start = 0, b_last_op_finish = 0, b_bytes = 0,
     b_message = [], b_hist = histogram_clear int_fp, b_raw = \<lparr>r_data = None, r_size = 0, r_pos = 0\<rparr>,
     b_gen = \<lparr>g_data = [65, 66, 67, 68, 69, 70, 71, 72], g_size = 8, g_pos = 0\<rparr>, b_rand = 301, b_done = 0,
     b_next_report = 100, b_ticks = 0, b_calls = [], b_removed = []\<rparr>"

lemma demo_lib_ok: "lib_ok demo_env"
  by (auto simp: lib_ok_def demo_env_def SQLITE_OK_def SQLITE_DONE_def split: sql_call.split)

theorem write_trace_witness:
  "\<exists>b' kvss. benchmark_write demo_env demo_flags False False EXISTING 3 2 2 (demo_bench\<lparr>b_open := True\<rparr>) = Inr b' \<and>
    b_calls b' = write_prologue False @ concat (map (batch write_calls demo_flags 2) kvss) @
      [Finalize Replace_Stmt, Finalize Begin_Stmt, Finalize End_Stmt] \<and>
    map fst (concat kvss) = map decimal16 [0, 1, 2, 3] \<and> b_done b' = 4"
proof -
  let ?b = "demo_bench\<lparr>b_open := True\<rparr>"
  obtain b' where run: "benchmark_write demo_env demo_flags False False EXISTING 3 2 2 ?b = Inr b'"
    using write_returns [OF demo_lib_ok, of demo_flags 2 ?b 2 3 False False]
    by (auto simp: demo_flags_def init_flags_def demo_bench_def gen_room_def gen_ok_def ops_limit_def)
  have "[0..3] = [0, 1, 2, 3 :: int]" by (simp add: upto_rec1)
  then show ?thesis
    using write_trace [OF run] run by (auto simp: is_int_def demo_bench_def batches_of_def)
qed

end
