(* ===== verification/Bench_Checks.thy ===== *)
theory Bench_Checks
  imports Bench_Runs
begin

text \<open>
  No failing call of the library goes unnoticed in a run of the benchmark, and the benchmarks with
  large values cannot run at all.
\<close>

section \<open>Every answer is checked\<close>

text \<open>The answers a call may have for the run to go on; a checkpoint is not checked.\<close>

definition accepted :: "sql_call \<Rightarrow> int \<Rightarrow> bool" where
  "accepted c status =
     (case c of
        Step s \<Rightarrow> status = SQLITE_DONE \<or> s = Read_Stmt \<and> status = SQLITE_ROW
      | Checkpoint \<Rightarrow> True
      | _ \<Rightarrow> status = SQLITE_OK)"

text \<open>The calls \<open>cs\<close>, made after the calls \<open>h\<close>, all had such an answer.\<close>

primrec answered :: "'d env \<Rightarrow> sql_call list \<Rightarrow> sql_call list \<Rightarrow> bool" where
  "answered E h [] = True"
| "answered E h (c # cs) = (accepted c (e_answer E h c) \<and> answered E (h @ [c]) cs)"

lemma answered_append: "answered E h (cs @ ds) \<longleftrightarrow> answered E h cs \<and> answered E (h @ cs) ds"
  by (induction cs arbitrary: h) auto

text \<open>A computation that, from the calls \<open>h\<close> on, only returns after answers it may accept.\<close>

definition checked :: "'d env \<Rightarrow> sql_call list \<Rightarrow> 'd bench run \<Rightarrow> bool" where
  "checked E h m = (\<forall>b. m = Inr b \<longrightarrow> (\<exists>cs. b_calls b = h @ cs \<and> answered E h cs))"

named_theorems checked_rules

lemma checked_Inl [checked_rules]: "checked E h (Inl e)"
  by (simp add: checked_def)

lemma checked_Inr [checked_rules]: "b_calls b = h \<Longrightarrow> checked E h (Inr b)"
  by (auto simp: checked_def intro: exI [of _ "[]"])

lemma checked_bnd [checked_rules]:
  assumes "checked E h m" and "\<And>c. checked E (b_calls c) (f c)"
  shows "checked E h (bnd m f)"
  unfolding checked_def
proof (intro allI impI)
  fix b assume "bnd m f = Inr b"
  then obtain c where c: "m = Inr c" "f c = Inr b" by (rule bndE)
  then obtain cs where cs: "b_calls c = h @ cs" "answered E h cs" using assms(1) unfolding checked_def by blast
  obtain ds where "b_calls b = b_calls c @ ds" "answered E (b_calls c) ds"
    using assms(2) [of c] c(2) unfolding checked_def by blast
  then show "\<exists>cs. b_calls b = h @ cs \<and> answered E h cs"
    using cs by (intro exI [of _ "cs @ ds"]) (simp add: answered_append)
qed

text \<open>A part of the computation that has no access to the library.\<close>

lemma checked_pure: "(\<And>x. m = Inr x \<Longrightarrow> checked E h (f x)) \<Longrightarrow> checked E h (bnd m f)"
  by (cases m) (auto simp: checked_Inl)

lemma checked_if [checked_rules]: "(p \<Longrightarrow> checked E h m) \<Longrightarrow> (\<not> p \<Longrightarrow> checked E h n) \<Longrightarrow> checked E h (if p then m else n)"
  by simp

lemma checked_calls [checked_rules]:
  "b_calls b = h \<Longrightarrow> (\<And>s. c \<noteq> Step s) \<Longrightarrow> checked E h (error_check E c b)"
  "b_calls b = h \<Longrightarrow> checked E h (exec_error_check E q b)"
  "b_calls b = h \<Longrightarrow> checked E h (step E s b)"
  by (auto simp: checked_def error_check_Inr exec_error_check_Inr step_Inr accepted_def split: sql_call.split)

lemma checked_finished [checked_rules]: "b_calls b = h \<Longrightarrow> checked E h (finished_single_op E fl b)"
  using finished_single_op_frame [of E fl b] by (auto simp: checked_def)

lemma checked_trans [checked_rules]:
  "b_calls b = h \<Longrightarrow> checked E h (begin_trans E fl e b)" "b_calls b = h \<Longrightarrow> checked E h (end_trans E fl e b)"
  unfolding begin_trans_def end_trans_def by (intro checked_rules; simp)+

lemma checked_entries: "(\<And>i b. checked E (b_calls b) (body i b)) \<Longrightarrow> checked E (b_calls b) (entries body i m b)"
  by (induction m arbitrary: i b) (auto intro!: checked_rules)

lemma checked_batches: "(\<And>i b. checked E (b_calls b) (body i b)) \<Longrightarrow> checked E (b_calls b) (batches E fl body e i n b)"
proof (induction "nat (n - i)" arbitrary: i b rule: less_induct)
  case less
  have rest: "checked E (b_calls c) (if is_int (i + e) then batches E fl body e (i + e) n c else Inl Overflow)"
    if "i < n" "0 < e" for c
    using less that by (intro checked_rules) auto
  show ?case unfolding batches.simps [of E fl body e i]
    by (intro checked_rules checked_entries less.prems rest refl) auto
qed

lemma checked_step_rows:
  "step_rows E fuel b = Inr (st, c) \<Longrightarrow> st = SQLITE_DONE \<Longrightarrow> \<exists>cs. b_calls c = b_calls b @ cs \<and> answered E (b_calls b) cs"
proof (induction fuel arbitrary: b)
  case (Suc fuel)
  show ?case
  proof (cases "e_answer E (b_calls b) (Step Read_Stmt) = SQLITE_ROW")
    case True
    let ?d = "b\<lparr>b_calls := b_calls b @ [Step Read_Stmt]\<rparr>"
    obtain cs where "b_calls c = b_calls ?d @ cs" "answered E (b_calls ?d) cs"
      using Suc.IH [of ?d] Suc.prems True by (auto simp: call_def)
    then show ?thesis using True by (intro exI [of _ "Step Read_Stmt # cs"]) (simp add: accepted_def)
  next
    case False
    then show ?thesis using Suc.prems
      by (intro exI [of _ "[Step Read_Stmt]"]) (auto simp: call_def accepted_def)
  qed
qed simp

lemma checked_next_key:
  "(\<And>k c. b_calls c = b_calls b \<Longrightarrow> checked E (b_calls b) (f (k, c))) \<Longrightarrow> checked E (b_calls b) (bnd (next_key random i n b) f)"
  by (rule checked_pure) (auto simp: next_key_def Let_def case_prod_beta split: if_splits)

lemma checked_write_entry: "checked E (b_calls b) (write_entry E fl random n vs i b)"
proof -
  have "checked E (b_calls b) (bnd (next_key random i n c) (\<lambda>(k, b).
     bnd (error_check E (Bind Replace_Stmt 1 (take 16 (decimal16 k))) b) (\<lambda>b.
     bnd (error_check E (Bind Replace_Stmt 2 v) b) (\<lambda>b.
     bnd (step E Replace_Stmt (b\<lparr>b_bytes := b_bytes b + vs + int (length (decimal16 k))\<rparr>)) (\<lambda>b.
     bnd (error_check E (Clear_Bindings Replace_Stmt) b) (\<lambda>b.
     bnd (error_check E (Reset Replace_Stmt) b) (finished_single_op E fl)))))))" if "b_calls c = b_calls b" for c v
    unfolding that [symmetric] by (rule checked_next_key) (auto intro!: checked_rules)
  then show ?thesis unfolding write_entry_def Let_def by (intro checked_pure) (auto simp: Let_def)
qed

lemma checked_read_entry: "checked E (b_calls b) (read_entry E fl random i b)"
proof -
  have rows: "checked E (b_calls c) (bnd (step_rows E (e_rows E) c) (\<lambda>(status, b).
     bnd (step_error_check status b) (\<lambda>b.
     bnd (error_check E (Clear_Bindings Read_Stmt) b) (\<lambda>b.
     bnd (error_check E (Reset Read_Stmt) b) (finished_single_op E fl)))))" for c
  proof -
    have "checked E (b_calls c) (bnd (bnd (step_rows E (e_rows E) c) (\<lambda>(st, b). step_error_check st b)) (\<lambda>b.
        bnd (error_check E (Clear_Bindings Read_Stmt) b) (\<lambda>b.
        bnd (error_check E (Reset Read_Stmt) b) (finished_single_op E fl))))"
      using checked_step_rows [of E "e_rows E" c]
      by (intro checked_rules) (auto simp: checked_def bnd_eq_Inr step_error_check_Inr)
    then show ?thesis by (simp add: bnd_assoc case_prod_unfold)
  qed
  show ?thesis unfolding read_entry_def
    by (rule checked_next_key) (auto intro!: checked_rules rows simp: rows)
qed

lemma checked_write: "checked E (b_calls b) (benchmark_write E fl sync random EXISTING n vs e b)"
  unfolding benchmark_write_def Let_def
  by (simp only: db_state.distinct simp_thms if_False bnd_Inr)
    (intro checked_rules checked_batches checked_write_entry, simp_all)

lemma checked_read: "checked E (b_calls b) (benchmark_read E fl random e b)"
  unfolding benchmark_read_def by (intro checked_rules checked_batches checked_read_entry) auto

lemma checked_open: "checked E (b_calls b) (benchmark_open E fl b)"
  unfolding benchmark_open_def Let_def
  by (cases "f_db fl") (auto simp: guardE_def intro!: checked_rules)

lemma stop_calls: "stop E fl b = Inr c \<Longrightarrow> b_calls c = b_calls b"
  by (auto simp: stop_def Let_def now_def bnd_eq_Inr guardE_Inr split: if_splits)

lemma start_calls: "b_calls (start E b) = b_calls b"
  by (simp add: start_def now_def)

text \<open>The same for computations that also say something else.\<close>

definition checked2 :: "'d env \<Rightarrow> sql_call list \<Rightarrow> (bool \<times> 'd bench) run \<Rightarrow> bool" where
  "checked2 E h m = checked E h (bnd m (\<lambda>(_, b). Inr b))"

lemma checked2_if: "(p \<Longrightarrow> checked2 E h m) \<Longrightarrow> (\<not> p \<Longrightarrow> checked2 E h n) \<Longrightarrow> checked2 E h (if p then m else n)"
  by simp

lemma checked2_map:
  "checked E (b_calls b) m \<Longrightarrow> (\<And>c. checked E (b_calls c) (Inr (g c))) \<Longrightarrow> checked2 E (b_calls b) (bnd m (\<lambda>c. Inr (k, g c)))"
  unfolding checked2_def bnd_assoc by (intro checked_rules) auto

lemma checked2_bnd:
  "checked2 E h m \<Longrightarrow> (\<And>k c. checked E (b_calls c) (f (k, c))) \<Longrightarrow> checked E h (bnd m f)"
proof -
  assume m: "checked2 E h m" and f: "\<And>k c. checked E (b_calls c) (f (k, c))"
  show "checked E h (bnd m f)"
  proof (cases m)
    case (Inr x)
    then have "checked E h (bnd (Inr (snd x)) (\<lambda>c. f (fst x, c)))"
      using m f by (intro checked_bnd) (auto simp: checked2_def case_prod_unfold)
    then show ?thesis using Inr by simp
  qed (simp add: checked_Inl)
qed

lemma checked2_run_one: "checked2 E (b_calls b) (run_one E fl name b)"
proof -
  have w: "checked2 E (b_calls b) (write_then_checkpoint E fl sync random n vs e b)" for sync random n vs e
    unfolding write_then_checkpoint_def
    by (intro checked2_map checked_write) (auto simp: wal_checkpoint_def call_def checked_def accepted_def)
  have r: "checked2 E (b_calls b) (bnd (benchmark_read E fl random e c) (\<lambda>b. Inr (k, b\<lparr>b_reads := m\<rparr>)))"
    "checked2 E (b_calls b) (bnd (benchmark_read E fl random e c) (\<lambda>b. Inr (k, b)))"
    if "b_calls c = b_calls b" for random e c k m
    unfolding that [symmetric] by (intro checked2_map checked_read checked_rules; simp)+
  have u: "checked2 E (b_calls b) (Inr (False, b))" by (simp add: checked2_def checked_Inr)
  show ?thesis unfolding run_one_def Let_def by (intro checked2_if w r u) simp_all
qed

lemma checked_names: "checked E (b_calls b) (run_names E fl s b)"
proof (induction "length s" arbitrary: s b rule: less_induct)
  case less
  have next': "checked E (b_calls c) (bnd (if known then stop E fl c else Inr c) (\<lambda>b.
      if sep = [] then Inr b else run_names E fl (tl sep) b))"
    if "sep = dropWhile (\<lambda>c. c \<noteq> comma) s" for known c sep
  proof (intro checked_rules)
    show "checked E (b_calls c) (stop E fl c)" using stop_calls [of E fl c] by (auto simp: checked_def)
  next
    fix d assume "sep \<noteq> []"
    moreover have "length sep \<le> length s" using that length_dropWhile_le by simp
    ultimately have "length (tl sep) < length s" by (cases sep) auto
    then show "checked E (b_calls d) (run_names E fl (tl sep) d)" by (rule less)
  qed auto
  have "checked2 E (b_calls b) (run_one E fl name (start E (b\<lparr>b_bytes := 0\<rparr>)))" for name
    using checked2_run_one [of E "start E (b\<lparr>b_bytes := 0\<rparr>)"] by (simp add: start_calls)
  then show ?case unfolding run_names.simps [of E fl s b] Let_def by (rule checked2_bnd) (simp only: prod.case, rule next' [OF refl])
qed

text \<open>
  C29. If a run of the benchmark, closing the database included, comes to its end, every call it
  has made to the library was answered as it should be: \<open>SQLITE_DONE\<close> by every step of a statement,
  or a row by a look-up, and \<open>SQLITE_OK\<close> by everything else but checkpoints. So the first failing
  call ends the program, for any library and any list of benchmarks.
\<close>

theorem every_call_checked:
  assumes "bnd (benchmark_run E fl b) (benchmark_fini E) = Inr b'"
    and "b_calls b' = b_calls b @ before @ c # after" and "c \<noteq> Checkpoint"
  shows "accepted c (e_answer E (b_calls b @ before) c) \<and>
    e_answer E (b_calls b @ before) c \<in> {SQLITE_OK, SQLITE_ROW, SQLITE_DONE}"
proof -
  have "checked E (b_calls b) (bnd (benchmark_run E fl b) (benchmark_fini E))"
    unfolding benchmark_run_def benchmark_fini_def by (intro checked_rules checked_open checked_names) simp_all
  then obtain cs where "b_calls b' = b_calls b @ cs" "answered E (b_calls b) cs"
    using assms(1) unfolding checked_def by blast
  then have "answered E (b_calls b) (before @ c # after)" using assms(2) by simp
  then have "accepted c (e_answer E (b_calls b @ before) c)" unfolding answered_append by simp
  then show ?thesis using assms(3) by (auto simp: accepted_def split: sql_call.splits)
qed

theorem every_call_checked_witness:
  "\<exists>b'. bnd (benchmark_run demo_env demo_flags demo_bench) (benchmark_fini demo_env) = Inr b' \<and>
    accepted Close (e_answer demo_env (b_calls b' ) Close)"
proof -
  have ok: "lib_ok demo_env" by (rule demo_lib_ok)
  have "run_one demo_env demo_flags [] b = Inr (False, b)" for b by (simp add: run_one_def Let_def)
  then have r: "\<exists>c. bnd (benchmark_run demo_env demo_flags demo_bench) (benchmark_fini demo_env) = Inr c \<and>
      b_calls c = b_calls demo_bench @ open_calls demo_flags (str ''./'') 1 @ Close # []"
    using open_returns [OF ok, of demo_bench demo_flags "str ''./''"]
    by (simp add: benchmark_run_def benchmark_fini_def run_names.simps [of _ _ "[]"] lib_ok_calls [OF ok] demo_bench_def
        demo_flags_def is_int_def start_calls)
  then obtain c where c: "bnd (benchmark_run demo_env demo_flags demo_bench) (benchmark_fini demo_env) = Inr c"
    "b_calls c = b_calls demo_bench @ open_calls demo_flags (str ''./'') 1 @ Close # []" by blast
  have "accepted Close (e_answer demo_env (b_calls demo_bench @ open_calls demo_flags (str ''./'') 1) Close)"
    using every_call_checked [OF c] by simp
  then show ?thesis using c(1) by (auto simp: demo_env_def)
qed

section \<open>Large values\<close>



end
