(* ===== verification/Rootserver.thy ===== *)
theory Rootserver
  imports Bench_Checks
begin

text \<open>
  The root server, rootserver/src/main.c: what the three processes are given before they start.
  The seL4 libraries are parameters: the slot a copied capability gets in a process, the address
  of the initial data in a process, the stack. Bootstrapping of the allocator and the address
  space, and printing, are left out. A library call that returns an object is assumed to succeed.
\<close>

section \<open>Processes and what they share\<close>

datatype process = Ramdisk_P | Fs_P | App_P

datatype configuration = TEST_NORMAL | TEST_POLL | TEST_UINTR

text \<open>
  Capabilities of the root server that are copied to processes: the page directory and the thread
  of a process, endpoints, notification objects (the last one a badged copy), untyped memory.
\<close>

datatype cap =
    Page_Dir process
  | Thread process
  | App_Fs_Ep
  | Fs_Ram_Ep
  | App_Uintr
  | Fs_Uintr
  | Ram_Uintr
  | Badged_Fs_Uintr
  | Untyped u64

text \<open>Shared memory: which one, and the offset into it. Every process sees it at its own address.\<close>

datatype region = App_Fs_Buf | Fs_Ram_Buf
datatype pointer = Null | In region nat

record init_data =
  i_stack_pages :: nat
  i_stack :: u64
  i_page_directory :: u64
  i_tcb :: u64
  i_cspace_size_bits :: nat
  i_free_start :: u64
  i_free_end :: u64
  i_magic :: nat
  i_client_buf :: pointer
  i_server_buf :: pointer
  i_client_lk :: pointer
  i_server_lk :: pointer
  i_client_ep :: u64
  i_server_ep :: u64
  i_client_uintr :: u64
  i_server_uintr :: u64

record untyped_desc =
  d_is_device :: bool
  d_size_bits :: u64

record bootinfo =
  untyped_start :: u64
  untyped_end :: u64
  untyped_list :: "untyped_desc list"

text \<open>
  \<open>e_slot p k\<close> is the slot of the \<open>k\<close>th capability copied to \<open>p\<close>, \<open>e_init_vaddr p\<close> the address of
  the initial data in \<open>p\<close>, \<open>e_lock_size\<close> is \<open>sizeof(struct spinlock)\<close>.
\<close>

record root_env =
  e_bootinfo :: bootinfo
  e_slot :: "process \<Rightarrow> nat \<Rightarrow> u64"
  e_init_vaddr :: "process \<Rightarrow> nat"
  e_stack_size :: nat
  e_stack_top :: "process \<Rightarrow> u64"
  e_lock_size :: nat

record root =
  r_init :: "process \<Rightarrow> init_data"
  r_caps :: "process \<Rightarrow> cap list"
  r_allocated :: "nat \<Rightarrow> bool"
  r_locks :: "pointer list"
  r_bound :: "(process \<times> cap) list"
  r_spawned :: "(process \<times> cstring list) list"

section \<open>Operations\<close>

definition CSPACE_SIZE_BITS :: nat where "CSPACE_SIZE_BITS = 17"

definition copy_cap :: "root_env \<Rightarrow> process \<Rightarrow> cap \<Rightarrow> root \<Rightarrow> u64 \<times> root" where
  "copy_cap E p c r = (e_slot E p (length (r_caps r p)), r\<lparr>r_caps := (r_caps r)(p := r_caps r p @ [c])\<rparr>)"

definition upd_init :: "process \<Rightarrow> (init_data \<Rightarrow> init_data) \<Rightarrow> root \<Rightarrow> root" where
  "upd_init p f r = r\<lparr>r_init := (r_init r)(p := f (r_init r p))\<rparr>"

definition config_app :: "root_env \<Rightarrow> process \<Rightarrow> root \<Rightarrow> root" where
  "config_app E p r =
     (let r = upd_init p (\<lambda>i. i\<lparr>i_stack_pages := e_stack_size E div 4096,
                i_stack := e_stack_top E p - of_nat (e_stack_size E)\<rparr>) r;
          (pd, r) = copy_cap E p (Page_Dir p) r;
          r = upd_init p (\<lambda>i. i\<lparr>i_page_directory := pd\<rparr>) r;
          (tcb, r) = copy_cap E p (Thread p) r
      in upd_init p (\<lambda>i. i\<lparr>i_tcb := tcb, i_cspace_size_bits := CSPACE_SIZE_BITS, i_free_start := tcb + 3,
           i_free_end := push_bit CSPACE_SIZE_BITS 1, i_magic := 0xdeadbeef\<rparr>) r)"

text \<open>
  The loop over the slots, whose index is \<open>slot - start\<close>; it makes \<open>end - start\<close> turns whatever the
  two are. No memory of the size gives the null capability.
\<close>

definition alloc_untyped_turn ::
    "root_env \<Rightarrow> process \<Rightarrow> u64 \<Rightarrow> nat \<Rightarrow> root \<Rightarrow> (u64 option \<times> root) run" where
  "alloc_untyped_turn E p size_bits k r =
     (if length (untyped_list (e_bootinfo E)) \<le> k then Inl Overrun
      else let desc = untyped_list (e_bootinfo E) ! k in
        if \<not> d_is_device desc \<and> d_size_bits desc = size_bits \<and> \<not> r_allocated r k then
          let (slot, r) = copy_cap E p (Untyped (untyped_start (e_bootinfo E) + of_nat k)) (r\<lparr>r_allocated := (r_allocated r)(k := True)\<rparr>)
          in Inr (Some slot, r)
        else Inr (None, r))"

definition alloc_untyped :: "root_env \<Rightarrow> process \<Rightarrow> u64 \<Rightarrow> root \<Rightarrow> (u64 \<times> root) run" where
  "alloc_untyped E p size_bits r =
     bnd (for_upto (alloc_untyped_turn E p size_bits) 0 (unat (untyped_end (e_bootinfo E) - untyped_start (e_bootinfo E))) r)
       (\<lambda>(slot, r). Inr (case slot of Some s \<Rightarrow> s | None \<Rightarrow> 0, r))"

definition share_buffers :: "root \<Rightarrow> root" where
  "share_buffers r =
     (let r = upd_init App_P (\<lambda>i. i\<lparr>i_client_buf := Null, i_server_buf := In App_Fs_Buf 0\<rparr>) r;
          r = upd_init Fs_P (\<lambda>i. i\<lparr>i_client_buf := In App_Fs_Buf 0\<rparr>) r;
          r = upd_init Fs_P (\<lambda>i. i\<lparr>i_server_buf := In Fs_Ram_Buf 0\<rparr>) r
      in upd_init Ramdisk_P (\<lambda>i. i\<lparr>i_client_buf := In Fs_Ram_Buf 0, i_server_buf := Null\<rparr>) r)"

definition connect_normal :: "root_env \<Rightarrow> root \<Rightarrow> root" where
  "connect_normal E r =
     (let (c, r) = copy_cap E Ramdisk_P Fs_Ram_Ep r;
          r = upd_init Ramdisk_P (\<lambda>i. i\<lparr>i_client_ep := c, i_server_ep := 0\<rparr>) r;
          (c, r) = copy_cap E Fs_P App_Fs_Ep r;
          r = upd_init Fs_P (\<lambda>i. i\<lparr>i_client_ep := c\<rparr>) r;
          (c, r) = copy_cap E Fs_P Fs_Ram_Ep r;
          r = upd_init Fs_P (\<lambda>i. i\<lparr>i_server_ep := c\<rparr>) r;
          (c, r) = copy_cap E App_P App_Fs_Ep r
      in upd_init App_P (\<lambda>i. i\<lparr>i_client_ep := 0, i_server_ep := c\<rparr>) r)"

primrec advance :: "nat \<Rightarrow> pointer \<Rightarrow> pointer" where
  "advance n Null = Null"
| "advance n (In m k) = In m (k + n)"

definition connect_poll :: "root_env \<Rightarrow> root \<Rightarrow> root" where
  "connect_poll E r =
     (let r = upd_init App_P (\<lambda>i. i\<lparr>i_client_lk := Null, i_server_lk := i_server_buf i\<rparr>) r;
          r = upd_init Fs_P (\<lambda>i. i\<lparr>i_client_lk := i_client_buf i\<rparr>) r;
          r = upd_init App_P (\<lambda>i. i\<lparr>i_server_buf := advance (e_lock_size E) (i_server_buf i)\<rparr>) r;
          r = upd_init Fs_P (\<lambda>i. i\<lparr>i_client_buf := advance (e_lock_size E) (i_client_buf i)\<rparr>) r;
          r = r\<lparr>r_locks := r_locks r @ [i_server_lk (r_init r App_P)]\<rparr>;
          r = upd_init Fs_P (\<lambda>i. i\<lparr>i_server_lk := i_server_buf i\<rparr>) r;
          r = upd_init Ramdisk_P (\<lambda>i. i\<lparr>i_client_lk := i_client_buf i, i_server_lk := Null\<rparr>) r;
          r = upd_init Fs_P (\<lambda>i. i\<lparr>i_server_buf := advance (e_lock_size E) (i_server_buf i)\<rparr>) r;
          r = upd_init Ramdisk_P (\<lambda>i. i\<lparr>i_client_buf := advance (e_lock_size E) (i_client_buf i)\<rparr>) r
      in r\<lparr>r_locks := r_locks r @ [i_server_lk (r_init r Fs_P)]\<rparr>)"

definition connect_uintr :: "root_env \<Rightarrow> root \<Rightarrow> root" where
  "connect_uintr E r =
     (let (c, r) = copy_cap E Ramdisk_P Badged_Fs_Uintr r;
          r = upd_init Ramdisk_P (\<lambda>i. i\<lparr>i_client_uintr := c, i_server_uintr := 0\<rparr>) r;
          (c, r) = copy_cap E Fs_P App_Uintr r;
          r = upd_init Fs_P (\<lambda>i. i\<lparr>i_client_uintr := c\<rparr>) r;
          (c, r) = copy_cap E Fs_P Ram_Uintr r;
          r = upd_init Fs_P (\<lambda>i. i\<lparr>i_server_uintr := c\<rparr>) r;
          (c, r) = copy_cap E App_P Fs_Uintr r;
          r = upd_init App_P (\<lambda>i. i\<lparr>i_client_uintr := 0, i_server_uintr := c\<rparr>) r
      in r\<lparr>r_bound := r_bound r @ [(App_P, App_Uintr), (Fs_P, Fs_Uintr), (Ramdisk_P, Ram_Uintr)]\<rparr>)"

definition spawn :: "process \<Rightarrow> cstring list \<Rightarrow> root \<Rightarrow> root" where
  "spawn p argv r = r\<lparr>r_spawned := r_spawned r @ [(p, argv)]\<rparr>"

definition word_arg :: "nat \<Rightarrow> cstring" where "word_arg n = digits n"

definition app_argv :: "nat \<Rightarrow> cstring list" where
  "app_argv init = [str ''./sqlite-bench'', str ''--benchmarks=readrandom'', str ''--num=1000'', word_arg init]"

definition connected :: "root_env \<Rightarrow> configuration \<Rightarrow> root \<Rightarrow> root" where
  "connected E conf r =
     (let r = config_app E Ramdisk_P r; r = config_app E Fs_P r; r = config_app E App_P r; r = share_buffers r
      in case conf of TEST_NORMAL \<Rightarrow> connect_normal E r | TEST_POLL \<Rightarrow> connect_poll E r | TEST_UINTR \<Rightarrow> connect_uintr E r)"

definition main_continued :: "root_env \<Rightarrow> configuration \<Rightarrow> root \<Rightarrow> root run" where
  "main_continued E conf r =
     bnd (alloc_untyped E Ramdisk_P 25 (connected E conf r)) (\<lambda>(ramdisk, r).
     let r = upd_init Ramdisk_P (\<lambda>i. i\<lparr>i_free_start := i_free_start i + 1\<rparr>) r;
         r = spawn Ramdisk_P [str ''./ramdisk'', word_arg (e_init_vaddr E Ramdisk_P), word_arg (unat ramdisk)] r;
         r = spawn Fs_P [str ''./xv6fs'', word_arg (e_init_vaddr E Fs_P)] r
     in Inr (spawn App_P (app_argv (e_init_vaddr E App_P)) r))"

section \<open>Untyped memory\<close>

definition fits :: "root_env \<Rightarrow> u64 \<Rightarrow> root \<Rightarrow> nat \<Rightarrow> bool" where
  "fits E size_bits r k = (\<not> d_is_device (untyped_list (e_bootinfo E) ! k) \<and>
     d_size_bits (untyped_list (e_bootinfo E) ! k) = size_bits \<and> \<not> r_allocated r k)"

definition bootinfo_ok :: "root_env \<Rightarrow> bool" where
  "bootinfo_ok E = (unat (untyped_end (e_bootinfo E) - untyped_start (e_bootinfo E)) \<le> length (untyped_list (e_bootinfo E)))"

lemma alloc_untyped_first:
  assumes "bootinfo_ok E"
  shows "alloc_untyped E p size_bits r =
    (case scan (fits E size_bits r) 0 (unat (untyped_end (e_bootinfo E) - untyped_start (e_bootinfo E))) of
       None \<Rightarrow> Inr (0, r)
     | Some k \<Rightarrow> Inr (copy_cap E p (Untyped (untyped_start (e_bootinfo E) + of_nat k)) (r\<lparr>r_allocated := (r_allocated r)(k := True)\<rparr>)))"
proof -
  let ?n = "unat (untyped_end (e_bootinfo E) - untyped_start (e_bootinfo E))"
  let ?F = "\<lambda>k r. Inr (let (slot, r) = copy_cap E p (Untyped (untyped_start (e_bootinfo E) + of_nat k))
      (r\<lparr>r_allocated := (r_allocated r)(k := True)\<rparr>) in (Some slot, r)) :: (u64 option \<times> root) run"
  have "\<exists>t. t = r \<and> for_upto (alloc_untyped_turn E p size_bits) 0 ?n r =
      (case scan (fits E size_bits r) 0 ?n of None \<Rightarrow> Inr (None, t) | Some k \<Rightarrow> ?F k t)"
    by (rule for_upto_scan [where S = "\<lambda>t. t = r"])
      (use assms in \<open>auto simp: alloc_untyped_turn_def fits_def bootinfo_ok_def Let_def case_prod_unfold\<close>)
  then show ?thesis by (auto simp: alloc_untyped_def case_prod_unfold Let_def split: option.split)
qed

lemma main_continued_shape:
  fixes r :: root and conf :: configuration
  assumes ok: "bootinfo_ok E"
  defines "s \<equiv> connected E conf r"
  shows "\<exists>r' us slot. main_continued E conf r = Inr r' \<and>
    r_caps r' = (r_caps s)(Ramdisk_P := r_caps s Ramdisk_P @ us) \<and> length us \<le> 1 \<and> (\<forall>u \<in> set us. \<exists>c. u = Untyped c) \<and>
    slot = (if us = [] then 0 else e_slot E Ramdisk_P (length (r_caps s Ramdisk_P))) \<and>
    r_init r' = (r_init s)(Ramdisk_P := (r_init s Ramdisk_P)\<lparr>i_free_start := i_free_start (r_init s Ramdisk_P) + 1\<rparr>) \<and>
    r_locks r' = r_locks s \<and> r_bound r' = r_bound s \<and>
    r_spawned r' = r_spawned s @ [(Ramdisk_P, [str ''./ramdisk'', word_arg (e_init_vaddr E Ramdisk_P), word_arg (unat slot)]),
      (Fs_P, [str ''./xv6fs'', word_arg (e_init_vaddr E Fs_P)]), (App_P, app_argv (e_init_vaddr E App_P))]"
proof (cases "scan (fits E 25 s) 0 (unat (untyped_end (e_bootinfo E) - untyped_start (e_bootinfo E)))")
  case None
  then show ?thesis unfolding main_continued_def s_def [symmetric]
    by (simp add: alloc_untyped_first [OF ok] upd_init_def spawn_def Let_def, intro exI [of _ "[]"], simp)
next
  case (Some k)
  then show ?thesis unfolding main_continued_def s_def [symmetric]
    by (simp add: alloc_untyped_first [OF ok] upd_init_def spawn_def Let_def copy_cap_def,
        intro exI [of _ "[Untyped (untyped_start (e_bootinfo E) + word_of_nat k)]"], simp)
qed

section \<open>What the processes are given\<close>

definition names :: "root_env \<Rightarrow> root \<Rightarrow> process \<Rightarrow> u64 \<Rightarrow> cap \<Rightarrow> bool" where
  "names E r p slot c = (\<exists>k < length (r_caps r p). slot = e_slot E p k \<and> r_caps r p ! k = c)"

text \<open>The library copies capabilities to consecutive slots.\<close>

definition slots_ok :: "root_env \<Rightarrow> bool" where
  "slots_ok E = (\<forall>p. unat (e_slot E p 0) + 8 < 2 ^ 17 \<and> (\<forall>k. e_slot E p k = e_slot E p 0 + of_nat k))"

definition channels_ok :: "configuration \<Rightarrow> root_env \<Rightarrow> root \<Rightarrow> bool" where
  "channels_ok conf E r =
     (case conf of
        TEST_NORMAL \<Rightarrow>
          names E r App_P (i_server_ep (r_init r App_P)) App_Fs_Ep \<and> names E r Fs_P (i_client_ep (r_init r Fs_P)) App_Fs_Ep \<and>
          names E r Fs_P (i_server_ep (r_init r Fs_P)) Fs_Ram_Ep \<and> names E r Ramdisk_P (i_client_ep (r_init r Ramdisk_P)) Fs_Ram_Ep
      | TEST_POLL \<Rightarrow>
          i_server_lk (r_init r App_P) = In App_Fs_Buf 0 \<and> i_client_lk (r_init r Fs_P) = In App_Fs_Buf 0 \<and>
          i_server_lk (r_init r Fs_P) = In Fs_Ram_Buf 0 \<and> i_client_lk (r_init r Ramdisk_P) = In Fs_Ram_Buf 0 \<and>
          r_locks r = [In App_Fs_Buf 0, In Fs_Ram_Buf 0]
      | TEST_UINTR \<Rightarrow>
          names E r App_P (i_server_uintr (r_init r App_P)) Fs_Uintr \<and> names E r Fs_P (i_client_uintr (r_init r Fs_P)) App_Uintr \<and>
          names E r Fs_P (i_server_uintr (r_init r Fs_P)) Ram_Uintr \<and>
          names E r Ramdisk_P (i_client_uintr (r_init r Ramdisk_P)) Badged_Fs_Uintr \<and>
          r_bound r = [(App_P, App_Uintr), (Fs_P, Fs_Uintr), (Ramdisk_P, Ram_Uintr)])"

lemmas connect_defs = connected_def config_app_def share_buffers_def connect_normal_def connect_poll_def connect_uintr_def
  copy_cap_def upd_init_def Let_def

definition blank :: "root \<Rightarrow> bool" where
  "blank r = (r_caps r = (\<lambda>_. []) \<and> r_locks r = [] \<and> r_bound r = [] \<and> r_spawned r = [])"

lemma connected_caps:
  assumes "blank r"
  shows "length (r_caps (connected E conf r) p) \<le> 4 \<and> length (r_caps (connected E conf r) Ramdisk_P) \<le> 3 \<and>
    i_free_start (r_init (connected E conf r) p) = e_slot E p 1 + 3 \<and>
    i_free_end (r_init (connected E conf r) p) = 131072"
  using assms by (cases conf; cases p) (simp_all add: connect_defs blank_def CSPACE_SIZE_BITS_def)

lemma connected_linked:
  assumes "blank r"
  shows "channels_ok conf E (connected E conf r)"
  using assms by (cases conf) (simp_all add: channels_ok_def connect_defs blank_def names_def Ex_less_Suc)

lemma linked_more:
  assumes "channels_ok conf E s" and caps: "\<And>p. \<exists>us. r_caps r p = r_caps s p @ us"
    and init: "\<And>p. r_init r p = r_init s p \<or> (\<exists>x. r_init r p = (r_init s p)\<lparr>i_free_start := x\<rparr>)" and "r_locks r = r_locks s" "r_bound r = r_bound s"
  shows "channels_ok conf E r"
proof -
  have n: "names E r p slot c" if nm: "names E s p slot c" for p slot c
  proof -
    obtain k where "k < length (r_caps s p)" "slot = e_slot E p k" "r_caps s p ! k = c"
      using nm unfolding names_def by blast
    then show ?thesis using caps [of p] by (auto simp: names_def nth_append intro!: exI [of _ k])
  qed
  have f: "i_server_ep (r_init r p) = i_server_ep (r_init s p)" "i_client_ep (r_init r p) = i_client_ep (r_init s p)"
    "i_server_lk (r_init r p) = i_server_lk (r_init s p)" "i_client_lk (r_init r p) = i_client_lk (r_init s p)"
    "i_server_uintr (r_init r p) = i_server_uintr (r_init s p)" "i_client_uintr (r_init r p) = i_client_uintr (r_init s p)" for p
    using init [of p] by auto
  show ?thesis using assms(1,4,5) n by (cases conf) (simp_all add: channels_ok_def f)
qed

lemma slot_below:
  assumes "slots_ok E" "k < m" "m \<le> 6"
  shows "unat (e_slot E p k) < unat (e_slot E p m)" "unat (e_slot E p m) \<le> 131072" "e_slot E p 1 + 3 = e_slot E p 4"
    "e_slot E p 4 + 1 = e_slot E p 5"
proof -
  have s: "unat (e_slot E p 0) + 8 < 2 ^ 17" "\<And>k. e_slot E p k = e_slot E p 0 + of_nat k"
    using assms(1) unfolding slots_ok_def by blast+
  have u: "unat (e_slot E p j) = unat (e_slot E p 0) + j" if "j \<le> 6" for j
  proof -
    have "unat (of_nat j :: u64) = j" using that by (simp add: unsigned_of_nat take_bit_nat_eq_self)
    then show ?thesis using s(1) that unfolding s(2) [of j] by (simp add: unat_word_ariths(1))
  qed
  show "unat (e_slot E p k) < unat (e_slot E p m)" "unat (e_slot E p m) \<le> 131072" using u [of k] u [of m] assms(2,3) s(1) by auto
  show "e_slot E p 1 + 3 = e_slot E p 4" "e_slot E p 4 + 1 = e_slot E p 5"
    unfolding s(2) [of 1] s(2) [of 4] s(2) [of 5] by (simp_all add: add.assoc)
qed

text \<open>
  C26. In each configuration the root server starts the ramdisk, the file system and the application in
  this order, with the ends of every channel matched: the two sides of a channel hold capabilities
  to the same endpoint or the notification the other one is bound to, and see the same shared memory
  at the same offset, behind the lock when they poll. The free slots a process is told about
  exclude every slot the root server has filled, and lie inside its capability space. The slots are
  assumed to be handed out one after the other.
\<close>

theorem processes_connected:
  assumes "bootinfo_ok E" "slots_ok E" "blank r"
  shows "\<exists>r'. main_continued E conf r = Inr r' \<and> channels_ok conf E r' \<and>
    i_server_buf (r_init r' App_P) = In App_Fs_Buf (if conf = TEST_POLL then e_lock_size E else 0) \<and>
    i_client_buf (r_init r' Fs_P) = i_server_buf (r_init r' App_P) \<and>
    i_server_buf (r_init r' Fs_P) = In Fs_Ram_Buf (if conf = TEST_POLL then e_lock_size E else 0) \<and>
    i_client_buf (r_init r' Ramdisk_P) = i_server_buf (r_init r' Fs_P) \<and>
    (\<forall>p. \<forall>k < length (r_caps r' p). unat (e_slot E p k) < unat (i_free_start (r_init r' p))) \<and>
    (\<forall>p. unat (i_free_start (r_init r' p)) \<le> unat (i_free_end (r_init r' p))) \<and>
    map fst (r_spawned r') = [Ramdisk_P, Fs_P, App_P] \<and> snd (last (r_spawned r')) = app_argv (e_init_vaddr E App_P)"
proof -
  let ?s = "connected E conf r"
  obtain r' us where r': "main_continued E conf r = Inr r'" "length us \<le> 1"
    "r_caps r' = (r_caps ?s)(Ramdisk_P := r_caps ?s Ramdisk_P @ us)"
    "r_init r' = (r_init ?s)(Ramdisk_P := (r_init ?s Ramdisk_P)\<lparr>i_free_start := i_free_start (r_init ?s Ramdisk_P) + 1\<rparr>)"
    "r_locks r' = r_locks ?s" "r_bound r' = r_bound ?s"
    "\<exists>a b. r_spawned r' = r_spawned ?s @ [(Ramdisk_P, a), (Fs_P, b), (App_P, app_argv (e_init_vaddr E App_P))]"
    using main_continued_shape [OF assms(1), of conf r] by blast
  have lk: "channels_ok conf E r'"
    by (rule linked_more [OF connected_linked [OF assms(3)]])
      (use r'(3-6) in auto)
  note caps = connected_caps [OF assms(3), of E conf]
  have bufs: "i_server_buf (r_init ?s App_P) = In App_Fs_Buf (if conf = TEST_POLL then e_lock_size E else 0)"
    "i_client_buf (r_init ?s Fs_P) = i_server_buf (r_init ?s App_P)"
    "i_server_buf (r_init ?s Fs_P) = In Fs_Ram_Buf (if conf = TEST_POLL then e_lock_size E else 0)"
    "i_client_buf (r_init ?s Ramdisk_P) = i_server_buf (r_init ?s Fs_P)" "r_spawned ?s = []"
    using assms(3) by (cases conf; simp add: connect_defs blank_def)+
  define m where "m p = (if p = Ramdisk_P then 5 else 4 :: nat)" for p
  have free: "i_free_start (r_init ?s p) = e_slot E p 4" for p
    using caps [of p] slot_below(3) [OF assms(2), of 0 1] by simp
  have start: "i_free_start (r_init r' p) = e_slot E p (m p)" for p
    using free r'(4) slot_below(4) [OF assms(2), of 0 1] by (simp add: m_def)
  have "length (r_caps r' p) \<le> m p" for p using caps [of p] r'(2,3) by (auto simp: m_def)
  then have below: "unat (e_slot E p k) < unat (i_free_start (r_init r' p))" if "k < length (r_caps r' p)" for p k
    unfolding start using that by (intro slot_below(1) [OF assms(2)]) (auto simp: m_def order_less_le_trans split: if_splits)
  have "i_free_end (r_init r' p) = 131072" for p using caps [of p] r'(4) by auto
  moreover have "unat (i_free_start (r_init r' p)) \<le> 131072" for p
    unfolding start by (rule slot_below(2) [OF assms(2), of 0]) (auto simp: m_def)
  ultimately show ?thesis using r'(1,4,7) lk bufs below by auto
qed

section \<open>The benchmark the root server starts\<close>

definition app_flags :: "'d fp \<Rightarrow> 'd flags" where
  "app_flags F = (init_flags F)\<lparr>f_benchmarks := str ''readrandom'', f_num := 1000, f_db := Some (str ''./'')\<rparr>"

lemma decimal_1000: "str ''1000'' = decimal 1000"
  by (simp add: decimal_def digits.simps of_char_def)

lemma app_argv_parsed: "parse_args F scan_d (app_argv init) = Inr (app_flags F)"
proof -
  have b: "set_option scan_d (str ''--benchmarks=readrandom'') f = Inr (f\<lparr>f_benchmarks := str ''readrandom''\<rparr>)" for f
    by (simp add: set_option_def)
  have e: "str ''--num=1000'' = str ''--num='' @ decimal 1000"
    using str_append [of "''--num=''" "''1000''"] by (simp only: append.simps decimal_1000 [symmetric])
  have n: "set_option scan_d (str ''--num=1000'') f = Inr (f\<lparr>f_num := 1000\<rparr>)" for f
    unfolding e by (simp add: option_simps of_char_def is_int_def)
  show ?thesis
    by (simp only: parse_args_def app_argv_def list.sel butlast.simps list.simps if_True if_False simp_thms
        set_options.simps b n bnd_Inr) (simp add: app_flags_def init_flags_def)
qed

lemma stop_without_bytes: "b_bytes b \<le> 0 \<Longrightarrow> \<exists>c. stop E fl b = Inr c \<and> b_calls c = b_calls b"
  by (auto simp: stop_def Let_def now_def)



definition demo_root_env :: root_env where
  "demo_root_env = \<lparr>e_bootinfo = \<lparr>untyped_start = 100, untyped_end = 102,
       untyped_list = [\<lparr>d_is_device = True, d_size_bits = 25\<rparr>, \<lparr>d_is_device = False, d_size_bits = 25\<rparr>]\<rparr>,
     e_slot = \<lambda>_ k. 10 + of_nat k, e_init_vaddr = \<lambda>_. 4096, e_stack_size = 65536, e_stack_top = \<lambda>_. 2147483648,
     e_lock_size = 8\<rparr>"

definition demo_root :: root where
  "demo_root = \<lparr>r_init = \<lambda>_. \<lparr>i_stack_pages = 0, i_stack = 0, i_page_directory = 0, i_tcb = 0, i_cspace_size_bits = 0,
       i_free_start = 0, i_free_end = 0, i_magic = 0, i_client_buf = Null, i_server_buf = Null, i_client_lk = Null,
       i_server_lk = Null, i_client_ep = 0, i_server_ep = 0, i_client_uintr = 0, i_server_uintr = 0\<rparr>,
     r_caps = \<lambda>_. [], r_allocated = \<lambda>_. False, r_locks = [], r_bound = [], r_spawned = []\<rparr>"

theorem processes_connected_witness:
  "\<exists>r'. main_continued demo_root_env TEST_UINTR demo_root = Inr r' \<and> channels_ok TEST_UINTR demo_root_env r' \<and>
    i_client_buf (r_init r' Fs_P) = i_server_buf (r_init r' App_P) \<and> map fst (r_spawned r') = [Ramdisk_P, Fs_P, App_P]"
proof -
  have "bootinfo_ok demo_root_env" "slots_ok demo_root_env" "blank demo_root"
    by (simp_all add: bootinfo_ok_def slots_ok_def blank_def demo_root_env_def demo_root_def)
  from processes_connected [OF this, of TEST_UINTR] show ?thesis by auto
qed

end
