(* ===== verification/Varint.thy ===== *)
theory Varint
  imports Fs_Prelude
begin

text \<open>
  The variable-length integers of the SQLite file format, sqlite3/src/sqlite3.c, the part that begins as
  util.c. Memory from \<open>p\<close> on is a function of the offset; the pointer that moves through it is written
  out as the offset it has reached.
\<close>

section \<open>Operations\<close>

definition SLOT_2_0 :: u32 where "SLOT_2_0 = 0x001fc07f"
definition SLOT_4_2_0 :: u32 where "SLOT_4_2_0 = 0xf01fc07f"

text \<open>The do-while loop of \<open>putVarint64\<close>: seven bits a byte, the lowest first.\<close>

function varint_groups :: "u64 \<Rightarrow> u8 list" where
  "varint_groups v =
     ucast ((v AND 0x7f) OR 0x80) # (if drop_bit 7 v \<noteq> 0 then varint_groups (drop_bit 7 v) else [])"
  by pat_completeness auto
termination
proof (relation "measure unat")
  fix v :: u64 assume "drop_bit 7 v \<noteq> 0"
  then have "0 < unat v" by (auto simp: unat_gt_0)
  then show "(drop_bit 7 v, v) \<in> measure unat"
    by (simp add: drop_bit_eq_div unat_div_distrib)
qed simp

declare varint_groups.simps [simp del]

definition putVarint64 :: "bytes \<Rightarrow> u64 \<Rightarrow> bytes \<times> nat" where
  "putVarint64 p v =
     (if v AND push_bit 32 0xff000000 \<noteq> 0 then
        (fst (fold (\<lambda>i (p, v). (p(i := ucast ((v AND 0x7f) OR 0x80)), drop_bit 7 v)) [7, 6, 5, 4, 3, 2, 1, 0]
               (p(8 := ucast v), drop_bit 8 v)), 9)
      else
        let buf = varint_groups v; n = length buf; buf = buf[0 := buf ! 0 AND 0x7f]
        in (fold (\<lambda>i p. p(i := buf ! (n - 1 - i))) [0..<n] p, n))"

definition sqlite3PutVarint :: "bytes \<Rightarrow> u64 \<Rightarrow> bytes \<times> nat" where
  "sqlite3PutVarint p v =
     (if v \<le> 0x7f then (p(0 := ucast (v AND 0x7f)), 1)
      else if v \<le> 0x3fff then
        (p(0 := ucast ((drop_bit 7 v AND 0x7f) OR 0x80), 1 := ucast (v AND 0x7f)), 2)
      else putVarint64 p v)"

text \<open>A byte is negative as a \<open>signed char\<close> when its highest bit is set.\<close>

definition sqlite3GetVarint :: "bytes \<Rightarrow> u64 \<times> nat" where
  "sqlite3GetVarint p =
    (if \<not> bit (p 0) 7 then (ucast (p 0), 1)
     else if \<not> bit (p 1) 7 then (ucast ((push_bit 7 (ucast (p 0 AND 0x7f)) :: u32) OR ucast (p 1)), 2)
     else
     let a = push_bit 14 (ucast (p 0)) :: u32; b = ucast (p 1) :: u32; a = a OR ucast (p 2) in
     if a AND 0x80 = 0 then
       let a = a AND SLOT_2_0; b = b AND 0x7f; b = push_bit 7 b; a = a OR b in (ucast a, 3)
     else
     let a = a AND SLOT_2_0; b = push_bit 14 b; b = b OR ucast (p 3) in
     if b AND 0x80 = 0 then
       let b = b AND SLOT_2_0; a = push_bit 7 a; a = a OR b in (ucast a, 4)
     else
     let b = b AND SLOT_2_0; s = a; a = push_bit 14 a; a = a OR ucast (p 4) in
     if a AND 0x80 = 0 then
       let b = push_bit 7 b; a = a OR b; s = drop_bit 18 s in (push_bit 32 (ucast s) OR ucast a, 5)
     else
     let s = push_bit 7 s; s = s OR b; b = push_bit 14 b; b = b OR ucast (p 5) in
     if b AND 0x80 = 0 then
       let a = a AND SLOT_2_0; a = push_bit 7 a; a = a OR b; s = drop_bit 18 s in (push_bit 32 (ucast s) OR ucast a, 6)
     else
     let a = push_bit 14 a; a = a OR ucast (p 6) in
     if a AND 0x80 = 0 then
       let a = a AND SLOT_4_2_0; b = b AND SLOT_2_0; b = push_bit 7 b; a = a OR b; s = drop_bit 11 s
       in (push_bit 32 (ucast s) OR ucast a, 7)
     else
     let a = a AND SLOT_2_0; b = push_bit 14 b; b = b OR ucast (p 7) in
     if b AND 0x80 = 0 then
       let b = b AND SLOT_4_2_0; a = push_bit 7 a; a = a OR b; s = drop_bit 4 s
       in (push_bit 32 (ucast s) OR ucast a, 8)
     else
     let a = push_bit 15 a; a = a OR ucast (p 8);
         b = b AND SLOT_2_0; b = push_bit 8 b; a = a OR b;
         s = push_bit 4 s; b = ucast (p 4); b = b AND 0x7f; b = drop_bit 3 b; s = s OR b
     in (push_bit 32 (ucast s) OR ucast a, 9))"

text \<open>With the single byte in front, which callers take care of with the macro.\<close>

definition sqlite3GetVarint32 :: "bytes \<Rightarrow> u32 \<times> nat" where
  "sqlite3GetVarint32 p =
    (let a = ucast (p 0) :: u32 in
     if a AND 0x80 = 0 then (a, 1)
     else
     let b = ucast (p 1) :: u32 in
     if b AND 0x80 = 0 then let a = a AND 0x7f; a = push_bit 7 a in (a OR b, 2)
     else
     let a = push_bit 14 a; a = a OR ucast (p 2) in
     if a AND 0x80 = 0 then
       let a = a AND (push_bit 14 0x7f OR 0x7f); b = b AND 0x7f; b = push_bit 7 b in (a OR b, 3)
     else
     let (v64, n) = sqlite3GetVarint p in
     (if v64 AND 0xffffffff \<noteq> v64 then 0xffffffff else ucast v64, n))"

text \<open>The loop of \<open>sqlite3VarintLen\<close> from \<open>i\<close> on.\<close>

function varint_len_from :: "u64 \<Rightarrow> nat \<Rightarrow> nat" where
  "varint_len_from v i = (if drop_bit 7 v \<noteq> 0 then varint_len_from (drop_bit 7 v) (i + 1) else i)"
  by pat_completeness auto
termination
proof (relation "measure (\<lambda>(v, i). unat v)")
  fix v :: u64 and i :: nat assume "drop_bit 7 v \<noteq> 0"
  then have "0 < unat v" by (auto simp: unat_gt_0)
  then show "((drop_bit 7 v, i + 1), v, i) \<in> measure (\<lambda>(v, i). unat v)"
    by (simp add: drop_bit_eq_div unat_div_distrib)
qed simp

declare varint_len_from.simps [simp del]

definition sqlite3VarintLen :: "u64 \<Rightarrow> nat" where
  "sqlite3VarintLen v = varint_len_from v 1"

section \<open>The format\<close>

text \<open>
  The format as its description has it: seven bits of each of the first eight bytes, as long as they
  have their flag set, and all eight of the ninth.
\<close>

fun varint_from :: "nat \<Rightarrow> bytes \<Rightarrow> u64 \<Rightarrow> nat \<Rightarrow> u64 \<times> nat" where
  "varint_from 0 p acc i = (push_bit 8 acc OR ucast (p i), i + 1)"
| "varint_from (Suc left) p acc i =
     (if bit (p i) 7 then varint_from left p (push_bit 7 acc OR ucast (p i AND 0x7f)) (i + 1)
      else (push_bit 7 acc OR ucast (p i), i + 1))"

definition varint_value :: "bytes \<Rightarrow> u64 \<times> nat" where
  "varint_value p = varint_from 8 p 0 0"

lemma bits_64: "[0..<64] = [0, 1, 2, 3, 4, 5, 6, 7, 8, 9, 10, 11, 12, 13, 14, 15, 16, 17, 18, 19, 20, 21, 22, 23, 24, 25, 26,
     27, 28, 29, 30, 31, 32, 33, 34, 35, 36, 37, 38, 39, 40, 41, 42, 43, 44, 45, 46, 47, 48, 49, 50, 51,
     52, 53, 54, 55, 56, 57, 58, 59, 60, 61, 62, 63]"
  by (simp add: upt_rec)

lemma word64_eq_iff: "(v :: u64) = w \<longleftrightarrow> list_all (\<lambda>n. bit v n = bit w n) [0, 1, 2, 3, 4, 5, 6, 7, 8, 9, 10, 11, 12, 13, 14, 15, 16, 17, 18, 19, 20, 21, 22, 23, 24, 25, 26,
     27, 28, 29, 30, 31, 32, 33, 34, 35, 36, 37, 38, 39, 40, 41, 42, 43, 44, 45, 46, 47, 48, 49, 50, 51,
     52, 53, 54, 55, 56, 57, 58, 59, 60, 61, 62, 63]"
  unfolding bits_64 [symmetric] by (auto simp: list_all_iff intro: bit_word_eqI)

lemma flag_clear: "(a :: u32) AND 0x80 = 0 \<longleftrightarrow> \<not> bit a 7"
proof -
  have "(0x80 :: u32) = push_bit 7 1" by simp
  then show ?thesis by (metis and_exp_eq_0_iff_not_bit push_bit_of_1)
qed

lemma byte_high: "8 \<le> n \<Longrightarrow> \<not> bit (b :: u8) n"
  by (simp add: bit_word.rep_eq bit_take_bit_iff)

lemma varint_step:
  "0 < left \<Longrightarrow> varint_from left p acc i =
     (if bit (p i) 7 then varint_from (left - 1) p (push_bit 7 acc OR ucast (p i AND 0x7f)) (i + 1)
      else (push_bit 7 acc OR ucast (p i), i + 1))"
  by (cases left) simp_all

lemmas unrolled_simps = sqlite3GetVarint_def varint_value_def varint_step Let_def flag_clear bit_simps byte_high
  SLOT_2_0_def SLOT_4_2_0_def word64_eq_iff numeral_2_eq_2 [symmetric]

lemma get_varint_1: "\<not> bit (p 0) 7 \<Longrightarrow> sqlite3GetVarint p = varint_value p"
  by (simp add: unrolled_simps)

lemma get_varint_2: "bit (p 0) 7 \<Longrightarrow> \<not> bit (p 1) 7 \<Longrightarrow> sqlite3GetVarint p = varint_value p"
  by (simp add: unrolled_simps)

lemma get_varint_3: "bit (p 0) 7 \<Longrightarrow> bit (p 1) 7 \<Longrightarrow> \<not> bit (p 2) 7 \<Longrightarrow> sqlite3GetVarint p = varint_value p"
  by (simp add: unrolled_simps)

lemma get_varint_4:
  "bit (p 0) 7 \<Longrightarrow> bit (p 1) 7 \<Longrightarrow> bit (p 2) 7 \<Longrightarrow> \<not> bit (p 3) 7 \<Longrightarrow>
   sqlite3GetVarint p = varint_value p"
  by (simp add: unrolled_simps)

lemma get_varint_5:
  "bit (p 0) 7 \<Longrightarrow> bit (p 1) 7 \<Longrightarrow> bit (p 2) 7 \<Longrightarrow> bit (p 3) 7 \<Longrightarrow> \<not> bit (p 4) 7 \<Longrightarrow>
   sqlite3GetVarint p = varint_value p"
  by (simp add: unrolled_simps)

lemma get_varint_6:
  "bit (p 0) 7 \<Longrightarrow> bit (p 1) 7 \<Longrightarrow> bit (p 2) 7 \<Longrightarrow> bit (p 3) 7 \<Longrightarrow> bit (p 4) 7 \<Longrightarrow> \<not> bit (p 5) 7 \<Longrightarrow>
   sqlite3GetVarint p = varint_value p"
  by (simp add: unrolled_simps)

lemma get_varint_7:
  "bit (p 0) 7 \<Longrightarrow> bit (p 1) 7 \<Longrightarrow> bit (p 2) 7 \<Longrightarrow> bit (p 3) 7 \<Longrightarrow> bit (p 4) 7 \<Longrightarrow> bit (p 5) 7 \<Longrightarrow> \<not> bit (p 6) 7 \<Longrightarrow>
   sqlite3GetVarint p = varint_value p"
  by (simp add: unrolled_simps)

lemma get_varint_8:
  "bit (p 0) 7 \<Longrightarrow> bit (p 1) 7 \<Longrightarrow> bit (p 2) 7 \<Longrightarrow> bit (p 3) 7 \<Longrightarrow> bit (p 4) 7 \<Longrightarrow> bit (p 5) 7 \<Longrightarrow> bit (p 6) 7 \<Longrightarrow> \<not> bit (p 7) 7 \<Longrightarrow>
   sqlite3GetVarint p = varint_value p"
  by (simp add: unrolled_simps)

lemma get_varint_9:
  "bit (p 0) 7 \<Longrightarrow> bit (p 1) 7 \<Longrightarrow> bit (p 2) 7 \<Longrightarrow> bit (p 3) 7 \<Longrightarrow> bit (p 4) 7 \<Longrightarrow> bit (p 5) 7 \<Longrightarrow> bit (p 6) 7 \<Longrightarrow> bit (p 7) 7 \<Longrightarrow>
   sqlite3GetVarint p = varint_value p"
  by (simp add: unrolled_simps)

lemma get_varint: "sqlite3GetVarint p = varint_value p"
  using get_varint_1 [of p] get_varint_2 [of p] get_varint_3 [of p] get_varint_4 [of p] get_varint_5 [of p]
    get_varint_6 [of p] get_varint_7 [of p] get_varint_8 [of p] get_varint_9 [of p] by blast

text \<open>The reader for 32 bits.\<close>

lemma bits_32: "[0..<32] = [0, 1, 2, 3, 4, 5, 6, 7, 8, 9, 10, 11, 12, 13, 14, 15, 16, 17, 18, 19, 20, 21, 22, 23, 24, 25, 26, 27,
     28, 29, 30, 31]"
  by (simp add: upt_rec)

lemma word32_eq_iff: "(v :: u32) = w \<longleftrightarrow> list_all (\<lambda>n. bit v n = bit w n) [0, 1, 2, 3, 4, 5, 6, 7, 8, 9, 10, 11, 12, 13, 14,
     15, 16, 17, 18, 19, 20, 21, 22, 23, 24, 25, 26, 27, 28, 29, 30, 31]"
  unfolding bits_32 [symmetric] by (auto simp: list_all_iff intro: bit_word_eqI)

lemma fits_32: "(v :: u64) AND 0xffffffff = v \<longleftrightarrow> unat v < 2 ^ 32"
proof -
  have "(0xffffffff :: u64) = mask 32" by (simp add: mask_eq_exp_minus_1)
  then have "v AND 0xffffffff = take_bit 32 v" by (simp add: take_bit_eq_mask)
  also have "\<dots> = v \<longleftrightarrow> unat v < 2 ^ 32"
    by (simp only: word_unat_eq_iff unsigned_take_bit_eq take_bit_nat_eq_self_iff)
  finally show ?thesis .
qed

lemma get_varint32:
  "sqlite3GetVarint32 p = (case varint_value p of (v, n) \<Rightarrow> (if v AND 0xffffffff = v then ucast v else 0xffffffff, n))"
proof -
  consider "\<not> bit (p 0) 7" | "bit (p 0) 7" "\<not> bit (p 1) 7" | "bit (p 0) 7" "bit (p 1) 7" "\<not> bit (p 2) 7"
    | "bit (p 0) 7" "bit (p 1) 7" "bit (p 2) 7" by blast
  then show ?thesis
  proof cases
    case 4
    then show ?thesis
      by (simp add: sqlite3GetVarint32_def Let_def flag_clear bit_simps get_varint case_prod_unfold)
  qed (simp_all add: sqlite3GetVarint32_def varint_value_def varint_step Let_def flag_clear bit_simps byte_high
      word64_eq_iff word32_eq_iff numeral_2_eq_2 [symmetric])
qed

section \<open>Reading what was written\<close>

abbreviation shift_in :: "u8 \<Rightarrow> u64 \<Rightarrow> u64" where
  "shift_in b acc \<equiv> push_bit 7 acc OR ucast (b AND 0x7f)"

lemma shift_in_low: "push_bit 7 (drop_bit 7 v) OR ucast (ucast ((v AND 0x7f) OR 0x80) AND (0x7f :: u8)) = (v :: u64)"
  by (simp add: word64_eq_iff bit_simps)

lemma groups_value: "fold shift_in (rev (varint_groups v)) 0 = v"
proof (induction v rule: varint_groups.induct)
  case (1 v)
  then show ?case using shift_in_low [of v]
    by (cases "drop_bit 7 v = 0") (simp_all add: varint_groups.simps [of v])
qed

lemma groups_flags: "b \<in> set (varint_groups v) \<Longrightarrow> bit b 7"
proof (induction v rule: varint_groups.induct)
  case (1 v)
  then show ?case
    by (cases "drop_bit 7 v = 0") (auto simp: varint_groups.simps [of v] bit_simps)
qed

lemma groups_length: "length (varint_groups v) \<le> Suc k \<longleftrightarrow> drop_bit (7 * Suc k) v = 0"
proof (induction k arbitrary: v)
  case 0
  then show ?case by (subst varint_groups.simps) (simp, simp add: varint_groups.simps [of "drop_bit 7 v"])
next
  case (Suc k)
  have d: "drop_bit (7 * Suc (Suc k)) v = drop_bit (7 * Suc k) (drop_bit 7 v)" by (simp add: drop_bit_drop_bit)
  show ?case unfolding d using Suc.IH [of "drop_bit 7 v"]
    by (cases "drop_bit 7 v = 0") (simp_all add: varint_groups.simps [of v])
qed

lemma varint_len_groups: "varint_len_from v i = i + length (varint_groups v) - 1"
proof (induction v i rule: varint_len_from.induct)
  case (1 v i)
  then show ?case
    by (cases "drop_bit 7 v = 0") (simp_all add: varint_len_from.simps [of v i] varint_groups.simps [of v]
        varint_groups.simps [of "drop_bit 7 v"])
qed

lemma low_byte: "\<not> bit b 7 \<Longrightarrow> b AND 0x7f = (b :: u8)"
proof (rule bit_word_eqI)
  fix n assume b: "\<not> bit b 7" and "n < LENGTH(8)"
  then have "n < 8" by simp
  then consider "n = 0" | "n = 1" | "n = 2" | "n = 3" | "n = 4" | "n = 5" | "n = 6" | "n = 7" by linarith
  then show "bit (b AND 0x7f) n = bit b n" using b by cases (simp_all add: bit_simps)
qed

lemma varint_read:
  "bs \<noteq> [] \<Longrightarrow> length bs \<le> left \<Longrightarrow> \<forall>b \<in> set (butlast bs). bit b 7 \<Longrightarrow> \<not> bit (last bs) 7 \<Longrightarrow> \<forall>j < length bs. p (i + j) = bs ! j \<Longrightarrow>
   varint_from left p acc i = (fold shift_in bs acc, i + length bs)"
proof (induction bs arbitrary: left acc i)
  case (Cons b bs)
  have b: "p i = b" using Cons.prems(5) by force
  show ?case
  proof (cases "bs = []")
    case True
    then show ?thesis using Cons.prems b low_byte [of b] by (simp add: varint_step)
  next
    case False
    have "\<forall>j < length bs. p (i + 1 + j) = bs ! j" using Cons.prems(5) by force
    then show ?thesis using Cons.IH [of "left - 1" "i + 1" "shift_in b acc"] Cons.prems False b by (simp add: varint_step)
  qed
qed simp

lemma fold_update: "fold (\<lambda>i p. p(i := f i)) [0..<n] p k = (if k < n then f k else p k)"
  by (induction n) auto

lemma shift_in_masked: "shift_in (b AND 0x7f) acc = shift_in b acc"
  by (simp add: and.assoc)

lemma read_groups:
  assumes len: "length (varint_groups v) \<le> 8"
  defines "n \<equiv> length (varint_groups v)" and "buf \<equiv> (varint_groups v)[0 := varint_groups v ! 0 AND 0x7f]"
  shows "varint_value (fold (\<lambda>i p. p(i := buf ! (n - 1 - i))) [0..<n] p) = (v, n)"
proof -
  obtain g gs where g: "varint_groups v = g # gs" by (cases "varint_groups v") (auto simp: varint_groups.simps [of v])
  let ?bs = "rev gs @ [g AND 0x7f]"
  have n: "n = length ?bs" "buf = (g AND 0x7f) # gs" by (simp_all add: n_def buf_def g)
  have p: "\<forall>j < length ?bs. fold (\<lambda>i p. p(i := buf ! (n - 1 - i))) [0..<n] p (0 + j) = ?bs ! j"
  proof (intro allI impI)
    fix j assume j: "j < length ?bs"
    have "buf = rev ?bs" using n(2) by simp
    then have "buf ! (n - 1 - j) = ?bs ! j" using j n(1) rev_nth [of "n - 1 - j" ?bs] by simp
    then show "fold (\<lambda>i p. p(i := buf ! (n - 1 - i))) [0..<n] p (0 + j) = ?bs ! j"
      using j n(1) by (simp only: fold_update add_0 if_True)
  qed
  have f: "\<forall>b \<in> set (butlast ?bs). bit b 7" using groups_flags [of _ v] g by (simp add: butlast_append)
  have l: "\<not> bit (last ?bs) 7" by (simp add: bit_simps)
  have "fold shift_in ?bs 0 = v" using groups_value [of v] g by (simp add: shift_in_masked)
  moreover have "varint_from 8 (fold (\<lambda>i p. p(i := buf ! (n - 1 - i))) [0..<n] p) 0 0 = (fold shift_in ?bs 0, 0 + length ?bs)"
    by (rule varint_read [OF _ _ f l p]) (use len g in simp_all)
  ultimately show ?thesis unfolding varint_value_def n(1) by (simp only: add_0)
qed

lemma long_high: "64 \<le> n \<Longrightarrow> \<not> bit (v :: u64) n"
  by (simp add: bit_word.rep_eq bit_take_bit_iff)

lemma top_byte: "v AND 0xff00000000000000 = 0 \<longleftrightarrow> drop_bit 56 (v :: u64) = 0"
  by (simp add: word64_eq_iff bit_simps long_high)

lemma small_bits_iff: "drop_bit k (v :: u64) = 0 \<longleftrightarrow> unat v < 2 ^ k"
proof -
  have "unat (drop_bit k v) = drop_bit k (unat v)"
    by (simp only: unsigned_drop_bit_eq take_bit_nat_eq_self [OF unsigned_less])
  then have "unat (drop_bit k v) = 0 \<longleftrightarrow> unat v < 2 ^ k" by (simp add: drop_bit_eq_div div_eq_0_iff)
  then show ?thesis by (simp only: unsigned_eq_0_iff)
qed

lemmas small_bits = small_bits_iff [THEN iffD2]

lemma put_9:
  assumes "\<not> v \<le> 0x3fff" "drop_bit 56 v \<noteq> 0"
  shows "sqlite3PutVarint p v = (p(8 := ucast v, 7 := ucast ((drop_bit 8 v AND 0x7f) OR 0x80),
        6 := ucast ((drop_bit 15 v AND 0x7f) OR 0x80), 5 := ucast ((drop_bit 22 v AND 0x7f) OR 0x80),
        4 := ucast ((drop_bit 29 v AND 0x7f) OR 0x80), 3 := ucast ((drop_bit 36 v AND 0x7f) OR 0x80),
        2 := ucast ((drop_bit 43 v AND 0x7f) OR 0x80), 1 := ucast ((drop_bit 50 v AND 0x7f) OR 0x80),
        0 := ucast ((drop_bit 57 v AND 0x7f) OR 0x80)), 9)"
proof -
  have "\<not> v \<le> 0x7f" using assms(1) by (auto simp: word_le_nat_alt)
  then show ?thesis using assms by (simp add: sqlite3PutVarint_def putVarint64_def top_byte)
qed

lemma put_varint_reads:
  "varint_value (fst (sqlite3PutVarint p v)) = (v, snd (sqlite3PutVarint p v))"
proof -
  consider "v \<le> 0x7f" | "\<not> v \<le> 0x7f" "v \<le> 0x3fff" | "\<not> v \<le> 0x3fff" "drop_bit 56 v = 0"
    | "\<not> v \<le> 0x3fff" "drop_bit 56 v \<noteq> 0" by blast
  then show ?thesis
  proof cases
    case 1
    then have "drop_bit 7 v = 0" using small_bits [of v 7] by (simp add: word_less_nat_alt word_le_nat_alt)
    then show ?thesis using 1
      by (simp add: sqlite3PutVarint_def varint_value_def varint_step bit_simps word64_eq_iff byte_high long_high)
  next
    case 2
    then have "drop_bit 14 v = 0" using small_bits [of v 14] by (simp add: word_less_nat_alt word_le_nat_alt)
    then show ?thesis using 2
      by (simp add: sqlite3PutVarint_def varint_value_def varint_step bit_simps word64_eq_iff byte_high long_high)
  next
    case 3
    then have "length (varint_groups v) \<le> 8" using groups_length [of v 7] by simp
    moreover have "\<not> v \<le> 0x7f" using 3(1) by (auto simp: word_le_nat_alt)
    ultimately show ?thesis using 3 read_groups [of v p]
      by (simp add: sqlite3PutVarint_def putVarint64_def top_byte Let_def)
  next
    case 4
    show ?thesis unfolding put_9 [OF 4] fst_conv snd_conv
      by (simp add: varint_value_def varint_step bit_simps word64_eq_iff byte_high long_high numeral_2_eq_2 [symmetric])
  qed
qed

lemma groups_count: "length (varint_groups v) = 1 \<longleftrightarrow> unat v < 2 ^ 7" "length (varint_groups v) \<le> 2 \<longleftrightarrow> unat v < 2 ^ 14"
  "length (varint_groups v) \<le> 8 \<longleftrightarrow> unat v < 2 ^ 56" "length (varint_groups v) \<le> 9 \<longleftrightarrow> unat v < 2 ^ 63"
  "length (varint_groups v) \<le> 10" "0 < length (varint_groups v)"
proof -
  show pos: "0 < length (varint_groups v)" by (simp add: varint_groups.simps [of v])
  have "length (varint_groups v) \<le> Suc 0 \<longleftrightarrow> unat v < 2 ^ 7" using groups_length [of v 0] small_bits_iff [of 7 v] by simp
  then show "length (varint_groups v) = 1 \<longleftrightarrow> unat v < 2 ^ 7" using pos by linarith
  show "length (varint_groups v) \<le> 2 \<longleftrightarrow> unat v < 2 ^ 14" "length (varint_groups v) \<le> 8 \<longleftrightarrow> unat v < 2 ^ 56"
    "length (varint_groups v) \<le> 9 \<longleftrightarrow> unat v < 2 ^ 63"
    using groups_length [of v 1] small_bits_iff [of 14 v] groups_length [of v 7] small_bits_iff [of 56 v]
      groups_length [of v 8] small_bits_iff [of 63 v] by (simp_all add: numeral_2_eq_2)
  have "unat v < 2 ^ 64" using unsigned_less [of v] by simp
  then show "length (varint_groups v) \<le> 10" using groups_length [of v 9] small_bits_iff [of 70 v] by simp
qed

lemma put_varint_length:
  "snd (sqlite3PutVarint p v) = (if unat v < 2 ^ 63 then sqlite3VarintLen v else 9) \<and>
   {i. fst (sqlite3PutVarint p v) i \<noteq> p i} \<subseteq> {..<snd (sqlite3PutVarint p v)}"
proof -
  have len: "sqlite3VarintLen v = length (varint_groups v)" using varint_len_groups [of v 1] by (simp add: sqlite3VarintLen_def)
  note c = groups_count [of v]
  have le: "v \<le> 0x7f \<longleftrightarrow> unat v < 2 ^ 7" "v \<le> 0x3fff \<longleftrightarrow> unat v < 2 ^ 14" by (auto simp: word_le_nat_alt)
  have top: "v AND 0xff00000000000000 = 0 \<longleftrightarrow> unat v < 2 ^ 56" by (simp only: top_byte small_bits_iff)
  consider "unat v < 2 ^ 7" | "\<not> unat v < 2 ^ 7" "unat v < 2 ^ 14" | "\<not> unat v < 2 ^ 14" "unat v < 2 ^ 56" | "\<not> unat v < 2 ^ 56"
    by blast
  then show ?thesis
  proof cases
    case 1
    then have "length (varint_groups v) = 1" using c(1) by blast
    then show ?thesis using 1 len by (auto simp: sqlite3PutVarint_def le)
  next
    case 2
    then have "length (varint_groups v) = 2" using c(1,2,6) by linarith
    then show ?thesis using 2 len by (auto simp: sqlite3PutVarint_def le)
  next
    case 3
    then have s: "\<not> v \<le> 0x7f" "\<not> v \<le> 0x3fff" unfolding le by simp_all
    have "unat v < 2 ^ 63" using 3(2) by simp
    moreover have "snd (sqlite3PutVarint p v) = length (varint_groups v)"
      using s top 3(2) by (simp add: sqlite3PutVarint_def putVarint64_def Let_def)
    moreover have "\<exists>f. fst (sqlite3PutVarint p v) = fold (\<lambda>i p. p(i := f i)) [0..<length (varint_groups v)] p"
      using s top 3(2) by (auto simp: sqlite3PutVarint_def putVarint64_def Let_def)
    ultimately show ?thesis using len by (auto simp: fold_update split: if_splits)
  next
    case 4
    have l: "length (varint_groups v) = 9" if "unat v < 2 ^ 63" using c(3,4) that 4 by linarith
    have "\<not> v \<le> 0x3fff" "drop_bit 56 v \<noteq> 0" using 4 unfolding le small_bits_iff by simp_all
    note put = put_9 [OF this, of p]
    have "{i. fst (sqlite3PutVarint p v) i \<noteq> p i} \<subseteq> {..<9}" unfolding put by auto
    moreover have "snd (sqlite3PutVarint p v) = 9" unfolding put by simp
    ultimately show ?thesis using l len by simp
  qed
qed

section \<open>Properties\<close>

text \<open>
  C35. The unrolled readers compute what the format says, for all contents of memory: \<open>sqlite3GetVarint\<close>
  is the loop that takes seven bits from each of the first eight bytes while their flag is set and all
  eight bits of the ninth, and \<open>sqlite3GetVarint32\<close> is the same cut to 32 bits, with the largest value for what does
  not fit.
\<close>

theorem varint_unrolled:
  "sqlite3GetVarint p = varint_value p \<and>
   sqlite3GetVarint32 p = (case varint_value p of (v, n) \<Rightarrow> (if unat v < 2 ^ 32 then ucast v else 0xffffffff, n))"
  unfolding get_varint get_varint32 fits_32 by simp

text \<open>
  C36. Every 64-bit integer that is written is read back, with the number of bytes written; these are
  the only bytes changed. \<open>sqlite3VarintLen\<close> predicts their number except from 2^63 on, where it answers 10
  though nine bytes are written.
\<close>

theorem varint_roundtrip:
  "sqlite3GetVarint (fst (sqlite3PutVarint p v)) = (v, snd (sqlite3PutVarint p v)) \<and>
   {i. fst (sqlite3PutVarint p v) i \<noteq> p i} \<subseteq> {..<snd (sqlite3PutVarint p v)} \<and>
   sqlite3VarintLen v = (if unat v < 2 ^ 63 then snd (sqlite3PutVarint p v) else 10)"
proof -
  have "sqlite3VarintLen v = 10" if "\<not> unat v < 2 ^ 63"
    using groups_count [of v] that varint_len_groups [of v 1] by (simp add: sqlite3VarintLen_def)
  then show ?thesis
    using put_varint_reads [of p v] put_varint_length [of p v, THEN conjunct1] put_varint_length [of p v, THEN conjunct2]
    unfolding get_varint by (cases "unat v < 2 ^ 63") simp_all
qed

end
