(* ===== verification/Btree_Cell.thy ===== *)
theory Btree_Cell
  imports Varint
begin

text \<open>
  The cells of a B-tree page of SQLite, sqlite3/src/sqlite3.c, the part that begins as btree.c: the state kept for a
  page, the parsers of the four formats of cells, and the functions that only measure a cell. A page is its
  bytes; a pointer into it is an offset.
\<close>

section \<open>State\<close>

text \<open>The fields of \<open>BtShared\<close> the code on single pages reads; \<open>fast_secure\<close> is the flag \<open>BTS_FAST_SECURE\<close>, \<open>cell_size_ck\<close> the
  flag \<open>SQLITE_CellSizeCk\<close> of the connection.\<close>

record btshared =
  bt_pageSize :: nat
  bt_usableSize :: nat
  bt_maxLocal :: nat
  bt_minLocal :: nat
  bt_maxLeaf :: nat
  bt_minLeaf :: nat
  bt_max1bytePayload :: nat
  bt_autoVacuum :: bool
  fast_secure :: bool
  cell_size_ck :: bool

datatype cell_size_method = CellSizePtr | CellSizePtrIdxLeaf | CellSizePtrNoPayload | CellSizePtrTableLeaf

datatype parse_method = ParseCellPtr | ParseCellPtrNoPayload | ParseCellPtrIndex

text \<open>\<open>mp_ovfl\<close> holds \<open>aiOvfl\<close> and \<open>apOvfl\<close> up to \<open>nOverflow\<close>; \<open>aCellIdx\<close> is the address \<open>mp_cellOffset\<close>.\<close>

record mempage =
  mp_isInit :: bool
  mp_intKey :: bool
  mp_intKeyLeaf :: bool
  mp_leaf :: bool
  mp_hdrOffset :: nat
  mp_childPtrSize :: nat
  mp_max1bytePayload :: nat
  mp_maxLocal :: nat
  mp_minLocal :: nat
  mp_cellOffset :: nat
  mp_nFree :: int
  mp_nCell :: nat
  mp_maskPage :: nat
  mp_ovfl :: "(nat \<times> bytes) list"
  mp_xCellSize :: cell_size_method
  mp_xParseCell :: parse_method
  mp_data :: bytes

record cellinfo =
  ci_nKey :: u64
  ci_pPayload :: "nat option"
  ci_nPayload :: u32
  ci_nLocal :: u16
  ci_nSize :: u16

text \<open>The limits of the payload kept on a page, as \<open>lockBtree\<close> computes them.\<close>

definition set_local_limits :: "btshared \<Rightarrow> btshared" where
  "set_local_limits bt =
     (let u = bt_usableSize bt; maxLocal = ((u - 12) * 64 div 255 - 23) mod 65536 in
      bt\<lparr>bt_maxLocal := maxLocal,
         bt_minLocal := ((u - 12) * 32 div 255 - 23) mod 65536,
         bt_maxLeaf := (u - 35) mod 65536,
         bt_minLeaf := ((u - 12) * 32 div 255 - 23) mod 65536,
         bt_max1bytePayload := (if 127 < maxLocal then 127 else maxLocal mod 256)\<rparr>)"

section \<open>Parsing a cell\<close>

text \<open>The loop over the bytes of the size of the payload, and the first byte before it. The second component is \<open>pIter\<close>.\<close>

function payload_loop :: "bytes \<Rightarrow> nat \<Rightarrow> nat \<Rightarrow> u32 \<Rightarrow> u32 \<times> nat" where
  "payload_loop d pEnd pIter n =
     (let pIter = pIter + 1; n = push_bit 7 n OR (ucast (d pIter) AND 0x7f) in
      if 0x80 \<le> d pIter \<and> pIter < pEnd then payload_loop d pEnd pIter n else (n, pIter))"
  by pat_completeness auto
termination
  by (relation "measure (\<lambda>(d, pEnd, pIter, n). pEnd - pIter)") auto

declare payload_loop.simps [simp del]

definition read_payload_size :: "bytes \<Rightarrow> nat \<Rightarrow> u32 \<times> nat" where
  "read_payload_size d pIter =
     (let n = ucast (d pIter) :: u32;
          (n, pIter) = (if 0x80 \<le> n then payload_loop d (pIter + 8) pIter (n AND 0x7f) else (n, pIter))
      in (n, pIter + 1))"

text \<open>The unrolled loop over the bytes of the key; \<open>x\<close> is the last byte read.\<close>

definition read_cell_key :: "bytes \<Rightarrow> nat \<Rightarrow> u64 \<times> nat" where
  "read_cell_key d p =
    (let iKey = ucast (d p) :: u64 in
     if 0x80 \<le> iKey then
       let x = d (p + 1); iKey = push_bit 7 iKey XOR ucast x in
       if 0x80 \<le> x then
         let x = d (p + 2); iKey = push_bit 7 iKey XOR ucast x in
         if 0x80 \<le> x then
           let x = d (p + 3); iKey = push_bit 7 iKey XOR 0x10204000 XOR ucast x in
           if 0x80 \<le> x then
             let x = d (p + 4); iKey = push_bit 7 iKey XOR 0x4000 XOR ucast x in
             if 0x80 \<le> x then
               let x = d (p + 5); iKey = push_bit 7 iKey XOR 0x4000 XOR ucast x in
               if 0x80 \<le> x then
                 let x = d (p + 6); iKey = push_bit 7 iKey XOR 0x4000 XOR ucast x in
                 if 0x80 \<le> x then
                   let x = d (p + 7); iKey = push_bit 7 iKey XOR 0x4000 XOR ucast x in
                   if 0x80 \<le> x then
                     (push_bit 8 iKey XOR 0x8000 XOR ucast (d (p + 8)), p + 9)
                   else (iKey, p + 8)
                 else (iKey, p + 7)
               else (iKey, p + 6)
             else (iKey, p + 5)
           else (iKey, p + 4)
         else (iKey XOR 0x204000, p + 3)
       else (iKey XOR 0x4000, p + 2)
     else (iKey, p + 1))"

text \<open>\<open>pPayload - pCell\<close> is the second argument of \<open>adjust_for_overflow\<close>.\<close>

definition btreeParseCellAdjustSizeForOverflow :: "btshared \<Rightarrow> mempage \<Rightarrow> nat \<Rightarrow> cellinfo \<Rightarrow> cellinfo" where
  "btreeParseCellAdjustSizeForOverflow bt P hdr info =
     (let minLocal = of_nat (mp_minLocal P) :: u32;
          surplus = minLocal + (ci_nPayload info - minLocal) mod (of_nat (bt_usableSize bt) - 4);
          nLocal = (if sint surplus \<le> int (mp_maxLocal P) then ucast surplus else of_nat (mp_minLocal P)) :: u16
      in info\<lparr>ci_nLocal := nLocal, ci_nSize := of_nat (hdr + unat nLocal) + 4\<rparr>)"

definition btreeParseCellPtrNoPayload :: "btshared \<Rightarrow> mempage \<Rightarrow> bytes \<Rightarrow> nat \<Rightarrow> cellinfo" where
  "btreeParseCellPtrNoPayload bt P d p =
     (let (key, n) = sqlite3GetVarint (\<lambda>k. d (p + 4 + k)) in
      \<lparr>ci_nKey = key, ci_pPayload = None, ci_nPayload = 0, ci_nLocal = 0, ci_nSize = of_nat (4 + n)\<rparr>)"

text \<open>The common end of the two parsers with payload.\<close>

definition parse_payload :: "btshared \<Rightarrow> mempage \<Rightarrow> nat \<Rightarrow> u64 \<Rightarrow> u32 \<Rightarrow> nat \<Rightarrow> cellinfo" where
  "parse_payload bt P p key n pIter =
     (let info = \<lparr>ci_nKey = key, ci_pPayload = Some pIter, ci_nPayload = n, ci_nLocal = 0, ci_nSize = 0\<rparr> in
      if n \<le> of_nat (mp_maxLocal P) then
        let nSize = ucast n + of_nat (pIter - p) in
        info\<lparr>ci_nSize := (if nSize < 4 then 4 else nSize), ci_nLocal := ucast n\<rparr>
      else btreeParseCellAdjustSizeForOverflow bt P (pIter - p) info)"

definition btreeParseCellPtr :: "btshared \<Rightarrow> mempage \<Rightarrow> bytes \<Rightarrow> nat \<Rightarrow> cellinfo" where
  "btreeParseCellPtr bt P d p =
     (let (n, pIter) = read_payload_size d p; (key, pIter) = read_cell_key d pIter
      in parse_payload bt P p key n pIter)"

definition btreeParseCellPtrIndex :: "btshared \<Rightarrow> mempage \<Rightarrow> bytes \<Rightarrow> nat \<Rightarrow> cellinfo" where
  "btreeParseCellPtrIndex bt P d p =
     (let (n, pIter) = read_payload_size d (p + mp_childPtrSize P)
      in parse_payload bt P p (ucast n) n pIter)"

definition xParseCell :: "btshared \<Rightarrow> mempage \<Rightarrow> bytes \<Rightarrow> nat \<Rightarrow> cellinfo" where
  "xParseCell bt P = (case mp_xParseCell P of
       ParseCellPtr \<Rightarrow> btreeParseCellPtr bt P
     | ParseCellPtrNoPayload \<Rightarrow> btreeParseCellPtrNoPayload bt P
     | ParseCellPtrIndex \<Rightarrow> btreeParseCellPtrIndex bt P)"

definition btreePayloadToLocal :: "btshared \<Rightarrow> mempage \<Rightarrow> nat \<Rightarrow> nat" where
  "btreePayloadToLocal bt P n =
     (if n \<le> mp_maxLocal P then n
      else let surplus = mp_minLocal P + (n - mp_minLocal P) mod (bt_usableSize bt - 4)
           in if surplus \<le> mp_maxLocal P then surplus else mp_minLocal P)"

section \<open>Measuring a cell\<close>

text \<open>The common end of the three functions that measure a cell with payload.\<close>

definition measure_payload :: "btshared \<Rightarrow> mempage \<Rightarrow> bool \<Rightarrow> u32 \<Rightarrow> nat \<Rightarrow> u16" where
  "measure_payload bt P at_least_4 n hdr =
     (if n \<le> of_nat (mp_maxLocal P) then
        let n = n + of_nat hdr in ucast (if at_least_4 \<and> n < 4 then 4 else n)
      else
        let minLocal = of_nat (mp_minLocal P);
            n = minLocal + (n - minLocal) mod (of_nat (bt_usableSize bt) - 4);
            n = (if of_nat (mp_maxLocal P) < n then minLocal else n)
        in ucast (n + (4 + of_nat hdr)))"

definition cellSizePtr :: "btshared \<Rightarrow> mempage \<Rightarrow> bytes \<Rightarrow> nat \<Rightarrow> u16" where
  "cellSizePtr bt P d p =
     (let (n, pIter) = read_payload_size d (p + 4) in measure_payload bt P False n (pIter - p))"

definition cellSizePtrIdxLeaf :: "btshared \<Rightarrow> mempage \<Rightarrow> bytes \<Rightarrow> nat \<Rightarrow> u16" where
  "cellSizePtrIdxLeaf bt P d p =
     (let (n, pIter) = read_payload_size d p in measure_payload bt P True n (pIter - p))"

text \<open>\<open>while ((*pIter++) & 0x80 && pIter < pEnd)\<close>\<close>

function skip_varint :: "bytes \<Rightarrow> nat \<Rightarrow> nat \<Rightarrow> nat" where
  "skip_varint d pEnd pIter =
     (if bit (d pIter) 7 \<and> pIter + 1 < pEnd then skip_varint d pEnd (pIter + 1) else pIter + 1)"
  by pat_completeness auto
termination
  by (relation "measure (\<lambda>(d, pEnd, pIter). pEnd - pIter)") auto

declare skip_varint.simps [simp del]

definition cellSizePtrNoPayload :: "btshared \<Rightarrow> mempage \<Rightarrow> bytes \<Rightarrow> nat \<Rightarrow> u16" where
  "cellSizePtrNoPayload bt P d p = of_nat (skip_varint d (p + 13) (p + 4) - p)"

text \<open>The chain of \<open>&&\<close> that steps over the key.\<close>

definition skip_key :: "bytes \<Rightarrow> nat \<Rightarrow> nat" where
  "skip_key d p =
     (if \<not> bit (d p) 7 then p + 1 else if \<not> bit (d (p + 1)) 7 then p + 2
      else if \<not> bit (d (p + 2)) 7 then p + 3 else if \<not> bit (d (p + 3)) 7 then p + 4
      else if \<not> bit (d (p + 4)) 7 then p + 5 else if \<not> bit (d (p + 5)) 7 then p + 6
      else if \<not> bit (d (p + 6)) 7 then p + 7 else if \<not> bit (d (p + 7)) 7 then p + 8 else p + 9)"

definition cellSizePtrTableLeaf :: "btshared \<Rightarrow> mempage \<Rightarrow> bytes \<Rightarrow> nat \<Rightarrow> u16" where
  "cellSizePtrTableLeaf bt P d p =
     (let (n, pIter) = read_payload_size d p; pIter = skip_key d pIter in measure_payload bt P True n (pIter - p))"

definition xCellSize :: "btshared \<Rightarrow> mempage \<Rightarrow> bytes \<Rightarrow> nat \<Rightarrow> nat" where
  "xCellSize bt P d p = unat (case mp_xCellSize P of
       CellSizePtr \<Rightarrow> cellSizePtr bt P d p
     | CellSizePtrIdxLeaf \<Rightarrow> cellSizePtrIdxLeaf bt P d p
     | CellSizePtrNoPayload \<Rightarrow> cellSizePtrNoPayload bt P d p
     | CellSizePtrTableLeaf \<Rightarrow> cellSizePtrTableLeaf bt P d p)"

section \<open>Reading at an address is reading a cell that starts there\<close>

lemma payload_loop_base:
  "payload_loop d (p + E) (p + i) n = apsnd ((+) p) (payload_loop (\<lambda>k. d (p + k)) E i n)"
proof (induction "\<lambda>k. d (p + k)" E i n rule: payload_loop.induct)
  case (1 E i n)
  then show ?case
    by (subst (1 2) payload_loop.simps) (auto simp: Let_def algebra_simps)
qed

lemma read_payload_size_base: "read_payload_size d (p + i) = apsnd ((+) p) (read_payload_size (\<lambda>k. d (p + k)) i)"
  using payload_loop_base [of d p "i + 8" i]
  by (auto simp: read_payload_size_def Let_def add.assoc split: prod.splits)

lemma read_cell_key_base: "read_cell_key d (p + i) = apsnd ((+) p) (read_cell_key (\<lambda>k. d (p + k)) i)"
  by (simp add: read_cell_key_def Let_def add.assoc)

lemma skip_key_base: "skip_key d (p + i) = p + skip_key (\<lambda>k. d (p + k)) i"
  by (simp add: skip_key_def add.assoc)

lemma skip_varint_base: "skip_varint d (p + E) (p + i) = p + skip_varint (\<lambda>k. d (p + k)) E i"
proof (induction "\<lambda>k. d (p + k)" E i rule: skip_varint.induct)
  case (1 E i)
  then show ?case
    by (subst (1 2) skip_varint.simps) (auto simp: algebra_simps)
qed

lemma xCellSize_base: "xCellSize bt P d p = xCellSize bt P (\<lambda>k. d (p + k)) 0"
  using read_payload_size_base [of d p 0] read_payload_size_base [of d p 4] skip_key_base [of d p]
    skip_varint_base [of d p 13 4]
  by (simp add: xCellSize_def cellSizePtr_def cellSizePtrIdxLeaf_def cellSizePtrNoPayload_def cellSizePtrTableLeaf_def
      apsnd_def map_prod_def split: cell_size_method.splits prod.splits)

section \<open>How far the parsers read\<close>

lemma payload_loop_step:
  "payload_loop d E i n =
     (let n = push_bit 7 n OR (ucast (d (Suc i)) AND 0x7f) in
      if 0x80 \<le> d (Suc i) \<and> Suc i < E then payload_loop d E (Suc i) n else (n, Suc i))"
  by (simp add: payload_loop.simps [of d E i] Let_def)

lemma payload_loop_extent: "payload_loop d E i n = (m, j) \<Longrightarrow> i < j \<and> j \<le> max E (i + 1)"
proof (induction d E i n rule: payload_loop.induct)
  case (1 d E i n)
  show ?case
    using "1.prems" "1.IH" by (simp only: payload_loop_step [of d E i n]) (fastforce simp: Let_def split: if_splits)
qed

lemma payload_loop_local:
  "payload_loop d E i n = (m, j) \<Longrightarrow> (\<And>k. k \<le> j \<Longrightarrow> e k = d k) \<Longrightarrow> payload_loop e E i n = (m, j)"
proof (induction d E i n rule: payload_loop.induct)
  case (1 d E i n)
  have e: "e (Suc i) = d (Suc i)" using payload_loop_extent [OF "1.prems"(1)] "1.prems"(2) by simp
  show ?case
    using 1 unfolding payload_loop_step [of d E i] payload_loop_step [of e E i] e
    by (auto simp: Let_def split: if_splits)
qed

lemma read_payload_size_cases:
  assumes "read_payload_size d i = (m, j)"
  obtains "\<not> 0x80 \<le> (ucast (d i) :: u32)" "m = ucast (d i)" "j = i + 1"
  | "0x80 \<le> (ucast (d i) :: u32)" "payload_loop d (i + 8) i (ucast (d i) AND 0x7f) = (m, j - 1)" "0 < j"
  using assms by (auto simp: read_payload_size_def Let_def split: if_splits prod.splits)

lemma read_payload_size_extent:
  assumes "read_payload_size d i = (m, j)"
  shows "i < j \<and> j \<le> i + 9" and "(\<And>k. k < j \<Longrightarrow> e k = d k) \<Longrightarrow> read_payload_size e i = (m, j)"
proof -
  have "(i < j \<and> j \<le> i + 9) \<and> ((\<forall>k < j. e k = d k) \<longrightarrow> read_payload_size e i = (m, j))"
    using assms
  proof (cases rule: read_payload_size_cases)
    case 1
    then show ?thesis by (auto simp: read_payload_size_def)
  next
    case 2
    then have j: "i < j - 1" "j - 1 \<le> i + 8" using payload_loop_extent [OF 2(2)] by simp_all
    moreover have "read_payload_size e i = (m, j)" if "\<forall>k < j. e k = d k"
      using that 2(1,3) j payload_loop_local [OF 2(2), of e] by (simp add: read_payload_size_def Let_def)
    ultimately show ?thesis by auto
  qed
  then show "i < j \<and> j \<le> i + 9" and "(\<And>k. k < j \<Longrightarrow> e k = d k) \<Longrightarrow> read_payload_size e i = (m, j)"
    by auto
qed

lemma skip_key_extent: "i < skip_key d i \<and> skip_key d i \<le> i + 9"
  "(\<And>k. k < skip_key d i \<Longrightarrow> e k = d k) \<Longrightarrow> skip_key e i = skip_key d i"
  unfolding skip_key_def by (auto split: if_splits)

lemma skip_varint_extent: "i < skip_varint d E i \<and> skip_varint d E i \<le> max E (i + 1)"
proof (induction d E i rule: skip_varint.induct)
  case (1 d E i)
  then show ?case by (subst (1 2) skip_varint.simps) auto
qed

lemma skip_varint_local: "(\<And>k. k < skip_varint d E i \<Longrightarrow> e k = d k) \<Longrightarrow> skip_varint e E i = skip_varint d E i"
proof (induction d E i rule: skip_varint.induct)
  case (1 d E i)
  have e: "e i = d i" using skip_varint_extent [of i d E] "1.prems" by simp
  show ?case using 1 unfolding skip_varint.simps [of e E i] skip_varint.simps [of d E i] e by (simp split: if_splits)
qed

section \<open>Sizes at the widths of the code\<close>

definition limits_ok :: "btshared \<Rightarrow> mempage \<Rightarrow> bool" where
  "limits_ok bt P = (mp_minLocal P \<le> mp_maxLocal P \<and> mp_maxLocal P + 35 \<le> bt_usableSize bt \<and> bt_usableSize bt \<le> 65536)"

text \<open>The payload kept on the page, computed at the widths of the code.\<close>

lemma surplus_nat:
  fixes n :: u32
  assumes "limits_ok bt P" "mp_maxLocal P < unat n"
  shows "unat (of_nat (mp_minLocal P) + (n - of_nat (mp_minLocal P)) mod (of_nat (bt_usableSize bt) - 4) :: u32) =
    mp_minLocal P + (unat n - mp_minLocal P) mod (bt_usableSize bt - 4)" (is "unat (?m + ?s) = _")
proof -
  have m: "unat ?m = mp_minLocal P" and u: "unat (of_nat (bt_usableSize bt) :: u32) = bt_usableSize bt"
    using assms(1) by (simp_all add: limits_ok_def unat_u32)
  have u4: "unat (of_nat (bt_usableSize bt) - 4 :: u32) = bt_usableSize bt - 4"
    using assms(1) u by (subst unat_sub) (auto simp: limits_ok_def word_le_nat_alt)
  have "?m \<le> n" using assms m by (simp add: limits_ok_def word_le_nat_alt)
  then have s: "unat ?s = (unat n - mp_minLocal P) mod (bt_usableSize bt - 4)"
    using m u4 by (simp add: unat_mod unat_sub)
  also have "\<dots> < bt_usableSize bt - 4" using assms(1) by (intro mod_less_divisor) (simp add: limits_ok_def)
  finally have "unat ?s < 65536" and "unat ?m < 65536" using m assms(1) by (auto simp: limits_ok_def)
  then have "unat ?m + unat ?s < 2 ^ 32" by simp
  then have "unat (?m + ?s) = unat ?m + unat ?s" by (subst unat_add_lem [symmetric]) simp
  then show ?thesis using m s by simp
qed

lemma to_local_le: "limits_ok bt P \<Longrightarrow> btreePayloadToLocal bt P n \<le> mp_maxLocal P"
  by (auto simp: btreePayloadToLocal_def limits_ok_def Let_def)

lemma limit_u32: "limits_ok bt P \<Longrightarrow> unat (of_nat (mp_maxLocal P) :: u32) = mp_maxLocal P"
  by (simp add: limits_ok_def unat_u32)

lemma measure_payload_nat:
  assumes "limits_ok bt P" "hdr \<le> 22"
  shows "unat (measure_payload bt P b n hdr) =
    (if unat n \<le> mp_maxLocal P then (if b \<and> unat n + hdr < 4 then 4 else unat n + hdr)
     else btreePayloadToLocal bt P (unat n) + 4 + hdr)"
proof (cases "unat n \<le> mp_maxLocal P")
  case True
  then have "unat (n + of_nat hdr) = unat n + hdr" 
    using assms unat_u32 [of hdr] by (subst unat_add_lem [THEN iffD1]) (auto simp: limits_ok_def)
  then show ?thesis using True assms limit_u32 [OF assms(1)]
    by (auto simp: measure_payload_def Let_def word_le_nat_alt word_less_nat_alt limits_ok_def unsigned_ucast_eq take_bit_nat_eq_self)
next
  case False
  let ?s = "of_nat (mp_minLocal P) + (n - of_nat (mp_minLocal P)) mod (of_nat (bt_usableSize bt) - 4) :: u32"
  let ?l = "if of_nat (mp_maxLocal P) < ?s then of_nat (mp_minLocal P) else ?s"
  have l: "unat ?l = btreePayloadToLocal bt P (unat n)"
    using False assms(1) surplus_nat [OF assms(1), of n] limit_u32 [OF assms(1)] unat_u32 [of "mp_minLocal P"]
    by (auto simp: btreePayloadToLocal_def Let_def word_less_nat_alt limits_ok_def)
  then have "unat ?l \<le> 65501" using to_local_le [OF assms(1), of "unat n"] assms(1) by (auto simp: limits_ok_def)
  moreover have h: "unat (4 + of_nat hdr :: u32) = 4 + hdr"
    using assms(2) unat_u32 [of hdr] by (subst unat_add_lem [THEN iffD1]) auto
  ultimately have "unat (?l + (4 + of_nat hdr)) = unat ?l + (4 + hdr)"
    using assms(2) by (subst unat_add_lem [THEN iffD1]) auto
  moreover have "unat ?l + (4 + hdr) < 65536" using l to_local_le [OF assms(1), of "unat n"] assms by (simp add: limits_ok_def)
  ultimately show ?thesis using False l limit_u32 [OF assms(1)]
    by (simp add: measure_payload_def Let_def word_le_nat_alt unsigned_ucast_eq take_bit_nat_eq_self del: word_less_nat_alt)
qed


lemma add_header: "unat (l :: u16) + h + 4 < 65536 \<Longrightarrow> unat (of_nat (h + unat l) + 4 :: u16) = unat l + 4 + h"
proof -
  assume a: "unat l + h + 4 < 65536"
  then have "unat (of_nat (h + unat l) :: u16) = h + unat l" by (simp add: unsigned_of_nat take_bit_nat_eq_self del: of_nat_add)
  then show ?thesis using a by (subst unat_add_lem [THEN iffD1]) simp_all
qed

lemma parse_payload_nat:
  assumes "limits_ok bt P" "h \<le> 22"
  shows "unat (ci_nSize (parse_payload bt P p key n (p + h))) =
      (if unat n \<le> mp_maxLocal P then max 4 (unat n + h) else btreePayloadToLocal bt P (unat n) + 4 + h)"
    and "unat (ci_nLocal (parse_payload bt P p key n (p + h))) = btreePayloadToLocal bt P (unat n)"
    and "ci_nKey (parse_payload bt P p key n (p + h)) = key" "ci_nPayload (parse_payload bt P p key n (p + h)) = n"
    and "ci_pPayload (parse_payload bt P p key n (p + h)) = Some (p + h)"
proof -
  have "(unat (ci_nSize (parse_payload bt P p key n (p + h))) =
      (if unat n \<le> mp_maxLocal P then max 4 (unat n + h) else btreePayloadToLocal bt P (unat n) + 4 + h)) \<and>
    unat (ci_nLocal (parse_payload bt P p key n (p + h))) = btreePayloadToLocal bt P (unat n)"
  proof (cases "unat n \<le> mp_maxLocal P")
    case True
    then have "unat n \<le> 65501" using assms(1) by (simp add: limits_ok_def)
    then have n: "unat (ucast n :: u16) = unat n" "unat n + h < 65536"
      using assms(2) by (simp_all add: unsigned_ucast_eq take_bit_nat_eq_self)
    moreover have hh: "unat (of_nat h :: u16) = h"
      using assms by (simp add: unsigned_of_nat take_bit_nat_eq_self)
    ultimately have "unat (ucast n + of_nat h :: u16) = unat n + h"
      by (subst unat_add_lem [THEN iffD1]) simp_all
    then show ?thesis using True n(1) limit_u32 [OF assms(1)]
      by (auto simp: parse_payload_def Let_def word_le_nat_alt word_less_nat_alt btreePayloadToLocal_def)
  next
    case False
    let ?s = "of_nat (mp_minLocal P) + (n - of_nat (mp_minLocal P)) mod (of_nat (bt_usableSize bt) - 4) :: u32"
    let ?l = "if sint ?s \<le> int (mp_maxLocal P) then ucast ?s else of_nat (mp_minLocal P) :: u16"
    have s: "unat ?s = mp_minLocal P + (unat n - mp_minLocal P) mod (bt_usableSize bt - 4)"
      using False by (intro surplus_nat [OF assms(1)]) simp
    have "(unat n - mp_minLocal P) mod (bt_usableSize bt - 4) < bt_usableSize bt - 4"
      using assms(1) by (intro mod_less_divisor) (simp add: limits_ok_def)
    then have "unat ?s < 131072" unfolding s using assms(1) unfolding limits_ok_def by linarith
    then have ss: "sint ?s = int (unat ?s)" by (intro sint_small) simp
    have l: "unat ?l = btreePayloadToLocal bt P (unat n)"
      using False assms(1) s unfolding ss
      by (auto simp: btreePayloadToLocal_def Let_def limits_ok_def unsigned_ucast_eq unsigned_of_nat take_bit_nat_eq_self)
    then have "unat ?l + h + 4 < 65536" using to_local_le [OF assms(1), of "unat n"] assms by (simp add: limits_ok_def)
    then have "unat (of_nat (h + unat ?l) + 4 :: u16) = unat ?l + 4 + h" by (rule add_header)
    moreover have "parse_payload bt P p key n (p + h) =
        \<lparr>ci_nKey = key, ci_pPayload = Some (p + h), ci_nPayload = n, ci_nLocal = ?l, ci_nSize = of_nat (h + unat ?l) + 4\<rparr>"
      using False limit_u32 [OF assms(1)]
      by (simp add: parse_payload_def Let_def word_le_nat_alt btreeParseCellAdjustSizeForOverflow_def)
    ultimately show ?thesis using False l by (simp only: cellinfo.simps if_False simp_thms)
  qed
  then show "unat (ci_nSize (parse_payload bt P p key n (p + h))) =
      (if unat n \<le> mp_maxLocal P then max 4 (unat n + h) else btreePayloadToLocal bt P (unat n) + 4 + h)"
    and "unat (ci_nLocal (parse_payload bt P p key n (p + h))) = btreePayloadToLocal bt P (unat n)" by blast+
qed (simp_all add: parse_payload_def btreeParseCellAdjustSizeForOverflow_def Let_def)

text \<open>The unrolled reader of the key agrees with the reader of varints.\<close>

lemma continued: "0x80 \<le> (x :: u8) \<longleftrightarrow> bit x 7"
proof -
  have "unat x < 256" using unsigned_less [of x] by simp
  then have "unat x div 128 = 0 \<or> unat x div 128 = 1" by linarith
  moreover have "bit (unat x) 7 = bit x 7" by (simp add: bit_unsigned_iff)
  moreover have "bit (unat x) 7 = odd (unat x div 128)" by (simp add: bit_iff_odd)
  ultimately show ?thesis by (auto simp: word_le_nat_alt)
qed

lemma continued64: "0x80 \<le> (ucast (x :: u8) :: u64) \<longleftrightarrow> bit x 7"
proof -
  have "unat x < 256" using unsigned_less [of x] by simp
  then have "unat x < 2 ^ 64" by simp
  then show ?thesis unfolding continued [symmetric] by (simp add: word_le_nat_alt unsigned_ucast_eq take_bit_nat_eq_self)
qed

lemmas key_simps = read_cell_key_def varint_value_def varint_step continued continued64 Let_def bit_simps byte_high
  word64_eq_iff numeral_2_eq_2 [symmetric]

lemma key_1: "\<not> bit (d 0) 7 \<Longrightarrow> read_cell_key d 0 = varint_value d"
  by (simp add: key_simps)

lemma key_2: "bit (d 0) 7 \<Longrightarrow> \<not> bit (d 1) 7 \<Longrightarrow> read_cell_key d 0 = varint_value d"
  by (simp add: key_simps)

lemma key_3: "bit (d 0) 7 \<Longrightarrow> bit (d 1) 7 \<Longrightarrow> \<not> bit (d 2) 7 \<Longrightarrow> read_cell_key d 0 = varint_value d"
  by (simp add: key_simps)

lemma key_4: "bit (d 0) 7 \<Longrightarrow> bit (d 1) 7 \<Longrightarrow> bit (d 2) 7 \<Longrightarrow> \<not> bit (d 3) 7 \<Longrightarrow> read_cell_key d 0 = varint_value d"
  by (simp add: key_simps)

lemma key_5: "bit (d 0) 7 \<Longrightarrow> bit (d 1) 7 \<Longrightarrow> bit (d 2) 7 \<Longrightarrow> bit (d 3) 7 \<Longrightarrow> \<not> bit (d 4) 7 \<Longrightarrow>
   read_cell_key d 0 = varint_value d"
  by (simp add: key_simps)

lemma key_6: "bit (d 0) 7 \<Longrightarrow> bit (d 1) 7 \<Longrightarrow> bit (d 2) 7 \<Longrightarrow> bit (d 3) 7 \<Longrightarrow> bit (d 4) 7 \<Longrightarrow> \<not> bit (d 5) 7 \<Longrightarrow>
   read_cell_key d 0 = varint_value d"
  by (simp add: key_simps)

lemma key_7: "bit (d 0) 7 \<Longrightarrow> bit (d 1) 7 \<Longrightarrow> bit (d 2) 7 \<Longrightarrow> bit (d 3) 7 \<Longrightarrow> bit (d 4) 7 \<Longrightarrow> bit (d 5) 7 \<Longrightarrow> \<not> bit (d 6) 7 \<Longrightarrow>
   read_cell_key d 0 = varint_value d"
  by (simp add: key_simps)

lemma key_8: "bit (d 0) 7 \<Longrightarrow> bit (d 1) 7 \<Longrightarrow> bit (d 2) 7 \<Longrightarrow> bit (d 3) 7 \<Longrightarrow> bit (d 4) 7 \<Longrightarrow> bit (d 5) 7 \<Longrightarrow> bit (d 6) 7 \<Longrightarrow>
   \<not> bit (d 7) 7 \<Longrightarrow> read_cell_key d 0 = varint_value d"
  by (simp add: key_simps)

lemma key_9: "bit (d 0) 7 \<Longrightarrow> bit (d 1) 7 \<Longrightarrow> bit (d 2) 7 \<Longrightarrow> bit (d 3) 7 \<Longrightarrow> bit (d 4) 7 \<Longrightarrow> bit (d 5) 7 \<Longrightarrow> bit (d 6) 7 \<Longrightarrow>
   bit (d 7) 7 \<Longrightarrow> read_cell_key d 0 = varint_value d"
  by (simp add: key_simps)

lemma key_is_varint: "read_cell_key d 0 = sqlite3GetVarint d"
  using key_1 [of d] key_2 [of d] key_3 [of d] key_4 [of d] key_5 [of d] key_6 [of d] key_7 [of d] key_8 [of d] key_9 [of d]
  unfolding get_varint by blast

lemma key_length: "snd (read_cell_key d 0) = skip_key d 0"
  by (simp add: read_cell_key_def skip_key_def continued continued64 Let_def)

lemma skip_varint_key: "skip_varint d 9 0 = skip_key d 0"
  by (simp add: skip_varint.simps skip_key_def numeral_2_eq_2 [symmetric])

section \<open>Both ways to the size of a cell\<close>

text \<open>The pairs of methods \<open>decodeFlags\<close> installs, with the size of the child pointer.\<close>

definition format_ok :: "mempage \<Rightarrow> bool" where
  "format_ok P = ((mp_xCellSize P, mp_xParseCell P, mp_childPtrSize P) \<in>
     {(CellSizePtrTableLeaf, ParseCellPtr, 0), (CellSizePtrIdxLeaf, ParseCellPtrIndex, 0),
      (CellSizePtrNoPayload, ParseCellPtrNoPayload, 4), (CellSizePtr, ParseCellPtrIndex, 4)})"

lemma parse_payload_base:
  "ci_nSize (parse_payload bt P p key n (p + h)) = ci_nSize (parse_payload bt P 0 key n h)"
  by (simp add: parse_payload_def btreeParseCellAdjustSizeForOverflow_def Let_def)

lemma xParseCell_base: "ci_nSize (xParseCell bt P d p) = ci_nSize (xParseCell bt P (\<lambda>k. d (p + k)) 0)"
proof (cases "mp_xParseCell P")
  case ParseCellPtr
  obtain n q where n: "read_payload_size (\<lambda>k. d (p + k)) 0 = (n, q)" by fastforce
  obtain key r where k: "read_cell_key (\<lambda>k. d (p + k)) q = (key, r)" by fastforce
  show ?thesis
    using ParseCellPtr n k read_payload_size_base [of d p 0] read_cell_key_base [of d p q] parse_payload_base [of bt P p]
    by (simp add: xParseCell_def btreeParseCellPtr_def)
next
  case ParseCellPtrNoPayload
  then show ?thesis by (simp add: xParseCell_def btreeParseCellPtrNoPayload_def add.assoc split: prod.splits)
next
  case ParseCellPtrIndex
  obtain n q where n: "read_payload_size (\<lambda>k. d (p + k)) (mp_childPtrSize P) = (n, q)" by fastforce
  then show ?thesis
    using ParseCellPtrIndex read_payload_size_base [of d p "mp_childPtrSize P"] parse_payload_base [of bt P p]
    by (simp add: xParseCell_def btreeParseCellPtrIndex_def)
qed

lemma cell_size_0:
  assumes "limits_ok bt P" "format_ok P"
  shows "xCellSize bt P d 0 = unat (ci_nSize (xParseCell bt P d 0))"
proof -
  obtain n q where n: "read_payload_size d (mp_childPtrSize P) = (n, q)" by fastforce
  have q: "mp_childPtrSize P < q" "q \<le> mp_childPtrSize P + 9" using read_payload_size_extent(1) [OF n] by simp_all
  consider "mp_xCellSize P = CellSizePtrTableLeaf" "mp_xParseCell P = ParseCellPtr" "mp_childPtrSize P = 0"
    | "mp_xCellSize P = CellSizePtrIdxLeaf" "mp_xParseCell P = ParseCellPtrIndex" "mp_childPtrSize P = 0"
    | "mp_xCellSize P = CellSizePtrNoPayload" "mp_xParseCell P = ParseCellPtrNoPayload" "mp_childPtrSize P = 4"
    | "mp_xCellSize P = CellSizePtr" "mp_xParseCell P = ParseCellPtrIndex" "mp_childPtrSize P = 4"
    using assms(2) by (auto simp: format_ok_def)
  then show ?thesis
  proof cases
    case 1
    let ?r = "skip_key (\<lambda>k. d (q + k)) 0"
    have k: "read_cell_key d q = (fst (read_cell_key (\<lambda>k. d (q + k)) 0), q + ?r)" "skip_key d q = q + ?r"
      using read_cell_key_base [of d q 0] key_length [of "\<lambda>k. d (q + k)"] skip_key_base [of d q 0]
      by (simp_all add: apsnd_def map_prod_def split: prod.splits) 
    have "q + ?r \<le> 22" using q 1 skip_key_extent(1) [of 0 "\<lambda>k. d (q + k)"] by simp
    then show ?thesis using 1 n k measure_payload_nat [OF assms(1), of "q + ?r" True n] parse_payload_nat(1) [OF assms(1), of "q + ?r" 0]
      by (simp add: xCellSize_def xParseCell_def cellSizePtrTableLeaf_def btreeParseCellPtr_def)
  next
    case 2
    then show ?thesis using n q measure_payload_nat [OF assms(1), of q True n] parse_payload_nat(1) [OF assms(1), of q 0]
      by (simp add: xCellSize_def xParseCell_def cellSizePtrIdxLeaf_def btreeParseCellPtrIndex_def)
  next
    case 3
    have "snd (sqlite3GetVarint (\<lambda>k. d (4 + k))) = skip_varint (\<lambda>k. d (4 + k)) 9 0"
      by (simp add: skip_varint_key key_length [symmetric] key_is_varint)
    then show ?thesis using 3 skip_varint_base [of d 4 9 0]
      by (auto simp: xCellSize_def xParseCell_def cellSizePtrNoPayload_def btreeParseCellPtrNoPayload_def split: prod.splits)
  next
    case 4
    then show ?thesis using n q measure_payload_nat [OF assms(1), of q False n] parse_payload_nat(1) [OF assms(1), of q 0]
      by (simp add: xCellSize_def xParseCell_def cellSizePtr_def btreeParseCellPtrIndex_def)
  qed
qed

lemma format_cases:
  assumes "format_ok P"
  obtains (table_leaf) "mp_xCellSize P = CellSizePtrTableLeaf" "mp_xParseCell P = ParseCellPtr" "mp_childPtrSize P = 0"
    | (index_leaf) "mp_xCellSize P = CellSizePtrIdxLeaf" "mp_xParseCell P = ParseCellPtrIndex" "mp_childPtrSize P = 0"
    | (table_node) "mp_xCellSize P = CellSizePtrNoPayload" "mp_xParseCell P = ParseCellPtrNoPayload" "mp_childPtrSize P = 4"
    | (index_node) "mp_xCellSize P = CellSizePtr" "mp_xParseCell P = ParseCellPtrIndex" "mp_childPtrSize P = 4"
  using assms by (auto simp: format_ok_def)

text \<open>The bytes in front of the payload, which alone determine the size.\<close>

definition cell_header :: "mempage \<Rightarrow> bytes \<Rightarrow> nat" where
  "cell_header P d = (case mp_xCellSize P of
       CellSizePtr \<Rightarrow> snd (read_payload_size d 4)
     | CellSizePtrIdxLeaf \<Rightarrow> snd (read_payload_size d 0)
     | CellSizePtrNoPayload \<Rightarrow> skip_varint d 13 4
     | CellSizePtrTableLeaf \<Rightarrow> skip_key d (snd (read_payload_size d 0)))"

lemma cell_header_local:
  assumes "\<And>k. k < cell_header P d \<Longrightarrow> e k = d k"
  shows "xCellSize bt P e 0 = xCellSize bt P d 0"
proof -
  obtain n q where n: "read_payload_size d 0 = (n, q)" by fastforce
  obtain m r where m: "read_payload_size d 4 = (m, r)" by fastforce
  show ?thesis
  proof (cases "mp_xCellSize P")
    case CellSizePtr
    then have "read_payload_size e 4 = (m, r)"
      using assms m by (intro read_payload_size_extent(2) [OF m]) (simp add: cell_header_def)
    then show ?thesis using CellSizePtr m by (simp add: xCellSize_def cellSizePtr_def)
  next
    case CellSizePtrIdxLeaf
    then have "read_payload_size e 0 = (n, q)"
      using assms n by (intro read_payload_size_extent(2) [OF n]) (simp add: cell_header_def)
    then show ?thesis using CellSizePtrIdxLeaf n by (simp add: xCellSize_def cellSizePtrIdxLeaf_def)
  next
    case CellSizePtrNoPayload
    then have "skip_varint e 13 4 = skip_varint d 13 4"
      using assms by (intro skip_varint_local) (simp add: cell_header_def)
    then show ?thesis using CellSizePtrNoPayload by (simp add: xCellSize_def cellSizePtrNoPayload_def)
  next
    case CellSizePtrTableLeaf
    then have a: "k < skip_key d q \<Longrightarrow> e k = d k" for k using assms n by (simp add: cell_header_def)
    then have "read_payload_size e 0 = (n, q)"
      using skip_key_extent(1) [of q d] by (intro read_payload_size_extent(2) [OF n]) simp
    moreover have "skip_key e q = skip_key d q" using a by (rule skip_key_extent(2))
    ultimately show ?thesis using CellSizePtrTableLeaf n by (simp add: xCellSize_def cellSizePtrTableLeaf_def)
  qed
qed

lemma cell_size_range:
  assumes "limits_ok bt P"
  shows "4 \<le> xCellSize bt P d p \<and> xCellSize bt P d p \<le> mp_maxLocal P + 22 \<and> cell_header P (\<lambda>k. d (p + k)) \<le> xCellSize bt P d p"
proof -
  let ?d = "\<lambda>k. d (p + k)"
  obtain n q where n: "read_payload_size ?d 0 = (n, q)" by fastforce
  obtain m r where m: "read_payload_size ?d 4 = (m, r)" by fastforce
  note l = to_local_le [OF assms]
  show ?thesis unfolding xCellSize_base [of bt P d p]
  proof (cases "mp_xCellSize P")
    case CellSizePtr
    then show "4 \<le> xCellSize bt P ?d 0 \<and> xCellSize bt P ?d 0 \<le> mp_maxLocal P + 22 \<and> cell_header P ?d \<le> xCellSize bt P ?d 0"
      using m read_payload_size_extent(1) [OF m] measure_payload_nat [OF assms, of r False m] l [of "unat m"]
      by (auto simp: xCellSize_def cellSizePtr_def cell_header_def)
  next
    case CellSizePtrIdxLeaf
    then show "4 \<le> xCellSize bt P ?d 0 \<and> xCellSize bt P ?d 0 \<le> mp_maxLocal P + 22 \<and> cell_header P ?d \<le> xCellSize bt P ?d 0"
      using n read_payload_size_extent(1) [OF n] measure_payload_nat [OF assms, of q True n] l [of "unat n"]
      by (auto simp: xCellSize_def cellSizePtrIdxLeaf_def cell_header_def)
  next
    case CellSizePtrNoPayload
    then show "4 \<le> xCellSize bt P ?d 0 \<and> xCellSize bt P ?d 0 \<le> mp_maxLocal P + 22 \<and> cell_header P ?d \<le> xCellSize bt P ?d 0"
      using skip_varint_extent [of 4 ?d 13]
      by (simp add: xCellSize_def cellSizePtrNoPayload_def cell_header_def unsigned_of_nat take_bit_nat_eq_self)
  next
    case CellSizePtrTableLeaf
    then show "4 \<le> xCellSize bt P ?d 0 \<and> xCellSize bt P ?d 0 \<le> mp_maxLocal P + 22 \<and> cell_header P ?d \<le> xCellSize bt P ?d 0"
      using n read_payload_size_extent(1) [OF n] skip_key_extent(1) [of q ?d]
        measure_payload_nat [OF assms, of "skip_key ?d q" True n] l [of "unat n"]
      by (auto simp: xCellSize_def cellSizePtrTableLeaf_def cell_header_def)
  qed
qed

section \<open>What the pages rely on\<close>

text \<open>
  The interface behind the pointer \<open>xCellSize\<close>: a cell has at least four bytes, and its size depends on
  nothing but its own bytes, so that cells can be moved.
\<close>

locale cell_measure =
  fixes sized :: "'p \<Rightarrow> bool" and size_of :: "'p \<Rightarrow> bytes \<Rightarrow> nat \<Rightarrow> nat"
  assumes at_least: "sized p \<Longrightarrow> 4 \<le> size_of p d a"
    and own_bytes: "sized p \<Longrightarrow> (\<And>k. k < size_of p d a \<Longrightarrow> e (b + k) = d (a + k)) \<Longrightarrow> size_of p e b = size_of p d a"
begin

lemma moved:
  assumes "sized p" "get_list e b (size_of p d a) = get_list d a (size_of p d a)"
  shows "size_of p e b = size_of p d a"
proof (rule own_bytes [OF assms(1)])
  fix k assume "k < size_of p d a"
  then show "e (b + k) = d (a + k)" using arg_cong [OF assms(2), of "\<lambda>l. l ! k"] by (simp add: get_list_def)
qed

lemma kept: "sized p \<Longrightarrow> (\<And>k. a \<le> k \<Longrightarrow> k < a + size_of p d a \<Longrightarrow> e k = d k) \<Longrightarrow> size_of p e a = size_of p d a"
  by (rule own_bytes) simp_all

end

interpretation cm: cell_measure "\<lambda>(bt, P). limits_ok bt P" "\<lambda>(bt, P). xCellSize bt P"
proof
  fix p :: "btshared \<times> mempage" and d e :: bytes and a b
  assume "case p of (bt, P) \<Rightarrow> limits_ok bt P"
  then obtain bt P where p: "p = (bt, P)" "limits_ok bt P" by (cases p) auto
  then show "4 \<le> (case p of (bt, P) \<Rightarrow> xCellSize bt P) d a" using cell_size_range by simp
  assume "\<And>k. k < (case p of (bt, P) \<Rightarrow> xCellSize bt P) d a \<Longrightarrow> e (b + k) = d (a + k)"
  then have "k < cell_header P (\<lambda>k. d (a + k)) \<Longrightarrow> e (b + k) = d (a + k)" for k
    using cell_size_range [OF p(2), of d a] p(1) by auto
  then show "(case p of (bt, P) \<Rightarrow> xCellSize bt P) e b = (case p of (bt, P) \<Rightarrow> xCellSize bt P) d a"
    using cell_header_local [of P "\<lambda>k. d (a + k)" "\<lambda>k. e (b + k)" bt] p(1) xCellSize_base by simp
qed

end
