(* ===== verification/Btree_Page.thy ===== *)
theory Btree_Page
  imports Btree_Cell
begin

text \<open>
  The space of one B-tree page of SQLite, sqlite3/src/sqlite3.c, the part that begins as btree.c: the list of
  free blocks inside the page, allocation, release, defragmentation, and insertion and removal of cells.
  The pager's permission to write and the pointer map of auto-vacuum are parameters.
\<close>

section \<open>Integers in a page\<close>

datatype page_rc = Page_OK | Page_CORRUPT | Page_IOERR

definition get2byte :: "bytes \<Rightarrow> nat \<Rightarrow> nat" where
  "get2byte d p = unat (d p) * 256 + unat (d (p + 1))"

definition put2byte :: "bytes \<Rightarrow> nat \<Rightarrow> nat \<Rightarrow> bytes" where
  "put2byte d p v = d(p := of_nat (v div 256), p + 1 := of_nat v)"

definition get2byteNotZero :: "bytes \<Rightarrow> nat \<Rightarrow> nat" where
  "get2byteNotZero d p = (get2byte d p + 65535) mod 65536 + 1"

definition put4byte :: "bytes \<Rightarrow> nat \<Rightarrow> u32 \<Rightarrow> bytes" where
  "put4byte d p v = d(p := ucast (drop_bit 24 v), p + 1 := ucast (drop_bit 16 v), p + 2 := ucast (drop_bit 8 v), p + 3 := ucast v)"

definition PTF_INTKEY :: nat where "PTF_INTKEY = 1"
definition PTF_ZERODATA :: nat where "PTF_ZERODATA = 2"
definition PTF_LEAFDATA :: nat where "PTF_LEAFDATA = 4"
definition PTF_LEAF :: nat where "PTF_LEAF = 8"

section \<open>Setting up a page\<close>

definition decodeFlags :: "btshared \<Rightarrow> nat \<Rightarrow> mempage \<Rightarrow> page_rc \<times> mempage" where
  "decodeFlags bt flagByte P =
     (let P = P\<lparr>mp_max1bytePayload := bt_max1bytePayload bt\<rparr> in
      if PTF_ZERODATA + PTF_LEAF \<le> flagByte then
        let P = P\<lparr>mp_childPtrSize := 0, mp_leaf := True\<rparr> in
        if flagByte = PTF_LEAFDATA + PTF_INTKEY + PTF_LEAF then
          (Page_OK, P\<lparr>mp_intKeyLeaf := True, mp_xCellSize := CellSizePtrTableLeaf, mp_xParseCell := ParseCellPtr,
             mp_intKey := True, mp_maxLocal := bt_maxLeaf bt, mp_minLocal := bt_minLeaf bt\<rparr>)
        else
          let P = P\<lparr>mp_intKey := False, mp_intKeyLeaf := False, mp_xCellSize := CellSizePtrIdxLeaf, mp_xParseCell := ParseCellPtrIndex\<rparr> in
          if flagByte = PTF_ZERODATA + PTF_LEAF then
            (Page_OK, P\<lparr>mp_maxLocal := bt_maxLocal bt, mp_minLocal := bt_minLocal bt\<rparr>)
          else (Page_CORRUPT, P)
      else
        let P = P\<lparr>mp_childPtrSize := 4, mp_leaf := False\<rparr> in
        if flagByte = PTF_ZERODATA then
          (Page_OK, P\<lparr>mp_intKey := False, mp_intKeyLeaf := False, mp_xCellSize := CellSizePtr, mp_xParseCell := ParseCellPtrIndex,
             mp_maxLocal := bt_maxLocal bt, mp_minLocal := bt_minLocal bt\<rparr>)
        else if flagByte = PTF_LEAFDATA + PTF_INTKEY then
          (Page_OK, P\<lparr>mp_intKeyLeaf := False, mp_xCellSize := CellSizePtrNoPayload, mp_xParseCell := ParseCellPtrNoPayload,
             mp_intKey := True, mp_maxLocal := bt_maxLeaf bt, mp_minLocal := bt_minLeaf bt\<rparr>)
        else
          (Page_CORRUPT, P\<lparr>mp_intKey := False, mp_intKeyLeaf := False, mp_xCellSize := CellSizePtr, mp_xParseCell := ParseCellPtrIndex\<rparr>))"

definition zeroPage :: "btshared \<Rightarrow> nat \<Rightarrow> mempage \<Rightarrow> mempage" where
  "zeroPage bt flags P =
     (let hdr = mp_hdrOffset P; u = bt_usableSize bt; d = mp_data P;
          d = (if fast_secure bt then fill d hdr 0 (u - hdr) else d);
          d = d(hdr := of_nat flags);
          first = hdr + (if (flags div PTF_LEAF) mod 2 = 0 then 12 else 8);
          d = fill d (hdr + 1) 0 4;
          d = d(hdr + 7 := 0);
          d = put2byte d (hdr + 5) u;
          P = P\<lparr>mp_data := d, mp_nFree := int ((u - first) mod 65536)\<rparr>;
          P = snd (decodeFlags bt flags P)
      in P\<lparr>mp_cellOffset := first, mp_ovfl := [], mp_maskPage := (bt_pageSize bt - 1) mod 65536, mp_nCell := 0, mp_isInit := True\<rparr>)"

definition MX_CELL :: "btshared \<Rightarrow> nat" where
  "MX_CELL bt = (bt_pageSize bt - 8) div 6"

text \<open>The loop of \<open>btreeCellSizeCheck\<close>: \<open>True\<close> for a page that passes.\<close>

definition btreeCellSizeCheck :: "btshared \<Rightarrow> mempage \<Rightarrow> page_rc" where
  "btreeCellSizeCheck bt P =
     (let iCellFirst = mp_cellOffset P + 2 * mp_nCell P; u = bt_usableSize bt; d = mp_data P;
          iCellLast = (if mp_leaf P then u - 4 else u - 4 - 1)
      in if list_all (\<lambda>i. let pc = get2byte d (mp_cellOffset P + i * 2) in
             \<not> (pc < iCellFirst \<or> iCellLast < pc) \<and> \<not> u < pc + xCellSize bt P d pc) [0..<mp_nCell P]
         then Page_OK else Page_CORRUPT)"

definition btreeInitPage :: "btshared \<Rightarrow> mempage \<Rightarrow> page_rc \<times> mempage" where
  "btreeInitPage bt P =
     (let data = mp_hdrOffset P; (rc, P) = decodeFlags bt (unat (mp_data P data)) P in
      if rc \<noteq> Page_OK then (Page_CORRUPT, P)
      else
        let P = P\<lparr>mp_maskPage := (bt_pageSize bt - 1) mod 65536, mp_ovfl := [],
                   mp_cellOffset := mp_hdrOffset P + 8 + mp_childPtrSize P, mp_nCell := get2byte (mp_data P) (data + 3)\<rparr> in
        if MX_CELL bt < mp_nCell P then (Page_CORRUPT, P)
        else
          let P = P\<lparr>mp_nFree := - 1, mp_isInit := True\<rparr> in
          (if cell_size_ck bt then btreeCellSizeCheck bt P else Page_OK, P))"

text \<open>The walk over the free blocks: where the list stopped, what it said there, and the sum so far.\<close>

function free_blocks_loop :: "bytes \<Rightarrow> nat \<Rightarrow> nat \<Rightarrow> nat \<Rightarrow> (nat \<times> nat \<times> nat \<times> nat) option" where
  "free_blocks_loop d iCellLast pc nFree =
     (if iCellLast < pc then None
      else
        let next = get2byte d pc; size = get2byte d (pc + 2); nFree = nFree + size in
        if next \<le> pc + size + 3 then Some (pc, next, size, nFree) else free_blocks_loop d iCellLast next nFree)"
  by pat_completeness auto
termination
  by (relation "measure (\<lambda>(d, iCellLast, pc, nFree). Suc iCellLast - pc)") auto

declare free_blocks_loop.simps [simp del]

definition btreeComputeFreeSpace :: "btshared \<Rightarrow> mempage \<Rightarrow> page_rc \<times> mempage" where
  "btreeComputeFreeSpace bt P =
     (let u = bt_usableSize bt; hdr = mp_hdrOffset P; d = mp_data P;
          top = get2byteNotZero d (hdr + 5);
          iCellFirst = hdr + 8 + mp_childPtrSize P + 2 * mp_nCell P;
          iCellLast = u - 4;
          pc = get2byte d (hdr + 1);
          nFree = unat (d (hdr + 7)) + top;
          answer = (if 0 < pc then
              if pc < top then None
              else case free_blocks_loop d iCellLast pc nFree of
                None \<Rightarrow> None
              | Some (pc, next, sz, nFree) \<Rightarrow> if 0 < next then None else if u < pc + sz then None else Some nFree
            else Some nFree)
      in case answer of
           None \<Rightarrow> (Page_CORRUPT, P)
         | Some nFree \<Rightarrow>
             if u < nFree \<or> nFree < iCellFirst then (Page_CORRUPT, P)
             else (Page_OK, P\<lparr>mp_nFree := int ((nFree - iCellFirst) mod 65536)\<rparr>))"

section \<open>Defragmentation\<close>

text \<open>The end of \<open>defragmentPage\<close>, label \<open>defragment_out\<close>.\<close>

definition defragment_out :: "mempage \<Rightarrow> bytes \<Rightarrow> nat \<Rightarrow> page_rc \<times> mempage" where
  "defragment_out P d cbrk =
     (let hdr = mp_hdrOffset P; iCellFirst = mp_cellOffset P + 2 * mp_nCell P in
      if int (unat (d (hdr + 7))) + int cbrk - int iCellFirst \<noteq> mp_nFree P then (Page_CORRUPT, P\<lparr>mp_data := d\<rparr>)
      else (Page_OK, P\<lparr>mp_data :=
        fill ((put2byte d (hdr + 5) cbrk)(hdr + 1 := 0, hdr + 2 := 0)) iCellFirst 0 (cbrk - iCellFirst)\<rparr>))"

text \<open>The loop over the cell pointers that follows the moves of whole blocks.\<close>

definition shift_pointers :: "mempage \<Rightarrow> nat \<Rightarrow> nat \<Rightarrow> nat \<Rightarrow> nat \<Rightarrow> bytes \<Rightarrow> bytes" where
  "shift_pointers P iFree iFree2 sz sz2 d =
     fold (\<lambda>i d. let a = mp_cellOffset P + 2 * i; pc = get2byte d a in
             if pc < iFree then put2byte d a (pc + sz)
             else if pc < iFree2 then put2byte d a (pc + sz2) else d) [0..<mp_nCell P] d"

text \<open>The move of one or two blocks: \<open>None\<close> where the code goes on to the general case, \<open>Inl\<close> a return with corruption.\<close>

definition defragment_shift :: "btshared \<Rightarrow> mempage \<Rightarrow> (unit + bytes \<times> nat) option" where
  "defragment_shift bt P =
     (let hdr = mp_hdrOffset P; u = bt_usableSize bt; d = mp_data P; iFree = get2byte d (hdr + 1) in
      if u - 4 < iFree then Some (Inl ())
      else if iFree = 0 then None
      else
        let iFree2 = get2byte d iFree in
        if u - 4 < iFree2 then Some (Inl ())
        else if iFree2 = 0 \<or> d iFree2 = 0 \<and> d (iFree2 + 1) = 0 then
          let sz = get2byte d (iFree + 2); top = get2byte d (hdr + 5) in
          if iFree \<le> top then Some (Inl ())
          else
            case (if iFree2 \<noteq> 0 then
                    if iFree2 < iFree + sz then None
                    else
                      let sz2 = get2byte d (iFree2 + 2) in
                      if u < iFree2 + sz2 then None
                      else Some (copy d (iFree + sz + sz2) d (iFree + sz) (iFree2 - (iFree + sz)), sz + sz2, sz2)
                  else if u < iFree + sz then None
                  else Some (d, sz, 0)) of
              None \<Rightarrow> Some (Inl ())
            | Some (d, sz, sz2) \<Rightarrow>
                let cbrk = top + sz; d = copy d cbrk d top (iFree - top)
                in Some (Inr (shift_pointers P iFree iFree2 sz sz2 d, cbrk))
        else None)"

text \<open>The loop of the general case over the cells \<open>is\<close>, from a copy \<open>src\<close> of the page.\<close>

fun pack_cells :: "btshared \<Rightarrow> mempage \<Rightarrow> bytes \<Rightarrow> nat \<Rightarrow> nat list \<Rightarrow> bytes \<Rightarrow> nat \<Rightarrow> page_rc \<times> bytes \<times> nat" where
  "pack_cells bt P src iCellStart [] d cbrk = (Page_OK, d, cbrk)"
| "pack_cells bt P src iCellStart (i # is) d cbrk =
     (let a = mp_cellOffset P + i * 2; pc = get2byte d a in
      if bt_usableSize bt - 4 < pc then (Page_CORRUPT, d, cbrk)
      else
        let size = xCellSize bt P src pc in
        if cbrk < size + iCellStart \<or> bt_usableSize bt < pc + size then (Page_CORRUPT, d, cbrk - size)
        else
          let cbrk = cbrk - size; d = put2byte d a cbrk; d = copy d cbrk src pc size
          in pack_cells bt P src iCellStart is d cbrk)"

definition defragmentPage :: "btshared \<Rightarrow> int \<Rightarrow> mempage \<Rightarrow> page_rc \<times> mempage" where
  "defragmentPage bt nMaxFrag P =
     (let hdr = mp_hdrOffset P; d = mp_data P in
      case (if int (unat (d (hdr + 7))) \<le> nMaxFrag then defragment_shift bt P else None) of
        Some (Inl _) \<Rightarrow> (Page_CORRUPT, P)
      | Some (Inr (d, cbrk)) \<Rightarrow> defragment_out P d cbrk
      | None \<Rightarrow>
          let (rc, d, cbrk) = pack_cells bt P d (get2byte d (hdr + 5)) [0..<mp_nCell P] d (bt_usableSize bt) in
          if rc \<noteq> Page_OK then (rc, P\<lparr>mp_data := d\<rparr>) else defragment_out P (d(hdr + 7 := 0)) cbrk)"

section \<open>Allocation\<close>

text \<open>The loop of \<open>pageFindSlot\<close> at the free block \<open>pc\<close>, whose address stands at \<open>iAddr\<close>: the code, the slot, the page.\<close>

function find_slot_loop :: "nat \<Rightarrow> nat \<Rightarrow> nat \<Rightarrow> bytes \<Rightarrow> nat \<Rightarrow> nat \<Rightarrow> page_rc \<times> nat option \<times> bytes" where
  "find_slot_loop u hdr nByte d iAddr pc =
     (if pc + nByte \<le> u then
        let size = get2byte d (pc + 2) in
        if nByte \<le> size then
          let x = size - nByte in
          if x < 4 then
            if 57 < d (hdr + 7) then (Page_OK, None, d)
            else
              let d = copy d iAddr d pc 2; d = d(hdr + 7 := d (hdr + 7) + of_nat x)
              in (Page_OK, Some pc, d)
          else if u < x + pc + nByte then (Page_CORRUPT, None, d)
          else (Page_OK, Some (pc + x), put2byte d (pc + 2) x)
        else
          let next = get2byte d pc in
          if next \<le> pc then (if next \<noteq> 0 then Page_CORRUPT else Page_OK, None, d)
          else find_slot_loop u hdr nByte d pc next
      else (if u < pc + 4 then Page_CORRUPT else Page_OK, None, d))"
  by pat_completeness auto
termination
  by (relation "measure (\<lambda>(u, hdr, nByte, d, iAddr, pc). Suc u - pc)") auto

declare find_slot_loop.simps [simp del]

definition pageFindSlot :: "btshared \<Rightarrow> nat \<Rightarrow> mempage \<Rightarrow> page_rc \<times> nat option \<times> mempage" where
  "pageFindSlot bt nByte P =
     (let hdr = mp_hdrOffset P; d = mp_data P;
          (rc, slot, d) = find_slot_loop (bt_usableSize bt) hdr nByte d (hdr + 1) (get2byte d (hdr + 1))
      in (rc, slot, P\<lparr>mp_data := d\<rparr>))"

text \<open>From the point where no free block fits: the gap, after defragmentation if necessary.\<close>

definition allocate_from_gap :: "btshared \<Rightarrow> nat \<Rightarrow> nat \<Rightarrow> nat \<Rightarrow> mempage \<Rightarrow> page_rc \<times> nat \<times> mempage" where
  "allocate_from_gap bt nByte gap tp P =
     (let hdr = mp_hdrOffset P;
          (rc, tp, P) =
            (if tp < gap + 2 + nByte then
               let (rc, P) = defragmentPage bt (min 4 (mp_nFree P - (2 + int nByte))) P
               in (rc, get2byteNotZero (mp_data P) (hdr + 5), P)
             else (Page_OK, tp, P))
      in if rc \<noteq> Page_OK then (rc, 0, P)
         else
           let tp = tp - nByte in (Page_OK, tp, P\<lparr>mp_data := put2byte (mp_data P) (hdr + 5) tp\<rparr>))"

definition allocateSpace :: "btshared \<Rightarrow> nat \<Rightarrow> mempage \<Rightarrow> page_rc \<times> nat \<times> mempage" where
  "allocateSpace bt nByte P =
     (let hdr = mp_hdrOffset P; d = mp_data P; u = bt_usableSize bt;
          gap = mp_cellOffset P + 2 * mp_nCell P;
          tp = get2byte d (hdr + 5);
          checked = (if tp < gap then if tp = 0 \<and> u = 65536 then Some 65536 else None
                     else if u < tp then None else Some tp)
      in case checked of
           None \<Rightarrow> (Page_CORRUPT, 0, P)
         | Some tp \<Rightarrow>
             if (d (hdr + 2) \<noteq> 0 \<or> d (hdr + 1) \<noteq> 0) \<and> gap + 2 \<le> tp then
               let (rc, slot, P) = pageFindSlot bt nByte P in
               case slot of
                 Some g2 \<Rightarrow> (if g2 \<le> gap then Page_CORRUPT else Page_OK, g2, P)
               | None \<Rightarrow> if rc \<noteq> Page_OK then (rc, 0, P) else allocate_from_gap bt nByte gap tp P
             else allocate_from_gap bt nByte gap tp P)"

section \<open>Release\<close>

text \<open>The search for the place in the list: the address \<open>iPtr\<close> of the pointer and the block \<open>iFreeBlk\<close> it leads to.\<close>

function free_place :: "bytes \<Rightarrow> nat \<Rightarrow> nat \<Rightarrow> (nat \<times> nat) option" where
  "free_place d iStart iPtr =
     (let iFreeBlk = get2byte d iPtr in
      if iFreeBlk < iStart then
        if iFreeBlk \<le> iPtr then if iFreeBlk = 0 then Some (iPtr, 0) else None
        else free_place d iStart iFreeBlk
      else Some (iPtr, iFreeBlk))"
  by pat_completeness auto
termination
  by (relation "measure (\<lambda>(d, iStart, iPtr). iStart - iPtr)") auto

declare free_place.simps [simp del]

text \<open>
  Joining the released bytes with the block behind them and the block in front of them: \<open>None\<close> where the code
  reports corruption, else start, end and size of the block to enter, its pointer, the next block, and \<open>nFrag\<close>.
\<close>

definition coalesce :: "btshared \<Rightarrow> nat \<Rightarrow> bytes \<Rightarrow> nat \<Rightarrow> nat \<Rightarrow> (nat \<times> nat \<times> nat \<times> nat \<times> nat \<times> nat) option" where
  "coalesce bt hdr d iStart iSize =
     (let u = bt_usableSize bt; iEnd = iStart + iSize in
      case free_place d iStart (hdr + 1) of
        None \<Rightarrow> None
      | Some (iPtr, iFreeBlk) \<Rightarrow>
          if u - 4 < iFreeBlk then None
          else
            case (if iFreeBlk \<noteq> 0 \<and> iFreeBlk \<le> iEnd + 3 then
                    if iFreeBlk < iEnd then None
                    else
                      let nFrag = iFreeBlk - iEnd; iEnd = iFreeBlk + get2byte d (iFreeBlk + 2) in
                      if u < iEnd then None
                      else Some (nFrag, iEnd, (iEnd - iStart) mod 65536, get2byte d iFreeBlk)
                  else Some (0, iEnd, iSize, iFreeBlk)) of
              None \<Rightarrow> None
            | Some (nFrag, iEnd, iSize, iFreeBlk) \<Rightarrow>
                case (if hdr + 1 < iPtr then
                        let iPtrEnd = iPtr + get2byte d (iPtr + 2) in
                        if iStart \<le> iPtrEnd + 3 then
                          if iStart < iPtrEnd then None
                          else Some (nFrag + (iStart - iPtrEnd), (iEnd - iPtr) mod 65536, iPtr)
                        else Some (nFrag, iSize, iStart)
                      else Some (nFrag, iSize, iStart)) of
                  None \<Rightarrow> None
                | Some (nFrag, iSize, iStart) \<Rightarrow>
                    if unat (d (hdr + 7)) < nFrag then None
                    else Some (iStart, iEnd, iSize, iPtr, iFreeBlk, nFrag))"

definition freeSpace :: "btshared \<Rightarrow> nat \<Rightarrow> nat \<Rightarrow> mempage \<Rightarrow> page_rc \<times> mempage" where
  "freeSpace bt iStart iSize P =
     (let hdr = mp_hdrOffset P; d = mp_data P; iOrigSize = iSize in
      case (if d (hdr + 2) = 0 \<and> d (hdr + 1) = 0 then Some (iStart, iStart + iSize, iSize, hdr + 1, 0, 0)
            else coalesce bt hdr d iStart iSize) of
        None \<Rightarrow> (Page_CORRUPT, P)
      | Some (iStart, iEnd, iSize, iPtr, iFreeBlk, nFrag) \<Rightarrow>
          let d = d(hdr + 7 := d (hdr + 7) - of_nat nFrag);
              x = get2byte d (hdr + 5);
              d = (if fast_secure bt then fill d iStart 0 iSize else d) in
          if iStart \<le> x then
            if iStart < x then (Page_CORRUPT, P\<lparr>mp_data := d\<rparr>)
            else if iPtr \<noteq> hdr + 1 then (Page_CORRUPT, P\<lparr>mp_data := d\<rparr>)
            else (Page_OK, P\<lparr>mp_data := put2byte (put2byte d (hdr + 1) iFreeBlk) (hdr + 5) iEnd,
                             mp_nFree := mp_nFree P + int iOrigSize\<rparr>)
          else (Page_OK, P\<lparr>mp_data := put2byte (put2byte (put2byte d iPtr iStart) iStart iFreeBlk) (iStart + 2) iSize,
                           mp_nFree := mp_nFree P + int iOrigSize\<rparr>))"

section \<open>Cells\<close>

definition dropCell :: "btshared \<Rightarrow> nat \<Rightarrow> nat \<Rightarrow> page_rc \<times> mempage \<Rightarrow> page_rc \<times> mempage" where
  "dropCell bt idx sz rP =
     (let (rc, P) = rP in
      if rc \<noteq> Page_OK then (rc, P)
      else
        let ptr = mp_cellOffset P + 2 * idx; pc = get2byte (mp_data P) ptr; hdr = mp_hdrOffset P in
        if bt_usableSize bt < pc + sz then (Page_CORRUPT, P)
        else
          let (rc, P) = freeSpace bt (pc mod 65536) (sz mod 65536) P in
          if rc \<noteq> Page_OK then (rc, P)
          else
            let P = P\<lparr>mp_nCell := (mp_nCell P + 65535) mod 65536\<rparr>; d = mp_data P in
            if mp_nCell P = 0 then
              let d = fill d (hdr + 1) 0 4; d = d(hdr + 7 := 0); d = put2byte d (hdr + 5) (bt_usableSize bt) in
              (Page_OK, P\<lparr>mp_data := d,
                mp_nFree := int (bt_usableSize bt) - int (mp_hdrOffset P) - int (mp_childPtrSize P) - 8\<rparr>)
            else
              let d = copy d ptr d (ptr + 2) (2 * (mp_nCell P - idx)); d = put2byte d (hdr + 3) (mp_nCell P)
              in (Page_OK, P\<lparr>mp_data := d, mp_nFree := mp_nFree P + 2\<rparr>))"

text \<open>
  The common middle of the two insertions once there is room: \<open>write\<close> puts the content at the allocated place.
  \<open>wr\<close> answers the request to write the page, \<open>ptrmap\<close> the entry of an overflow page under auto-vacuum.
\<close>

definition insert_on_page ::
  "btshared \<Rightarrow> page_rc \<Rightarrow> (mempage \<Rightarrow> bytes \<Rightarrow> page_rc) \<Rightarrow> (bytes \<Rightarrow> nat \<Rightarrow> bytes) \<Rightarrow>
   nat \<Rightarrow> bytes \<Rightarrow> nat \<Rightarrow> mempage \<Rightarrow> page_rc \<times> mempage" where
  "insert_on_page bt wr ptrmap write i pCell sz P =
     (if wr \<noteq> Page_OK then (wr, P)
      else
        let (rc, idx, P) = allocateSpace bt sz P in
        if rc \<noteq> Page_OK then (rc, P)
        else
          let P = P\<lparr>mp_nFree := mp_nFree P - int ((2 + sz) mod 65536)\<rparr>;
              d = write (mp_data P) idx;
              pIns = mp_cellOffset P + i * 2;
              d = copy d (pIns + 2) d pIns (2 * (mp_nCell P - i));
              d = put2byte d pIns idx;
              P = P\<lparr>mp_nCell := (mp_nCell P + 1) mod 65536\<rparr>;
              hdr = mp_hdrOffset P;
              d = d(hdr + 4 := d (hdr + 4) + 1);
              d = (if d (hdr + 4) = 0 then d(hdr + 3 := d (hdr + 3) + 1) else d);
              P = P\<lparr>mp_data := d\<rparr>
          in if bt_autoVacuum bt \<and> ptrmap P pCell \<noteq> Page_OK then (ptrmap P pCell, P) else (Page_OK, P))"

definition insertCell ::
  "btshared \<Rightarrow> page_rc \<Rightarrow> (mempage \<Rightarrow> bytes \<Rightarrow> page_rc) \<Rightarrow> nat \<Rightarrow> bytes \<Rightarrow> nat \<Rightarrow> bytes option \<Rightarrow> u32 \<Rightarrow>
   mempage \<Rightarrow> page_rc \<times> mempage" where
  "insertCell bt wr ptrmap i pCell sz pTemp iChild P =
     (if mp_ovfl P \<noteq> [] \<or> mp_nFree P < int sz + 2 then
        let pCell = (case pTemp of Some tmp \<Rightarrow> copy tmp 0 pCell 0 sz | None \<Rightarrow> pCell);
            pCell = put4byte pCell 0 iChild
        in (Page_OK, P\<lparr>mp_ovfl := mp_ovfl P @ [(i mod 65536, pCell)]\<rparr>)
      else insert_on_page bt wr ptrmap (\<lambda>d idx. put4byte (copy d (idx + 4) pCell 4 (sz - 4)) idx iChild) i pCell sz P)"

definition insertCellFast ::
  "btshared \<Rightarrow> page_rc \<Rightarrow> (mempage \<Rightarrow> bytes \<Rightarrow> page_rc) \<Rightarrow> nat \<Rightarrow> bytes \<Rightarrow> nat \<Rightarrow> mempage \<Rightarrow> page_rc \<times> mempage" where
  "insertCellFast bt wr ptrmap i pCell sz P =
     (if mp_nFree P < int sz + 2 then (Page_OK, P\<lparr>mp_ovfl := mp_ovfl P @ [(i mod 65536, pCell)]\<rparr>)
      else insert_on_page bt wr ptrmap (\<lambda>d idx. copy d idx pCell 0 sz) i pCell sz P)"

end
