(* ===== verification/Btree_Space.thy ===== *)
theory Btree_Space
  imports Btree_Page
begin

text \<open>
  The areas of a page: cells and free blocks as pairs of start and size, the list of free blocks threaded through
  the page, and what search, release and joining do to them.
\<close>

section \<open>Two-byte integers\<close>

named_theorems page_simps

lemma get2byte_less: "get2byte d p < 65536"
proof -
  have "unat (d p) < 256" "unat (d (p + 1)) < 256" using unsigned_less [of "d p"] unsigned_less [of "d (p + 1)"] by simp_all
  then show ?thesis by (simp add: get2byte_def)
qed

lemma get2byte_put2byte [page_simps]: "v < 65536 \<Longrightarrow> get2byte (put2byte d p v) p = v"
  by (simp add: get2byte_def put2byte_def unsigned_of_nat take_bit_eq_mod div_mod_decomp)

lemma put2byte_other: "k \<noteq> p \<Longrightarrow> k \<noteq> p + 1 \<Longrightarrow> put2byte d p v k = d k"
  by (simp add: put2byte_def)

lemma get2byte_local: "d p = e p \<Longrightarrow> d (p + 1) = e (p + 1) \<Longrightarrow> get2byte d p = get2byte e p"
  by (simp add: get2byte_def)

lemma get2byte_put2byte_other [page_simps]: "p + 2 \<le> q \<or> q + 2 \<le> p \<Longrightarrow> get2byte (put2byte d p v) q = get2byte d q"
  by (rule get2byte_local) (auto simp: put2byte_other)

lemma get2byte_0: "get2byte d p = 0 \<longleftrightarrow> d p = 0 \<and> d (p + 1) = 0"
  by (auto simp: get2byte_def unat_eq_zero)

lemma notzero: "get2byteNotZero d p = (if get2byte d p = 0 then 65536 else get2byte d p)"
  using get2byte_less [of d p] by (auto simp: get2byteNotZero_def mod_if)

lemma notzero_put2byte: "0 < v \<Longrightarrow> v \<le> 65536 \<Longrightarrow> get2byteNotZero (put2byte d p v) p = v"
proof (cases "v = 65536")
  case True
  then have "get2byte (put2byte d p v) p = 0" by (simp add: get2byte_def put2byte_def)
  then show ?thesis using True by (simp add: notzero)
next
  case False
  assume "0 < v" "v \<le> 65536"
  then show ?thesis using False by (simp add: notzero page_simps)
qed

section \<open>Areas\<close>

type_synonym area = "nat \<times> nat"

definition disj :: "area \<Rightarrow> area \<Rightarrow> bool" where
  "disj x y = (fst x + snd x \<le> fst y \<or> fst y + snd y \<le> fst x)"

definition areas :: "nat \<Rightarrow> nat \<Rightarrow> area list \<Rightarrow> bool" where
  "areas lo hi xs = (sorted_wrt disj xs \<and> (\<forall>(s, n) \<in> set xs. lo \<le> s \<and> s + n \<le> hi \<and> 4 \<le> n))"

definition total :: "area list \<Rightarrow> nat" where
  "total xs = sum_list (map snd xs)"

lemma total_simps [simp]: "total [] = 0" "total (x # xs) = snd x + total xs" "total (xs @ ys) = total xs + total ys"
  by (simp_all add: total_def)

lemma disj_sym: "disj x y = disj y x"
  by (auto simp: disj_def)

lemma areas_Nil [simp]: "areas lo hi []"
  by (simp add: areas_def)

lemma areas_Cons: "areas lo hi (x # xs) \<longleftrightarrow>
    lo \<le> fst x \<and> fst x + snd x \<le> hi \<and> 4 \<le> snd x \<and> (\<forall>y \<in> set xs. disj x y) \<and> areas lo hi xs"
  by (auto simp: areas_def split: prod.splits)

lemma areas_append: "areas lo hi (xs @ ys) \<longleftrightarrow> areas lo hi xs \<and> areas lo hi ys \<and> (\<forall>x \<in> set xs. \<forall>y \<in> set ys. disj x y)"
  by (auto simp: areas_def sorted_wrt_append)

lemmas areas_simps = areas_Cons areas_append

lemma areas_in: "areas lo hi xs \<Longrightarrow> (s, n) \<in> set xs \<Longrightarrow> lo \<le> s \<and> s + n \<le> hi \<and> 4 \<le> n"
  by (auto simp: areas_def)

lemma areas_mono: "areas lo hi xs \<Longrightarrow> (\<And>s n. (s, n) \<in> set xs \<Longrightarrow> lo' \<le> s \<and> s + n \<le> hi') \<Longrightarrow> areas lo' hi' xs"
  by (auto simp: areas_def)

text \<open>Areas that do not overlap fit into the space that contains them.\<close>

lemma areas_card:
  "areas lo hi xs \<Longrightarrow> card (\<Union>x \<in> set xs. {fst x..<fst x + snd x}) = total xs \<and> (\<Union>x \<in> set xs. {fst x..<fst x + snd x}) \<subseteq> {lo..<hi}"
proof (induction xs)
  case (Cons x xs)
  let ?A = "{fst x..<fst x + snd x}" and ?B = "\<Union>x \<in> set xs. {fst x..<fst x + snd x}"
  have "?A \<inter> {fst y..<fst y + snd y} = {}" if "y \<in> set xs" for y
    using that Cons.prems by (auto simp: areas_Cons disj_def)
  then have "?A \<inter> ?B = {}" by blast
  then have "card (?A \<union> ?B) = card ?A + card ?B" by (intro card_Un_disjoint) auto
  then show ?case using Cons by (auto simp: areas_Cons)
qed simp

lemma areas_fit: "areas lo hi xs \<Longrightarrow> lo \<le> hi \<Longrightarrow> total xs + lo \<le> hi"
  using areas_card [of lo hi xs] card_mono [of "{lo..<hi}" "\<Union>x \<in> set xs. {fst x..<fst x + snd x}"] by auto

section \<open>The list of free blocks\<close>

text \<open>\<open>linked d a fl e\<close>: from the pointer at address \<open>a\<close> the blocks \<open>fl\<close> are linked, and the last one points to \<open>e\<close>.\<close>

fun linked :: "bytes \<Rightarrow> nat \<Rightarrow> area list \<Rightarrow> nat \<Rightarrow> bool" where
  "linked d a [] e = (get2byte d a = e)"
| "linked d a ((s, n) # fl) e = (get2byte d a = s \<and> get2byte d (s + 2) = n \<and> linked d s fl e)"

text \<open>\<open>spaced lo fl u\<close>: they come in order, from \<open>lo\<close> on, at least four bytes long and four bytes apart, and end by \<open>u\<close>.\<close>

fun spaced :: "nat \<Rightarrow> area list \<Rightarrow> nat \<Rightarrow> bool" where
  "spaced lo [] u = (lo \<le> u + 4)"
| "spaced lo ((s, n) # fl) u = (lo \<le> s \<and> 4 \<le> n \<and> spaced (s + n + 4) fl u)"

definition last_ptr :: "nat \<Rightarrow> area list \<Rightarrow> nat" where
  "last_ptr a fl = (if fl = [] then a else fst (last fl))"

definition first_block :: "area list \<Rightarrow> nat" where
  "first_block fl = (case fl of [] \<Rightarrow> 0 | x # _ \<Rightarrow> fst x)"

lemma last_ptr_simps [simp]: "last_ptr a [] = a" "last_ptr a (x # fl) = last_ptr (fst x) fl" "last_ptr a (fl @ [x]) = fst x"
  by (auto simp: last_ptr_def)

lemma first_block_simps [simp]: "first_block [] = 0" "first_block (x # fl) = fst x"
  by (simp_all add: first_block_def)

lemma linked_last: "linked d a fl e \<Longrightarrow> get2byte d (last_ptr a fl) = e"
  by (induction fl arbitrary: a) auto

lemma linked_first: "linked d a fl 0 \<Longrightarrow> get2byte d a = first_block fl"
  by (cases fl) auto

lemma linked_split: "linked d a (l1 @ l2) 0 \<longleftrightarrow> linked d a l1 (first_block l2) \<and> linked d (last_ptr a l1) l2 0"
proof (induction l1 arbitrary: a)
  case Nil
  then show ?case using linked_first [of d a l2] by auto
next
  case (Cons x l1)
  obtain s n where x: "x = (s, n)" by fastforce
  show ?case using Cons.IH [of s] by (simp add: x)
qed

lemma linked_mid: "linked d a (l1 @ (s, n) # l2) e \<longleftrightarrow> linked d a l1 s \<and> get2byte d (s + 2) = n \<and> linked d s l2 e"
  by (induction l1 arbitrary: a) auto

lemma linked_cong:
  assumes "\<And>k. k \<in> {a, a + 1} \<Longrightarrow> e k = d k" "\<And>s n k. (s, n) \<in> set fl \<Longrightarrow> s \<le> k \<Longrightarrow> k < s + 4 \<Longrightarrow> e k = d k"
  shows "linked e a fl t = linked d a fl t"
  using assms
proof (induction fl arbitrary: a)
  case Nil
  then show ?case by (simp add: get2byte_def)
next
  case (Cons x fl)
  obtain s n where x: "x = (s, n)" by fastforce
  have e: "e k = d k" if "s \<le> k" "k < s + 4" for k using Cons.prems(2) [of s n k] x that by simp
  have "get2byte e a = get2byte d a" using Cons.prems(1) by (intro get2byte_local) simp_all
  moreover have "get2byte e (s + 2) = get2byte d (s + 2)" using e by (intro get2byte_local) simp_all
  moreover have "linked e s fl t = linked d s fl t"
  proof (rule Cons.IH)
    show "e k = d k" if "k \<in> {s, s + 1}" for k using e that by auto
    show "e k = d k" if "(s', n') \<in> set fl" "s' \<le> k" "k < s' + 4" for s' n' k using Cons.prems(2) that by auto
  qed
  ultimately show ?case by (simp add: x)
qed

lemma spaced_mid: "4 \<le> s \<Longrightarrow> spaced lo (l1 @ (s, n) # l2) u \<longleftrightarrow> spaced lo l1 (s - 4) \<and> 4 \<le> n \<and> spaced (s + n + 4) l2 u"
  by (induction l1 arbitrary: lo) auto

lemma spaced_upper: "spaced lo fl u \<Longrightarrow> lo \<le> u + 4"
  by (induction fl arbitrary: lo) fastforce+

lemma spaced_in: "spaced lo fl u \<Longrightarrow> (s, n) \<in> set fl \<Longrightarrow> lo \<le> s \<and> 4 \<le> n \<and> s + n \<le> u"
proof (induction fl arbitrary: lo)
  case (Cons x fl)
  obtain a m where x: "x = (a, m)" by fastforce
  then show ?case using Cons.prems Cons.IH [of "a + m + 4"] spaced_upper [of "a + m + 4" fl u] by auto
qed simp

lemma spaced_last: "spaced lo fl u \<Longrightarrow> fl \<noteq> [] \<Longrightarrow> lo \<le> last_ptr a fl \<and> last_ptr a fl + 4 \<le> u"
  using spaced_in [of lo fl u "fst (last fl)" "snd (last fl)"] by (auto simp: last_ptr_def)

text \<open>Writing a new target behind the last block.\<close>

lemma linked_relink:
  assumes "linked d a fl e" "spaced lo fl u" "a + 2 \<le> lo" "v < 65536"
  shows "linked (put2byte d (last_ptr a fl) v) a fl v"
  using assms
proof (induction fl arbitrary: a lo)
  case (Cons x fl)
  obtain s n where x: "x = (s, n)" by fastforce
  have sp: "lo \<le> s" "4 \<le> n" "spaced (s + n + 4) fl u" using Cons.prems(2) x by auto
  have l: "s \<le> last_ptr s fl" "last_ptr s fl = s \<or> s + 8 \<le> last_ptr s fl"
    using spaced_last [OF sp(3), of s] sp(2) by (cases "fl = []"; fastforce simp: last_ptr_def)+
  have "linked (put2byte d (last_ptr s fl) v) s fl v"
    using Cons.prems x sp by (intro Cons.IH [of s "s + n + 4"]) auto
  moreover have "get2byte (put2byte d (last_ptr s fl) v) a = get2byte d a"
    using l(1) sp(1) Cons.prems(3) by (intro get2byte_put2byte_other) linarith
  moreover have "get2byte (put2byte d (last_ptr s fl) v) (s + 2) = get2byte d (s + 2)"
    using l(2) by (intro get2byte_put2byte_other) linarith
  ultimately show ?case using Cons.prems(1) x by simp
qed (simp add: page_simps)

text \<open>
  \<open>space\<close>: from \<open>top\<close> to \<open>u\<close> the page is divided into cells, free blocks and the fragments that are only counted.
\<close>

definition space :: "bytes \<Rightarrow> nat \<Rightarrow> nat \<Rightarrow> nat \<Rightarrow> area list \<Rightarrow> area list \<Rightarrow> bool" where
  "space d hdr u t cs fl =
     (get2byteNotZero d (hdr + 5) = t \<and> hdr + 8 \<le> t \<and> t \<le> u \<and> u \<le> 65536 \<and>
      linked d (hdr + 1) fl 0 \<and> spaced (t + 1) fl u \<and> areas t u (cs @ fl) \<and> total (cs @ fl) + unat (d (hdr + 7)) + t = u)"

lemma spaceD:
  assumes "space d hdr u t cs fl"
  shows "get2byteNotZero d (hdr + 5) = t" "hdr + 8 \<le> t" "t \<le> u" "u \<le> 65536" "linked d (hdr + 1) fl 0"
    "spaced (t + 1) fl u" "areas t u (cs @ fl)" "total (cs @ fl) + unat (d (hdr + 7)) + t = u"
  using assms by (simp_all add: space_def)

section \<open>Searching the list for a slot\<close>

text \<open>What \<open>pageFindSlot\<close> answers on a sound list: no slot, a block as a whole, or the end of a block.\<close>

definition found_slot :: "nat \<Rightarrow> nat \<Rightarrow> bytes \<Rightarrow> nat \<Rightarrow> area list \<Rightarrow> page_rc \<times> nat option \<times> bytes \<Rightarrow> bool" where
  "found_slot n hdr d a fl r \<longleftrightarrow> r = (Page_OK, None, d) \<or>
     (\<exists>l1 s m l2. fl = l1 @ (s, m) # l2 \<and> n \<le> m \<and>
        (m < n + 4 \<and> d (hdr + 7) \<le> 57 \<and>
           r = (let e = copy d (last_ptr a l1) d s 2 in (Page_OK, Some s, e(hdr + 7 := e (hdr + 7) + of_nat (m - n)))) \<or>
         n + 4 \<le> m \<and> r = (Page_OK, Some (s + (m - n)), put2byte d (s + 2) (m - n))))"

lemma found_slot_cases [consumes 1, case_names none whole part]:
  assumes "found_slot n hdr d a fl r"
  obtains "r = (Page_OK, None, d)"
  | l1 s m l2 where "fl = l1 @ (s, m) # l2" "n \<le> m" "m < n + 4" "d (hdr + 7) \<le> 57"
      "r = (let e = copy d (last_ptr a l1) d s 2 in (Page_OK, Some s, e(hdr + 7 := e (hdr + 7) + of_nat (m - n))))"
  | l1 s m l2 where "fl = l1 @ (s, m) # l2" "n + 4 \<le> m" "r = (Page_OK, Some (s + (m - n)), put2byte d (s + 2) (m - n))"
  using assms unfolding found_slot_def by blast

lemma found_slot_later:
  assumes "found_slot n hdr d s fl r"
  shows "found_slot n hdr d a ((s, m) # fl) r"
  using assms
proof (cases rule: found_slot_cases)
  case none
  then show ?thesis by (simp add: found_slot_def)
next
  case (whole l1 s' m' l2)
  then show ?thesis unfolding found_slot_def
    by (intro disjI2 exI [of _ "(s, m) # l1"] exI [of _ s'] exI [of _ m'] exI [of _ l2]) simp
next
  case (part l1 s' m' l2)
  then show ?thesis unfolding found_slot_def
    by (intro disjI2 exI [of _ "(s, m) # l1"] exI [of _ s'] exI [of _ m'] exI [of _ l2]) simp
qed

lemma find_slot_sound:
  assumes "linked d a fl 0" "spaced lo fl u" "fl \<noteq> []" "0 < lo"
  shows "found_slot n hdr d a fl (find_slot_loop u hdr n d a (get2byte d a))"
  using assms
proof (induction fl arbitrary: a lo)
  case (Cons x fl)
  obtain s m where x: "x = (s, m)" by fastforce
  have l: "get2byte d a = s" "get2byte d (s + 2) = m" "linked d s fl 0" using Cons.prems(1) x by auto
  have sp: "lo \<le> s" "4 \<le> m" "spaced (s + m + 4) fl u" "s + m \<le> u"
    using Cons.prems(2) x spaced_upper [of "s + m + 4" fl u] by auto
  let ?r = "find_slot_loop u hdr n d a s"
  have hit: "found_slot n hdr d a (x # fl) r"
    if "r = (Page_OK, None, d) \<or> n \<le> m \<and>
        (m < n + 4 \<and> d (hdr + 7) \<le> 57 \<and>
           r = (let e = copy d a d s 2 in (Page_OK, Some s, e(hdr + 7 := e (hdr + 7) + of_nat (m - n)))) \<or>
         n + 4 \<le> m \<and> r = (Page_OK, Some (s + (m - n)), put2byte d (s + 2) (m - n)))" for r
    unfolding found_slot_def using that x by (metis append_Nil last_ptr_simps(1))
  show ?case
  proof (cases "s + n \<le> u \<and> \<not> n \<le> m \<and> fl \<noteq> []")
    case True
    obtain s2 m2 fl2 where fl: "fl = (s2, m2) # fl2" using True by (cases fl) auto
    then have "s < s2" "get2byte d s = s2" using sp l by auto
    then have "?r = find_slot_loop u hdr n d s (get2byte d s)"
      using True l by (subst find_slot_loop.simps) (simp add: Let_def)
    moreover have "found_slot n hdr d s fl (find_slot_loop u hdr n d s (get2byte d s))"
      using Cons.IH [OF l(3) sp(3)] True by simp
    ultimately have "found_slot n hdr d s fl ?r" by simp
    then show ?thesis unfolding l(1) x by (rule found_slot_later)
  next
    case False
    have "\<not> u < s + 4" using sp by simp
    moreover have "get2byte d s = 0" if "fl = []" using l(3) that by simp
    ultimately have "?r = (if s + n \<le> u \<and> n \<le> m then
        if m < n + 4 then if 57 < d (hdr + 7) then (Page_OK, None, d)
          else let e = copy d a d s 2 in (Page_OK, Some s, e(hdr + 7 := e (hdr + 7) + of_nat (m - n)))
        else (Page_OK, Some (s + (m - n)), put2byte d (s + 2) (m - n))
      else (Page_OK, None, d))"
      using False sp l(2) by (subst find_slot_loop.simps) (auto simp: Let_def)
    then show ?thesis unfolding l(1) by (intro hit) (auto simp: not_less Let_def)
  qed
qed simp

section \<open>Taking a slot\<close>

lemma copy_2: "copy d a d s 2 = put2byte d a (get2byte d s)"
proof -
  have "unat (d (s + 1)) < 256" using unsigned_less [of "d (s + 1)"] by simp
  then have "of_nat (get2byte d s div 256) = d s" by (simp add: get2byte_def)
  moreover have "(of_nat (get2byte d s) :: u8) = d (s + 1)"
  proof -
    have z: "(256 :: u8) = 0" by simp
    have "(of_nat (get2byte d s) :: u8) = d s * 256 + d (s + 1)" by (simp add: get2byte_def)
    then show ?thesis unfolding z by simp
  qed
  ultimately show ?thesis by (auto simp: copy_def put2byte_def)
qed

lemma linked_start: "get2byte d a = get2byte d b \<Longrightarrow> linked d a fl e = linked d b fl e"
  by (cases fl) auto

lemma disj_shrink: "disj x (s, m) \<Longrightarrow> s \<le> s' \<Longrightarrow> s' + n' \<le> s + m \<Longrightarrow> disj x (s', n')"
  by (auto simp: disj_def)

text \<open>Where a pointer to a block can be.\<close>

lemma last_ptr_place:
  assumes "spaced (t + 1) l (s - 4)" "4 \<le> s"
  shows "last_ptr a l = a \<or> t + 1 \<le> last_ptr a l \<and> last_ptr a l + 8 \<le> s"
  using spaced_last [OF assms(1), of a] assms(2) by (cases "l = []") auto

text \<open>A pointer inside the list is redirected past the block behind it.\<close>

lemma linked_unlink:
  assumes l: "linked d a (l1 @ (s, m) # l2) 0" and sp: "spaced (t + 1) (l1 @ (s, m) # l2) u" and a: "a + 7 \<le> t"
  shows "linked (put2byte d (last_ptr a l1) (get2byte d s)) a (l1 @ l2) 0"
proof -
  have s: "t + 1 \<le> s" "4 \<le> s" using spaced_in [OF sp, of s m] a by auto
  have sp12: "spaced (t + 1) l1 (s - 4)" "4 \<le> m" "spaced (s + m + 4) l2 u" using sp spaced_mid [OF s(2)] by auto
  have l12: "linked d a l1 s" "linked d s l2 0" using l by (auto simp: linked_mid)
  let ?p = "last_ptr a l1" and ?v = "get2byte d s"
  let ?e = "put2byte d ?p ?v"
  have p: "?p = a \<or> t + 1 \<le> ?p \<and> ?p + 8 \<le> s" by (rule last_ptr_place [OF sp12(1) s(2)])
  have "linked ?e a l1 ?v" using linked_relink [OF l12(1) sp12(1)] a get2byte_less by simp
  moreover have "?v = first_block l2" using linked_first [OF l12(2)] .
  moreover have "linked ?e s l2 0"
  proof -
    have "linked ?e s l2 0 = linked d s l2 0"
      using p a s sp12 spaced_in [OF sp12(3)] by (intro linked_cong put2byte_other) fastforce+
    then show ?thesis using l12(2) by simp
  qed
  moreover have "get2byte ?e ?p = get2byte ?e s" using p a s get2byte_less [of d s] by (auto simp: page_simps)
  ultimately show ?thesis unfolding linked_split linked_start [OF \<open>get2byte ?e ?p = get2byte ?e s\<close>] by simp
qed

text \<open>Only the header and the free blocks are written.\<close>

definition keeps :: "nat \<Rightarrow> area list \<Rightarrow> bytes \<Rightarrow> bytes \<Rightarrow> bool" where
  "keeps hdr fl d e = (\<forall>k. k \<notin> {hdr + 1, hdr + 2, hdr + 5, hdr + 6, hdr + 7} \<longrightarrow>
     (\<forall>(a, n) \<in> set fl. k < a \<or> a + n \<le> k) \<longrightarrow> e k = d k)"

lemma space_in: "space d hdr u t cs fl \<Longrightarrow> (s, n) \<in> set fl \<Longrightarrow> t + 1 \<le> s \<and> 4 \<le> n \<and> s + n \<le> u"
  using spaced_in [of "t + 1" fl u] by (auto simp: space_def)

lemma add_fragments: "(b :: u8) \<le> 57 \<Longrightarrow> x < 4 \<Longrightarrow> unat (b + of_nat x) = unat b + x"
proof -
  assume a: "b \<le> 57" "x < 4"
  then have "unat (of_nat x :: u8) = x" "unat b \<le> 57" by (simp_all add: unsigned_of_nat take_bit_nat_eq_self word_le_nat_alt)
  then show ?thesis using a(2) by (subst unat_add_lem [THEN iffD1]) simp_all
qed

lemma take_whole:
  assumes sp: "space d hdr u t cs (l1 @ (s, m) # l2)" and m: "n \<le> m" "m < n + 4" "4 \<le> n" and f: "d (hdr + 7) \<le> 57"
  defines "e \<equiv> copy d (last_ptr (hdr + 1) l1) d s 2"
  defines "e' \<equiv> e(hdr + 7 := e (hdr + 7) + of_nat (m - n))"
  shows "space e' hdr u t (cs @ [(s, n)]) (l1 @ l2) \<and> keeps hdr (l1 @ (s, m) # l2) d e'"
proof -
  note S = spaceD [OF sp]
  have s: "t + 1 \<le> s" "4 \<le> m" "s + m \<le> u" "4 \<le> s" using space_in [OF sp, of s m] S(2) by auto
  have sp12: "spaced (t + 1) l1 (s - 4)" "spaced (s + m + 4) l2 u" using S(6) spaced_mid [OF s(4)] by auto
  let ?p = "last_ptr (hdr + 1) l1"
  have p: "?p = hdr + 1 \<or> t + 1 \<le> ?p \<and> ?p + 8 \<le> s" by (rule last_ptr_place [OF sp12(1) s(4)])
  have p7: "?p = hdr + 1 \<or> hdr + 9 \<le> ?p" using p S(2) by auto
  have e: "e = put2byte d ?p (get2byte d s)" by (simp add: e_def copy_2)
  have e7: "e (hdr + 7) = d (hdr + 7)" unfolding e using p7 by (intro put2byte_other) auto
  have "linked e (hdr + 1) (l1 @ l2) 0" unfolding e using S(2) by (intro linked_unlink [OF S(5,6)]) simp
  moreover have "linked e' (hdr + 1) (l1 @ l2) 0 = linked e (hdr + 1) (l1 @ l2) 0"
    using space_in [OF sp] S(2) unfolding e'_def by (intro linked_cong) fastforce+
  moreover have "spaced (t + 1) (l1 @ l2) u"
  proof -
    have up: "spaced lo l2 u" if "lo \<le> s + m + 4" for lo using sp12(2) that by (cases l2) auto
    have "spaced lo l1 (s - 4) \<Longrightarrow> spaced lo (l1 @ l2) u" for lo
      by (induction l1 arbitrary: lo) (use s(4) in \<open>auto intro: up\<close>)
    then show ?thesis using sp12(1) by simp
  qed
  moreover have "areas t u ((cs @ [(s, n)]) @ l1 @ l2)"
    using S(7) m disj_shrink [of _ s m s n] disj_sym by (fastforce simp: areas_simps)
  moreover have "get2byteNotZero e' (hdr + 5) = t"
  proof -
    have "get2byte e' (hdr + 5) = get2byte d (hdr + 5)"
      unfolding e'_def e using p7 by (intro get2byte_local) (auto simp: put2byte_other)
    then show ?thesis using S(1) unfolding notzero by auto
  qed
  moreover have "total ((cs @ [(s, n)]) @ l1 @ l2) + unat (e' (hdr + 7)) + t = u"
    using S(8) m add_fragments [OF f, of "m - n"] by (simp add: e'_def e7)
  moreover have "keeps hdr (l1 @ (s, m) # l2) d e'"
    unfolding keeps_def
  proof (intro allI impI)
    fix k assume k: "k \<notin> {hdr + 1, hdr + 2, hdr + 5, hdr + 6, hdr + 7}" "\<forall>(a, n) \<in> set (l1 @ (s, m) # l2). k < a \<or> a + n \<le> k"
    have "k \<noteq> ?p \<and> k \<noteq> ?p + 1"
    proof (cases "l1 = []")
      case False
      obtain a n where x: "last l1 = (a, n)" by fastforce
      then have "(a, n) \<in> set l1" using False last_in_set by fastforce
      then have "4 \<le> n" "k < a \<or> a + n \<le> k" using space_in [OF sp, of a n] k(2) by auto
      then show ?thesis using False x by (auto simp: last_ptr_def)
    qed (use k(1) in auto)
    then show "e' k = d k" using k(1) by (simp add: e'_def e put2byte_other)
  qed
  ultimately show ?thesis using S(2-4) by (simp add: space_def)
qed

lemma take_part:
  assumes sp: "space d hdr u t cs (l1 @ (s, m) # l2)" and m: "n + 4 \<le> m" "4 \<le> n"
  shows "space (put2byte d (s + 2) (m - n)) hdr u t (cs @ [(s + (m - n), n)]) (l1 @ (s, m - n) # l2) \<and>
    keeps hdr (l1 @ (s, m) # l2) d (put2byte d (s + 2) (m - n))"
proof -
  note S = spaceD [OF sp]
  let ?e = "put2byte d (s + 2) (m - n)"
  have s: "t + 1 \<le> s" "4 \<le> m" "s + m \<le> u" "4 \<le> s" using space_in [OF sp, of s m] S(2) by auto
  have sp12: "spaced (t + 1) l1 (s - 4)" "spaced (s + m + 4) l2 u" using S(6) spaced_mid [OF s(4)] by auto
  have l12: "linked d (hdr + 1) l1 s" "linked d s l2 0" using S(5) by (auto simp: linked_mid)
  have "linked ?e (hdr + 1) l1 s = linked d (hdr + 1) l1 s"
    using s S(2) spaced_in [OF sp12(1)] by (intro linked_cong put2byte_other) fastforce+
  moreover have "linked ?e s l2 0 = linked d s l2 0"
    using s spaced_in [OF sp12(2)] by (intro linked_cong put2byte_other) fastforce+
  ultimately have "linked ?e (hdr + 1) (l1 @ (s, m - n) # l2) 0" using l12 s S(4) m by (simp add: linked_mid page_simps)
  moreover have "spaced (t + 1) (l1 @ (s, m - n) # l2) u"
  proof -
    have "spaced (s + (m - n) + 4) l2 u" using sp12(2) m by (cases l2) auto
    then show ?thesis using sp12(1) m by (simp add: spaced_mid [OF s(4)])
  qed
  moreover have "areas t u ((cs @ [(s + (m - n), n)]) @ l1 @ (s, m - n) # l2)"
    using S(7) m disj_shrink [of _ s m s "m - n"] disj_shrink [of _ s m "s + (m - n)" n] disj_sym
    by (fastforce simp: areas_simps disj_def)
  moreover have "get2byteNotZero ?e (hdr + 5) = t" using S(1,2) s unfolding notzero by (auto simp: get2byte_put2byte_other)
  moreover have "total ((cs @ [(s + (m - n), n)]) @ l1 @ (s, m - n) # l2) + unat (?e (hdr + 7)) + t = u"
    using S(8,2) s m by (simp add: put2byte_other)
  moreover have "keeps hdr (l1 @ (s, m) # l2) d ?e"
    using s m by (auto simp: keeps_def intro!: put2byte_other)
  ultimately show ?thesis using S(2-4) by (simp add: space_def)
qed

section \<open>Joining a released area with its neighbours\<close>

lemma free_place_sound:
  assumes "linked d a fl 0" "spaced lo fl u" "a + 2 \<le> lo" "0 < c"
  shows "free_place d c a = Some (last_ptr a (takeWhile (\<lambda>x. fst x < c) fl), first_block (dropWhile (\<lambda>x. fst x < c) fl))"
  using assms
proof (induction fl arbitrary: a lo)
  case Nil
  then show ?case by (simp add: free_place.simps Let_def)
next
  case (Cons x fl)
  obtain s n where x: "x = (s, n)" by fastforce
  have "free_place d c s = Some (last_ptr s (takeWhile (\<lambda>x. fst x < c) fl), first_block (dropWhile (\<lambda>x. fst x < c) fl))"
    using Cons.prems x by (intro Cons.IH [of s "s + n + 4"]) auto
  then show ?case using Cons.prems x by (subst free_place.simps) (auto simp: Let_def)
qed

definition join_next :: "nat \<Rightarrow> area list \<Rightarrow> nat \<times> area list \<times> nat" where
  "join_next e l = (case l of (s, m) # r \<Rightarrow> if s \<le> e + 3 then (s + m, r, s - e) else (e, l, 0) | [] \<Rightarrow> (e, l, 0))"

definition join_prev :: "nat \<Rightarrow> area list \<Rightarrow> nat \<times> area list \<times> nat" where
  "join_prev c l = (if l = [] then (c, l, 0)
     else let (s, m) = last l in if c \<le> s + m + 3 then (s, butlast l, c - (s + m)) else (c, l, 0))"

text \<open>The part of \<open>coalesce\<close> that looks behind, and the part that looks in front.\<close>

lemma coalesce_eq:
  assumes sp: "space d hdr (bt_usableSize bt) t cs (l1 @ l2)"
    and c: "areas t (bt_usableSize bt) ((c, n) # l1 @ l2)"
    and l: "\<forall>(s, m) \<in> set l1. s < c" "\<forall>(s, m) \<in> set l2. c < s"
    and j: "join_next (c + n) l2 = (e, r2, f2)" "join_prev c l1 = (b, r1, f1)"
  shows "coalesce bt hdr d c n =
    (if f1 + f2 \<le> unat (d (hdr + 7)) then Some (b, e, e - b, last_ptr (hdr + 1) l1, first_block r2, f1 + f2) else None)"
proof -
  note S = spaceD [OF sp]
  let ?u = "bt_usableSize bt"
  have cb: "t \<le> c" "c + n \<le> ?u" "4 \<le> n" using c by (simp_all add: areas_Cons)
  have tk: "takeWhile (\<lambda>x. fst x < c) (l1 @ l2) = l1" "dropWhile (\<lambda>x. fst x < c) (l1 @ l2) = l2"
    using l by (cases l2; fastforce simp: takeWhile_append dropWhile_append)+
  have place: "free_place d c (hdr + 1) = Some (last_ptr (hdr + 1) l1, first_block l2)"
    using free_place_sound [OF S(5,6), of c] tk S(2) cb by simp
  have in1: "t + 1 \<le> s \<and> 4 \<le> m \<and> s + m \<le> ?u" if "(s, m) \<in> set (l1 @ l2)" for s m using space_in [OF sp that] .
  have dj: "disj (c, n) (s, m)" if "(s, m) \<in> set (l1 @ l2)" for s m using c that by (auto simp: areas_Cons)
  have end1: "s + m \<le> c" if "(s, m) \<in> set l1" for s m
    using dj [of s m] that l(1) cb by (fastforce simp: disj_def)
  have end2: "c + n \<le> s" if "(s, m) \<in> set l2" for s m
    using dj [of s m] in1 [of s m] that l(2) by (fastforce simp: disj_def)
  have l12: "linked d (hdr + 1) l1 (first_block l2)" "linked d (last_ptr (hdr + 1) l1) l2 0" using S(5) by (simp_all add: linked_split)
  have behind: "\<not> ?u - 4 < first_block l2" "(if first_block l2 \<noteq> 0 \<and> first_block l2 \<le> c + n + 3 then
         if first_block l2 < c + n then None
         else
           let nFrag = first_block l2 - (c + n); iEnd = first_block l2 + get2byte d (first_block l2 + 2) in
           if ?u < iEnd then None else Some (nFrag, iEnd, (iEnd - c) mod 65536, get2byte d (first_block l2))
       else Some (0, c + n, n, first_block l2)) = Some (f2, e, e - c, first_block r2)" (is "?b = _")
  proof -
    have "\<not> ?u - 4 < first_block l2 \<and> ?b = Some (f2, e, e - c, first_block r2)"
  proof (cases l2)
    case Nil
    then show ?thesis using j(1) by (auto simp: join_next_def)
  next
    case (Cons x r)
    obtain s m where x: "x = (s, m)" by fastforce
    then have s: "t + 1 \<le> s" "4 \<le> m" "s + m \<le> ?u" "c + n \<le> s" "get2byte d (s + 2) = m" "get2byte d s = first_block r"
      using in1 [of s m] end2 [of s m] l12(2) linked_first [of d s r] Cons by auto
    moreover have "s + m - c < 65536" using s S(2,4) cb by simp
    ultimately show ?thesis using j(1) Cons x S(2) by (auto simp: join_next_def Let_def split: if_splits)
  qed
    then show "\<not> ?u - 4 < first_block l2" "?b = Some (f2, e, e - c, first_block r2)" by blast+
  qed
  have ec: "c < e" "e \<le> ?u" using j(1) cb in1 end2 by (fastforce simp: join_next_def split: list.splits if_splits)+
  have front: "(if hdr + 1 < last_ptr (hdr + 1) l1 then
       let iPtrEnd = last_ptr (hdr + 1) l1 + get2byte d (last_ptr (hdr + 1) l1 + 2) in
       if c \<le> iPtrEnd + 3 then
         if c < iPtrEnd then None
         else Some (f2 + (c - iPtrEnd), (e - last_ptr (hdr + 1) l1) mod 65536, last_ptr (hdr + 1) l1)
       else Some (f2, e - c, c)
     else Some (f2, e - c, c)) = Some (f2 + f1, e - b, b)"
  proof (cases l1 rule: rev_cases)
    case Nil
    then show ?thesis using j(2) by (simp add: join_prev_def)
  next
    case (snoc r x)
    obtain s m where x: "x = (s, m)" by fastforce
    then have s: "t + 1 \<le> s" "s + m \<le> c" "get2byte d (s + 2) = m"
      using in1 [of s m] end1 [of s m] l12(1) snoc by (auto simp: linked_mid)
    moreover have "e - s < 65536" using s S(2,4) ec by simp
    ultimately show ?thesis using j(2) snoc x S(2) by (auto simp: join_prev_def Let_def)
  qed
  show ?thesis
    unfolding coalesce_def place Let_def option.case(2) prod.case behind(2) [unfolded Let_def] front [unfolded Let_def]
    using behind(1) by (simp add: add.commute not_less)
qed

lemma disj_join: "disj y (c, n) \<Longrightarrow> disj y (s, m) \<Longrightarrow> c + n \<le> s \<Longrightarrow> s \<le> c + n + 3 \<Longrightarrow> 4 \<le> snd y \<Longrightarrow> disj y (c, s + m - c)"
  unfolding disj_def fst_conv snd_conv by linarith

lemma areas_join_next:
  assumes "areas t u (A @ (c, n) # B @ (s, m) # C)" "c + n \<le> s" "s \<le> c + n + 3"
  shows "areas t u (A @ (c, s + m - c) # B @ C)"
proof -
  have j: "disj y (c, s + m - c)" if "disj y (c, n)" "disj y (s, m)" "4 \<le> snd y" for y
    using disj_join [OF that(1,2) assms(2,3) that(3)] .
  have 4: "4 \<le> snd y" if "y \<in> set (A @ B @ C)" for y
    using assms(1) that by (cases y) (auto dest!: areas_in)
  show ?thesis using assms 4 by (auto simp: areas_simps disj_sym intro!: j)
qed

lemma areas_join_prev:
  assumes "areas t u (A @ (c, n) # B @ (s, m) # C)" "s + m \<le> c" "c \<le> s + m + 3"
  shows "areas t u (A @ B @ (s, c + n - s) # C)"
proof -
  have j: "disj y (s, c + n - s)" if "disj y (c, n)" "disj y (s, m)" "4 \<le> snd y" for y
    using disj_join [OF that(2,1) assms(2,3) that(3)] .
  have 4: "4 \<le> snd y" if "y \<in> set (A @ B @ C)" for y
    using assms(1) that by (cases y) (auto dest!: areas_in)
  show ?thesis using assms 4 by (auto simp: areas_simps disj_sym intro!: j)
qed


lemma spaced_lower: "spaced lo fl u \<Longrightarrow> lo \<le> v + 4 \<Longrightarrow> (\<And>s m. (s, m) \<in> set fl \<Longrightarrow> s + m \<le> v) \<Longrightarrow> spaced lo fl v"
  by (induction fl arbitrary: lo) auto

text \<open>What joining yields: one area instead of up to three, and the fragments between them used up.\<close>

lemma joined_next:
  assumes sp: "spaced lo l2 u" and c: "areas t u (A @ (c, n) # B @ l2)"
    and l: "\<forall>(s, m) \<in> set l2. c + n \<le> s" and j: "join_next (c + n) l2 = (e, r2, f2)"
  shows "areas t u (A @ (c, e - c) # B @ r2)" "e - c + total r2 = n + total l2 + f2"
    "c + n \<le> e" "spaced (e + 4) r2 u" "set r2 \<subseteq> set l2" "r2 = l2 \<and> e = c + n \<or> (\<exists>s m. l2 = (s, m) # r2)"
proof -
  have cu: "c + n \<le> u" using c by (simp add: areas_simps)
  have "areas t u (A @ (c, e - c) # B @ r2) \<and> e - c + total r2 = n + total l2 + f2 \<and>
    c + n \<le> e \<and> spaced (e + 4) r2 u \<and> set r2 \<subseteq> set l2 \<and> (r2 = l2 \<and> e = c + n \<or> (\<exists>s m. l2 = (s, m) # r2))"
  proof (cases l2)
    case Nil
    then show ?thesis using j c cu by (auto simp: join_next_def)
  next
    case (Cons x r)
    obtain s m where x: "x = (s, m)" by fastforce
    have s: "c + n \<le> s" "4 \<le> m" "spaced (s + m + 4) r u" using l sp Cons x by auto
    show ?thesis
    proof (cases "s \<le> c + n + 3")
      case True
      then have "e = s + m" "r2 = r" "f2 = s - (c + n)" using j Cons x by (auto simp: join_next_def)
      then show ?thesis using areas_join_next [of t u A c n B s m r] c s True Cons x by auto
    next
      case False
      then have "e = c + n" "r2 = l2" "f2 = 0" using j Cons x by (auto simp: join_next_def)
      then show ?thesis using c s False Cons x by auto
    qed
  qed
  then show "areas t u (A @ (c, e - c) # B @ r2)" "e - c + total r2 = n + total l2 + f2"
    "c + n \<le> e" "spaced (e + 4) r2 u" "set r2 \<subseteq> set l2" "r2 = l2 \<and> e = c + n \<or> (\<exists>s m. l2 = (s, m) # r2)" by blast+
qed

lemma joined_prev:
  assumes sp: "spaced (t + 1) l1 v" "4 \<le> t" and c: "areas t u (A @ (c, n) # B @ l1 @ C)"
    and l: "\<And>s m. (s, m) \<in> set l1 \<Longrightarrow> s + m \<le> c" and j: "join_prev c l1 = (b, r1, f1)"
  shows "areas t u (A @ B @ r1 @ (b, c + n - b) # C)" "total r1 + (c + n - b) = n + total l1 + f1"
    "b \<le> c" "t < c \<Longrightarrow> t < b \<and> 4 \<le> b \<and> spaced (t + 1) r1 (b - 4)" "c = t \<Longrightarrow> l1 = [] \<and> b = c" "set r1 \<subseteq> set l1"
    "r1 = l1 \<and> b = c \<or> (\<exists>m. l1 = r1 @ [(b, m)])"
proof -
  have "areas t u (A @ B @ r1 @ (b, c + n - b) # C) \<and> total r1 + (c + n - b) = n + total l1 + f1 \<and>
    b \<le> c \<and> (t < c \<longrightarrow> t < b \<and> 4 \<le> b \<and> spaced (t + 1) r1 (b - 4)) \<and> (c = t \<longrightarrow> l1 = [] \<and> b = c) \<and> set r1 \<subseteq> set l1 \<and>
    (r1 = l1 \<and> b = c \<or> (\<exists>m. l1 = r1 @ [(b, m)]))"
  proof (cases l1 rule: rev_cases)
    case Nil
    then show ?thesis using j c sp(2) by (auto simp: join_prev_def areas_simps disj_sym)
  next
    case (snoc r x)
    obtain s m where x: "x = (s, m)" by fastforce
    have in1: "t + 1 \<le> a \<and> 4 \<le> k" if "(a, k) \<in> set l1" for a k using spaced_in [OF sp(1) that] by simp
    have s: "s + m \<le> c" "t + 1 \<le> s" "4 \<le> m" using l [of s m] in1 [of s m] snoc x by auto
    then have s4: "4 \<le> s" using sp(2) by simp
    have r: "spaced (t + 1) r (s - 4)" using sp(1) snoc x by (simp add: spaced_mid [OF s4])
    show ?thesis
    proof (cases "c \<le> s + m + 3")
      case True
      then have "b = s" "r1 = r" "f1 = c - (s + m)" using j snoc x by (auto simp: join_prev_def)
      then show ?thesis using areas_join_prev [of t u A c n "B @ r" s m C] c s s4 r True snoc x by auto
    next
      case False
      then have "b = c" "r1 = l1" "f1 = 0" using j snoc x by (auto simp: join_prev_def)
      moreover have "areas t u (A @ B @ l1 @ (c, n) # C)" using c by (auto simp: areas_simps disj_sym)
      moreover have "spaced (t + 1) l1 (c - 4)" using r s False by (simp add: snoc x spaced_mid [OF s4])
      ultimately show ?thesis using s s4 False by auto
    qed
  qed
  then show "areas t u (A @ B @ r1 @ (b, c + n - b) # C)" "total r1 + (c + n - b) = n + total l1 + f1"
    "b \<le> c" "t < c \<Longrightarrow> t < b \<and> 4 \<le> b \<and> spaced (t + 1) r1 (b - 4)" "c = t \<Longrightarrow> l1 = [] \<and> b = c" "set r1 \<subseteq> set l1"
    "r1 = l1 \<and> b = c \<or> (\<exists>m. l1 = r1 @ [(b, m)])" by blast+
qed

section \<open>Release\<close>

text \<open>What stays: everything in front of the cell content area but the fields of the header, and the cells.\<close>

definition frame :: "nat \<Rightarrow> nat \<Rightarrow> area list \<Rightarrow> bytes \<Rightarrow> bytes \<Rightarrow> bool" where
  "frame hdr t cs d e = (\<forall>k. k \<notin> {hdr + 1, hdr + 2, hdr + 5, hdr + 6, hdr + 7} \<longrightarrow>
     k < t \<or> (\<exists>(a, n) \<in> set cs. a \<le> k \<and> k < a + n) \<longrightarrow> e k = d k)"

lemma keeps_frame: "space d hdr u t cs fl \<Longrightarrow> keeps hdr fl d e \<Longrightarrow> frame hdr t cs d e"
  unfolding frame_def keeps_def
proof (intro allI impI)
  fix k
  assume sp: "space d hdr u t cs fl"
    and e: "\<forall>k. k \<notin> {hdr + 1, hdr + 2, hdr + 5, hdr + 6, hdr + 7} \<longrightarrow> (\<forall>(a, n) \<in> set fl. k < a \<or> a + n \<le> k) \<longrightarrow> e k = d k"
    and k: "k \<notin> {hdr + 1, hdr + 2, hdr + 5, hdr + 6, hdr + 7}" "k < t \<or> (\<exists>(a, n) \<in> set cs. a \<le> k \<and> k < a + n)"
  have "k < a \<or> a + n \<le> k" if f: "(a, n) \<in> set fl" for a n
  proof (cases "k < t")
    case True
    then show ?thesis using space_in [OF sp f] by simp
  next
    case False
    then obtain b m where b: "(b, m) \<in> set cs" "b \<le> k" "k < b + m" using k(2) by auto
    then have "disj (b, m) (a, n)" using spaceD(7) [OF sp] f by (auto simp: areas_append)
    then show ?thesis using b by (auto simp: disj_def)
  qed
  then have "\<forall>(a, n) \<in> set fl. k < a \<or> a + n \<le> k" by auto
  then show "e k = d k" using e k(1) by blast
qed

lemma linked_moved: "linked d a fl 0 \<Longrightarrow> get2byte e b = first_block fl \<Longrightarrow>
  (\<And>s n k. (s, n) \<in> set fl \<Longrightarrow> s \<le> k \<Longrightarrow> k < s + 4 \<Longrightarrow> e k = d k) \<Longrightarrow> linked e b fl 0"
proof (cases fl)
  case (Cons x r)
  obtain s n where x: "x = (s, n)" by fastforce
  assume l: "linked d a fl 0" "get2byte e b = first_block fl"
    and e: "\<And>s n k. (s, n) \<in> set fl \<Longrightarrow> s \<le> k \<Longrightarrow> k < s + 4 \<Longrightarrow> e k = d k"
  have "linked e s r 0 = linked d s r 0"
  proof (rule linked_cong)
    show "e k = d k" if "k \<in> {s, s + 1}" for k using e [of s n k] Cons x that by auto
    show "e k = d k" if "(s', n') \<in> set r" "s' \<le> k" "k < s' + 4" for s' n' k using e [of s' n' k] Cons that by auto
  qed
  moreover have "get2byte e (s + 2) = get2byte d (s + 2)" using e [of s n] Cons x by (intro get2byte_local) simp_all
  ultimately show ?thesis using l Cons x by simp
qed simp

text \<open>The new block in the list.\<close>

lemma linked_enter:
  assumes sp: "spaced (t + 1) (r1 @ (b, n) # r2) u" and hdr: "hdr + 8 \<le> t" and u: "u \<le> 65536"
    and l1: "linked d (hdr + 1) l1 (first_block l2)" "r1 = l1 \<and> spaced (t + 1) l1 v \<or> (\<exists>m. l1 = r1 @ [(b, m)])"
    and l2: "linked d x r2 0"
    and e: "\<And>k. k < b \<or> b + n \<le> k \<Longrightarrow> k \<notin> {hdr + 5, hdr + 6, hdr + 7} \<Longrightarrow> e k = d k"
  shows "linked (put2byte (put2byte (put2byte e (last_ptr (hdr + 1) l1) b) b (first_block r2)) (b + 2) n) (hdr + 1) (r1 @ (b, n) # r2) 0"
    (is "linked ?e _ _ _")
proof -
  have b: "t + 1 \<le> b" "4 \<le> n" "b + n \<le> u" using spaced_in [OF sp, of b n] by auto
  have b4: "4 \<le> b" using b hdr by simp
  have sp12: "spaced (t + 1) r1 (b - 4)" "spaced (b + n + 4) r2 u" using sp by (auto simp: spaced_mid [OF b4])
  have in1: "t + 1 \<le> s \<and> s + 8 \<le> b" if "(s, m) \<in> set r1" for s m using spaced_in [OF sp12(1) that] b4 by auto
  have in2: "b + n + 4 \<le> s \<and> s + 4 \<le> u" if "(s, m) \<in> set r2" for s m using spaced_in [OF sp12(2) that] by auto
  let ?p = "last_ptr (hdr + 1) l1"
  have p: "?p = last_ptr (hdr + 1) r1 \<and> r1 = l1 \<or> ?p = b" using l1(2) by auto
  have p1: "last_ptr (hdr + 1) r1 = hdr + 1 \<or> t + 1 \<le> last_ptr (hdr + 1) r1 \<and> last_ptr (hdr + 1) r1 + 8 \<le> b"
    by (rule last_ptr_place [OF sp12(1) b4])
  have "first_block r2 < 65536" using in2 u by (cases r2) (fastforce simp: first_block_def)+
  moreover have "n < 65536" using b hdr u by simp
  ultimately have g: "get2byte ?e b = first_block r2" "get2byte ?e (b + 2) = n" by (simp_all add: page_simps)
  have out: "?e k = e k" if "k \<notin> {?p, ?p + 1}" "k < b \<or> b + 4 \<le> k" for k using that by (auto simp: put2byte_def)
  have "linked ?e (hdr + 1) r1 b"
  proof (cases "?p = b")
    case True
    have "r1 \<noteq> l1" using True p1 hdr b by auto
    then obtain m where m: "l1 = r1 @ [(b, m)]" using l1(2) by auto
    have "linked ?e (hdr + 1) r1 b = linked d (hdr + 1) r1 b"
    proof (rule linked_cong)
      show "?e k = d k" if "k \<in> {hdr + 1, hdr + 1 + 1}" for k using that True b hdr out [of k] e [of k] by auto
      show "?e k = d k" if "(s, m) \<in> set r1" "s \<le> k" "k < s + 4" for s m k
        using that in1 [OF that(1)] True hdr out [of k] e [of k] by simp
    qed
    then show ?thesis using l1(1) m by (simp add: linked_mid)
  next
    case False
    then have r: "r1 = l1" using p by blast
    have "linked (put2byte d ?p b) (hdr + 1) l1 b"
      using linked_relink [OF l1(1)] sp12(1) r hdr b u by simp
    moreover have "linked ?e (hdr + 1) l1 b = linked (put2byte d ?p b) (hdr + 1) l1 b"
    proof (rule linked_cong)
      show "?e k = put2byte d ?p b k" if "k \<in> {hdr + 1, hdr + 1 + 1}" for k
        using that b hdr e [of k] by (auto simp: put2byte_def)
      show "?e k = put2byte d ?p b k" if "(s, m) \<in> set l1" "s \<le> k" "k < s + 4" for s m k
        using that in1 [of s m] r hdr e [of k] by (auto simp: put2byte_def)
    qed
    ultimately show ?thesis using r by simp
  qed
  moreover have "linked ?e b r2 0"
  proof (rule linked_moved [OF l2 g(1)])
    fix s m k assume "(s, m) \<in> set r2" "s \<le> k" "k < s + 4"
    then show "?e k = d k" using in2 [of s m] p p1 b hdr out [of k] e [of k] by auto
  qed
  ultimately show ?thesis using g(2) by (simp add: linked_mid)
qed

lemma fill_other: "k < a \<or> a + n \<le> k \<Longrightarrow> fill d a v n k = d k"
  by (auto simp: fill_def)

lemma spaced_split: "spaced lo (l1 @ l2) u \<Longrightarrow> spaced lo l1 u \<and> (\<exists>lo2. lo \<le> lo2 \<and> spaced lo2 l2 u)"
proof (induction l1 arbitrary: lo)
  case Nil
  then show ?case using spaced_upper [of lo l2 u] by auto
next
  case (Cons x l1)
  obtain s n where x: "x = (s, n)" by fastforce
  then show ?case using Cons.IH [of "s + n + 4"] Cons.prems by auto (metis add_leD1 order_trans)
qed

lemma spaced_weaken: "spaced lo fl u \<Longrightarrow> lo' \<le> lo \<Longrightarrow> spaced lo' fl u"
  by (cases fl) auto

lemma unat_sub_of_nat: "f \<le> unat (b :: u8) \<Longrightarrow> unat (b - of_nat f) = unat b - f"
proof -
  assume f: "f \<le> unat b"
  moreover have "unat b < 256" using unsigned_less [of b] by simp
  ultimately have "unat (of_nat f :: u8) = f" by (simp add: unsigned_of_nat take_bit_nat_eq_self)
  then show ?thesis using f by (simp add: unat_sub word_le_nat_alt)
qed

lemma freeSpace_sound:
  fixes P :: mempage
  assumes sp: "space (mp_data P) (mp_hdrOffset P) (bt_usableSize bt) t (c1 @ (c, n) # c2) fl"
  shows "\<exists>d' t' fl'. freeSpace bt c n P = (Page_OK, P\<lparr>mp_data := d', mp_nFree := mp_nFree P + int n\<rparr>) \<and>
    space d' (mp_hdrOffset P) (bt_usableSize bt) t' (c1 @ c2) fl' \<and> t \<le> t' \<and> frame (mp_hdrOffset P) t (c1 @ c2) (mp_data P) d'"
proof -
  let ?u = "bt_usableSize bt" and ?d = "mp_data P" and ?h = "mp_hdrOffset P"
  note S = spaceD [OF sp]
  define l1 where "l1 = takeWhile (\<lambda>x. fst x < c) fl"
  define l2 where "l2 = dropWhile (\<lambda>x. fst x < c) fl"
  have fl: "fl = l1 @ l2" by (simp add: l1_def l2_def)
  have cb: "t \<le> c" "c + n \<le> ?u" "4 \<le> n" using S(7) by (simp_all add: areas_simps)
  have t4: "4 \<le> t" using S(2) by simp
  have dj: "disj (c, n) (s, m)" if "(s, m) \<in> set fl" for s m using S(7) that by (auto simp: areas_simps)
  have in1: "t + 1 \<le> s \<and> 4 \<le> m \<and> s + m \<le> ?u" if "(s, m) \<in> set fl" for s m using space_in [OF sp that] .
  have st1: "\<forall>(s, m) \<in> set l1. s < c" using set_takeWhileD [of _ "\<lambda>x. fst x < c" fl] by (fastforce simp: l1_def)
  have end1: "s + m \<le> c" if "(s, m) \<in> set l1" for s m
    using dj [of s m] in1 [of s m] st1 that cb fl by (fastforce simp: disj_def)
  obtain lo2 where spl: "spaced (t + 1) l1 ?u" "t + 1 \<le> lo2" "spaced lo2 l2 ?u"
    using spaced_split [of "t + 1" l1 l2 ?u] S(6) fl by auto
  have end2: "c + n \<le> s" if m: "(s, m) \<in> set l2" for s m
  proof -
    obtain s' m' r where r: "l2 = (s', m') # r" using m by (cases l2) auto
    then have "c \<le> s'" unfolding l2_def by (auto simp: dropWhile_eq_Cons_conv)
    moreover have "s' \<le> s" using m spl(3) r spaced_in [of "s' + m' + 4" r ?u s m] by auto
    ultimately show ?thesis using dj [of s m] in1 [of s m] m fl by (auto simp: disj_def)
  qed
  then have all2: "\<forall>(s, m) \<in> set l2. c + n \<le> s" by auto
  obtain e r2 f2 where jn: "join_next (c + n) l2 = (e, r2, f2)" by (cases "join_next (c + n) l2") auto
  obtain b r1 f1 where jp: "join_prev c l1 = (b, r1, f1)" by (cases "join_prev c l1") auto
  have "areas t ?u (c1 @ (c, n) # (c2 @ l1) @ l2)" using S(7) fl by (auto simp: areas_simps disj_sym)
  note N = joined_next [OF spl(3) this all2 jn]
  have "areas t ?u (c1 @ (c, e - c) # c2 @ l1 @ r2)" using N(1) by simp
  note Q = joined_prev [OF spl(1) t4 this end1 jp]
  have ce: "c + (e - c) = e" using N(3) by simp
  have A: "areas t ?u ((c1 @ c2) @ r1 @ (b, e - b) # r2)" using Q(1) ce by simp
  have tot: "total (r1 @ (b, e - b) # r2) = total fl + n + (f1 + f2)" using Q(2) N(2) ce fl by simp
  have f: "f1 + f2 \<le> unat (?d (?h + 7))" using areas_fit [OF A S(3)] tot S(8) by simp
  have tuple: "(if ?d (?h + 2) = 0 \<and> ?d (?h + 1) = 0 then Some (c, c + n, n, ?h + 1, 0, 0) else coalesce bt ?h ?d c n) =
      Some (b, e, e - b, last_ptr (?h + 1) l1, first_block r2, f1 + f2)"
  proof (cases "fl = []")
    case True
    then have "get2byte ?d (?h + 1) = 0" using S(5) by simp
    then show ?thesis using True fl jn jp by (auto simp: get2byte_0 join_next_def join_prev_def)
  next
    case False
    then obtain s m r where "fl = (s, m) # r" by (cases fl) auto
    then have "get2byte ?d (?h + 1) \<noteq> 0" using S(5) in1 [of s m] by auto
    moreover have "coalesce bt ?h ?d c n = Some (b, e, e - b, last_ptr (?h + 1) l1, first_block r2, f1 + f2)"
      using coalesce_eq [OF sp [unfolded fl] _ st1 _ jn jp] S(7) fl f all2 cb by (fastforce simp: areas_simps)
    ultimately show ?thesis by (auto simp: get2byte_0)
  qed
  define d1 where "d1 = ?d(?h + 7 := ?d (?h + 7) - of_nat (f1 + f2))"
  define d2 where "d2 = (if fast_secure bt then fill d1 b 0 (e - b) else d1)"
  have "t \<le> b" "4 \<le> e - b" "b + (e - b) \<le> ?u" using A by (simp_all add: areas_simps)
  then have be: "t \<le> b" "4 \<le> e - b" "e \<le> ?u" by linarith+
  have d2: "d2 k = ?d k" if "k < b \<or> e \<le> k" "k \<noteq> ?h + 7" for k
    using that be(2) fill_other [of k b "e - b"] by (auto simp: d2_def d1_def)
  have d2_7: "unat (d2 (?h + 7)) = unat (?d (?h + 7)) - (f1 + f2)"
    using be S(2) unat_sub_of_nat [OF f] fill_other [of "?h + 7" b "e - b"] by (simp add: d2_def d1_def)
  have t: "get2byte ?d (?h + 5) = t" using S(1,4) cb by (auto simp: notzero split: if_splits)
  then have x: "get2byte d1 (?h + 5) = t" using get2byte_local [of d1 "?h + 5" ?d] by (simp add: d1_def)
  obtain a where l2: "linked ?d a r2 0"
    using N(6) S(5) unfolding fl linked_split by auto
  have away: "k < b \<or> e \<le> k" if "(a, m) \<in> set (c1 @ c2)" "a \<le> k" "k < a + m" for a m k
  proof -
    have "disj (a, m) (b, e - b)" using A that(1) unfolding areas_append areas_Cons by auto
    then show ?thesis using that(2,3) be by (auto simp: disj_def)
  qed
  have away1: "k < a' \<or> a' + m' \<le> k" if "(a, m) \<in> set (c1 @ c2)" "a \<le> k" "k < a + m" "(a', m') \<in> set l1" for a m k a' m'
  proof -
    have "disj (a, m) (a', m')" using S(7) that(1,4) unfolding fl areas_append areas_Cons by auto
    then show ?thesis using that(2,3) by (auto simp: disj_def)
  qed
  have run: "freeSpace bt c n P =
      (if b \<le> t then if b < t then (Page_CORRUPT, P\<lparr>mp_data := d2\<rparr>)
         else if last_ptr (?h + 1) l1 \<noteq> ?h + 1 then (Page_CORRUPT, P\<lparr>mp_data := d2\<rparr>)
         else (Page_OK, P\<lparr>mp_data := put2byte (put2byte d2 (?h + 1) (first_block r2)) (?h + 5) e, mp_nFree := mp_nFree P + int n\<rparr>)
       else (Page_OK, P\<lparr>mp_data := put2byte (put2byte (put2byte d2 (last_ptr (?h + 1) l1) b) b (first_block r2)) (b + 2) (e - b),
         mp_nFree := mp_nFree P + int n\<rparr>))"
    unfolding freeSpace_def Let_def tuple option.case prod.case x [unfolded d1_def] d2_def d1_def by simp
  show ?thesis
  proof (cases "c = t")
    case True
    then have b: "b = t" "l1 = []" "r1 = []" using Q(5,6) by auto
    let ?e = "put2byte (put2byte d2 (?h + 1) (first_block r2)) (?h + 5) e"
    have in2: "e + 4 \<le> s" if "(s, m) \<in> set r2" for s m using spaced_in [OF N(4) that] by simp
    have "first_block r2 < 65536" using spaced_in [OF N(4)] S(4) by (cases r2) (fastforce simp: first_block_def)+
    then have "get2byte ?e (?h + 1) = first_block r2" by (simp add: page_simps)
    then have "linked ?e (?h + 1) r2 0"
    proof (rule linked_moved [OF l2])
      show "?e k = ?d k" if "(s, m) \<in> set r2" "s \<le> k" "k < s + 4" for s m k
        using in2 [OF that(1)] that(2) be S(2) d2 [of k] by (simp add: put2byte_other)
    qed
    moreover have "get2byteNotZero ?e (?h + 5) = e" using be S(2,4) by (intro notzero_put2byte) simp_all
    moreover have "spaced (e + 1) r2 ?u" using spaced_weaken [OF N(4)] by simp
    moreover have "areas e ?u ((c1 @ c2) @ r2)"
      using A b by (auto simp: areas_simps intro!: areas_mono [of t ?u]) (auto simp: disj_def dest!: areas_in)
    moreover have "total ((c1 @ c2) @ r2) + unat (?e (?h + 7)) + e = ?u"
      using tot b S(8) f d2_7 be by (simp add: put2byte_other)
    ultimately have "space ?e ?h ?u e (c1 @ c2) r2" using be S(2,4) by (simp add: space_def)
    moreover have "frame ?h t (c1 @ c2) ?d ?e"
      unfolding frame_def using b(1) away d2 by (auto simp: put2byte_other)
    ultimately show ?thesis using run b be by (intro exI [of _ ?e] exI [of _ e] exI [of _ r2]) simp
  next
    case False
    then have b: "t < b" "4 \<le> b" "spaced (t + 1) r1 (b - 4)" using Q(4) cb by auto
    let ?p = "last_ptr (?h + 1) l1"
    let ?e = "put2byte (put2byte (put2byte d2 ?p b) b (first_block r2)) (b + 2) (e - b)"
    have s: "spaced (t + 1) (r1 @ (b, e - b) # r2) ?u"
      using b(3) be N(4) by (simp add: spaced_mid [OF b(2)])
    have "linked ?e (?h + 1) (r1 @ (b, e - b) # r2) 0"
    proof (rule linked_enter [OF s S(2,4)])
      show "linked ?d (?h + 1) l1 (first_block l2)" using S(5) unfolding fl linked_split by simp
      show "r1 = l1 \<and> spaced (t + 1) l1 ?u \<or> (\<exists>m. l1 = r1 @ [(b, m)])" using Q(7) spl(1) by blast
      show "linked ?d a r2 0" by (rule l2)
      show "d2 k = ?d k" if "k < b \<or> b + (e - b) \<le> k" "k \<notin> {?h + 5, ?h + 6, ?h + 7}" for k
        using that be by (intro d2) auto
    qed
    have p: "?p = ?h + 1 \<or> (\<exists>m. (?p, m) \<in> set l1 \<and> t + 1 \<le> ?p \<and> 4 \<le> m)"
    proof (cases l1 rule: rev_cases)
      case (snoc r y)
      then show ?thesis using in1 [of "fst y" "snd y"] fl by (intro disjI2 exI [of _ "snd y"]) auto
    qed simp
    have out: "?e k = d2 k" if "k \<noteq> ?p" "k \<noteq> ?p + 1" "k < b \<or> b + 4 \<le> k" for k
      using that by (auto simp: put2byte_def)
    have pe: "?e k = ?d k" if "k \<notin> {?h + 1, ?h + 2, ?h + 7}" "k < t \<or> (\<exists>(a, m) \<in> set (c1 @ c2). a \<le> k \<and> k < a + m)" for k
    proof -
      have "k < b \<or> e \<le> k" using that(2) away b(1) by auto
      moreover from this have "k < b \<or> b + 4 \<le> k" using be by linarith
      moreover have "k \<noteq> ?p \<and> k \<noteq> ?p + 1" using p that away1 by fastforce
      ultimately show ?thesis using out [of k] d2 [of k] that(1) be by auto
    qed
    have e5: "get2byte ?e (?h + 5) = get2byte ?d (?h + 5)" using S(2) by (intro get2byte_local pe) auto
    have "?p \<noteq> ?h + 7 \<and> ?p + 1 \<noteq> ?h + 7" using p S(2) by auto
    then have "?e (?h + 7) = d2 (?h + 7)" using b S(2) by (intro out) auto
    then have "total ((c1 @ c2) @ r1 @ (b, e - b) # r2) + unat (?e (?h + 7)) + t = ?u"
      using tot S(8) f d2_7 by simp
    moreover have "get2byteNotZero ?e (?h + 5) = t" using S(1) unfolding notzero e5 .
    ultimately have "space ?e ?h ?u t (c1 @ c2) (r1 @ (b, e - b) # r2)"
      using S(2-4) A s \<open>linked ?e (?h + 1) (r1 @ (b, e - b) # r2) 0\<close> by (simp add: space_def)
    moreover have "frame ?h t (c1 @ c2) ?d ?e" unfolding frame_def using pe by blast
    ultimately show ?thesis using run b by (intro exI [of _ ?e] exI [of _ t] exI [of _ "r1 @ (b, e - b) # r2"]) simp
  qed
qed

end
