(* ===== verification/Btree_Edit.thy ===== *)
theory Btree_Edit
  imports Btree_Space
begin

text \<open>
  A B-tree page as a list of cells: its invariant, what allocation, defragmentation, insertion and removal
  do to the list.
\<close>

section \<open>The cells of a page\<close>

definition extent :: "btshared \<Rightarrow> mempage \<Rightarrow> nat \<Rightarrow> area" where
  "extent bt P i = (let p = get2byte (mp_data P) (mp_cellOffset P + 2 * i) in (p, xCellSize bt P (mp_data P) p))"

definition extents :: "btshared \<Rightarrow> mempage \<Rightarrow> area list" where
  "extents bt P = map (extent bt P) [0..<mp_nCell P]"

text \<open>The abstract value: the bytes of each cell, in the order of the pointers.\<close>

definition page_cells :: "btshared \<Rightarrow> mempage \<Rightarrow> u8 list list" where
  "page_cells bt P = map (\<lambda>(p, n). get_list (mp_data P) p n) (extents bt P)"

abbreviation gap :: "mempage \<Rightarrow> nat" where
  "gap P \<equiv> mp_cellOffset P + 2 * mp_nCell P"

definition laid_out :: "btshared \<Rightarrow> mempage \<Rightarrow> nat \<Rightarrow> area list \<Rightarrow> bool" where
  "laid_out bt P t fl =
     (limits_ok bt P \<and> format_ok P \<and> 480 \<le> bt_usableSize bt \<and> mp_cellOffset P = mp_hdrOffset P + 8 + mp_childPtrSize P \<and>
      get2byte (mp_data P) (mp_hdrOffset P + 3) = mp_nCell P \<and> gap P \<le> t \<and> (mp_nCell P = 0 \<longrightarrow> t = bt_usableSize bt) \<and>
      space (mp_data P) (mp_hdrOffset P) (bt_usableSize bt) t (extents bt P) fl \<and>
      mp_nFree P = int (bt_usableSize bt) - int (gap P) - int (total (extents bt P)))"

text \<open>The fields that follow from the flags in the first byte of the header are the ones the flags say.\<close>

definition page_ok :: "btshared \<Rightarrow> mempage \<Rightarrow> bool" where
  "page_ok bt P = ((\<exists>t fl. laid_out bt P t fl) \<and> mp_isInit P \<and> mp_maskPage P = (bt_pageSize bt - 1) mod 65536 \<and>
     decodeFlags bt (unat (mp_data P (mp_hdrOffset P))) P = (Page_OK, P))"

lemma laid_outD:
  assumes "laid_out bt P t fl"
  shows "limits_ok bt P" "format_ok P" "480 \<le> bt_usableSize bt" "mp_cellOffset P = mp_hdrOffset P + 8 + mp_childPtrSize P"
    "get2byte (mp_data P) (mp_hdrOffset P + 3) = mp_nCell P" "gap P \<le> t" "mp_nCell P = 0 \<Longrightarrow> t = bt_usableSize bt"
    "space (mp_data P) (mp_hdrOffset P) (bt_usableSize bt) t (extents bt P) fl"
    "mp_nFree P = int (bt_usableSize bt) - int (gap P) - int (total (extents bt P))"
  using assms by (simp_all add: laid_out_def)

lemma xCellSize_upd [simp]:
  "xCellSize bt (P\<lparr>mp_data := d\<rparr>) = xCellSize bt P" "xCellSize bt (P\<lparr>mp_nFree := f\<rparr>) = xCellSize bt P"
  "xCellSize bt (P\<lparr>mp_nCell := c\<rparr>) = xCellSize bt P"
proof -
  have m: "measure_payload bt (P\<lparr>mp_data := d\<rparr>) = measure_payload bt P" "measure_payload bt (P\<lparr>mp_nFree := f\<rparr>) = measure_payload bt P"
    "measure_payload bt (P\<lparr>mp_nCell := c\<rparr>) = measure_payload bt P"
    by (intro ext; simp add: measure_payload_def)+
  show "xCellSize bt (P\<lparr>mp_data := d\<rparr>) = xCellSize bt P" "xCellSize bt (P\<lparr>mp_nFree := f\<rparr>) = xCellSize bt P"
    "xCellSize bt (P\<lparr>mp_nCell := c\<rparr>) = xCellSize bt P"
    by (auto intro!: ext simp: xCellSize_def cellSizePtr_def cellSizePtrIdxLeaf_def cellSizePtrNoPayload_def
        cellSizePtrTableLeaf_def m split: cell_size_method.splits)
qed

lemma limits_upd [simp]: "limits_ok bt (P\<lparr>mp_data := d\<rparr>) = limits_ok bt P" "limits_ok bt (P\<lparr>mp_nFree := f\<rparr>) = limits_ok bt P"
  "limits_ok bt (P\<lparr>mp_nCell := c\<rparr>) = limits_ok bt P" "format_ok (P\<lparr>mp_data := d\<rparr>) = format_ok P"
  "format_ok (P\<lparr>mp_nFree := f\<rparr>) = format_ok P" "format_ok (P\<lparr>mp_nCell := c\<rparr>) = format_ok P"
  by (simp_all add: limits_ok_def format_ok_def)

lemma extents_upd [simp]: "extents bt (P\<lparr>mp_nFree := f\<rparr>) = extents bt P"
  by (simp add: extents_def extent_def)

lemma length_extents [simp]: "length (extents bt P) = mp_nCell P"
  by (simp add: extents_def)

lemma nth_extents: "i < mp_nCell P \<Longrightarrow> extents bt P ! i = extent bt P i"
  by (simp add: extents_def)

text \<open>Cells that are at new places with their old content.\<close>

lemma relocated:
  assumes "limits_ok bt P" "length new = mp_nCell P"
    and "\<And>i. i < mp_nCell P \<Longrightarrow> get2byte e (mp_cellOffset P + 2 * i) = fst (new ! i) \<and> snd (new ! i) = snd (extents bt P ! i) \<and>
      get_list e (fst (new ! i)) (snd (new ! i)) = get_list (mp_data P) (fst (extents bt P ! i)) (snd (extents bt P ! i))"
  shows "extents bt (P\<lparr>mp_data := e\<rparr>) = new \<and> page_cells bt (P\<lparr>mp_data := e\<rparr>) = page_cells bt P"
proof -
  have x: "extent bt (P\<lparr>mp_data := e\<rparr>) i = new ! i" if i: "i < mp_nCell P" for i
  proof -
    let ?p = "fst (extents bt P ! i)" and ?n = "snd (extents bt P ! i)"
    have n: "?n = xCellSize bt P (mp_data P) ?p" using i by (simp add: nth_extents extent_def Let_def)
    have "xCellSize bt P e (fst (new ! i)) = xCellSize bt P (mp_data P) ?p"
      using cm.moved [of "(bt, P)" e "fst (new ! i)" "mp_data P" ?p] assms(1) assms(3) [OF i] n by auto
    then show ?thesis using assms(3) [OF i] n by (simp add: extent_def Let_def prod_eq_iff)
  qed
  then have new: "extents bt (P\<lparr>mp_data := e\<rparr>) = new"
    using assms(2) by (intro nth_equalityI) (simp_all add: nth_extents)
  moreover have "page_cells bt (P\<lparr>mp_data := e\<rparr>) = page_cells bt P"
  proof (unfold page_cells_def new, rule nth_equalityI)
    fix i assume "i < length (map (\<lambda>(p, n). get_list (mp_data (P\<lparr>mp_data := e\<rparr>)) p n) new)"
    then have i: "i < mp_nCell P" using assms(2) by simp
    show "map (\<lambda>(p, n). get_list (mp_data (P\<lparr>mp_data := e\<rparr>)) p n) new ! i = map (\<lambda>(p, n). get_list (mp_data P) p n) (extents bt P) ! i"
      using assms(3) [OF i] i assms(2) by (auto simp: case_prod_beta)
  qed (use assms(2) in simp)
  ultimately show ?thesis ..
qed

lemma laid_out_in: "laid_out bt P t fl \<Longrightarrow> i < mp_nCell P \<Longrightarrow>
    t \<le> fst (extents bt P ! i) \<and> 4 \<le> snd (extents bt P ! i) \<and> fst (extents bt P ! i) + snd (extents bt P ! i) \<le> bt_usableSize bt"
  using areas_in [of t "bt_usableSize bt" "extents bt P @ fl" "fst (extents bt P ! i)" "snd (extents bt P ! i)"] spaceD(7) [OF laid_outD(8)]
  by fastforce

text \<open>Nothing a page is read for changes under a frame.\<close>

lemma framed:
  assumes ok: "laid_out bt P t fl" and f: "frame (mp_hdrOffset P) t (extents bt P) (mp_data P) e"
  shows "extents bt (P\<lparr>mp_data := e\<rparr>) = extents bt P" "page_cells bt (P\<lparr>mp_data := e\<rparr>) = page_cells bt P"
    "get2byte e (mp_hdrOffset P + 3) = mp_nCell P"
proof -
  note L = laid_outD [OF ok]
  let ?d = "mp_data P" and ?h = "mp_hdrOffset P"
  have low: "e k = ?d k" if "k < t" "k \<notin> {?h + 1, ?h + 2, ?h + 5, ?h + 6, ?h + 7}" for k using f that by (simp add: frame_def)
  have c: "get2byte e (mp_cellOffset P + 2 * i) = fst (extents bt P ! i) \<and>
    get_list e (fst (extents bt P ! i)) (snd (extents bt P ! i)) = get_list ?d (fst (extents bt P ! i)) (snd (extents bt P ! i))"
    if i: "i < mp_nCell P" for i
  proof
    have "get2byte e (mp_cellOffset P + 2 * i) = get2byte ?d (mp_cellOffset P + 2 * i)"
      using i L(4,6) by (intro get2byte_local low) auto
    then show "get2byte e (mp_cellOffset P + 2 * i) = fst (extents bt P ! i)" using i by (simp add: nth_extents extent_def Let_def)
    obtain p n where x: "extents bt P ! i = (p, n)" by fastforce
    have "(p, n) \<in> set (extents bt P)" using i x nth_mem [of i "extents bt P"] by simp
    moreover have "?h + 8 \<le> p" using laid_out_in [OF ok i] x spaceD(2) [OF L(8)] by simp
    ultimately have "e k = ?d k" if "p \<le> k" "k < p + n" for k
      using that f [unfolded frame_def, rule_format, of k] by fastforce
    then show "get_list e (fst (extents bt P ! i)) (snd (extents bt P ! i)) = get_list ?d (fst (extents bt P ! i)) (snd (extents bt P ! i))"
      by (simp add: x get_list_def)
  qed
  show "extents bt (P\<lparr>mp_data := e\<rparr>) = extents bt P" "page_cells bt (P\<lparr>mp_data := e\<rparr>) = page_cells bt P"
    using relocated [OF L(1), of "extents bt P" e] c by auto
  have "get2byte e (?h + 3) = get2byte ?d (?h + 3)" using spaceD(2) [OF L(8)] by (intro get2byte_local low) auto
  then show "get2byte e (?h + 3) = mp_nCell P" using L(5) by simp
qed

section \<open>Defragmentation, cell by cell\<close>

text \<open>Where the general case puts the cells: one after the other, downwards from \<open>c\<close>.\<close>

fun packed :: "nat \<Rightarrow> area list \<Rightarrow> area list" where
  "packed c [] = []"
| "packed c ((p, n) # es) = (c - n, n) # packed (c - n) es"

lemma packed_simps [simp]: "length (packed c es) = length es" "map snd (packed c es) = map snd es" "total (packed c es) = total es"
  by (induction c es rule: packed.induct) simp_all

lemma areas_packed: "(\<And>x. x \<in> set es \<Longrightarrow> 4 \<le> snd x) \<Longrightarrow> total es + lo \<le> c \<Longrightarrow> areas lo c (packed c es)"
proof (induction c es rule: packed.induct)
  case (2 c p n es)
  have a: "areas lo (c - n) (packed (c - n) es)" using 2 by simp
  then have "areas lo c (packed (c - n) es)" using 2 by (intro areas_mono [OF a]) (auto dest: areas_in [OF a])
  moreover have "disj (c - n, n) y" if "y \<in> set (packed (c - n) es)" for y
    using areas_in [OF a, of "fst y" "snd y"] that by (simp add: disj_def)
  moreover have "4 \<le> n" using 2(2) [of "(p, n)"] by simp
  ultimately show ?case using 2 by (auto simp: areas_Cons)
qed simp

lemma get_list_eq: "get_list e a n = get_list d b n \<longleftrightarrow> (\<forall>k < n. e (a + k) = d (b + k))"
  by (auto simp: get_list_def)

lemma pack_sound:
  assumes "distinct is"
    and "\<And>i. i \<in> set is \<Longrightarrow> get2byte d (mp_cellOffset P + i * 2) = fst (E i) \<and> snd (E i) = xCellSize bt P src (fst (E i)) \<and>
      fst (E i) + snd (E i) \<le> bt_usableSize bt \<and> 4 \<le> snd (E i) \<and> mp_cellOffset P + i * 2 + 2 \<le> t"
    and "total (map E is) + t \<le> c" "c \<le> 65536"
  shows "\<exists>e. pack_cells bt P src t is d c = (Page_OK, e, c - total (map E is)) \<and>
    (\<forall>k. k < t \<and> (\<forall>i \<in> set is. k \<noteq> mp_cellOffset P + i * 2 \<and> k \<noteq> mp_cellOffset P + i * 2 + 1) \<or> c \<le> k \<longrightarrow> e k = d k) \<and>
    (\<forall>j < length is. get2byte e (mp_cellOffset P + (is ! j) * 2) = fst (packed c (map E is) ! j) \<and>
      get_list e (fst (packed c (map E is) ! j)) (snd (E (is ! j))) = get_list src (fst (E (is ! j))) (snd (E (is ! j))))"
  using assms
proof (induction "is" arbitrary: d c)
  case (Cons i "is")
  obtain p n where E: "E i = (p, n)" by fastforce
  let ?a = "\<lambda>i. mp_cellOffset P + i * 2"
  have i: "get2byte d (?a i) = p" "n = xCellSize bt P src p" "p + n \<le> bt_usableSize bt" "4 \<le> n" "?a i + 2 \<le> t"
    using Cons.prems(2) [of i] E by auto
  have c: "n + t \<le> c" "c - n < 65536" using Cons.prems(3,4) E i(4) by auto
  define d1 where "d1 = copy (put2byte d (?a i) (c - n)) (c - n) src p n"
  have d1: "d1 k = d k" if "k < t \<and> k \<noteq> ?a i \<and> k \<noteq> ?a i + 1 \<or> c \<le> k" for k
    using that i(5) c by (auto simp: d1_def copy_def put2byte_def)
  have ptr: "get2byte d1 (?a i) = c - n"
  proof -
    have "get2byte d1 (?a i) = get2byte (put2byte d (?a i) (c - n)) (?a i)"
      unfolding d1_def using i(5) c by (intro get2byte_local copy_out) auto
    then show ?thesis using c(2) by (simp add: page_simps)
  qed
  have odd_even: "?a j \<noteq> ?a i + 1 \<and> ?a j + 1 \<noteq> ?a i" for i j by presburger
  have "\<exists>e. pack_cells bt P src t is d1 (c - n) = (Page_OK, e, c - n - total (map E is)) \<and>
    (\<forall>k. k < t \<and> (\<forall>i \<in> set is. k \<noteq> ?a i \<and> k \<noteq> ?a i + 1) \<or> c - n \<le> k \<longrightarrow> e k = d1 k) \<and>
    (\<forall>j < length is. get2byte e (?a (is ! j)) = fst (packed (c - n) (map E is) ! j) \<and>
      get_list e (fst (packed (c - n) (map E is) ! j)) (snd (E (is ! j))) = get_list src (fst (E (is ! j))) (snd (E (is ! j))))"
  proof (rule Cons.IH)
    show "distinct is" "total (map E is) + t \<le> c - n" "c - n \<le> 65536" using Cons.prems E by auto
    fix j assume j: "j \<in> set is"
    from j have "get2byte d1 (?a j) = get2byte d (?a j)"
      using Cons.prems(1) Cons.prems(2) [of j] odd_even [of i j] by (intro get2byte_local d1) auto
    then show "get2byte d1 (?a j) = fst (E j) \<and> snd (E j) = xCellSize bt P src (fst (E j)) \<and>
      fst (E j) + snd (E j) \<le> bt_usableSize bt \<and> 4 \<le> snd (E j) \<and> ?a j + 2 \<le> t" using Cons.prems(2) [of j] j by simp
  qed
  then obtain e where e: "pack_cells bt P src t is d1 (c - n) = (Page_OK, e, c - n - total (map E is))"
    "\<And>k. k < t \<and> (\<forall>i \<in> set is. k \<noteq> ?a i \<and> k \<noteq> ?a i + 1) \<or> c - n \<le> k \<Longrightarrow> e k = d1 k"
    "\<And>j. j < length is \<Longrightarrow> get2byte e (?a (is ! j)) = fst (packed (c - n) (map E is) ! j) \<and>
      get_list e (fst (packed (c - n) (map E is) ! j)) (snd (E (is ! j))) = get_list src (fst (E (is ! j))) (snd (E (is ! j)))"
    by auto
  have "get2byte e (?a i) = get2byte d1 (?a i)"
    using Cons.prems(1) i(5) odd_even by (intro get2byte_local e(2) disjI1 conjI ballI) auto
  then have "get2byte e (?a i) = c - n" using ptr by simp
  moreover have "get_list e (c - n) n = get_list src p n"
    unfolding get_list_eq
  proof (intro allI impI)
    fix k assume k: "k < n"
    have "e (c - n + k) = d1 (c - n + k)" by (rule e(2)) simp
    also have "\<dots> = src (p + k)" unfolding d1_def using k by (rule copy_in)
    finally show "e (c - n + k) = src (p + k)" .
  qed
  ultimately have "\<forall>j < length (i # is). get2byte e (?a ((i # is) ! j)) = fst (packed c (map E (i # is)) ! j) \<and>
      get_list e (fst (packed c (map E (i # is)) ! j)) (snd (E ((i # is) ! j))) = get_list src (fst (E ((i # is) ! j))) (snd (E ((i # is) ! j)))"
    using e(3) E by (auto simp: less_Suc_eq_0_disj)
  moreover have "e k = d k" if "k < t \<and> (\<forall>i \<in> set (i # is). k \<noteq> ?a i \<and> k \<noteq> ?a i + 1) \<or> c \<le> k" for k
  proof -
    have "c \<le> k \<Longrightarrow> c - n \<le> k" by simp
    then show ?thesis using that d1 [of k] e(2) [of k] by auto
  qed
  moreover have "pack_cells bt P src t (i # is) d c = (Page_OK, e, c - total (map E (i # is)))"
    using i c e(1) E by (simp add: Let_def d1_def i(2) [symmetric])
  ultimately show ?case by blast
qed simp

text \<open>The bytes in front of the cell pointers that are not fields of the free space.\<close>

definition same_header :: "mempage \<Rightarrow> bytes \<Rightarrow> bool" where
  "same_header P e = (\<forall>k < mp_cellOffset P. k \<notin> {mp_hdrOffset P + 1, mp_hdrOffset P + 2, mp_hdrOffset P + 5, mp_hdrOffset P + 6,
     mp_hdrOffset P + 7} \<longrightarrow> e k = mp_data P k)"

text \<open>A page whose cells have been moved together, as the end of \<open>defragmentPage\<close> leaves it.\<close>

definition compacted :: "btshared \<Rightarrow> mempage \<Rightarrow> bytes \<Rightarrow> nat \<Rightarrow> bool" where
  "compacted bt P d c = (\<exists>new. length new = mp_nCell P \<and> areas c (bt_usableSize bt) new \<and> gap P \<le> c \<and> c \<le> bt_usableSize bt \<and>
     total new = total (extents bt P) \<and> unat (d (mp_hdrOffset P + 7)) + c + total new = bt_usableSize bt \<and> same_header P d \<and>
     (\<forall>i < mp_nCell P. get2byte d (mp_cellOffset P + 2 * i) = fst (new ! i) \<and> snd (new ! i) = snd (extents bt P ! i) \<and>
      get_list d (fst (new ! i)) (snd (new ! i)) = get_list (mp_data P) (fst (extents bt P ! i)) (snd (extents bt P ! i))))"

lemma defragment_out_sound:
  assumes ok: "laid_out bt P t fl" and c: "compacted bt P d c"
  shows "\<exists>e. defragment_out P d c = (Page_OK, P\<lparr>mp_data := e\<rparr>) \<and> (mp_nCell P \<noteq> 0 \<longrightarrow> laid_out bt (P\<lparr>mp_data := e\<rparr>) c []) \<and>
    page_cells bt (P\<lparr>mp_data := e\<rparr>) = page_cells bt P \<and> e (mp_hdrOffset P + 7) = d (mp_hdrOffset P + 7) \<and> same_header P e"
proof -
  note L = laid_outD [OF ok]
  let ?u = "bt_usableSize bt" and ?h = "mp_hdrOffset P"
  obtain new where new: "length new = mp_nCell P" "areas c ?u new" "gap P \<le> c" "c \<le> ?u" "total new = total (extents bt P)"
    "unat (d (?h + 7)) + c + total new = ?u" "same_header P d"
    "\<And>i. i < mp_nCell P \<Longrightarrow> get2byte d (mp_cellOffset P + 2 * i) = fst (new ! i) \<and> snd (new ! i) = snd (extents bt P ! i) \<and>
      get_list d (fst (new ! i)) (snd (new ! i)) = get_list (mp_data P) (fst (extents bt P ! i)) (snd (extents bt P ! i))"
    using c unfolding compacted_def by blast
  define e where "e = fill ((put2byte d (?h + 5) c)(?h + 1 := 0, ?h + 2 := 0)) (gap P) 0 (c - gap P)"
  have h: "?h + 8 \<le> mp_cellOffset P" using L(4) by simp
  have e: "e k = d k" if "k < gap P \<or> c \<le> k" "k \<notin> {?h + 1, ?h + 2, ?h + 5, ?h + 6}" for k
    using that new(3) by (auto simp: e_def fill_def put2byte_def)
  have e5: "get2byteNotZero e (?h + 5) = c"
  proof -
    have "get2byte e (?h + 5) = get2byte (put2byte d (?h + 5) c) (?h + 5)"
      unfolding e_def using h by (intro get2byte_local) (auto simp: fill_def)
    then show ?thesis using notzero_put2byte [of c d "?h + 5"] new(3,4) h spaceD(4) [OF L(8)] by (auto simp: notzero)
  qed
  have e1: "get2byte e (?h + 1) = 0" using h by (simp add: get2byte_0 e_def fill_def)
  have moved: "get2byte e (mp_cellOffset P + 2 * i) = fst (new ! i) \<and> snd (new ! i) = snd (extents bt P ! i) \<and>
      get_list e (fst (new ! i)) (snd (new ! i)) = get_list (mp_data P) (fst (extents bt P ! i)) (snd (extents bt P ! i))"
    if i: "i < mp_nCell P" for i
  proof -
    have "get2byte e (mp_cellOffset P + 2 * i) = get2byte d (mp_cellOffset P + 2 * i)"
      using i h by (intro get2byte_local e) auto
    moreover have "c \<le> fst (new ! i)" using areas_in [OF new(2), of "fst (new ! i)" "snd (new ! i)"] i new(1) by simp
    then have "get_list e (fst (new ! i)) (snd (new ! i)) = get_list d (fst (new ! i)) (snd (new ! i))"
      unfolding get_list_eq using h new(3) by (intro allI impI e) auto
    ultimately show ?thesis using new(8) [OF i] by auto
  qed
  note R = relocated [OF L(1) new(1), of e, OF moved]
  have e7: "e (?h + 7) = d (?h + 7)" using h by (intro e) auto
  have same: "same_header P e" using new(7) e h unfolding same_header_def by auto
  have run: "defragment_out P d c = (Page_OK, P\<lparr>mp_data := e\<rparr>)"
  proof -
    have "int (unat (d (?h + 7))) + int c - int (gap P) = mp_nFree P" using L(9) new(5,6) by linarith
    then show ?thesis by (simp add: defragment_out_def Let_def e_def)
  qed
  have "get2byte e (?h + 3) = get2byte (mp_data P) (?h + 3)"
    using same h unfolding same_header_def by (intro get2byte_local) auto
  moreover have "space e ?h ?u c new []"
    using e5 e1 e7 new(2-6) h spaceD(4) [OF L(8)] by (simp add: space_def)
  ultimately have "laid_out bt (P\<lparr>mp_data := e\<rparr>) c []" if "mp_nCell P \<noteq> 0"
    using that L(1-5) L(9) new(3,5) R by (simp add: laid_out_def)
  then show ?thesis using run R e7 same by blast
qed

text \<open>The general case.\<close>

lemma pack_compacted:
  assumes ok: "laid_out bt P t fl" and n: "mp_nCell P \<noteq> 0"
  shows "\<exists>d. pack_cells bt P (mp_data P) (get2byte (mp_data P) (mp_hdrOffset P + 5)) [0..<mp_nCell P] (mp_data P) (bt_usableSize bt) =
      (Page_OK, d, bt_usableSize bt - total (extents bt P)) \<and>
    compacted bt P (d(mp_hdrOffset P + 7 := 0)) (bt_usableSize bt - total (extents bt P))"
proof -
  note L = laid_outD [OF ok] and S = spaceD [OF laid_outD(8) [OF ok]]
  let ?u = "bt_usableSize bt" and ?h = "mp_hdrOffset P" and ?d = "mp_data P" and ?E = "extents bt P"
  have "0 < mp_nCell P" using n by simp
  then have "t < ?u" using laid_out_in [OF ok, of 0] by linarith
  then have t: "get2byte ?d (?h + 5) = t" using S(1,4) by (auto simp: notzero split: if_splits)
  have E: "map (extent bt P) [0..<mp_nCell P] = ?E" by (simp add: extents_def)
  let ?c = "?u - total ?E"
  have tot: "total ?E + t \<le> ?u" using S(8) by simp
  have "\<exists>e. pack_cells bt P ?d t [0..<mp_nCell P] ?d ?u = (Page_OK, e, ?u - total (map (extent bt P) [0..<mp_nCell P])) \<and>
    (\<forall>k. k < t \<and> (\<forall>i \<in> set [0..<mp_nCell P]. k \<noteq> mp_cellOffset P + i * 2 \<and> k \<noteq> mp_cellOffset P + i * 2 + 1) \<or> ?u \<le> k \<longrightarrow> e k = ?d k) \<and>
    (\<forall>j < length [0..<mp_nCell P]. get2byte e (mp_cellOffset P + ([0..<mp_nCell P] ! j) * 2) = fst (packed ?u (map (extent bt P) [0..<mp_nCell P]) ! j) \<and>
      get_list e (fst (packed ?u (map (extent bt P) [0..<mp_nCell P]) ! j)) (snd (extent bt P ([0..<mp_nCell P] ! j))) =
      get_list ?d (fst (extent bt P ([0..<mp_nCell P] ! j))) (snd (extent bt P ([0..<mp_nCell P] ! j))))"
  proof (rule pack_sound)
    fix i assume "i \<in> set [0..<mp_nCell P]"
    then have i: "i < mp_nCell P" by simp
    then show "get2byte ?d (mp_cellOffset P + i * 2) = fst (extent bt P i) \<and>
        snd (extent bt P i) = xCellSize bt P ?d (fst (extent bt P i)) \<and>
        fst (extent bt P i) + snd (extent bt P i) \<le> ?u \<and> 4 \<le> snd (extent bt P i) \<and> mp_cellOffset P + i * 2 + 2 \<le> t"
      using laid_out_in [OF ok i] L(6) by (auto simp: nth_extents extent_def Let_def mult.commute)
  qed (use E tot S(4) in auto)
  then obtain e where e: "pack_cells bt P ?d t [0..<mp_nCell P] ?d ?u = (Page_OK, e, ?c)"
    "\<And>k. k < mp_cellOffset P \<Longrightarrow> e k = ?d k"
    "\<And>j. j < mp_nCell P \<Longrightarrow> get2byte e (mp_cellOffset P + 2 * j) = fst (packed ?u ?E ! j) \<and>
      get_list e (fst (packed ?u ?E ! j)) (snd (?E ! j)) = get_list ?d (fst (?E ! j)) (snd (?E ! j))"
    unfolding E using L(6) by (auto simp: mult.commute nth_extents)
  let ?f = "e(?h + 7 := 0)"
  have h: "?h + 8 \<le> mp_cellOffset P" using L(4) by simp
  have ge4: "4 \<le> snd x" if "x \<in> set ?E" for x using areas_in [OF S(7), of "fst x" "snd x"] that by simp
  have A: "areas ?c ?u (packed ?u ?E)" using tot by (intro areas_packed ge4) auto
  have snds: "snd (packed ?u ?E ! j) = snd (?E ! j)" if "j < mp_nCell P" for j
    using arg_cong [OF packed_simps(2) [of ?u ?E], of "\<lambda>l. l ! j"] that by (simp del: packed_simps(2))
  have "get2byte ?f (mp_cellOffset P + 2 * j) = fst (packed ?u ?E ! j) \<and> snd (packed ?u ?E ! j) = snd (?E ! j) \<and>
      get_list ?f (fst (packed ?u ?E ! j)) (snd (packed ?u ?E ! j)) = get_list ?d (fst (?E ! j)) (snd (?E ! j))" if j: "j < mp_nCell P" for j
  proof -
    have "get2byte ?f (mp_cellOffset P + 2 * j) = get2byte e (mp_cellOffset P + 2 * j)" using h by (intro get2byte_local) auto
    moreover have "?c \<le> fst (packed ?u ?E ! j)" using areas_in [OF A, of "fst (packed ?u ?E ! j)" "snd (packed ?u ?E ! j)"] j by simp
    then have "get_list ?f (fst (packed ?u ?E ! j)) (snd (?E ! j)) = get_list e (fst (packed ?u ?E ! j)) (snd (?E ! j))"
      unfolding get_list_eq using S(2) tot by auto
    ultimately show ?thesis using e(3) [OF j] snds [OF j] by simp
  qed
  moreover have "length (packed ?u ?E) = mp_nCell P \<and> gap P \<le> ?c \<and> ?c \<le> ?u \<and> total (packed ?u ?E) = total ?E \<and>
      unat (?f (?h + 7)) + ?c + total (packed ?u ?E) = ?u \<and> same_header P ?f"
    using tot L(6) e(2) h by (auto simp: same_header_def)
  ultimately have "compacted bt P ?f ?c"
    unfolding compacted_def using A by (intro exI [of _ "packed ?u ?E"]) blast
  then show ?thesis using e(1) t by auto
qed

text \<open>Moving whole blocks: the pointers follow.\<close>

lemma shift_fold:
  fixes a b sz sz2 :: nat
  assumes "distinct is"
    and "\<And>i. i \<in> set is \<Longrightarrow> g (get2byte d (mp_cellOffset P + 2 * i)) < 65536"
    and g: "g = (\<lambda>pc. if pc < a then pc + sz else if pc < b then pc + sz2 else pc)"
  shows "(\<forall>i \<in> set is. get2byte (fold (\<lambda>i d. let a' = mp_cellOffset P + 2 * i; pc = get2byte d a' in
             if pc < a then put2byte d a' (pc + sz) else if pc < b then put2byte d a' (pc + sz2) else d) is d)
           (mp_cellOffset P + 2 * i) = g (get2byte d (mp_cellOffset P + 2 * i))) \<and>
    (\<forall>k. (\<forall>i \<in> set is. k \<noteq> mp_cellOffset P + 2 * i \<and> k \<noteq> mp_cellOffset P + 2 * i + 1) \<longrightarrow>
       fold (\<lambda>i d. let a' = mp_cellOffset P + 2 * i; pc = get2byte d a' in
             if pc < a then put2byte d a' (pc + sz) else if pc < b then put2byte d a' (pc + sz2) else d) is d k = d k)"
  using assms(1,2)
proof (induction "is" arbitrary: d)
  case (Cons i "is")
  let ?a = "\<lambda>i. mp_cellOffset P + 2 * i"
  define f where "f = (\<lambda>i d. let a' = ?a i; pc = get2byte d a' in
      if pc < a then put2byte d a' (pc + sz) else if pc < b then put2byte d a' (pc + sz2) else d)"
  have odd_even: "?a j \<noteq> ?a i + 1 \<and> ?a j + 1 \<noteq> ?a i" for i j by presburger
  have f1: "get2byte (f i d) (?a i) = g (get2byte d (?a i))"
    using Cons.prems(2) [of i] by (auto simp: f_def g Let_def page_simps split: if_splits)
  have f2: "f i d k = d k" if "k \<noteq> ?a i" "k \<noteq> ?a i + 1" for k
    using that by (auto simp: f_def Let_def put2byte_def)
  have other: "get2byte (f i d) (?a j) = get2byte d (?a j)" if "j \<in> set is" for j
    using that Cons.prems(1) odd_even [of i j] by (intro get2byte_local f2) auto
  have IH: "(\<forall>j \<in> set is. get2byte (fold f is (f i d)) (?a j) = g (get2byte (f i d) (?a j))) \<and>
    (\<forall>k. (\<forall>j \<in> set is. k \<noteq> ?a j \<and> k \<noteq> ?a j + 1) \<longrightarrow> fold f is (f i d) k = f i d k)"
    unfolding f_def using Cons.prems other [unfolded f_def] by (intro Cons.IH) auto
  have neq: "?a i \<noteq> ?a j \<and> ?a i \<noteq> ?a j + 1 \<and> ?a i + 1 \<noteq> ?a j \<and> ?a i + 1 \<noteq> ?a j + 1" if "j \<in> set is" for j
    using that Cons.prems(1) odd_even [of i j] by auto
  then have "fold f is (f i d) (?a i) = f i d (?a i)" "fold f is (f i d) (?a i + 1) = f i d (?a i + 1)"
    using conjunct2 [OF IH] by blast+
  then have "get2byte (fold f is (f i d)) (?a i) = get2byte (f i d) (?a i)" by (rule get2byte_local)
  then have "(\<forall>j \<in> set (i # is). get2byte (fold f (i # is) d) (?a j) = g (get2byte d (?a j))) \<and>
    (\<forall>k. (\<forall>j \<in> set (i # is). k \<noteq> ?a j \<and> k \<noteq> ?a j + 1) \<longrightarrow> fold f (i # is) d k = d k)"
    using IH f1 f2 other by simp
  then show ?case unfolding f_def .
qed simp

lemma areas_slide:
  assumes "areas lo hi E" "\<And>p n. (p, n) \<in> set E \<Longrightarrow> lo' \<le> g p \<and> g p + n \<le> hi'"
    and "\<And>p n q k. (p, n) \<in> set E \<Longrightarrow> (q, k) \<in> set E \<Longrightarrow> p + n \<le> q \<Longrightarrow> g p + n \<le> g q"
  shows "areas lo' hi' (map (\<lambda>(p, n). (g p, n)) E)"
  using assms
proof (induction E)
  case (Cons x E)
  obtain p n where x: "x = (p, n)" by fastforce
  have "disj (g p, n) (g q, k)" if "(q, k) \<in> set E" for q k
    using Cons.prems(1) Cons.prems(3) [of p n q k] Cons.prems(3) [of q k p n] that x by (auto simp: areas_Cons disj_def)
  moreover have "areas lo' hi' (map (\<lambda>(p, n). (g p, n)) E)" 
  proof (rule Cons.IH)
    show "areas lo hi E" using Cons.prems(1) by (simp add: areas_Cons)
    show "lo' \<le> g p \<and> g p + n \<le> hi'" if "(p, n) \<in> set E" for p n using that by (intro Cons.prems(2)) simp
    show "g p + n \<le> g q" if "(p, n) \<in> set E" "(q, k) \<in> set E" "p + n \<le> q" for p n q k
      using that by (intro Cons.prems(3) [of p n q k]) simp_all
  qed
  ultimately show ?case using Cons.prems(1) Cons.prems(2) [of p n] x by (auto simp: areas_Cons)
qed simp

lemma slid_compacted:
  fixes g :: "nat \<Rightarrow> nat"
  assumes ok: "laid_out bt P t fl" and g: "g = (\<lambda>pc. if pc < a then pc + sz else if pc < b then pc + sz2 else pc)"
    and A: "areas c (bt_usableSize bt) (map (\<lambda>(p, n). (g p, n)) (extents bt P))"
    and d: "\<And>p n. (p, n) \<in> set (extents bt P) \<Longrightarrow> get_list d (g p) n = get_list (mp_data P) p n"
    and low: "\<And>k. k < t \<Longrightarrow> d k = mp_data P k" and c: "t \<le> c" "c \<le> bt_usableSize bt"
    and tot: "unat (mp_data P (mp_hdrOffset P + 7)) + c + total (extents bt P) = bt_usableSize bt"
  shows "compacted bt P (shift_pointers P a b sz sz2 d) c \<and>
    shift_pointers P a b sz sz2 d (mp_hdrOffset P + 7) = mp_data P (mp_hdrOffset P + 7)"
proof -
  note L = laid_outD [OF ok] and S = spaceD [OF laid_outD(8) [OF ok]]
  let ?u = "bt_usableSize bt" and ?h = "mp_hdrOffset P" and ?E = "extents bt P"
  let ?new = "map (\<lambda>(p, n). (g p, n)) ?E" and ?e = "shift_pointers P a b sz sz2 d"
  have ptr: "get2byte d (mp_cellOffset P + 2 * i) = fst (?E ! i)" if "i < mp_nCell P" for i
  proof -
    have "get2byte d (mp_cellOffset P + 2 * i) = get2byte (mp_data P) (mp_cellOffset P + 2 * i)"
      using that L(6) by (intro get2byte_local low) auto
    then show ?thesis using that by (simp add: nth_extents extent_def Let_def)
  qed
  have new: "?new ! i = (g (fst (?E ! i)), snd (?E ! i))" if "i < mp_nCell P" for i using that by (simp add: case_prod_beta)
  have in_new: "c \<le> g (fst (?E ! i)) \<and> 4 \<le> snd (?E ! i) \<and> g (fst (?E ! i)) + snd (?E ! i) \<le> ?u" if "i < mp_nCell P" for i
    using areas_in [OF A, of "g (fst (?E ! i))" "snd (?E ! i)"] that nth_mem [of i ?new] new [OF that] by auto
  have F: "(\<forall>i \<in> set [0..<mp_nCell P]. get2byte ?e (mp_cellOffset P + 2 * i) = g (get2byte d (mp_cellOffset P + 2 * i))) \<and>
    (\<forall>k. (\<forall>i \<in> set [0..<mp_nCell P]. k \<noteq> mp_cellOffset P + 2 * i \<and> k \<noteq> mp_cellOffset P + 2 * i + 1) \<longrightarrow> ?e k = d k)"
    unfolding shift_pointers_def
  proof (rule shift_fold [OF _ _ g])
    fix i assume "i \<in> set [0..<mp_nCell P]"
    then show "g (get2byte d (mp_cellOffset P + 2 * i)) < 65536" using in_new [of i] ptr [of i] S(4) by simp
  qed simp
  have e: "?e k = d k" if "k < mp_cellOffset P \<or> t \<le> k" for k using F that L(6) by auto
  have tot_new: "total ?new = total ?E" by (simp add: total_def case_prod_beta comp_def)
  have e7: "?e (?h + 7) = mp_data P (?h + 7)" using e [of "?h + 7"] low [of "?h + 7"] L(4) S(2) by simp
  have "get2byte ?e (mp_cellOffset P + 2 * i) = fst (?new ! i) \<and> snd (?new ! i) = snd (?E ! i) \<and>
      get_list ?e (fst (?new ! i)) (snd (?new ! i)) = get_list (mp_data P) (fst (?E ! i)) (snd (?E ! i))" if i: "i < mp_nCell P" for i
  proof -
    have "get_list ?e (g (fst (?E ! i))) (snd (?E ! i)) = get_list d (g (fst (?E ! i))) (snd (?E ! i))"
      unfolding get_list_eq using in_new [OF i] c by (intro allI impI e) auto
    then show ?thesis unfolding new [OF i] using i F ptr [OF i] d [of "fst (?E ! i)" "snd (?E ! i)"] by simp
  qed
  moreover have "length ?new = mp_nCell P \<and> gap P \<le> c \<and> total ?new = total ?E \<and> unat (?e (?h + 7)) + c + total ?new = ?u \<and> same_header P ?e"
    using tot tot_new e7 c(1) L(4,6) e low by (auto simp: same_header_def)
  ultimately have "compacted bt P ?e c" unfolding compacted_def using A c(2) by (intro exI [of _ ?new]) blast
  then show ?thesis using e7 by blast
qed

lemma shift_compacted:
  assumes ok: "laid_out bt P t fl" and n: "mp_nCell P \<noteq> 0"
  shows "defragment_shift bt P = None \<or> (\<exists>d c. defragment_shift bt P = Some (Inr (d, c)) \<and> compacted bt P d c \<and>
    d (mp_hdrOffset P + 7) = mp_data P (mp_hdrOffset P + 7))"
proof -
  note L = laid_outD [OF ok] and S = spaceD [OF laid_outD(8) [OF ok]]
  let ?u = "bt_usableSize bt" and ?h = "mp_hdrOffset P" and ?E = "extents bt P" and ?d = "mp_data P"
  have "t < ?u" using laid_out_in [OF ok, of 0] n by linarith
  then have t: "get2byte ?d (?h + 5) = t" using S(1,4) by (auto simp: notzero split: if_splits)
  have E: "t \<le> p \<and> p + k \<le> ?u" if "(p, k) \<in> set ?E" for p k using S(7) that areas_in by fastforce
  have dj: "disj (p, k) (s, m)" if "(p, k) \<in> set ?E" "(s, m) \<in> set fl" for p k s m using S(7) that by (auto simp: areas_append)
  have AE: "areas t ?u ?E" using S(7) by (simp add: areas_append)
  have small: "4 \<le> k" if "(p, k) \<in> set ?E" for p k using AE that areas_in by fastforce
  show ?thesis
  proof (cases fl)
    case Nil
    then show ?thesis using S(5) by (simp add: defragment_shift_def)
  next
    case (Cons x r)
    obtain s m where x: "x = (s, m)" by fastforce
    have s: "t + 1 \<le> s" "4 \<le> m" "s + m \<le> ?u" "get2byte ?d (?h + 1) = s" "get2byte ?d (s + 2) = m"
      using space_in [OF L(8), of s m] S(5) Cons x by auto
    show ?thesis
    proof (cases r)
      case Nil
      have z: "get2byte ?d s = 0" using S(5) Cons x Nil by simp
      define g where "g = (\<lambda>pc. if pc < s then pc + m else if pc < 0 then pc + 0 else pc)"
      let ?e = "copy ?d (t + m) ?d t (s - t)"
      have loc: "p + k \<le> s \<or> s + m \<le> p" if "(p, k) \<in> set ?E" for p k using dj [OF that, of s m] Cons x by (auto simp: disj_def)
      have "compacted bt P (shift_pointers P s 0 m 0 ?e) (t + m) \<and> shift_pointers P s 0 m 0 ?e (?h + 7) = ?d (?h + 7)"
      proof (rule slid_compacted [OF ok g_def])
        show "areas (t + m) ?u (map (\<lambda>(p, n). (g p, n)) ?E)"
        proof (rule areas_slide [OF AE])
          show "t + m \<le> g p \<and> g p + k \<le> ?u" if "(p, k) \<in> set ?E" for p k
            using E [OF that] loc [OF that] small [OF that] s by (auto simp: g_def)
          show "g p + k \<le> g q" if "(p, k) \<in> set ?E" "(q, l) \<in> set ?E" "p + k \<le> q" for p k q l
            using loc [OF that(1)] loc [OF that(2)] small [OF that(1)] small [OF that(2)] that(3) s by (auto simp: g_def)
        qed
        show "get_list ?e (g p) k = get_list ?d p k" if "(p, k) \<in> set ?E" for p k
          using E [OF that] loc [OF that] small [OF that] s unfolding get_list_eq g_def copy_def by auto
      qed (use S(8) s Cons x Nil in \<open>auto simp: copy_def\<close>)
      moreover have "defragment_shift bt P = Some (Inr (shift_pointers P s 0 m 0 ?e, t + m))"
        using s z t by (simp add: defragment_shift_def Let_def)
      ultimately show ?thesis by blast
    next
      case (Cons y r2)
      obtain s2 m2 where y: "y = (s2, m2)" by fastforce
      have s2: "s + m + 4 \<le> s2" "4 \<le> m2" "s2 + m2 \<le> ?u" "get2byte ?d s = s2" "get2byte ?d (s2 + 2) = m2"
        using space_in [OF L(8), of s2 m2] S(5,6) \<open>fl = x # r\<close> x Cons y by auto
      show ?thesis
      proof (cases r2)
        case Nil
        have z: "get2byte ?d s2 = 0" using S(5) \<open>fl = x # r\<close> x Cons y Nil by simp
        define g where "g = (\<lambda>pc. if pc < s then pc + (m + m2) else if pc < s2 then pc + m2 else pc)"
        let ?e1 = "copy ?d (s + m + m2) ?d (s + m) (s2 - (s + m))"
        let ?e = "copy ?e1 (t + (m + m2)) ?e1 t (s - t)"
        have loc: "p + k \<le> s \<or> s + m \<le> p \<and> p + k \<le> s2 \<or> s2 + m2 \<le> p" if "(p, k) \<in> set ?E" for p k
          using dj [OF that, of s m] dj [OF that, of s2 m2] small [OF that] \<open>fl = x # r\<close> x Cons y by (auto simp: disj_def)
        have "compacted bt P (shift_pointers P s s2 (m + m2) m2 ?e) (t + (m + m2)) \<and>
            shift_pointers P s s2 (m + m2) m2 ?e (?h + 7) = ?d (?h + 7)"
        proof (rule slid_compacted [OF ok g_def])
          show "areas (t + (m + m2)) ?u (map (\<lambda>(p, n). (g p, n)) ?E)"
          proof (rule areas_slide [OF AE])
            show "t + (m + m2) \<le> g p \<and> g p + k \<le> ?u" if "(p, k) \<in> set ?E" for p k
              using E [OF that] loc [OF that] small [OF that] s s2 by (auto simp: g_def)
            show "g p + k \<le> g q" if "(p, k) \<in> set ?E" "(q, l) \<in> set ?E" "p + k \<le> q" for p k q l
              using loc [OF that(1)] loc [OF that(2)] small [OF that(1)] small [OF that(2)] that(3) s s2 by (auto simp: g_def)
          qed
          show "get_list ?e (g p) k = get_list ?d p k" if "(p, k) \<in> set ?E" for p k
            using E [OF that] loc [OF that] small [OF that] s s2 unfolding get_list_eq g_def copy_def by auto
        qed (use S(8) s s2 \<open>fl = x # r\<close> x Cons y Nil in \<open>auto simp: copy_def\<close>)
        moreover have "defragment_shift bt P = Some (Inr (shift_pointers P s s2 (m + m2) m2 ?e, t + (m + m2)))"
          using s s2 z t get2byte_0 [of ?d s2] by (simp add: defragment_shift_def Let_def add.assoc)
        ultimately show ?thesis by blast
      next
        case (Cons y3 r3)
        then have "get2byte ?d s2 \<noteq> 0"
          using S(2,5) space_in [OF L(8), of "fst y3" "snd y3"] \<open>fl = x # r\<close> x \<open>r = y # r2\<close> y by (cases y3) auto
        then show ?thesis using s s2 get2byte_0 [of ?d s2] by (auto simp: defragment_shift_def Let_def)
      qed
    qed
  qed
qed

lemma defragmentPage_sound:
  assumes ok: "laid_out bt P t fl" and n: "mp_nCell P \<noteq> 0"
  shows "\<exists>e c. defragmentPage bt f P = (Page_OK, P\<lparr>mp_data := e\<rparr>) \<and> laid_out bt (P\<lparr>mp_data := e\<rparr>) c [] \<and>
    page_cells bt (P\<lparr>mp_data := e\<rparr>) = page_cells bt P \<and> same_header P e \<and> int (unat (e (mp_hdrOffset P + 7))) \<le> max 0 f"
proof -
  let ?d = "mp_data P" and ?h = "mp_hdrOffset P" and ?u = "bt_usableSize bt"
  have slow: "\<exists>e c. (let (rc, d, cbrk) = pack_cells bt P ?d (get2byte ?d (?h + 5)) [0..<mp_nCell P] ?d ?u in
      if rc \<noteq> Page_OK then (rc, P\<lparr>mp_data := d\<rparr>) else defragment_out P (d(?h + 7 := 0)) cbrk) = (Page_OK, P\<lparr>mp_data := e\<rparr>) \<and>
    laid_out bt (P\<lparr>mp_data := e\<rparr>) c [] \<and> page_cells bt (P\<lparr>mp_data := e\<rparr>) = page_cells bt P \<and> same_header P e \<and>
    int (unat (e (?h + 7))) \<le> max 0 f"
  proof -
    obtain d where d: "pack_cells bt P ?d (get2byte ?d (?h + 5)) [0..<mp_nCell P] ?d ?u = (Page_OK, d, ?u - total (extents bt P))"
      "compacted bt P (d(?h + 7 := 0)) (?u - total (extents bt P))" using pack_compacted [OF ok n] by blast
    show ?thesis using defragment_out_sound [OF ok d(2)] n d(1) by auto
  qed
  show ?thesis
  proof (cases "int (unat (?d (?h + 7))) \<le> f \<and> defragment_shift bt P \<noteq> None")
    case True
    then obtain d c where d: "defragment_shift bt P = Some (Inr (d, c))" "compacted bt P d c" "d (?h + 7) = ?d (?h + 7)"
      using shift_compacted [OF ok n] by auto
    have "defragmentPage bt f P = defragment_out P d c" using True d(1) by (simp add: defragmentPage_def Let_def)
    then show ?thesis using defragment_out_sound [OF ok d(2)] n d(3) True by fastforce
  next
    case False
    then have "(if int (unat (?d (?h + 7))) \<le> f then defragment_shift bt P else None) = None" by auto
    then show ?thesis using slow by (simp only: defragmentPage_def Let_def option.case)
  qed
qed

section \<open>Allocation\<close>

text \<open>An area of \<open>n\<close> bytes at \<open>idx\<close> has been set aside in page \<open>P\<close> with bytes \<open>e\<close>.\<close>

definition set_aside :: "btshared \<Rightarrow> mempage \<Rightarrow> nat \<Rightarrow> nat \<Rightarrow> bytes \<Rightarrow> bool" where
  "set_aside bt P n idx e = (\<exists>c fl. space e (mp_hdrOffset P) (bt_usableSize bt) c (extents bt (P\<lparr>mp_data := e\<rparr>) @ [(idx, n)]) fl \<and>
     gap P + 2 \<le> c \<and> page_cells bt (P\<lparr>mp_data := e\<rparr>) = page_cells bt P \<and> total (extents bt (P\<lparr>mp_data := e\<rparr>)) = total (extents bt P) \<and>
     same_header P e)"

lemma set_aside_frame:
  assumes ok: "laid_out bt P t fl" and f: "frame (mp_hdrOffset P) t (extents bt P) (mp_data P) e"
    and sp: "space e (mp_hdrOffset P) (bt_usableSize bt) c (extents bt P @ [(idx, n)]) fl'" and c: "gap P + 2 \<le> c"
  shows "set_aside bt P n idx e"
proof -
  have "same_header P e" using f laid_outD(6) [OF ok] by (auto simp: same_header_def frame_def)
  then show ?thesis unfolding set_aside_def using framed [OF ok f] sp c by metis
qed

lemma take_from_gap:
  assumes ok: "laid_out bt P t fl" and n: "4 \<le> n" "gap P + 2 + n \<le> t"
  shows "set_aside bt P n (t - n) (put2byte (mp_data P) (mp_hdrOffset P + 5) (t - n))"
proof -
  note L = laid_outD [OF ok] and S = spaceD [OF laid_outD(8) [OF ok]]
  let ?d = "mp_data P" and ?h = "mp_hdrOffset P" and ?u = "bt_usableSize bt"
  let ?e = "put2byte ?d (?h + 5) (t - n)"
  have e: "?e k = ?d k" if "k \<notin> {?h + 5, ?h + 6}" for k using that by (auto simp: put2byte_def)
  have h: "?h + 10 \<le> t - n" using n L(4) by simp
  have out: "t \<le> s \<and> 4 \<le> m" if "(s, m) \<in> set (extents bt P @ fl)" for s m using areas_in [OF S(7) that] by simp
  show ?thesis
  proof (rule set_aside_frame [OF ok])
    show "frame ?h t (extents bt P) ?d ?e" using e by (auto simp: frame_def)
    have "linked ?e (?h + 1) fl 0 = linked ?d (?h + 1) fl 0"
      using out h by (intro linked_cong e) fastforce+
    moreover have "get2byteNotZero ?e (?h + 5) = t - n" using h S(3,4) by (intro notzero_put2byte) simp_all
    moreover have "areas (t - n) ?u ((extents bt P @ [(t - n, n)]) @ fl)"
    proof -
      have "areas (t - n) ?u (extents bt P @ fl)" using S(7) by (rule areas_mono) (use areas_in [OF S(7)] in fastforce)
      moreover have "disj x (t - n, n) \<and> disj (t - n, n) x" if "x \<in> set (extents bt P @ fl)" for x
        using out [of "fst x" "snd x"] that n by (auto simp: disj_def)
      ultimately show ?thesis using n S(3) by (auto simp: areas_simps)
    qed
    ultimately show "space ?e ?h ?u (t - n) (extents bt P @ [(t - n, n)]) fl"
      using S h n e [of "?h + 7"] spaced_weaken [OF S(6)] by (simp add: space_def)
    show "gap P + 2 \<le> t - n" using n by simp
  qed
qed

lemma allocate_from_gap_sound:
  assumes ok: "laid_out bt P t fl" and n: "4 \<le> n" "int n + 2 \<le> mp_nFree P"
  shows "\<exists>idx e. allocate_from_gap bt n (gap P) t P = (Page_OK, idx, P\<lparr>mp_data := e\<rparr>) \<and> set_aside bt P n idx e"
proof (cases "t < gap P + 2 + n")
  case False
  then show ?thesis using take_from_gap [OF ok n(1)]
    by (intro exI [of _ "t - n"] exI [of _ "put2byte (mp_data P) (mp_hdrOffset P + 5) (t - n)"]) (simp add: allocate_from_gap_def Let_def)
next
  case True
  note L = laid_outD [OF ok]
  have "mp_nCell P \<noteq> 0"
  proof
    assume "mp_nCell P = 0"
    then have "t = bt_usableSize bt" "total (extents bt P) = 0" using L(7) by (simp_all add: extents_def)
    then show False using True n(2) L(9) by linarith
  qed
  then obtain e c where e: "defragmentPage bt (min 4 (mp_nFree P - (2 + int n))) P = (Page_OK, P\<lparr>mp_data := e\<rparr>)"
    "laid_out bt (P\<lparr>mp_data := e\<rparr>) c []" "page_cells bt (P\<lparr>mp_data := e\<rparr>) = page_cells bt P" "same_header P e"
    "int (unat (e (mp_hdrOffset P + 7))) \<le> max 0 (min 4 (mp_nFree P - (2 + int n)))"
    using defragmentPage_sound [OF ok] by blast
  let ?P = "P\<lparr>mp_data := e\<rparr>" and ?e = "put2byte e (mp_hdrOffset P + 5) (c - n)"
  note M = laid_outD [OF e(2)] and S = spaceD [OF laid_outD(8) [OF e(2)]]
  have tot: "total (extents bt ?P) = total (extents bt P)" using L(9) M(9) by simp
  have "int (unat (e (mp_hdrOffset P + 7))) \<le> mp_nFree P - (2 + int n)" using e(5) n(2) by (auto simp only: min_def max_def split: if_splits)
  moreover have "total (extents bt P) + unat (e (mp_hdrOffset P + 7)) + c = bt_usableSize bt" using S(8) tot by simp
  ultimately have "gap P + 2 + n \<le> c" using L(9) by linarith
  then have "set_aside bt ?P n (c - n) ?e" using take_from_gap [OF e(2) n(1)] by simp
  then have "set_aside bt P n (c - n) ?e"
    using e(3,4) tot by (auto simp: set_aside_def same_header_def)
  moreover have "allocate_from_gap bt n (gap P) t P = (Page_OK, c - n, P\<lparr>mp_data := ?e\<rparr>)"
    using True e(1) S(1) by (simp add: allocate_from_gap_def Let_def)
  ultimately show ?thesis by blast
qed

lemma allocateSpace_sound:
  assumes ok: "laid_out bt P t fl" and n: "4 \<le> n" "int n + 2 \<le> mp_nFree P"
  shows "\<exists>idx e. allocateSpace bt n P = (Page_OK, idx, P\<lparr>mp_data := e\<rparr>) \<and> set_aside bt P n idx e"
proof -
  note L = laid_outD [OF ok] and S = spaceD [OF laid_outD(8) [OF ok]]
  let ?d = "mp_data P" and ?h = "mp_hdrOffset P" and ?u = "bt_usableSize bt"
  let ?top = "get2byte ?d (?h + 5)"
  have checked: "(if ?top < gap P then if ?top = 0 \<and> ?u = 65536 then Some 65536 else None else if ?u < ?top then None else Some ?top) = Some t"
    using S(1,3,4) L(4,6) get2byte_less [of ?d "?h + 5"] by (auto simp: notzero split: if_splits)
  have "linked ?d (?h + 1) fl 0" by (rule S(5))
  then have fl: "(?d (?h + 2) \<noteq> 0 \<or> ?d (?h + 1) \<noteq> 0) = (fl \<noteq> [])"
    using get2byte_0 [of ?d "?h + 1"] space_in [OF L(8)] S(2) by (cases fl) fastforce+
  have gap: "\<exists>idx e. allocate_from_gap bt n (gap P) t P = (Page_OK, idx, P\<lparr>mp_data := e\<rparr>) \<and> set_aside bt P n idx e"
    by (rule allocate_from_gap_sound [OF ok n])
  show ?thesis
  proof (cases "fl \<noteq> [] \<and> gap P + 2 \<le> t")
    case False
    then have "allocateSpace bt n P = allocate_from_gap bt n (gap P) t P"
      unfolding allocateSpace_def Let_def checked option.case fl by auto
    then show ?thesis using gap by simp
  next
    case True
    let ?r = "find_slot_loop ?u ?h n ?d (?h + 1) (get2byte ?d (?h + 1))"
    have run: "allocateSpace bt n P = (case ?r of (rc, slot, d) \<Rightarrow> case slot of
        Some g2 \<Rightarrow> (if g2 \<le> gap P then Page_CORRUPT else Page_OK, g2, P\<lparr>mp_data := d\<rparr>)
      | None \<Rightarrow> if rc \<noteq> Page_OK then (rc, 0, P\<lparr>mp_data := d\<rparr>) else allocate_from_gap bt n (gap P) t (P\<lparr>mp_data := d\<rparr>))"
      unfolding allocateSpace_def Let_def checked option.case fl pageFindSlot_def using True by (simp split: prod.splits)
    have taken: "\<exists>idx e. allocateSpace bt n P = (Page_OK, idx, P\<lparr>mp_data := e\<rparr>) \<and> set_aside bt P n idx e"
      if "?r = (Page_OK, Some s, e)" "space e ?h ?u t (extents bt P @ [(s, n)]) fl'" "keeps ?h fl ?d e" "gap P < s" for s e fl'
      using run that set_aside_frame [OF ok keeps_frame [OF L(8) that(3)] that(2)] True by auto
    have "found_slot n ?h ?d (?h + 1) fl ?r" using True by (intro find_slot_sound [OF S(5,6)]) simp_all
    then show ?thesis
    proof (cases rule: found_slot_cases)
      case none
      then show ?thesis using run gap by simp
    next
      case (whole l1 s m l2)
      have "t + 1 \<le> s" using space_in [OF L(8), of s m] whole(1) by simp
      then show ?thesis using whole(5) take_whole [OF L(8) [unfolded whole(1)] whole(2,3) n(1) whole(4)] L(6)
        unfolding whole(1) [symmetric] Let_def by (intro taken) auto
    next
      case (part l1 s m l2)
      have "t + 1 \<le> s" using space_in [OF L(8), of s m] part(1) by simp
      then show ?thesis using part(3) take_part [OF L(8) [unfolded part(1)] part(2) n(1)] L(6)
        unfolding part(1) [symmetric] by (intro taken) auto
    qed
  qed
qed

end
