(* ===== verification/Btree_Insert.thy ===== *)
theory Btree_Insert
  imports Btree_Edit
begin

text \<open>
  Insertion into a B-tree page of SQLite, sqlite3/src/sqlite3.c, insertCell and insertCellFast: on a sound page with
  room the new cell appears at its place in the list of cells, on a full one it goes to the list of overflow cells.
\<close>

section \<open>Insertion\<close>

text \<open>What insertion and removal share: a page is sound when its bytes and its count of cells are.\<close>

lemma carry_byte:
  assumes "get2byte e p < 65535" and q: "q = p + 1"
    and f: "f = (let d = e(q := e q + 1) in if d q = 0 then d(p := d p + 1) else d)"
  shows "get2byte f p = get2byte e p + 1" and "k \<noteq> p \<Longrightarrow> k \<noteq> q \<Longrightarrow> f k = e k"
proof -
  have b: "unat (e p) < 256" "unat (e (p + 1)) < 256" using unsigned_less [of "e p"] unsigned_less [of "e (p + 1)"] by simp_all
  have m1: "unat (- 1 :: u8) = 255" by (simp add: unsigned_minus_1_eq_mask mask_eq_exp_minus_1)
  have inc: "unat (x + 1) = (if x = - 1 then 0 else unat x + 1)" for x :: u8
  proof (cases "x = - 1")
    case False
    then have "unat x \<noteq> 255" unfolding word_unat_eq_iff m1 .
    moreover have "unat x < 256" using unsigned_less [of x] by simp
    ultimately have "unat x + unat (1 :: u8) < 2 ^ 8" by simp
    then show ?thesis using False by (subst unat_add_lem [THEN iffD1]) simp_all
  qed simp
  show "get2byte f p = get2byte e p + 1"
  proof (cases "e (p + 1) = - 1")
    case True
    then have "e p \<noteq> - 1" using assms(1) m1 by (auto simp: get2byte_def)
    then show ?thesis using True m1 inc [of "e p"] by (simp add: f q Let_def get2byte_def)
  next
    case False
    then have "e (p + 1) + 1 \<noteq> 0" by (metis add.right_neutral add_diff_cancel_right' diff_0)
    then show ?thesis using False inc [of "e (p + 1)"] by (simp add: f q Let_def get2byte_def)
  qed
  show "k \<noteq> p \<Longrightarrow> k \<noteq> q \<Longrightarrow> f k = e k" by (simp add: f q Let_def)
qed

text \<open>The bytes of a cell, and the pointers, before and after the table of pointers is opened or closed.\<close>

lemma extent_kept:
  assumes "limits_ok bt P" "mp_cellOffset Q = mp_cellOffset P" "xCellSize bt Q = xCellSize bt P"
    and "get2byte (mp_data Q) (mp_cellOffset P + 2 * j) = fst (extent bt P i)"
    and "\<And>k. fst (extent bt P i) \<le> k \<Longrightarrow> k < fst (extent bt P i) + snd (extent bt P i) \<Longrightarrow> mp_data Q k = mp_data P k"
  shows "extent bt Q j = extent bt P i"
    and "get_list (mp_data Q) (fst (extent bt P i)) (snd (extent bt P i)) = get_list (mp_data P) (fst (extent bt P i)) (snd (extent bt P i))"
proof -
  have "snd (extent bt P i) = xCellSize bt P (mp_data P) (fst (extent bt P i))" by (simp add: extent_def Let_def)
  then have "xCellSize bt P (mp_data Q) (fst (extent bt P i)) = snd (extent bt P i)"
    using cm.kept [of "(bt, P)" "fst (extent bt P i)" "mp_data P" "mp_data Q"] assms(1,5) by auto
  then show "extent bt Q j = extent bt P i" using assms(2-4) by (simp add: extent_def [of _ Q] Let_def prod_eq_iff)
  show "get_list (mp_data Q) (fst (extent bt P i)) (snd (extent bt P i)) = get_list (mp_data P) (fst (extent bt P i)) (snd (extent bt P i))"
    unfolding get_list_eq using assms(5) by simp
qed

text \<open>The bytes of a page with the area \<open>idx\<close> filled and its pointer entered at position \<open>i\<close>.\<close>

definition entered :: "mempage \<Rightarrow> nat \<Rightarrow> nat \<Rightarrow> nat \<Rightarrow> bytes \<Rightarrow> bytes \<Rightarrow> bytes \<Rightarrow> bool" where
  "entered P i idx n body e f =
     ((\<forall>k. gap P + 2 \<le> k \<and> (k < idx \<or> idx + n \<le> k) \<longrightarrow> f k = e k) \<and> (\<forall>k < n. f (idx + k) = body k) \<and>
      (\<forall>k < mp_cellOffset P. k \<notin> {mp_hdrOffset P + 3, mp_hdrOffset P + 4} \<longrightarrow> f k = e k) \<and>
      get2byte f (mp_hdrOffset P + 3) = mp_nCell P + 1 \<and>
      (\<forall>j \<le> mp_nCell P. get2byte f (mp_cellOffset P + 2 * j) =
         (if j < i then get2byte e (mp_cellOffset P + 2 * j) else if j = i then idx else get2byte e (mp_cellOffset P + 2 * (j - 1)))))"

lemma enter_bytes:
  assumes "mp_cellOffset P = mp_hdrOffset P + 8 + mp_childPtrSize P" "gap P + 2 \<le> idx" "idx < 65536" "i \<le> mp_nCell P"
    "get2byte e (mp_hdrOffset P + 3) = mp_nCell P" "mp_nCell P < 65535"
  shows "entered P i idx n body e
    (let d = copy e idx body 0 n;
         pIns = mp_cellOffset P + i * 2;
         d = copy d (pIns + 2) d pIns (2 * (mp_nCell P - i));
         d = put2byte d pIns idx;
         d = d(mp_hdrOffset P + 4 := d (mp_hdrOffset P + 4) + 1)
     in if d (mp_hdrOffset P + 4) = 0 then d(mp_hdrOffset P + 3 := d (mp_hdrOffset P + 3) + 1) else d)"
proof -
  let ?h = "mp_hdrOffset P" and ?p = "mp_cellOffset P + i * 2"
  define e1 where "e1 = copy e idx body 0 n"
  define e2 where "e2 = put2byte (copy e1 (?p + 2) e1 ?p (2 * (mp_nCell P - i))) ?p idx"
  define f where "f = (let d = e2(?h + 4 := e2 (?h + 4) + 1) in if d (?h + 4) = 0 then d(?h + 3 := d (?h + 3) + 1) else d)"
  have e1: "e1 k = e k" if "k < idx \<or> idx + n \<le> k" for k using that by (auto simp: e1_def copy_def)
  have e2: "e2 k = e1 k" if "k < ?p \<or> gap P + 2 \<le> k" for k using that assms(4) by (auto simp: e2_def put2byte_def copy_def)
  have mv: "e2 k = e1 (k - 2)" if "?p + 2 \<le> k" "k < gap P + 2" for k using that assms(4) by (auto simp: e2_def put2byte_def copy_def)
  have "get2byte e2 (?h + 3) = get2byte e (?h + 3)"
    using assms(1,2) by (intro get2byte_local) (simp_all add: e1 e2)
  then have c: "get2byte e2 (?h + 3) < 65535" using assms(5,6) by simp
  have f: "f k = e2 k" if "k \<noteq> ?h + 3" "k \<noteq> ?h + 4" for k using carry_byte(2) [OF c _ f_def, of k] that by simp
  have "get2byte f (?h + 3) = mp_nCell P + 1"
    using carry_byte(1) [OF c _ f_def] \<open>get2byte e2 (?h + 3) = get2byte e (?h + 3)\<close> assms(5) by simp
  moreover have "get2byte f (mp_cellOffset P + 2 * j) =
      (if j < i then get2byte e (mp_cellOffset P + 2 * j) else if j = i then idx else get2byte e (mp_cellOffset P + 2 * (j - 1)))"
    if j: "j \<le> mp_nCell P" for j
  proof -
    have fe: "get2byte f (mp_cellOffset P + 2 * j) = get2byte e2 (mp_cellOffset P + 2 * j)"
      using assms(1) by (intro get2byte_local f) auto
    consider "j < i" | "j = i" | "i < j" by linarith
    then show ?thesis
    proof cases
      case 1
      then have "get2byte e2 (mp_cellOffset P + 2 * j) = get2byte e (mp_cellOffset P + 2 * j)"
        using assms(2,4) by (intro get2byte_local) (simp_all add: e2 e1)
      then show ?thesis using 1 fe by simp
    next
      case 2
      then show ?thesis using fe assms(3) by (simp add: e2_def page_simps mult.commute)
    next
      case 3
      then have "get2byte e2 (mp_cellOffset P + 2 * j) = get2byte e (mp_cellOffset P + 2 * (j - 1))"
      proof (cases j)
        case (Suc j')
        have "e2 (mp_cellOffset P + 2 * j' + 2) = e (mp_cellOffset P + 2 * j')"
          "e2 (mp_cellOffset P + 2 * j' + 3) = e (mp_cellOffset P + 2 * j' + 1)"
          using Suc 3 j assms(2) by (simp_all add: mv e1 eval_nat_numeral)
        then show ?thesis using Suc by (simp add: get2byte_def eval_nat_numeral)
      qed simp
      then show ?thesis using 3 fe by simp
    qed
  qed
  moreover have "\<forall>k < n. f (idx + k) = body k" using assms(1,2) by (simp add: f e2 e1_def copy_def)
  ultimately have "entered P i idx n body e f"
    unfolding entered_def using assms(1,2) f e2 e1 by auto
  then show ?thesis unfolding f_def e2_def e1_def Let_def .
qed

lemma decodeFlags_upd:
  "decodeFlags bt b (P\<lparr>mp_data := d\<rparr>) = apsnd (\<lambda>Q. Q\<lparr>mp_data := d\<rparr>) (decodeFlags bt b P)"
  "decodeFlags bt b (P\<lparr>mp_nFree := v\<rparr>) = apsnd (\<lambda>Q. Q\<lparr>mp_nFree := v\<rparr>) (decodeFlags bt b P)"
  "decodeFlags bt b (P\<lparr>mp_nCell := c\<rparr>) = apsnd (\<lambda>Q. Q\<lparr>mp_nCell := c\<rparr>) (decodeFlags bt b P)"
  by (simp_all add: decodeFlags_def Let_def)

lemma page_okI:
  assumes "page_ok bt P" "laid_out bt (P\<lparr>mp_nFree := v, mp_nCell := c, mp_data := f\<rparr>) t fl" "f (mp_hdrOffset P) = mp_data P (mp_hdrOffset P)"
  shows "page_ok bt (P\<lparr>mp_nFree := v, mp_nCell := c, mp_data := f\<rparr>)"
proof -
  have "decodeFlags bt (unat (mp_data P (mp_hdrOffset P))) P = (Page_OK, P)" using assms(1) by (simp add: page_ok_def)
  then show ?thesis using assms unfolding page_ok_def by (auto simp: decodeFlags_upd)
qed

text \<open>The cells after an insertion into the list.\<close>

definition insert_nth :: "nat \<Rightarrow> 'a \<Rightarrow> 'a list \<Rightarrow> 'a list" where
  "insert_nth i x xs = take i xs @ x # drop i xs"

definition delete_nth :: "nat \<Rightarrow> 'a list \<Rightarrow> 'a list" where
  "delete_nth i xs = take i xs @ drop (Suc i) xs"

lemma nth_insert_nth: "i \<le> length xs \<Longrightarrow> j \<le> length xs \<Longrightarrow>
    insert_nth i x xs ! j = (if j < i then xs ! j else if j = i then x else xs ! (j - 1))"
  by (auto simp: insert_nth_def nth_append nth_Cons')

lemma insert_nth_simps: "length (insert_nth i x xs) = Suc (length xs)" "set (insert_nth i x xs) = insert x (set xs)"
  "map f (insert_nth i x xs) = insert_nth i (f x) (map f xs)" "total (insert_nth i y ys) = snd y + total ys"
proof -
  have "set xs = set (take i xs @ drop i xs)" "ys = take i ys @ drop i ys" by (simp_all only: append_take_drop_id)
  then show "length (insert_nth i x xs) = Suc (length xs)" "set (insert_nth i x xs) = insert x (set xs)"
    "map f (insert_nth i x xs) = insert_nth i (f x) (map f xs)" "total (insert_nth i y ys) = snd y + total ys"
    using total_simps(3) [of "take i ys" "drop i ys"] 
    by (auto simp: insert_nth_def take_map drop_map simp del: append_take_drop_id)
qed

lemma areas_insert_nth: "areas lo hi (xs @ x # ys) \<Longrightarrow> areas lo hi (insert_nth i x xs @ ys)"
proof -
  assume a: "areas lo hi (xs @ x # ys)"
  obtain A B where x: "take i xs = A" "drop i xs = B" "xs = A @ B" by (metis append_take_drop_id)
  show ?thesis using a unfolding insert_nth_def x(1,2) unfolding x(3) areas_simps by (auto simp: areas_simps disj_sym)
qed

lemma enter_sound:
  assumes ok: "laid_out bt P t fl" and e: "set_aside bt P n idx e" and f: "entered P i idx n body e f" 
    and i: "i \<le> mp_nCell P" and n: "n = xCellSize bt P body 0"
  shows "\<exists>t fl. laid_out bt (P\<lparr>mp_nFree := mp_nFree P - int (n + 2), mp_nCell := mp_nCell P + 1, mp_data := f\<rparr>) t fl"
    "page_cells bt (P\<lparr>mp_nFree := mp_nFree P - int (n + 2), mp_nCell := mp_nCell P + 1, mp_data := f\<rparr>) =
      insert_nth i (map body [0..<n]) (page_cells bt P)"
    "f (mp_hdrOffset P) = mp_data P (mp_hdrOffset P)"
proof -
  note L = laid_outD [OF ok]
  let ?h = "mp_hdrOffset P" and ?u = "bt_usableSize bt" and ?P = "P\<lparr>mp_data := e\<rparr>"
  let ?Q = "P\<lparr>mp_nFree := mp_nFree P - int (n + 2), mp_nCell := mp_nCell P + 1, mp_data := f\<rparr>"
  let ?E = "extents bt ?P"
  obtain c fl' where c: "space e ?h ?u c (?E @ [(idx, n)]) fl'" "gap P + 2 \<le> c" "page_cells bt ?P = page_cells bt P"
    "total ?E = total (extents bt P)" "same_header P e" using e unfolding set_aside_def by blast
  note S = spaceD [OF c(1)]
  have A: "areas c ?u (?E @ (idx, n) # fl')" using S(7) by simp
  have h: "?h + 8 \<le> mp_cellOffset P" using L(4) by simp
  have idx: "c \<le> idx" using A by (simp add: areas_simps)
  have out: "f k = e k" if "(a, m) \<in> set (?E @ fl')" "a \<le> k" "k < a + m" for a m k
  proof -
    have "disj (a, m) (idx, n)" using A that(1) by (auto simp: areas_simps disj_sym)
    moreover have "c \<le> a" using areas_in [OF A, of a m] that(1) by auto
    ultimately show ?thesis using that(2,3) c(2) f unfolding entered_def disj_def by auto
  qed
  have low: "f k = e k" if "k < mp_cellOffset P" "k \<noteq> ?h + 3" "k \<noteq> ?h + 4" for k using f that unfolding entered_def by auto
  have body: "f (idx + k) = body k" if "k < n" for k using f that unfolding entered_def by auto
  have new: "extent bt ?Q i = (idx, n)"
  proof -
    have "xCellSize bt P f idx = n" using cm.own_bytes [of "(bt, P)" body 0 f idx] L(1) body n by simp
    then show ?thesis using f i by (simp add: extent_def Let_def entered_def)
  qed
  have old: "extent bt ?Q j = extent bt ?P j'" if "j' < mp_nCell P" "get2byte f (mp_cellOffset P + 2 * j) = get2byte e (mp_cellOffset P + 2 * j')" for j j'
  proof -
    have m: "extent bt ?P j' \<in> set ?E" using that(1) by (simp add: extents_def)
    show ?thesis
    proof (rule extent_kept(1))
      show "get2byte (mp_data ?Q) (mp_cellOffset ?P + 2 * j) = fst (extent bt ?P j')" using that(2) by (simp add: extent_def Let_def)
      show "mp_data ?Q k = mp_data ?P k" if "fst (extent bt ?P j') \<le> k" "k < fst (extent bt ?P j') + snd (extent bt ?P j')" for k
        using out [OF _ that] m by simp
    qed (use L(1) in simp_all)
  qed
  have E: "extents bt ?Q = insert_nth i (idx, n) ?E"
  proof (rule nth_equalityI)
    fix j assume "j < length (extents bt ?Q)"
    then have j: "j \<le> mp_nCell P" by simp
    have p: "get2byte f (mp_cellOffset P + 2 * j) = (if j < i then get2byte e (mp_cellOffset P + 2 * j) else if j = i then idx
        else get2byte e (mp_cellOffset P + 2 * (j - 1)))" using f j unfolding entered_def by blast
    then have "extent bt ?Q j = (if j < i then extent bt ?P j else if j = i then (idx, n) else extent bt ?P (j - 1))"
      using old [of j j] old [of "j - 1" j] new i j by auto
    then show "extents bt ?Q ! j = insert_nth i (idx, n) ?E ! j"
      using i j by (subst nth_insert_nth) (auto simp: nth_extents)
  qed (simp add: insert_nth_simps)
  show "f ?h = mp_data P ?h" using low [of ?h] c(5) h by (simp add: same_header_def)
  have "page_cells bt ?Q = insert_nth i (get_list f idx n) (map (\<lambda>(p, n). get_list f p n) ?E)"
    unfolding page_cells_def E by (simp add: insert_nth_simps)
  moreover have "get_list f idx n = map body [0..<n]" using body by (simp add: get_list_def)
  moreover have "map (\<lambda>(p, n). get_list f p n) ?E = page_cells bt ?P"
    unfolding page_cells_def
  proof (intro map_cong refl)
    fix x assume "x \<in> set ?E"
    then show "(case x of (p, n) \<Rightarrow> get_list f p n) = (case x of (p, n) \<Rightarrow> get_list (mp_data ?P) p n)"
      using out [of "fst x" "snd x"] by (simp add: case_prod_beta get_list_eq)
  qed
  ultimately show "page_cells bt ?Q = insert_nth i (map body [0..<n]) (page_cells bt P)" using c(3) by simp
  have "space f ?h ?u c (extents bt ?Q) fl'"
  proof -
    have "get2byte f (?h + 5) = get2byte e (?h + 5)" using h by (intro get2byte_local low) auto
    then have "get2byteNotZero f (?h + 5) = c" using S(1) by (simp add: notzero split: if_splits)
    moreover have "linked f (?h + 1) fl' 0 = linked e (?h + 1) fl' 0"
    proof (rule linked_cong)
      show "f k = e k" if "k \<in> {?h + 1, ?h + 1 + 1}" for k using that h by (intro low) auto
      show "f k = e k" if "(s, m) \<in> set fl'" "s \<le> k" "k < s + 4" for s m k
        using that out [of s m k] space_in [OF c(1) that(1)] by auto
    qed
    moreover have "areas c ?u (extents bt ?Q @ fl')" unfolding E by (rule areas_insert_nth [OF A])
    moreover have "f (?h + 7) = e (?h + 7)" using h by (intro low) auto
    ultimately show ?thesis using S(2-6,8) unfolding space_def E by (simp add: insert_nth_simps)
  qed
  then have "laid_out bt ?Q c fl'"
    using L(1-4,9) c(2,4) f E unfolding laid_out_def by (simp add: insert_nth_simps entered_def)
  then show "\<exists>t fl. laid_out bt ?Q t fl" by blast
qed

lemma page_okD:
  assumes "page_ok bt P"
  obtains t fl where "laid_out bt P t fl"
  using assms by (auto simp: page_ok_def)

text \<open>The space of a page is what its cells and their pointers leave.\<close>

definition room :: "btshared \<Rightarrow> mempage \<Rightarrow> nat" where
  "room bt P = bt_usableSize bt - (mp_hdrOffset P + 8 + mp_childPtrSize P)"

definition needed :: "u8 list list \<Rightarrow> nat" where
  "needed cs = sum_list (map (\<lambda>c. length c + 2) cs)"

lemma needed_cells: "needed (page_cells bt P) = total (extents bt P) + 2 * mp_nCell P"
proof -
  have "needed (map (\<lambda>(p, n). get_list d p n) xs) = total xs + 2 * length xs" for d xs
    by (induction xs) (auto simp: needed_def get_list_def)
  then show ?thesis by (simp add: page_cells_def)
qed

lemma length_page_cells [simp]: "length (page_cells bt P) = mp_nCell P"
  by (simp add: page_cells_def)

lemma page_free: "page_ok bt P \<Longrightarrow> needed (page_cells bt P) \<le> room bt P \<and> mp_nFree P = int (room bt P) - int (needed (page_cells bt P))"
proof -
  assume "page_ok bt P"
  then obtain t fl where ok: "laid_out bt P t fl" by (rule page_okD)
  note L = laid_outD [OF ok] and S = spaceD [OF laid_outD(8) [OF ok]]
  have "total (extents bt P) + gap P \<le> bt_usableSize bt" using S(8) L(6) by simp
  then show ?thesis using L(4,9) by (auto simp: needed_cells room_def)
qed

section \<open>The insertions\<close>

lemma insert_on_page_sound:
  assumes ok: "page_ok bt P" and i: "i \<le> mp_nCell P" and n: "n = xCellSize bt P body 0" "int n + 2 \<le> mp_nFree P"
    and w: "\<And>d idx. write d idx = copy d idx body 0 n"
  shows "\<exists>Q. insert_on_page bt Page_OK ptrmap write i pCell n P =
      (if bt_autoVacuum bt \<and> ptrmap Q pCell \<noteq> Page_OK then ptrmap Q pCell else Page_OK, Q) \<and> page_ok bt Q \<and>
    page_cells bt Q = insert_nth i (map body [0..<n]) (page_cells bt P) \<and>
    (\<exists>v c f. Q = P\<lparr>mp_nFree := v, mp_nCell := c, mp_data := f\<rparr>)"
proof -
  obtain t fl where lo: "laid_out bt P t fl" using ok by (rule page_okD)
  note L = laid_outD [OF lo] and S = spaceD [OF laid_outD(8) [OF lo]]
  have n4: "4 \<le> n" using cm.at_least [of "(bt, P)" body 0] L(1) n(1) by simp
  obtain idx e where a: "allocateSpace bt n P = (Page_OK, idx, P\<lparr>mp_data := e\<rparr>)" "set_aside bt P n idx e"
    using allocateSpace_sound [OF lo n4 n(2)] by blast
  obtain c fl' where c: "space e (mp_hdrOffset P) (bt_usableSize bt) c (extents bt (P\<lparr>mp_data := e\<rparr>) @ [(idx, n)]) fl'"
    "gap P + 2 \<le> c" "same_header P e" using a(2) unfolding set_aside_def by blast
  have idx: "c \<le> idx" "idx + n \<le> bt_usableSize bt" using spaceD(7) [OF c(1)] by (simp_all add: areas_simps)
  have h: "mp_hdrOffset P + 8 \<le> mp_cellOffset P" using L(4) by simp
  have "get2byte e (mp_hdrOffset P + 3) = get2byte (mp_data P) (mp_hdrOffset P + 3)"
    using c(3) h unfolding same_header_def by (intro get2byte_local) auto
  then have e3: "get2byte e (mp_hdrOffset P + 3) = mp_nCell P" using L(5) by simp
  have small: "mp_nCell P < 65535" "idx < 65536" using idx c(2) S(4) n4 by simp_all
  define f where "f = (let d = copy e idx body 0 n;
         pIns = mp_cellOffset P + i * 2;
         d = copy d (pIns + 2) d pIns (2 * (mp_nCell P - i));
         d = put2byte d pIns idx;
         d = d(mp_hdrOffset P + 4 := d (mp_hdrOffset P + 4) + 1)
     in if d (mp_hdrOffset P + 4) = 0 then d(mp_hdrOffset P + 3 := d (mp_hdrOffset P + 3) + 1) else d)"
  have f: "entered P i idx n body e f"
    unfolding f_def using L(4) idx(1) c(2) by (intro enter_bytes small i e3) simp_all
  let ?Q = "P\<lparr>mp_nFree := mp_nFree P - int (n + 2), mp_nCell := mp_nCell P + 1, mp_data := f\<rparr>"
  have "n + 2 < 65536" using n(2) page_free [OF ok] S(4) unfolding room_def by linarith
  then have "insert_on_page bt Page_OK ptrmap write i pCell n P =
      (if bt_autoVacuum bt \<and> ptrmap ?Q pCell \<noteq> Page_OK then ptrmap ?Q pCell else Page_OK, ?Q)"
    using small(1) by (simp add: insert_on_page_def a(1) w f_def Let_def add.commute)
  moreover have "page_ok bt ?Q" using page_okI [OF ok] enter_sound(1,3) [OF lo a(2) f i n(1)] by blast
  ultimately show ?thesis using enter_sound(2) [OF lo a(2) f i n(1)] by blast
qed

lemma write_child: "4 \<le> n \<Longrightarrow> put4byte (copy d (idx + 4) b 4 (n - 4)) idx c = copy d idx (put4byte b 0 c) 0 n"
proof (rule ext)
  fix k assume n: "4 \<le> n"
  consider "k < idx" | "k = idx" | "k = idx + 1" | "k = idx + 2" | "k = idx + 3" | "idx + 4 \<le> k" by linarith
  then show "put4byte (copy d (idx + 4) b 4 (n - 4)) idx c k = copy d idx (put4byte b 0 c) 0 n k"
    using n by cases (auto simp: put4byte_def copy_def)
qed

lemma insertCellFast_sound:
  assumes "page_ok bt P" "i \<le> mp_nCell P" "n = xCellSize bt P body 0" "needed (page_cells bt P) + n + 2 \<le> room bt P"
  shows "\<exists>Q. insertCellFast bt Page_OK ptrmap i body n P =
      (if bt_autoVacuum bt \<and> ptrmap Q body \<noteq> Page_OK then ptrmap Q body else Page_OK, Q) \<and> page_ok bt Q \<and>
    page_cells bt Q = insert_nth i (map body [0..<n]) (page_cells bt P) \<and>
    (\<exists>v c f. Q = P\<lparr>mp_nFree := v, mp_nCell := c, mp_data := f\<rparr>)"
proof -
  have "int n + 2 \<le> mp_nFree P" using page_free [OF assms(1)] assms(4) by linarith
  then show ?thesis
    using insert_on_page_sound [OF assms(1-3), of "\<lambda>d idx. copy d idx body 0 n" ptrmap body] by (simp add: insertCellFast_def)
qed

lemma insertCell_sound:
  assumes "page_ok bt P" "mp_ovfl P = []" "i \<le> mp_nCell P" "n = xCellSize bt P (put4byte body 0 iChild) 0"
    "needed (page_cells bt P) + n + 2 \<le> room bt P"
  shows "\<exists>Q. insertCell bt Page_OK ptrmap i body n pTemp iChild P =
      (if bt_autoVacuum bt \<and> ptrmap Q body \<noteq> Page_OK then ptrmap Q body else Page_OK, Q) \<and> page_ok bt Q \<and>
    page_cells bt Q = insert_nth i (map (put4byte body 0 iChild) [0..<n]) (page_cells bt P) \<and>
    (\<exists>v c f. Q = P\<lparr>mp_nFree := v, mp_nCell := c, mp_data := f\<rparr>)"
proof -
  obtain t fl where "laid_out bt P t fl" using assms(1) by (rule page_okD)
  then have "4 \<le> n" using cm.at_least [of "(bt, P)" "put4byte body 0 iChild" 0] assms(4) laid_outD(1) by auto
  moreover have "int n + 2 \<le> mp_nFree P" using page_free [OF assms(1)] assms(5) by linarith
  ultimately show ?thesis
    using insert_on_page_sound [OF assms(1,3,4), of "\<lambda>d idx. put4byte (copy d (idx + 4) body 4 (n - 4)) idx iChild" ptrmap body] assms(2)
    by (simp add: insertCell_def write_child)
qed

lemma insert_overflow:
  assumes "page_ok bt P" "room bt P < needed (page_cells bt P) + n + 2"
  shows "insertCellFast bt wr ptrmap i body n P = (Page_OK, P\<lparr>mp_ovfl := mp_ovfl P @ [(i mod 65536, body)]\<rparr>)"
    "insertCell bt wr ptrmap i body n None iChild P = (Page_OK, P\<lparr>mp_ovfl := mp_ovfl P @ [(i mod 65536, put4byte body 0 iChild)]\<rparr>)"
proof -
  have "mp_nFree P < int n + 2" using page_free [OF assms(1)] assms(2) by linarith
  then show "insertCellFast bt wr ptrmap i body n P = (Page_OK, P\<lparr>mp_ovfl := mp_ovfl P @ [(i mod 65536, body)]\<rparr>)"
    "insertCell bt wr ptrmap i body n None iChild P = (Page_OK, P\<lparr>mp_ovfl := mp_ovfl P @ [(i mod 65536, put4byte body 0 iChild)]\<rparr>)"
    by (simp_all add: insertCellFast_def insertCell_def)
qed

end
