(* ===== verification/Btree_Drop.thy ===== *)
theory Btree_Drop
  imports Btree_Insert
begin

text \<open>
  Removal from a B-tree page of SQLite, sqlite3/src/sqlite3.c, dropCell: the cell disappears from the list of cells, and
  a page that loses its last cell is reset.
\<close>

section \<open>Removal\<close>

lemma delete_nth_simps: "i < length xs \<Longrightarrow> length (delete_nth i xs) = length xs - 1"
  "map f (delete_nth i xs) = delete_nth i (map f xs)"
  "i < length xs \<Longrightarrow> j < length xs - 1 \<Longrightarrow> delete_nth i xs ! j = xs ! (if j < i then j else Suc j)"
  by (auto simp: delete_nth_def take_map drop_map nth_append min_def)

lemma total_delete_nth: "i < length xs \<Longrightarrow> total (delete_nth i xs) + snd (xs ! i) = total xs"
  using arg_cong [OF id_take_nth_drop [of i xs], of total] by (simp add: delete_nth_def)

lemma empty_laid_out:
  assumes ok: "limits_ok bt P" "format_ok P" "480 \<le> bt_usableSize bt" "bt_usableSize bt \<le> 65536" "mp_hdrOffset P \<le> 100"
    and P: "mp_cellOffset P = mp_hdrOffset P + 8 + mp_childPtrSize P" "mp_nCell P = 0"
      "mp_nFree P = int (bt_usableSize bt) - int (mp_cellOffset P)"
    and f: "get2byte (mp_data P) (mp_hdrOffset P + 1) = 0" "get2byte (mp_data P) (mp_hdrOffset P + 3) = 0"
      "get2byteNotZero (mp_data P) (mp_hdrOffset P + 5) = bt_usableSize bt" "mp_data P (mp_hdrOffset P + 7) = 0"
  shows "laid_out bt P (bt_usableSize bt) []" "page_cells bt P = []"
proof -
  have E: "extents bt P = []" using P(2) by (simp add: extents_def)
  then show "page_cells bt P = []" by (simp add: page_cells_def)
  have "mp_childPtrSize P \<le> 4" using ok(2) by (cases rule: format_cases) simp_all
  then show "laid_out bt P (bt_usableSize bt) []"
    using ok P f unfolding laid_out_def space_def E by simp
qed

lemma dropCell_sound:
  assumes ok: "page_ok bt P" and i: "i < mp_nCell P" and h100: "mp_hdrOffset P \<le> 100"
  shows "\<exists>Q. dropCell bt i (snd (extent bt P i)) (Page_OK, P) = (Page_OK, Q) \<and> page_ok bt Q \<and>
    page_cells bt Q = delete_nth i (page_cells bt P) \<and> (\<exists>v c f. Q = P\<lparr>mp_nFree := v, mp_nCell := c, mp_data := f\<rparr>)"
proof -
  obtain t fl where lo: "laid_out bt P t fl" using ok by (rule page_okD)
  note L = laid_outD [OF lo] and S = spaceD [OF laid_outD(8) [OF lo]]
  let ?h = "mp_hdrOffset P" and ?u = "bt_usableSize bt" and ?E = "extents bt P" and ?d = "mp_data P"
  obtain c n where x: "extent bt P i = (c, n)" by fastforce
  have E: "?E = take i ?E @ (c, n) # drop (Suc i) ?E" using i x id_take_nth_drop [of i ?E] by (simp add: nth_extents)
  obtain d t' fl' where d: "freeSpace bt c n P = (Page_OK, P\<lparr>mp_data := d, mp_nFree := mp_nFree P + int n\<rparr>)"
    "space d ?h ?u t' (delete_nth i ?E) fl'" "t \<le> t'" "frame ?h t (delete_nth i ?E) ?d d"
    using freeSpace_sound [of P bt t "take i ?E" c n "drop (Suc i) ?E" fl] L(8) E unfolding delete_nth_def by auto
  note T = spaceD [OF d(2)]
  have cn: "get2byte ?d (mp_cellOffset P + 2 * i) = c" "c + n \<le> ?u" "4 \<le> n" "t \<le> c"
    using x laid_out_in [OF lo i] i by (auto simp: nth_extents extent_def Let_def)
  have small: "c mod 65536 = c" "n mod 65536 = n" using cn S(2,4) get2byte_less [of ?d "mp_cellOffset P + 2 * i"] by simp_all
  have nc: "(mp_nCell P + 65535) mod 65536 = mp_nCell P - 1"
    using i L(6) S(3,4) get2byte_less [of ?d "?h + 3"] L(5) by (cases "mp_nCell P") simp_all
  have h: "?h + 8 \<le> mp_cellOffset P" using L(4) by simp
  have dh: "d ?h = ?d ?h" using d(4) L(6) h unfolding frame_def by auto
  show ?thesis
  proof (cases "mp_nCell P = 1")
    case True
    let ?f = "put2byte ((fill d (?h + 1) 0 4)(?h + 7 := 0)) (?h + 5) ?u"
    let ?Q = "P\<lparr>mp_nFree := int ?u - int ?h - int (mp_childPtrSize P) - 8, mp_nCell := 0, mp_data := ?f\<rparr>"
    have g: "get2byte ?f (?h + 1) = 0" "get2byte ?f (?h + 3) = 0" "?f (?h + 7) = 0"
      by (simp_all add: get2byte_0 put2byte_def fill_def)
    have g5: "get2byteNotZero ?f (?h + 5) = ?u" using L(3) S(4) by (intro notzero_put2byte) simp_all
    have e: "laid_out bt ?Q ?u []" "page_cells bt ?Q = []"
      by (rule empty_laid_out; use L(1-4) S(4) h100 g g5 in simp)+
    have "page_ok bt ?Q"
      using dh by (intro page_okI [OF ok e(1)]) (simp add: put2byte_def fill_def)
    moreover have "delete_nth i (page_cells bt P) = []" using True i by (simp add: delete_nth_def)
    moreover have "dropCell bt i n (Page_OK, P) = (Page_OK, ?Q)"
      using True d(1) cn(1,2) small nc by (simp add: dropCell_def Let_def not_less)
    ultimately show ?thesis using e(2) x by auto
  next
    case False
    define p where "p = mp_cellOffset P + 2 * i"
    define f where "f = put2byte (copy d p d (p + 2) (2 * (mp_nCell P - 1 - i))) (?h + 3) (mp_nCell P - 1)"
    let ?Q = "P\<lparr>mp_nFree := mp_nFree P + int n + 2, mp_nCell := mp_nCell P - 1, mp_data := f\<rparr>"
    have run: "dropCell bt i n (Page_OK, P) = (Page_OK, ?Q)"
      using False d(1) cn(1,2) small nc i by (simp add: dropCell_def Let_def not_less f_def p_def)
    have f: "f k = d k" if "k < p \<or> gap P \<le> k + 2" "k \<noteq> ?h + 3" "k \<noteq> ?h + 4" for k
      using that i by (auto simp: f_def p_def put2byte_def copy_def)
    have mv: "f k = d (k + 2)" if "p \<le> k" "k + 2 < gap P" for k
    proof -
      have "k \<noteq> ?h + 3" "k \<noteq> ?h + 4" "k < p + 2 * (mp_nCell P - 1 - i)" "p + 2 + (k - p) = k + 2"
        using that i h by (simp_all add: p_def)
      then show ?thesis using that(1) by (simp add: f_def put2byte_def copy_def)
    qed
    have out: "f k = ?d k" if "(a, m) \<in> set (delete_nth i ?E)" "a \<le> k" "k < a + m" for a m k
    proof -
      have "t' \<le> a" using areas_in [OF T(7), of a m] that(1) by simp
      then have "gap P \<le> k" "?h + 8 \<le> k" using d(3) L(6) h that(2) by simp_all
      then have "f k = d k" by (intro f) simp_all
      also have "\<dots> = ?d k"
        using d(4) [unfolded frame_def, rule_format, of k] that \<open>?h + 8 \<le> k\<close> by (auto intro!: bexI [of _ "(a, m)"])
      finally show ?thesis .
    qed
    have dd: "get2byte d (mp_cellOffset P + 2 * j) = get2byte ?d (mp_cellOffset P + 2 * j)" if "j < mp_nCell P" for j
      using that d(4) L(6) h unfolding frame_def by (intro get2byte_local) auto
    have ptr: "get2byte f (mp_cellOffset P + 2 * j) = get2byte ?d (mp_cellOffset P + 2 * (if j < i then j else Suc j))"
      if j: "j < mp_nCell P - 1" for j
    proof (cases "j < i")
      case True
      then have "get2byte f (mp_cellOffset P + 2 * j) = get2byte d (mp_cellOffset P + 2 * j)"
        using h by (intro get2byte_local f) (auto simp: p_def)
      then show ?thesis using True dd [of j] j by simp
    next
      case False
      then have "get2byte f (mp_cellOffset P + 2 * j) = get2byte d (mp_cellOffset P + 2 * Suc j)"
        using j mv [of "mp_cellOffset P + 2 * j"] mv [of "mp_cellOffset P + 2 * j + 1"] 
        by (simp add: get2byte_def p_def eval_nat_numeral)
      then show ?thesis using False dd [of "Suc j"] j by simp
    qed
    have E': "extents bt ?Q = delete_nth i ?E"
    proof (rule nth_equalityI)
      show "length (extents bt ?Q) = length (delete_nth i ?E)" using i by (simp add: delete_nth_simps)
      fix j assume "j < length (extents bt ?Q)"
      then have j: "j < mp_nCell P - 1" by simp
      let ?j = "if j < i then j else Suc j"
      have nth: "delete_nth i ?E ! j = extent bt P ?j" using i j by (simp add: delete_nth_simps nth_extents)
      have "j < length (delete_nth i ?E)" using i j by (simp add: delete_nth_simps)
      then have m: "extent bt P ?j \<in> set (delete_nth i ?E)" using nth nth_mem by metis
      have "extent bt ?Q j = extent bt P ?j"
      proof (rule extent_kept(1))
        show "get2byte (mp_data ?Q) (mp_cellOffset P + 2 * j) = fst (extent bt P ?j)" using ptr [OF j] by (simp add: extent_def Let_def)
        show "mp_data ?Q k = ?d k" if "fst (extent bt P ?j) \<le> k" "k < fst (extent bt P ?j) + snd (extent bt P ?j)" for k
          using out [OF _ that] m by simp
      qed (use L(1) in simp_all)
      then show "extents bt ?Q ! j = delete_nth i ?E ! j" using nth j by (simp add: nth_extents)
    qed
    have "page_cells bt ?Q = map (\<lambda>(p, n). get_list ?d p n) (delete_nth i ?E)"
      unfolding page_cells_def E'
    proof (intro map_cong refl)
      fix x assume "x \<in> set (delete_nth i ?E)"
      then show "(case x of (p, n) \<Rightarrow> get_list (mp_data ?Q) p n) = (case x of (p, n) \<Rightarrow> get_list ?d p n)"
        using out [of "fst x" "snd x"] by (simp add: case_prod_beta get_list_eq)
    qed
    then have cells: "page_cells bt ?Q = delete_nth i (page_cells bt P)" by (simp add: delete_nth_simps page_cells_def)
    have pl: "?h + 8 \<le> p" using h by (simp add: p_def)
    have "space f ?h ?u t' (extents bt ?Q) fl'"
    proof -
      have "get2byte f (?h + 5) = get2byte d (?h + 5)" using pl by (intro get2byte_local f) auto
      then have "get2byteNotZero f (?h + 5) = t'" using T(1) by (simp add: notzero split: if_splits)
      moreover have "linked f (?h + 1) fl' 0 = linked d (?h + 1) fl' 0"
      proof (rule linked_cong)
        show "f k = d k" if "k \<in> {?h + 1, ?h + 1 + 1}" for k using that pl by (intro f) auto
        show "f k = d k" if "(s, m) \<in> set fl'" "s \<le> k" "k < s + 4" for s m k
          using that space_in [OF d(2) that(1)] d(3) L(6) h by (intro f) auto
      qed
      moreover have "f (?h + 7) = d (?h + 7)" using pl by (intro f) auto
      ultimately show ?thesis using T(2-8) unfolding space_def E' by simp
    qed
    moreover have "get2byte f (?h + 3) = mp_nCell P - 1"
      using get2byte_less [of ?d "?h + 3"] L(5) by (simp add: f_def page_simps)
    ultimately have "laid_out bt ?Q t' fl'"
      using L(1-6,9) d(3) i False total_delete_nth [of i ?E] x unfolding laid_out_def E'
      by (simp add: nth_extents)
    moreover have "f ?h = ?d ?h" using dh pl f [of ?h] by simp
    ultimately have "page_ok bt ?Q" by (intro page_okI [OF ok]) simp_all
    then show ?thesis using run cells x by auto
  qed
qed

end
