(* ===== verification/Btree_Init.thy ===== *)
theory Btree_Init
  imports Btree_Drop
begin

text \<open>
  The beginnings of B-tree pages of SQLite, sqlite3/src/sqlite3.c: zeroPage makes an empty sound page, and btreeInitPage
  and btreeComputeFreeSpace find the state of a sound page in its bytes.
\<close>

section \<open>New pages\<close>

lemma limits_set:
  assumes "bt = set_local_limits bt0" "480 \<le> bt_usableSize bt" "bt_usableSize bt \<le> 65536"
    and "(mp_minLocal P, mp_maxLocal P) \<in> {(bt_minLocal bt, bt_maxLocal bt), (bt_minLeaf bt, bt_maxLeaf bt)}"
  shows "limits_ok bt P"
proof -
  define u where "u = bt_usableSize bt0"
  have bt: "bt_usableSize bt = u" "bt_maxLocal bt = ((u - 12) * 64 div 255 - 23) mod 65536" 
    "bt_minLocal bt = ((u - 12) * 32 div 255 - 23) mod 65536" "bt_maxLeaf bt = (u - 35) mod 65536"
    "bt_minLeaf bt = ((u - 12) * 32 div 255 - 23) mod 65536"
    by (simp_all add: assms(1) set_local_limits_def Let_def u_def)
  have u: "480 \<le> u" "u \<le> 65536" using assms(2,3) bt(1) by simp_all
  define x y where "x = (u - 12) * 64 div 255 - 23" and "y = (u - 12) * 32 div 255 - 23"
  have r: "x + 35 \<le> u" "y \<le> x" "y + 35 \<le> u" using u unfolding x_def y_def by linarith+
  then have "x mod 65536 = x" "y mod 65536 = y" "(u - 35) mod 65536 = u - 35" using u by simp_all
  then have "(mp_minLocal P, mp_maxLocal P) \<in> {(y, x), (y, u - 35)}"
    using assms(4) unfolding bt x_def [symmetric] y_def [symmetric] by simp
  then show ?thesis using r u bt(1) unfolding limits_ok_def by auto
qed

text \<open>The four kinds of pages.\<close>

lemma decodeFlags_cases:
  assumes "flags \<in> {2, 5, 10, 13}"
  obtains Q where "\<And>P. decodeFlags bt flags P = (Page_OK, Q P)" "\<And>P. format_ok (Q P)"
    "\<And>P. (mp_minLocal (Q P), mp_maxLocal (Q P)) \<in> {(bt_minLocal bt, bt_maxLocal bt), (bt_minLeaf bt, bt_maxLeaf bt)}"
    "\<And>P. mp_childPtrSize (Q P) = (if flags div 8 mod 2 = 0 then 4 else 0)" "\<And>P. mp_leaf (Q P) = (flags div 8 mod 2 \<noteq> 0)"
    "\<And>P. Q (Q P) = Q P" "\<And>P. mp_hdrOffset (Q P) = mp_hdrOffset P \<and> mp_nFree (Q P) = mp_nFree P \<and> mp_data (Q P) = mp_data P"
    "\<And>P c ov m n i. Q (P\<lparr>mp_cellOffset := c, mp_ovfl := ov, mp_maskPage := m, mp_nCell := n, mp_isInit := i\<rparr>) =
       (Q P)\<lparr>mp_cellOffset := c, mp_ovfl := ov, mp_maskPage := m, mp_nCell := n, mp_isInit := i\<rparr>"
proof (rule that [of "\<lambda>P. snd (decodeFlags bt flags P)"])
  note d = decodeFlags_def Let_def PTF_INTKEY_def PTF_ZERODATA_def PTF_LEAFDATA_def PTF_LEAF_def
  show "decodeFlags bt flags P = (Page_OK, snd (decodeFlags bt flags P))" for P using assms by (auto simp: d)
  show "format_ok (snd (decodeFlags bt flags P))" for P using assms by (auto simp: d format_ok_def)
  show "(mp_minLocal (snd (decodeFlags bt flags P)), mp_maxLocal (snd (decodeFlags bt flags P))) \<in>
      {(bt_minLocal bt, bt_maxLocal bt), (bt_minLeaf bt, bt_maxLeaf bt)}" for P using assms by (auto simp: d)
  show "mp_childPtrSize (snd (decodeFlags bt flags P)) = (if flags div 8 mod 2 = 0 then 4 else 0)" for P using assms by (auto simp: d)
  show "mp_leaf (snd (decodeFlags bt flags P)) = (flags div 8 mod 2 \<noteq> 0)" for P using assms by (auto simp: d)
  show "snd (decodeFlags bt flags (snd (decodeFlags bt flags P))) = snd (decodeFlags bt flags P)" for P using assms by (auto simp: d)
  show "mp_hdrOffset (snd (decodeFlags bt flags P)) = mp_hdrOffset P \<and> mp_nFree (snd (decodeFlags bt flags P)) = mp_nFree P \<and>
      mp_data (snd (decodeFlags bt flags P)) = mp_data P" for P by (simp add: d)
  show "snd (decodeFlags bt flags (P\<lparr>mp_cellOffset := c, mp_ovfl := ov, mp_maskPage := m, mp_nCell := n, mp_isInit := i\<rparr>)) =
      (snd (decodeFlags bt flags P))\<lparr>mp_cellOffset := c, mp_ovfl := ov, mp_maskPage := m, mp_nCell := n, mp_isInit := i\<rparr>" for P c ov m n i
    by (simp add: d)
qed

definition page_setting :: "btshared \<Rightarrow> bool" where
  "page_setting bt = (set_local_limits bt = bt \<and> 480 \<le> bt_usableSize bt \<and> bt_usableSize bt \<le> bt_pageSize bt \<and> bt_pageSize bt \<le> 65536)"

lemma zeroPage_ok:
  assumes bt: "page_setting bt" and f: "flags \<in> {2, 5, 10, 13}" and h: "mp_hdrOffset P \<le> 100"
  shows "page_ok bt (zeroPage bt flags P)" "page_cells bt (zeroPage bt flags P) = []" "mp_ovfl (zeroPage bt flags P) = []"
    "mp_hdrOffset (zeroPage bt flags P) = mp_hdrOffset P" "mp_childPtrSize (zeroPage bt flags P) = (if flags div 8 mod 2 = 0 then 4 else 0)"
proof -
  let ?u = "bt_usableSize bt" and ?h = "mp_hdrOffset P" 
  have u: "bt = set_local_limits bt" "480 \<le> ?u" "?u \<le> 65536" using bt by (simp_all add: page_setting_def)
  obtain Q where Q: "\<And>P. decodeFlags bt flags P = (Page_OK, Q P)" "\<And>P. format_ok (Q P)"
    "\<And>P. (mp_minLocal (Q P), mp_maxLocal (Q P)) \<in> {(bt_minLocal bt, bt_maxLocal bt), (bt_minLeaf bt, bt_maxLeaf bt)}"
    "\<And>P. mp_childPtrSize (Q P) = (if flags div 8 mod 2 = 0 then 4 else 0)" "\<And>P. mp_leaf (Q P) = (flags div 8 mod 2 \<noteq> 0)"
    "\<And>P. Q (Q P) = Q P" "\<And>P. mp_hdrOffset (Q P) = mp_hdrOffset P \<and> mp_nFree (Q P) = mp_nFree P \<and> mp_data (Q P) = mp_data P"
    "\<And>P c ov m n i. Q (P\<lparr>mp_cellOffset := c, mp_ovfl := ov, mp_maskPage := m, mp_nCell := n, mp_isInit := i\<rparr>) =
       (Q P)\<lparr>mp_cellOffset := c, mp_ovfl := ov, mp_maskPage := m, mp_nCell := n, mp_isInit := i\<rparr>"
    by (rule decodeFlags_cases [OF f, of bt]) (rule that; assumption)
  define first where "first = ?h + (if flags div 8 mod 2 = 0 then 12 else 8)"
  define d where "d = put2byte ((fill ((if fast_secure bt then fill (mp_data P) ?h 0 (?u - ?h) else mp_data P)(?h := of_nat flags)) (?h + 1) 0 4)
    (?h + 7 := 0)) (?h + 5) ?u"
  define R where "R = P\<lparr>mp_data := d, mp_nFree := int ((?u - first) mod 65536)\<rparr>"
  define Z where "Z = (Q R)\<lparr>mp_cellOffset := first, mp_ovfl := [], mp_maskPage := (bt_pageSize bt - 1) mod 65536, mp_nCell := 0, mp_isInit := True\<rparr>"
  have Z: "zeroPage bt flags P = Z"
    by (simp add: zeroPage_def Let_def Q(1) Z_def R_def d_def first_def PTF_LEAF_def)
  have fl: "(?u - first) mod 65536 = ?u - first" "first \<le> ?u" using u h by (simp_all add: first_def)
  have z: "mp_data Z = d" "mp_hdrOffset Z = ?h" "mp_nFree Z = int ?u - int first" "mp_cellOffset Z = first" "mp_nCell Z = 0"
    "mp_childPtrSize Z = (if flags div 8 mod 2 = 0 then 4 else 0)" "mp_ovfl Z = []"
    using Q(4) [of R] Q(7) [of R] fl by (simp_all add: Z_def R_def of_nat_diff)
  have bytes: "get2byte d (?h + 1) = 0" "get2byte d (?h + 3) = 0" "d (?h + 7) = 0" "d ?h = of_nat flags"
    by (simp_all add: d_def get2byte_0 put2byte_def fill_def)
  have top: "get2byteNotZero d (?h + 5) = ?u" unfolding d_def using u by (intro notzero_put2byte) simp_all
  have lim: "limits_ok bt Z" using Q(3) [of R] u by (intro limits_set [of bt bt]) (simp_all add: Z_def)
  have fmt: "format_ok Z" using Q(2) [of R] by (simp add: Z_def format_ok_def)
  have lo: "laid_out bt Z ?u [] \<and> page_cells bt Z = []"
    by (intro conjI empty_laid_out) (use lim fmt u h z bytes top in \<open>simp_all add: first_def\<close>)
  have "unat (of_nat flags :: u8) = flags" using f by auto
  then have "decodeFlags bt (unat (mp_data Z (mp_hdrOffset Z))) Z = (Page_OK, Z)"
    unfolding z bytes using Q(1,6,8) by (simp add: Z_def)
  then have "page_ok bt Z" using lo unfolding page_ok_def by (auto simp: Z_def)
  then show "page_ok bt (zeroPage bt flags P)" "page_cells bt (zeroPage bt flags P) = []" "mp_ovfl (zeroPage bt flags P) = []"
    "mp_hdrOffset (zeroPage bt flags P) = mp_hdrOffset P" "mp_childPtrSize (zeroPage bt flags P) = (if flags div 8 mod 2 = 0 then 4 else 0)"
    using lo z unfolding Z by simp_all
qed

section \<open>Pages read back\<close>

lemma decodeFlags_same:
  assumes "decodeFlags bt b P = (Page_OK, P)"
  shows "decodeFlags bt b R = (Page_OK, P\<lparr>mp_isInit := mp_isInit R, mp_hdrOffset := mp_hdrOffset R, mp_cellOffset := mp_cellOffset R,
    mp_nFree := mp_nFree R, mp_nCell := mp_nCell R, mp_maskPage := mp_maskPage R, mp_ovfl := mp_ovfl R, mp_data := mp_data R\<rparr>)"
  using assms by (cases P; cases R) (auto simp: decodeFlags_def Let_def split: if_splits)

lemma free_blocks_sound:
  assumes "linked d a fl 0" "spaced lo fl u" "fl \<noteq> []" "0 < lo" "4 \<le> u"
  shows "free_blocks_loop d (u - 4) (get2byte d a) n = Some (fst (last fl), 0, snd (last fl), n + total fl)"
  using assms
proof (induction fl arbitrary: a lo n)
  case (Cons x fl)
  obtain s m where x: "x = (s, m)" by fastforce
  have l: "get2byte d a = s" "get2byte d (s + 2) = m" "linked d s fl 0" using Cons.prems(1) x by auto
  have sp: "lo \<le> s" "4 \<le> m" "spaced (s + m + 4) fl u" "s + m \<le> u"
    using Cons.prems(2) x spaced_upper [of "s + m + 4" fl u] by auto
  show ?case
  proof (cases fl)
    case Nil
    then have "get2byte d s = 0" using l by simp
    then show ?thesis using l sp x Nil by (subst free_blocks_loop.simps) (simp add: Let_def)
  next
    case (Cons y r)
    then have "get2byte d s = fst y" "s + m + 4 \<le> fst y" using l sp by (cases y; simp)+
    moreover have "free_blocks_loop d (u - 4) (get2byte d s) (n + m) = Some (fst (last fl), 0, snd (last fl), n + m + total fl)"
      using Cons.IH [OF l(3) sp(3)] Cons \<open>4 \<le> u\<close> by simp
    ultimately show ?thesis using l sp x Cons by (subst free_blocks_loop.simps) (simp add: Let_def)
  qed
qed simp

lemma computeFreeSpace_sound:
  assumes ok: "page_ok bt P"
  shows "btreeComputeFreeSpace bt (P\<lparr>mp_nFree := v\<rparr>) = (Page_OK, P)"
proof -
  obtain t fl where lo: "laid_out bt P t fl" using ok by (rule page_okD)
  note L = laid_outD [OF lo] and S = spaceD [OF laid_outD(8) [OF lo]]
  let ?h = "mp_hdrOffset P" and ?u = "bt_usableSize bt" and ?d = "mp_data P" and ?E = "extents bt P"
  have t0: "0 < t" using S(2) by simp
  have sum: "unat (?d (?h + 7)) + t + total fl = ?u - total ?E" "total ?E + gap P \<le> ?u" using S(8) L(6) by simp_all
  have pc: "(0 < get2byte ?d (?h + 1)) = (fl \<noteq> [])" "fl \<noteq> [] \<Longrightarrow> t < get2byte ?d (?h + 1)"
    using linked_first [OF S(5)] space_in [OF L(8)] by (cases fl; fastforce)+
  have last: "fl \<noteq> [] \<Longrightarrow> fst (last fl) + snd (last fl) \<le> ?u" using space_in [OF L(8), of "fst (last fl)" "snd (last fl)"] by simp
  have "free_blocks_loop ?d (?u - 4) (get2byte ?d (?h + 1)) (unat (?d (?h + 7)) + t) =
      Some (fst (last fl), 0, snd (last fl), ?u - total ?E)" if "fl \<noteq> []"
    using free_blocks_sound [OF S(5,6) that, of "unat (?d (?h + 7)) + t"] L(3) sum(1) by simp
  then have answer: "(if 0 < get2byte ?d (?h + 1) then
              if get2byte ?d (?h + 1) < t then None
              else case free_blocks_loop ?d (?u - 4) (get2byte ?d (?h + 1)) (unat (?d (?h + 7)) + t) of
                None \<Rightarrow> None
              | Some (pc, next, sz, nFree) \<Rightarrow> if 0 < next then None else if ?u < pc + sz then None else Some nFree
            else Some (unat (?d (?h + 7)) + t)) = Some (?u - total ?E)"
    using pc last sum(1) by (cases "fl = []") (simp_all add: not_less)
  have sel: "mp_hdrOffset (P\<lparr>mp_nFree := v\<rparr>) = ?h" "mp_data (P\<lparr>mp_nFree := v\<rparr>) = ?d"
    "mp_childPtrSize (P\<lparr>mp_nFree := v\<rparr>) = mp_childPtrSize P" "mp_nCell (P\<lparr>mp_nFree := v\<rparr>) = mp_nCell P" by simp_all
  have g: "?h + 8 + mp_childPtrSize P + 2 * mp_nCell P = gap P" using L(4) by simp
  have "int ((?u - total ?E - gap P) mod 65536) = mp_nFree P"
    using sum(2) L(4,9) S(4) by (simp add: of_nat_diff)
  then have "P\<lparr>mp_nFree := v, mp_nFree := int ((?u - total ?E - gap P) mod 65536)\<rparr> = P" by simp
  moreover have "\<not> (?u < ?u - total ?E \<or> ?u - total ?E < gap P)" using sum(2) by linarith
  ultimately show ?thesis
    unfolding btreeComputeFreeSpace_def Let_def sel S(1) answer option.case g by simp
qed

lemma cell_at_least_5:
  assumes "limits_ok bt P" "format_ok P" "mp_childPtrSize P = 4"
  shows "5 \<le> xCellSize bt P d p"
proof -
  let ?d = "\<lambda>k. d (p + k)"
  have "cell_header P ?d \<le> xCellSize bt P d p" using cell_size_range [OF assms(1)] by blast
  moreover have "5 \<le> cell_header P ?d"
    using assms(2)
  proof (cases rule: format_cases)
    case table_node
    then show ?thesis using skip_varint_extent [of 4 ?d 13] by (simp add: cell_header_def)
  next
    case index_node
    obtain n q where n: "read_payload_size ?d 4 = (n, q)" by fastforce
    then show ?thesis using index_node read_payload_size_extent(1) [OF n] by (simp add: cell_header_def)
  qed (use assms(3) in simp_all)
  ultimately show ?thesis by simp
qed

lemma size_check_sound:
  assumes lo: "laid_out bt P t fl" and leaf: "mp_leaf P = (mp_childPtrSize P = 0)"
  shows "btreeCellSizeCheck bt P = Page_OK"
proof -
  note L = laid_outD [OF lo] and S = spaceD [OF laid_outD(8) [OF lo]]
  have "let pc = get2byte (mp_data P) (mp_cellOffset P + i * 2) in
      \<not> (pc < gap P \<or> (if mp_leaf P then bt_usableSize bt - 4 else bt_usableSize bt - 4 - 1) < pc) \<and>
      \<not> bt_usableSize bt < pc + xCellSize bt P (mp_data P) pc" if i: "i < mp_nCell P" for i
  proof -
    obtain p n where x: "extent bt P i = (p, n)" by fastforce
    have p: "get2byte (mp_data P) (mp_cellOffset P + i * 2) = p" "xCellSize bt P (mp_data P) p = n"
      using x by (auto simp: extent_def Let_def mult.commute)
    have r: "t \<le> p" "4 \<le> n" "p + n \<le> bt_usableSize bt" using laid_out_in [OF lo i] x i by (simp_all add: nth_extents)
    moreover have "mp_childPtrSize P = 0 \<or> mp_childPtrSize P = 4" using L(2) by (cases rule: format_cases) simp_all
    then have "\<not> mp_leaf P \<Longrightarrow> 5 \<le> n" using cell_at_least_5 [OF L(1,2), of "mp_data P" p] leaf p(2) by simp
    ultimately show ?thesis using p L(6) by (auto simp: Let_def)
  qed
  then show ?thesis by (simp add: btreeCellSizeCheck_def list_all_iff Let_def)
qed

lemma few_cells:
  assumes lo: "laid_out bt P t fl" and u: "bt_usableSize bt \<le> bt_pageSize bt"
  shows "mp_nCell P \<le> MX_CELL bt"
proof -
  note L = laid_outD [OF lo] and S = spaceD [OF laid_outD(8) [OF lo]]
  have "4 * length xs \<le> total xs" if "\<And>x. x \<in> set xs \<Longrightarrow> 4 \<le> snd x" for xs using that by (induction xs) fastforce+
  then have "4 * length (extents bt P) \<le> total (extents bt P)" using areas_in [OF S(7)] by fastforce
  moreover have "total (extents bt P) + gap P \<le> bt_usableSize bt" using S(8) L(6) by simp
  ultimately have "6 * mp_nCell P + 8 \<le> bt_pageSize bt" using u L(4) by simp
  then show ?thesis unfolding MX_CELL_def by simp
qed

lemma reload_sound:
  assumes ok: "page_ok bt P" and u: "bt_usableSize bt \<le> bt_pageSize bt"
    and R: "mp_hdrOffset R = mp_hdrOffset P" "mp_data R = mp_data P"
  shows "btreeInitPage bt R = (Page_OK, P\<lparr>mp_ovfl := [], mp_nFree := - 1\<rparr>)"
proof -
  obtain t fl where lo: "laid_out bt P t fl" using ok by (rule page_okD)
  note L = laid_outD [OF lo]
  let ?b = "unat (mp_data P (mp_hdrOffset P))"
  have d: "decodeFlags bt ?b P = (Page_OK, P)" "mp_isInit P" "mp_maskPage P = (bt_pageSize bt - 1) mod 65536" using ok by (simp_all add: page_ok_def)
  have "mp_leaf P = (mp_childPtrSize P = 0)"
    using d(1) by (cases P) (auto simp: decodeFlags_def Let_def split: if_splits)
  then have "btreeCellSizeCheck bt P = Page_OK" by (rule size_check_sound [OF lo])
  moreover have "btreeCellSizeCheck bt (P\<lparr>mp_ovfl := x, mp_nFree := v\<rparr>) = btreeCellSizeCheck bt P" for x v
  proof -
    have "measure_payload bt (P\<lparr>mp_ovfl := x\<rparr>) = measure_payload bt P" by (intro ext) (simp add: measure_payload_def)
    then have "xCellSize bt (P\<lparr>mp_ovfl := x\<rparr>) = xCellSize bt P"
      by (auto intro!: ext simp: xCellSize_def cellSizePtr_def cellSizePtrIdxLeaf_def cellSizePtrNoPayload_def
        cellSizePtrTableLeaf_def split: cell_size_method.splits)
    moreover have "xCellSize bt (P\<lparr>mp_ovfl := x, mp_nFree := v\<rparr>) = xCellSize bt (P\<lparr>mp_ovfl := x\<rparr>)" by simp
    ultimately show ?thesis by (simp add: btreeCellSizeCheck_def Let_def)
  qed
  moreover have "\<not> MX_CELL bt < mp_nCell P" using few_cells [OF lo u] by simp
  moreover have "P\<lparr>mp_maskPage := (bt_pageSize bt - 1) mod 65536, mp_ovfl := [], mp_cellOffset := mp_hdrOffset P + 8 + mp_childPtrSize P,
      mp_nFree := - 1, mp_isInit := True\<rparr> = P\<lparr>mp_ovfl := [], mp_nFree := - 1\<rparr>"
    using d(2,3) L(4) by (cases P) simp
  ultimately show ?thesis
    using L(5) R by (simp add: btreeInitPage_def Let_def decodeFlags_same [OF d(1)])
qed

end
