(* ===== verification/Btree_Runs.thy ===== *)
theory Btree_Runs
  imports Btree_Init
begin

text \<open>
  Runs of insertions and removals on a B-tree page of SQLite, sqlite3/src/sqlite3.c: a page is a list of cells as
  long as they fit, its state can be found in its bytes at any time, and defragmentation changes nothing but places.
\<close>

section \<open>Runs of operations\<close>

text \<open>
  What the cursors do to one page: \<open>sqlite3BtreeInsert\<close> puts a cell with \<open>insertCellFast\<close>, and
  \<open>sqlite3BtreeDelete\<close> removes the cell whose size the parser has found with \<open>dropCell\<close>.
\<close>

datatype page_op = Put_Cell nat "u8 list" | Drop_Cell nat

definition cell_bytes :: "u8 list \<Rightarrow> bytes" where
  "cell_bytes c = put_list (\<lambda>_. 0) 0 c"

definition parsed_size :: "btshared \<Rightarrow> mempage \<Rightarrow> nat \<Rightarrow> nat" where
  "parsed_size bt P i = unat (ci_nSize (xParseCell bt P (mp_data P) (get2byte (mp_data P) (mp_cellOffset P + 2 * i))))"

fun page_step :: "btshared \<Rightarrow> page_op \<Rightarrow> page_rc \<times> mempage \<Rightarrow> page_rc \<times> mempage" where
  "page_step bt (Put_Cell i c) (rc, P) =
     (if rc \<noteq> Page_OK then (rc, P) else insertCellFast bt Page_OK (\<lambda>_ _. Page_OK) i (cell_bytes c) (length c) P)"
| "page_step bt (Drop_Cell i) (rc, P) = dropCell bt i (parsed_size bt P i) (rc, P)"

text \<open>What they do to a list of cells, and when they fit: \<open>w\<close> tells the well-formed cells, \<open>r\<close> is the room of the page.\<close>

fun list_step :: "page_op \<Rightarrow> u8 list list \<Rightarrow> u8 list list" where
  "list_step (Put_Cell i c) cs = insert_nth i c cs"
| "list_step (Drop_Cell i) cs = delete_nth i cs"

fun op_fits :: "(u8 list \<Rightarrow> bool) \<Rightarrow> nat \<Rightarrow> u8 list list \<Rightarrow> page_op \<Rightarrow> bool" where
  "op_fits w r cs (Put_Cell i c) = (i \<le> length cs \<and> w c \<and> needed cs + length c + 2 \<le> r)"
| "op_fits w r cs (Drop_Cell i) = (i < length cs)"

fun ops_fit :: "(u8 list \<Rightarrow> bool) \<Rightarrow> nat \<Rightarrow> u8 list list \<Rightarrow> page_op list \<Rightarrow> bool" where
  "ops_fit w r cs [] = True"
| "ops_fit w r cs (op # ops) = (op_fits w r cs op \<and> ops_fit w r (list_step op cs) ops)"

definition page_history :: "btshared \<Rightarrow> nat \<Rightarrow> mempage \<Rightarrow> page_op list \<Rightarrow> bool" where
  "page_history bt flags P ops = (page_setting bt \<and> flags \<in> {2, 5, 10, 13} \<and> mp_hdrOffset P \<le> 100 \<and>
     (let Z = zeroPage bt flags P in ops_fit (\<lambda>c. xCellSize bt Z (cell_bytes c) 0 = length c) (room bt Z) [] ops))"

definition page_after :: "btshared \<Rightarrow> nat \<Rightarrow> mempage \<Rightarrow> page_op list \<Rightarrow> page_rc \<times> mempage" where
  "page_after bt flags P ops = fold (page_step bt) ops (Page_OK, zeroPage bt flags P)"

lemma parsed_size_eq: "page_ok bt P \<Longrightarrow> parsed_size bt P i = snd (extent bt P i)"
  by (erule page_okD) (simp add: parsed_size_def extent_def Let_def xParseCell_base [of bt P _ "get2byte _ _"]
    xCellSize_base [of bt P _ "get2byte _ _"] cell_size_0 laid_outD)

lemma map_cell_bytes: "map (cell_bytes c) [0..<length c] = c"
  by (rule nth_equalityI) (simp_all add: cell_bytes_def put_list_def)

lemma page_step_sound:
  assumes "page_ok bt P" "mp_hdrOffset P \<le> 100" "op_fits (\<lambda>c. xCellSize bt P (cell_bytes c) 0 = length c) (room bt P) (page_cells bt P) op"
  shows "\<exists>Q. page_step bt op (Page_OK, P) = (Page_OK, Q) \<and> page_ok bt Q \<and> page_cells bt Q = list_step op (page_cells bt P) \<and>
    (\<exists>v c f. Q = P\<lparr>mp_nFree := v, mp_nCell := c, mp_data := f\<rparr>)"
proof (cases op)
  case (Put_Cell i c)
  then show ?thesis
    using insertCellFast_sound [OF assms(1), of i "length c" "cell_bytes c" "\<lambda>_ _. Page_OK"] assms(3)
    by (simp add: map_cell_bytes)
next
  case (Drop_Cell i)
  then show ?thesis using dropCell_sound [OF assms(1), of i] assms(2,3) parsed_size_eq [OF assms(1), of i] by simp
qed

lemma page_run_sound:
  assumes "page_ok bt P" "mp_hdrOffset P \<le> 100" "ops_fit (\<lambda>c. xCellSize bt P (cell_bytes c) 0 = length c) (room bt P) (page_cells bt P) ops"
  shows "\<exists>Q. fold (page_step bt) ops (Page_OK, P) = (Page_OK, Q) \<and> page_ok bt Q \<and> page_cells bt Q = fold list_step ops (page_cells bt P) \<and>
    (\<exists>v c f. Q = P\<lparr>mp_nFree := v, mp_nCell := c, mp_data := f\<rparr>)"
  using assms
proof (induction ops arbitrary: P)
  case Nil
  then show ?case by (auto intro!: exI [of _ "mp_nFree P"] exI [of _ "mp_nCell P"] exI [of _ "mp_data P"])
next
  case (Cons op ops)
  then obtain Q where Q: "page_step bt op (Page_OK, P) = (Page_OK, Q)" "page_ok bt Q" "page_cells bt Q = list_step op (page_cells bt P)"
    "\<exists>v c f. Q = P\<lparr>mp_nFree := v, mp_nCell := c, mp_data := f\<rparr>"
    using page_step_sound [OF Cons.prems(1,2), of op] by auto
  then have same: "xCellSize bt Q = xCellSize bt P" "room bt Q = room bt P" "mp_hdrOffset Q = mp_hdrOffset P" by (auto simp: room_def)
  obtain Q' where Q': "fold (page_step bt) ops (Page_OK, Q) = (Page_OK, Q')" "page_ok bt Q'"
    "page_cells bt Q' = fold list_step ops (page_cells bt Q)" "\<exists>v c f. Q' = Q\<lparr>mp_nFree := v, mp_nCell := c, mp_data := f\<rparr>"
    using Cons.IH [of Q] Cons.prems same Q(2,3) by auto
  obtain v c f v' c' f' where "Q = P\<lparr>mp_nFree := v, mp_nCell := c, mp_data := f\<rparr>" "Q' = Q\<lparr>mp_nFree := v', mp_nCell := c', mp_data := f'\<rparr>"
    using Q(4) Q'(4) by blast
  then have "Q' = P\<lparr>mp_nFree := v', mp_nCell := c', mp_data := f'\<rparr>" by simp
  then show ?case using Q Q' by auto
qed

lemma history_sound:
  assumes "page_history bt flags P ops"
  obtains Q where "page_after bt flags P ops = (Page_OK, Q)" "page_ok bt Q" "page_cells bt Q = fold list_step ops []" "mp_ovfl Q = []"
    "room bt Q = room bt (zeroPage bt flags P)" "xCellSize bt Q = xCellSize bt (zeroPage bt flags P)" "mp_hdrOffset Q = mp_hdrOffset P"
proof -
  let ?Z = "zeroPage bt flags P"
  have h: "page_setting bt" "flags \<in> {2, 5, 10, 13}" "mp_hdrOffset P \<le> 100"
    "ops_fit (\<lambda>c. xCellSize bt ?Z (cell_bytes c) 0 = length c) (room bt ?Z) [] ops" using assms by (simp_all add: page_history_def Let_def)
  note Z = zeroPage_ok [OF h(1-3)]
  obtain Q where Q: "page_after bt flags P ops = (Page_OK, Q)" "page_ok bt Q" "page_cells bt Q = fold list_step ops []"
    "\<exists>v c f. Q = ?Z\<lparr>mp_nFree := v, mp_nCell := c, mp_data := f\<rparr>"
    using page_run_sound [OF Z(1), of ops] h(3,4) Z(2,4) by (auto simp: page_after_def)
  moreover have "mp_ovfl Q = []" "room bt Q = room bt ?Z" "xCellSize bt Q = xCellSize bt ?Z" "mp_hdrOffset Q = mp_hdrOffset P"
    using Q(4) Z by (auto simp: room_def)
  ultimately show thesis using that by blast
qed

section \<open>What one page promises\<close>

text \<open>
  C20. A B-tree page behaves as a list of cells. After any sequence of insertions and removals that fit, on a page
  started by zeroPage, no operation has failed, the cells read through the pointers are exactly the list the
  operations build, each with its bytes, and nFree is the room they leave: no byte is ever lost to fragments,
  free blocks or defragmentation.
\<close>

theorem page_is_list_of_cells:
  assumes "page_history bt flags P ops"
  shows "\<exists>Q. page_after bt flags P ops = (Page_OK, Q) \<and> page_cells bt Q = fold list_step ops [] \<and>
    mp_nFree Q = int (room bt (zeroPage bt flags P)) - int (needed (fold list_step ops []))"
  using assms by (elim history_sound) (use page_free in fastforce)

definition demo_bt :: btshared where
  "demo_bt = set_local_limits \<lparr>bt_pageSize = 512, bt_usableSize = 512, bt_maxLocal = 0, bt_minLocal = 0, bt_maxLeaf = 0,
     bt_minLeaf = 0, bt_max1bytePayload = 0, bt_autoVacuum = False, fast_secure = False, cell_size_ck = True\<rparr>"

definition demo_page :: mempage where
  "demo_page = \<lparr>mp_isInit = False, mp_intKey = False, mp_intKeyLeaf = False, mp_leaf = False, mp_hdrOffset = 100,
     mp_childPtrSize = 0, mp_max1bytePayload = 0, mp_maxLocal = 0, mp_minLocal = 0, mp_cellOffset = 0, mp_nFree = 0,
     mp_nCell = 0, mp_maskPage = 0, mp_ovfl = [], mp_xCellSize = CellSizePtr, mp_xParseCell = ParseCellPtr, mp_data = (\<lambda>_. 0)\<rparr>"

definition demo_ops :: "page_op list" where
  "demo_ops = [Put_Cell 0 [2, 1, 7, 8], Put_Cell 0 [3, 2, 4, 5, 6], Put_Cell 1 [4, 3, 9, 9, 9, 9], Drop_Cell 1, Put_Cell 2 [2, 9, 5, 0]]"


lemma demo_setting: "page_setting demo_bt" "bt_usableSize demo_bt = 512" "bt_maxLeaf demo_bt = 477"
  by (simp_all add: demo_bt_def set_local_limits_def Let_def page_setting_def)

lemma demo_room: "room demo_bt (zeroPage demo_bt 13 demo_page) = 404"
  using zeroPage_ok(4,5) [OF demo_setting(1), of 13 demo_page] by (simp add: room_def demo_setting demo_page_def)

lemma demo_size: "c \<in> {[2, 1, 7, 8], [3, 2, 4, 5, 6], [4, 3, 9, 9, 9, 9], [2, 9, 5, 0]} \<Longrightarrow>
    xCellSize demo_bt (zeroPage demo_bt 13 demo_page) (cell_bytes c) 0 = length c"
  by (elim insertE; simp add: xCellSize_def zeroPage_def decodeFlags_def Let_def PTF_INTKEY_def PTF_ZERODATA_def PTF_LEAFDATA_def
    PTF_LEAF_def cellSizePtrTableLeaf_def read_payload_size_def skip_key_def cell_bytes_def put_list_def measure_payload_def demo_setting)

lemma demo_history: "page_history demo_bt 13 demo_page demo_ops"
  using demo_setting(1) demo_room demo_size
  by (simp add: page_history_def demo_ops_def Let_def insert_nth_def delete_nth_def needed_def) (simp add: demo_page_def)

theorem page_is_list_of_cells_witness:
  "\<exists>Q. page_after demo_bt 13 demo_page demo_ops = (Page_OK, Q) \<and>
     page_cells demo_bt Q = [[3, 2, 4, 5, 6], [2, 1, 7, 8], [2, 9, 5, 0]] \<and> mp_nFree Q = 404 - 19"
proof -
  have "fold list_step demo_ops [] = [[3, 2, 4, 5, 6], [2, 1, 7, 8], [2, 9, 5, 0]]"
    by (simp add: demo_ops_def insert_nth_def delete_nth_def)
  then show ?thesis using page_is_list_of_cells [OF demo_history] demo_room by (simp add: needed_def)
qed

text \<open>
  C21. The bytes of a page are all of its state. Whatever was done to a page, setting up another MemPage on its bytes with
  btreeInitPage succeeds, even with the check of the cells switched on, and btreeComputeFreeSpace then finds the
  very fields the page had, the free space included.
\<close>

theorem page_survives_reload:
  assumes "page_history bt flags P ops" "mp_hdrOffset R = mp_hdrOffset P" "mp_data R = mp_data (snd (page_after bt flags P ops))"
  shows "let Q = snd (page_after bt flags P ops) in
    btreeInitPage bt R = (Page_OK, Q\<lparr>mp_nFree := - 1\<rparr>) \<and> btreeComputeFreeSpace bt (Q\<lparr>mp_nFree := - 1\<rparr>) = (Page_OK, Q)"
proof -
  obtain Q where Q: "page_after bt flags P ops = (Page_OK, Q)" "page_ok bt Q" "mp_ovfl Q = []" "mp_hdrOffset Q = mp_hdrOffset P"
    using history_sound [OF assms(1)] by metis
  have "bt_usableSize bt \<le> bt_pageSize bt" using assms(1) by (simp add: page_history_def page_setting_def)
  then have "btreeInitPage bt R = (Page_OK, Q\<lparr>mp_ovfl := [], mp_nFree := - 1\<rparr>)"
    using reload_sound [OF Q(2)] assms(2,3) Q(1,4) by simp
  moreover have "Q\<lparr>mp_ovfl := []\<rparr> = Q" using Q(3) by (cases Q) simp
  ultimately show ?thesis using computeFreeSpace_sound [OF Q(2)] Q(1) by simp
qed

theorem page_survives_reload_witness:
  "let Q = snd (page_after demo_bt 13 demo_page demo_ops); R = demo_page\<lparr>mp_data := mp_data Q\<rparr> in
    btreeInitPage demo_bt R = (Page_OK, Q\<lparr>mp_nFree := - 1\<rparr>) \<and> btreeComputeFreeSpace demo_bt (Q\<lparr>mp_nFree := - 1\<rparr>) = (Page_OK, Q)"
  using page_survives_reload [OF demo_history, of "demo_page\<lparr>mp_data := mp_data (snd (page_after demo_bt 13 demo_page demo_ops))\<rparr>"]
  by (simp add: Let_def)

text \<open>
  C22. The fast ways to measure a cell agree with the parsers: for each of the four kinds of pages, and all contents of
  memory, xCellSize is the nSize xParseCell finds, and at least four bytes.
\<close>

theorem cell_size_is_parse:
  assumes "page_setting bt" "decodeFlags bt flags P = (Page_OK, Q)"
  shows "xCellSize bt Q d p = unat (ci_nSize (xParseCell bt Q d p)) \<and> 4 \<le> xCellSize bt Q d p"
proof -
  have u: "bt = set_local_limits bt" "480 \<le> bt_usableSize bt" "bt_usableSize bt \<le> 65536"
    using assms(1) by (simp_all add: page_setting_def)
  note d = decodeFlags_def Let_def PTF_INTKEY_def PTF_ZERODATA_def PTF_LEAFDATA_def PTF_LEAF_def
  have "flags \<in> {2, 5, 10, 13}" using assms(2) by (auto simp: d split: if_splits)
  then have "limits_ok bt Q \<and> format_ok Q"
    using assms(2) limits_set [OF u, of Q] by (elim decodeFlags_cases [of flags bt]) auto
  then show ?thesis
    using cell_size_0 [of bt Q "\<lambda>k. d (p + k)"] cell_size_range [of bt Q d p] xCellSize_base [of bt Q d p] xParseCell_base [of bt Q d p] by simp
qed

theorem cell_size_is_parse_witness:
  "let Q = snd (decodeFlags demo_bt 13 demo_page) in
    unat (ci_nSize (xParseCell demo_bt Q (cell_bytes [2, 1, 7, 8]) 0)) = 4 \<and> xCellSize demo_bt Q (cell_bytes [2, 1, 7, 8]) 0 = 4"
proof -
  let ?Q = "snd (decodeFlags demo_bt 13 demo_page)"
  have "decodeFlags demo_bt 13 demo_page = (Page_OK, ?Q)"
    by (simp add: decodeFlags_def Let_def PTF_INTKEY_def PTF_ZERODATA_def PTF_LEAFDATA_def PTF_LEAF_def)
  moreover have "xCellSize demo_bt ?Q (cell_bytes [2, 1, 7, 8]) 0 = 4"
    by (simp add: xCellSize_def decodeFlags_def Let_def PTF_INTKEY_def PTF_ZERODATA_def PTF_LEAFDATA_def PTF_LEAF_def
      cellSizePtrTableLeaf_def read_payload_size_def skip_key_def cell_bytes_def put_list_def measure_payload_def demo_setting)
  ultimately show ?thesis
    using cell_size_is_parse [OF demo_setting(1), of 13 demo_page ?Q "cell_bytes [2, 1, 7, 8]" 0] by (simp add: Let_def)
qed


text \<open>
  C23. Defragmentation moves cells and nothing else: on any page that holds cells it succeeds, by whichever of its two
  methods, keeps the list of cells and nFree, leaves an empty list of free blocks, and at most the fragments
  the caller allows.
\<close>

theorem defragment_keeps_cells:
  assumes "page_history bt flags P ops" "fold list_step ops [] \<noteq> []"
  shows "let Q = snd (page_after bt flags P ops) in \<exists>e. defragmentPage bt f Q = (Page_OK, Q\<lparr>mp_data := e\<rparr>) \<and>
    page_cells bt (Q\<lparr>mp_data := e\<rparr>) = fold list_step ops [] \<and> get2byte e (mp_hdrOffset Q + 1) = 0 \<and>
    int (unat (e (mp_hdrOffset Q + 7))) \<le> max 0 f \<and> btreeComputeFreeSpace bt (Q\<lparr>mp_data := e\<rparr>) = (Page_OK, Q\<lparr>mp_data := e\<rparr>)"
proof -
  obtain Q where Q: "page_after bt flags P ops = (Page_OK, Q)" "page_ok bt Q" "page_cells bt Q = fold list_step ops []"
    using history_sound [OF assms(1)] by metis
  obtain t fl where lo: "laid_out bt Q t fl" using Q(2) by (rule page_okD)
  have "mp_nCell Q \<noteq> 0" using Q(3) assms(2) length_page_cells [of bt Q] by (metis length_0_conv)
  then obtain e c where e: "defragmentPage bt f Q = (Page_OK, Q\<lparr>mp_data := e\<rparr>)" "laid_out bt (Q\<lparr>mp_data := e\<rparr>) c []"
    "page_cells bt (Q\<lparr>mp_data := e\<rparr>) = page_cells bt Q" "same_header Q e" "int (unat (e (mp_hdrOffset Q + 7))) \<le> max 0 f"
    using defragmentPage_sound [OF lo] by blast
  have "e (mp_hdrOffset Q) = mp_data Q (mp_hdrOffset Q)" using e(4) laid_outD(4) [OF lo] by (simp add: same_header_def)
  then have ok: "page_ok bt (Q\<lparr>mp_data := e\<rparr>)" using page_okI [OF Q(2), of e "mp_nCell Q" "mp_nFree Q"] e(2) by simp
  have "get2byte e (mp_hdrOffset Q + 1) = 0" using spaceD(5) [OF laid_outD(8) [OF e(2)]] by simp
  then show ?thesis using e Q computeFreeSpace_sound [OF ok, of "mp_nFree Q"] by (auto simp: Let_def intro!: exI [of _ e])
qed

theorem defragment_keeps_cells_witness:
  "let Q = snd (page_after demo_bt 13 demo_page demo_ops) in \<exists>e. defragmentPage demo_bt 0 Q = (Page_OK, Q\<lparr>mp_data := e\<rparr>) \<and>
    page_cells demo_bt (Q\<lparr>mp_data := e\<rparr>) = [[3, 2, 4, 5, 6], [2, 1, 7, 8], [2, 9, 5, 0]] \<and> e (mp_hdrOffset Q + 7) = 0"
proof -
  have l: "fold list_step demo_ops [] = [[3, 2, 4, 5, 6], [2, 1, 7, 8], [2, 9, 5, 0]]"
    by (simp add: demo_ops_def insert_nth_def delete_nth_def)
  have "x = 0" if "int (unat x) \<le> max 0 0" for x :: u8
  proof -
    have "unat x = 0" using that by linarith
    then show ?thesis by (simp add: unat_eq_zero)
  qed
  then show ?thesis using defragment_keeps_cells [OF demo_history, of 0] unfolding l Let_def by blast
qed

lemma size_behind_child:
  assumes "format_ok P" "mp_childPtrSize P = 4"
  shows "xCellSize bt P (put4byte d 0 v) 0 = xCellSize bt P d 0"
proof -
  have e: "put4byte d 0 v (4 + k) = d (4 + k)" for k by (simp add: put4byte_def)
  show ?thesis
    using assms(1)
  proof (cases rule: format_cases)
    case table_node
    then show ?thesis using skip_varint_base [of "put4byte d 0 v" 4 9 0] skip_varint_base [of d 4 9 0]
      by (simp add: xCellSize_def cellSizePtrNoPayload_def e)
  next
    case index_node
    then show ?thesis using read_payload_size_base [of "put4byte d 0 v" 4 0] read_payload_size_base [of d 4 0]
      by (simp add: xCellSize_def cellSizePtr_def e)
  qed (use assms(2) in simp_all)
qed

text \<open>
  C24. insertCell puts a divider cell with the number of its child page in the first four bytes at its place in the list
  when it fits; otherwise the page is left as it is and the cell is noted as an overflow cell with its place.
\<close>

theorem divider_or_overflow:
  fixes iChild :: u32
  assumes h: "page_history bt flags P ops" "flags \<in> {2, 5}" and i: "i \<le> length (fold list_step ops [])" "i < 65536"
    and n: "n = xCellSize bt (zeroPage bt flags P) pCell 0"
  defines "Q \<equiv> snd (page_after bt flags P ops)" and "cell \<equiv> put4byte pCell 0 iChild" and "cs \<equiv> fold list_step ops []"
  shows "if needed cs + n + 2 \<le> room bt Q
    then \<exists>R. insertCell bt Page_OK (\<lambda>_ _. Page_OK) i pCell n None iChild Q = (Page_OK, R) \<and> page_cells bt R = insert_nth i (map cell [0..<n]) cs
    else insertCell bt Page_OK (\<lambda>_ _. Page_OK) i pCell n None iChild Q = (Page_OK, Q\<lparr>mp_ovfl := [(i, cell)]\<rparr>)"
proof -
  obtain R where R: "page_after bt flags P ops = (Page_OK, R)" "page_ok bt R" "page_cells bt R = cs" "mp_ovfl R = []"
      "xCellSize bt R = xCellSize bt (zeroPage bt flags P)"
    using history_sound [OF h(1)] unfolding cs_def by metis
  have Q: "Q = R" using R(1) by (simp add: Q_def)
  have z: "page_setting bt" "mp_hdrOffset P \<le> 100" "flags \<in> {2, 5, 10, 13}" using h by (auto simp: page_history_def)
  note Z = zeroPage_ok [OF z(1,3,2)]
  obtain t fl where "laid_out bt (zeroPage bt flags P) t fl" using Z(1) by (rule page_okD)
  then have "xCellSize bt R cell 0 = n"
    unfolding R(5) cell_def n using Z(5) h(2) by (subst size_behind_child) (auto dest: laid_outD)
  then show ?thesis
    using insertCell_sound [OF R(2,4), of i n pCell iChild "\<lambda>_ _. Page_OK" None] insert_overflow(2) [OF R(2), of n Page_OK "\<lambda>_ _. Page_OK" i pCell iChild]
      i R(3,4) length_page_cells [of bt R] unfolding Q cell_def cs_def [symmetric] by (auto simp: not_le)
qed

theorem divider_or_overflow_witness:
  "let Q = snd (page_after demo_bt 5 demo_page []); c = cell_bytes [0, 0, 0, 0, 3] in
    \<exists>R. insertCell demo_bt Page_OK (\<lambda>_ _. Page_OK) 0 c 5 None 7 Q = (Page_OK, R) \<and> page_cells demo_bt R = [map (put4byte c 0 7) [0..<5]]"
proof -
  let ?c = "cell_bytes [0, 0, 0, 0, 3]"
  have h: "page_history demo_bt 5 demo_page []"
    using demo_setting(1) by (simp add: page_history_def Let_def demo_page_def)
  have "5 = xCellSize demo_bt (zeroPage demo_bt 5 demo_page) ?c 0"
    by (simp add: xCellSize_def zeroPage_def decodeFlags_def Let_def PTF_INTKEY_def PTF_ZERODATA_def PTF_LEAFDATA_def
      PTF_LEAF_def cellSizePtrNoPayload_def skip_varint.simps cell_bytes_def put_list_def demo_setting)
  moreover have "room demo_bt (snd (page_after demo_bt 5 demo_page [])) = 400"
    using zeroPage_ok(4,5) [OF demo_setting(1), of 5 demo_page] by (simp add: page_after_def room_def demo_setting demo_page_def)
  ultimately show ?thesis
    using divider_or_overflow [OF h, of 0 5 ?c 7] by (simp add: Let_def needed_def insert_nth_def)
qed

end
