(* ===== verification/Btree_Corrupt.thy ===== *)
theory Btree_Corrupt
  imports Btree_Runs
begin

text \<open>
  B-tree pages of SQLite with unknown content, sqlite3/src/sqlite3.c: no operation on cells writes behind the usable
  part of a page, whatever its bytes are.
\<close>

section \<open>Writes on any bytes\<close>

text \<open>\<open>inside u d e\<close>: what has been written lies in front of \<open>u\<close>.\<close>

definition inside :: "nat \<Rightarrow> bytes \<Rightarrow> bytes \<Rightarrow> bool" where
  "inside u d e = (\<forall>k \<ge> u. e k = d k)"

named_theorems inside_intros

lemma inside_refl [inside_intros]: "inside u d d"
  by (simp add: inside_def)

lemma inside_upd [inside_intros]: "inside u d e \<Longrightarrow> k < u \<Longrightarrow> inside u d (e(k := v))"
  by (simp add: inside_def)

lemma inside_put2byte [inside_intros]: "inside u d e \<Longrightarrow> p + 2 \<le> u \<Longrightarrow> inside u d (put2byte e p v)"
  by (simp add: inside_def put2byte_def)

lemma inside_copy [inside_intros]: "inside u d e \<Longrightarrow> p + n \<le> u \<Longrightarrow> inside u d (copy e p f q n)"
  by (simp add: inside_def copy_def)

lemma inside_fill [inside_intros]: "inside u d e \<Longrightarrow> p + n \<le> u \<Longrightarrow> inside u d (fill e p v n)"
  by (simp add: inside_def fill_def)

lemma inside_put4byte [inside_intros]: "inside u d e \<Longrightarrow> p + 4 \<le> u \<Longrightarrow> inside u d (put4byte e p v)"
  by (simp add: inside_def put4byte_def)

lemma inside_trans: "inside u d e \<Longrightarrow> inside u e f \<Longrightarrow> inside u d f"
  by (simp add: inside_def)

text \<open>The fields of a page that every operation relies on; nothing is known about its bytes.\<close>

definition bounded :: "btshared \<Rightarrow> mempage \<Rightarrow> bool" where
  "bounded bt P = (limits_ok bt P \<and> format_ok P \<and> bt_usableSize bt < 65536 \<and> mp_hdrOffset P + 12 \<le> bt_usableSize bt \<and>
     mp_cellOffset P = mp_hdrOffset P + 8 + mp_childPtrSize P \<and> gap P \<le> bt_usableSize bt)"

lemma boundedD:
  assumes "bounded bt P"
  shows "limits_ok bt P" "format_ok P" "bt_usableSize bt < 65536" "mp_hdrOffset P + 12 \<le> bt_usableSize bt"
    "mp_cellOffset P = mp_hdrOffset P + 8 + mp_childPtrSize P" "gap P \<le> bt_usableSize bt"
  using assms by (simp_all add: bounded_def)

lemma bounded_upd: "bounded bt (P\<lparr>mp_data := d\<rparr>) = bounded bt P" "bounded bt (P\<lparr>mp_nFree := v\<rparr>) = bounded bt P"
  by (simp_all add: bounded_def)

section \<open>Allocation\<close>

lemma find_slot_inside:
  assumes "4 \<le> n" "hdr + 8 \<le> u" "iAddr + 2 \<le> u"
  shows "case find_slot_loop u hdr n d iAddr pc of (rc, slot, e) \<Rightarrow> inside u d e \<and> (\<forall>s. slot = Some s \<longrightarrow> rc = Page_OK \<and> s + n \<le> u) \<and>
    (slot = None \<longrightarrow> e = d)"
  using assms
proof (induction u hdr n d iAddr pc rule: find_slot_loop.induct)
  case (1 u hdr n d iAddr pc)
  show ?case
  proof (cases "pc + n \<le> u \<and> \<not> n \<le> get2byte d (pc + 2) \<and> \<not> get2byte d pc \<le> pc")
    case True
    then have "find_slot_loop u hdr n d iAddr pc = find_slot_loop u hdr n d pc (get2byte d pc)"
      by (subst find_slot_loop.simps) (simp add: Let_def)
    then show ?thesis using "1.IH" [OF _ refl _ refl] True "1.prems" by simp
  next
    case False
    then show ?thesis
      using "1.prems" by (subst find_slot_loop.simps) (auto simp: Let_def inside_refl intro!: inside_intros)
  qed
qed

lemma pack_inside:
  assumes "\<And>i. i \<in> set is \<Longrightarrow> mp_cellOffset P + i * 2 + 2 \<le> t" "c \<le> bt_usableSize bt" "t \<le> bt_usableSize bt"
  shows "case pack_cells bt P src t is d c of (rc, e, c') \<Rightarrow> inside (bt_usableSize bt) d e \<and> c' \<le> bt_usableSize bt"
  using assms
proof (induction "is" arbitrary: d c)
  case (Cons i "is")
  let ?pc = "get2byte d (mp_cellOffset P + i * 2)"
  let ?n = "xCellSize bt P src ?pc"
  let ?d = "copy (put2byte d (mp_cellOffset P + i * 2) (c - ?n)) (c - ?n) src ?pc ?n"
  have i: "mp_cellOffset P + i * 2 + 2 \<le> bt_usableSize bt" using Cons.prems(1) [of i] Cons.prems(3) by simp
  show ?case
  proof (cases "bt_usableSize bt - 4 < ?pc \<or> c < ?n + t \<or> bt_usableSize bt < ?pc + ?n")
    case True
    then show ?thesis using Cons.prems(2) by (auto simp: Let_def inside_refl)
  next
    case False
    then have "inside (bt_usableSize bt) d ?d" using i Cons.prems(2) by (intro inside_intros) simp_all
    moreover have "case pack_cells bt P src t is ?d (c - ?n) of (rc, e, c') \<Rightarrow> inside (bt_usableSize bt) ?d e \<and> c' \<le> bt_usableSize bt"
      using Cons.prems by (intro Cons.IH) auto
    ultimately show ?thesis using False by (auto simp: Let_def dest: inside_trans split: prod.splits)
  qed
qed (simp add: inside_refl)

lemma shift_pointers_inside: "gap P \<le> u \<Longrightarrow> inside u d (shift_pointers P a b sz sz2 d)"
proof -
  assume g: "gap P \<le> u"
  have F: "(\<And>i. i \<in> set is \<Longrightarrow> i < mp_nCell P) \<Longrightarrow> inside u d (fold (\<lambda>i d. let a' = mp_cellOffset P + 2 * i; pc = get2byte d a' in
             if pc < a then put2byte d a' (pc + sz) else if pc < b then put2byte d a' (pc + sz2) else d) is d)" for "is"
  proof (induction "is" arbitrary: d)
    case (Cons i "is")
    let ?f = "\<lambda>i d. let a' = mp_cellOffset P + 2 * i; pc = get2byte d a' in
             if pc < a then put2byte d a' (pc + sz) else if pc < b then put2byte d a' (pc + sz2) else d"
    have "inside u d (?f i d)" using Cons.prems [of i] g by (auto simp: Let_def intro!: inside_intros)
    moreover have "inside u (?f i d) (fold ?f is (?f i d))" using Cons.prems by (intro Cons.IH) simp
    ultimately show ?case by (simp only: fold.simps comp_def) (rule inside_trans)
  qed (simp add: inside_refl)
  then show ?thesis unfolding shift_pointers_def by (intro F) simp
qed

lemma shift_pointers_header: "k < mp_cellOffset P \<or> gap P \<le> k \<Longrightarrow> shift_pointers P a b sz sz2 d k = d k"
proof -
  assume k: "k < mp_cellOffset P \<or> gap P \<le> k"
  have F: "(\<And>i. i \<in> set is \<Longrightarrow> i < mp_nCell P) \<Longrightarrow> fold (\<lambda>i d. let a' = mp_cellOffset P + 2 * i; pc = get2byte d a' in
             if pc < a then put2byte d a' (pc + sz) else if pc < b then put2byte d a' (pc + sz2) else d) is d k = d k" for "is"
  proof (induction "is" arbitrary: d)
    case (Cons i "is")
    have "k \<noteq> mp_cellOffset P + 2 * i \<and> k \<noteq> mp_cellOffset P + 2 * i + 1" using Cons.prems [of i] k by auto
    then show ?case using Cons by (simp add: Let_def put2byte_other)
  qed simp
  then show ?thesis unfolding shift_pointers_def by (intro F) simp
qed

lemma shift_inside:
  assumes b: "bounded bt P" and g: "gap P \<le> get2byte (mp_data P) (mp_hdrOffset P + 5)" 
    and s: "defragment_shift bt P = Some (Inr (e, c))"
  shows "inside (bt_usableSize bt) (mp_data P) e \<and> c \<le> bt_usableSize bt \<and> e (mp_hdrOffset P + 7) = mp_data P (mp_hdrOffset P + 7)"
proof -
  note B = boundedD [OF b]
  let ?u = "bt_usableSize bt" and ?h = "mp_hdrOffset P" and ?d = "mp_data P"
  define f where "f = get2byte ?d (?h + 1)"
  define f2 where "f2 = get2byte ?d f"
  define sz where "sz = get2byte ?d (f + 2)"
  define sz2 where "sz2 = get2byte ?d (f2 + 2)"
  define t where "t = get2byte ?d (?h + 5)"
  have h: "?h + 7 < t" "?h + 7 < mp_cellOffset P" using g B(5) by (simp_all add: t_def)
  consider (one) "f2 = 0" "t < f" "f + sz \<le> ?u" "e = shift_pointers P f f2 sz 0 (copy ?d (t + sz) ?d t (f - t))" "c = t + sz"
    | (two) "f2 \<noteq> 0" "t < f" "f + sz \<le> f2" "f2 + sz2 \<le> ?u" 
      "e = shift_pointers P f f2 (sz + sz2) sz2 (copy (copy ?d (f + sz + sz2) ?d (f + sz) (f2 - (f + sz))) (t + (sz + sz2))
         (copy ?d (f + sz + sz2) ?d (f + sz) (f2 - (f + sz))) t (f - t))" "c = t + (sz + sz2)"
  proof (cases "f2 = 0")
    case True
    have "t < f \<and> f + sz \<le> ?u \<and> e = shift_pointers P f f2 sz 0 (copy ?d (t + sz) ?d t (f - t)) \<and> c = t + sz"
      using s True unfolding defragment_shift_def Let_def f_def [symmetric] f2_def [symmetric] sz_def [symmetric] t_def [symmetric]
      by (clarsimp split: if_splits)
    then show thesis using one True by blast
  next
    case False
    have "t < f \<and> f + sz \<le> f2 \<and> f2 + sz2 \<le> ?u \<and> c = t + (sz + sz2) \<and>
      e = shift_pointers P f f2 (sz + sz2) sz2 (copy (copy ?d (f + sz + sz2) ?d (f + sz) (f2 - (f + sz))) (t + (sz + sz2))
         (copy ?d (f + sz + sz2) ?d (f + sz) (f2 - (f + sz))) t (f - t))"
      using s False unfolding defragment_shift_def Let_def f_def [symmetric] f2_def [symmetric] sz_def [symmetric] sz2_def [symmetric] t_def [symmetric]
      by (clarsimp split: if_splits)
    then show thesis using two False by blast
  qed
  then show ?thesis
  proof cases
    case one
    have "inside ?u ?d (copy ?d (t + sz) ?d t (f - t))" using one by (intro inside_intros) simp
    then have "inside ?u ?d e" unfolding one(4) by (rule inside_trans) (rule shift_pointers_inside [OF B(6)])
    moreover have "e (?h + 7) = ?d (?h + 7)" unfolding one(4) using h by (simp add: shift_pointers_header copy_def)
    ultimately show ?thesis using one by simp
  next
    case two
    have "inside ?u ?d (copy (copy ?d (f + sz + sz2) ?d (f + sz) (f2 - (f + sz))) (t + (sz + sz2))
         (copy ?d (f + sz + sz2) ?d (f + sz) (f2 - (f + sz))) t (f - t))" using two by (intro inside_intros) simp_all
    then have "inside ?u ?d e" unfolding two(5) by (rule inside_trans) (rule shift_pointers_inside [OF B(6)])
    moreover have "e (?h + 7) = ?d (?h + 7)" unfolding two(5) using h two(2) by (simp add: shift_pointers_header copy_def)
    ultimately show ?thesis using two by simp
  qed
qed

lemma out_inside:
  assumes b: "bounded bt P" and c: "c \<le> bt_usableSize bt" and i: "inside (bt_usableSize bt) (mp_data P) d"
  shows "\<exists>rc e. defragment_out P d c = (rc, P\<lparr>mp_data := e\<rparr>) \<and> inside (bt_usableSize bt) (mp_data P) e \<and>
    (rc = Page_OK \<longrightarrow> int (unat (d (mp_hdrOffset P + 7))) + int n + 2 \<le> mp_nFree P \<longrightarrow>
       get2byteNotZero e (mp_hdrOffset P + 5) = c \<and> gap P + 2 + n \<le> c)"
proof -
  note B = boundedD [OF b]
  let ?u = "bt_usableSize bt" and ?h = "mp_hdrOffset P"
  let ?e = "fill ((put2byte d (?h + 5) c)(?h + 1 := 0, ?h + 2 := 0)) (gap P) 0 (c - gap P)"
  have "inside ?u (mp_data P) ?e"
    using B(4,6) c i by (intro inside_intros) simp_all
  moreover have "get2byteNotZero ?e (?h + 5) = c" if "0 < c"
  proof -
    have "get2byte ?e (?h + 5) = get2byte (put2byte d (?h + 5) c) (?h + 5)"
      using B(5) by (intro get2byte_local) (auto simp: fill_def)
    then show ?thesis using notzero_put2byte [of c d "?h + 5"] that c B(3) by (simp add: notzero split: if_splits)
  qed
  ultimately show ?thesis using i unfolding defragment_out_def Let_def
    by (cases "int (unat (d (?h + 7))) + int c - int (gap P) \<noteq> mp_nFree P") auto
qed

lemma defragment_inside:
  assumes b: "bounded bt P" and g: "gap P \<le> get2byte (mp_data P) (mp_hdrOffset P + 5)" "get2byte (mp_data P) (mp_hdrOffset P + 5) \<le> bt_usableSize bt"
    and n: "int n + 2 \<le> mp_nFree P" "f \<le> mp_nFree P - (2 + int n)"
  shows "\<exists>rc e. defragmentPage bt f P = (rc, P\<lparr>mp_data := e\<rparr>) \<and> inside (bt_usableSize bt) (mp_data P) e \<and>
    (rc = Page_OK \<longrightarrow> gap P + 2 + n \<le> get2byteNotZero e (mp_hdrOffset P + 5) \<and> get2byteNotZero e (mp_hdrOffset P + 5) \<le> bt_usableSize bt)"
proof -
  note B = boundedD [OF b]
  let ?u = "bt_usableSize bt" and ?h = "mp_hdrOffset P" and ?d = "mp_data P"
  have self: "P = P\<lparr>mp_data := ?d\<rparr>" by simp
  have fin: "\<exists>rc e. defragment_out P d c = (rc, P\<lparr>mp_data := e\<rparr>) \<and> inside ?u ?d e \<and>
      (rc = Page_OK \<longrightarrow> gap P + 2 + n \<le> get2byteNotZero e (?h + 5) \<and> get2byteNotZero e (?h + 5) \<le> ?u)"
    if "c \<le> ?u" "inside ?u ?d d" "int (unat (d (?h + 7))) + int n + 2 \<le> mp_nFree P" for d c
  proof -
    note c = that
    obtain rc e where "defragment_out P d c = (rc, P\<lparr>mp_data := e\<rparr>)" "inside ?u ?d e"
      "rc = Page_OK \<longrightarrow> int (unat (d (?h + 7))) + int n + 2 \<le> mp_nFree P \<longrightarrow> get2byteNotZero e (?h + 5) = c \<and> gap P + 2 + n \<le> c"
      using out_inside [OF b c(1,2), of n] by blast
    then show ?thesis using c(1,3) by (intro exI [of _ rc] exI [of _ e]) simp
  qed
  consider (quick) x where "int (unat (?d (?h + 7))) \<le> f" "defragment_shift bt P = Some x"
    | (slow) "(if int (unat (?d (?h + 7))) \<le> f then defragment_shift bt P else None) = None"
    by (cases "int (unat (?d (?h + 7))) \<le> f"; cases "defragment_shift bt P") auto
  then show ?thesis
  proof cases
    case quick
    show ?thesis
    proof (cases x)
      case (Inl y)
      then have "defragmentPage bt f P = (Page_CORRUPT, P\<lparr>mp_data := ?d\<rparr>)" using quick by (simp add: defragmentPage_def Let_def)
      then show ?thesis using inside_refl by blast
    next
      case (Inr y)
      then obtain d c where x: "x = Inr (d, c)" by (cases y) simp
      then have "defragmentPage bt f P = defragment_out P d c" using quick by (simp add: defragmentPage_def Let_def)
      moreover have "int (unat (?d (?h + 7))) + int n + 2 \<le> mp_nFree P" using quick(1) n(2) by linarith
      ultimately show ?thesis using fin [of c d] shift_inside [OF b g(1)] quick(2) x by auto
    qed
  next
    case slow
    obtain rc d c where p: "pack_cells bt P ?d (get2byte ?d (?h + 5)) [0..<mp_nCell P] ?d ?u = (rc, d, c)" by (metis prod_cases3)
    have "case (rc, d, c) of (rc, e, c') \<Rightarrow> inside ?u ?d e \<and> c' \<le> ?u"
      unfolding p [symmetric] using g by (intro pack_inside) auto
    then have i: "inside ?u ?d d" "c \<le> ?u" by simp_all
    then have "inside ?u ?d (d(?h + 7 := 0))" using B(4) by (intro inside_intros) simp_all
    moreover have "defragmentPage bt f P = (if rc \<noteq> Page_OK then (rc, P\<lparr>mp_data := d\<rparr>) else defragment_out P (d(?h + 7 := 0)) c)"
      unfolding defragmentPage_def Let_def slow option.case p by simp
    ultimately show ?thesis using fin [of c "d(?h + 7 := 0)"] i n(1) by (cases rc) auto
  qed
qed

lemma allocate_inside:
  assumes b: "bounded bt P" and n: "4 \<le> n" "int n + 2 \<le> mp_nFree P"
  shows "\<exists>rc idx e. allocateSpace bt n P = (rc, idx, P\<lparr>mp_data := e\<rparr>) \<and> inside (bt_usableSize bt) (mp_data P) e \<and>
    (rc = Page_OK \<longrightarrow> gap P < idx \<and> idx + n \<le> bt_usableSize bt)"
proof -
  note B = boundedD [OF b]
  let ?u = "bt_usableSize bt" and ?h = "mp_hdrOffset P" and ?d = "mp_data P"
  let ?t = "get2byte ?d (?h + 5)"
  have self: "P = P\<lparr>mp_data := ?d\<rparr>" by simp
  show ?thesis
  proof (cases "gap P \<le> ?t \<and> ?t \<le> ?u")
    case False
    then have "allocateSpace bt n P = (Page_CORRUPT, 0, P\<lparr>mp_data := ?d\<rparr>)" using B(3) by (auto simp: allocateSpace_def Let_def)
    then show ?thesis using inside_refl by blast
  next
    case True
    have gap: "\<exists>rc idx e. allocate_from_gap bt n (gap P) ?t P = (rc, idx, P\<lparr>mp_data := e\<rparr>) \<and> inside ?u ?d e \<and>
        (rc = Page_OK \<longrightarrow> gap P < idx \<and> idx + n \<le> ?u)"
    proof (cases "?t < gap P + 2 + n")
      case False
      then show ?thesis using True B(4)
        by (intro exI [of _ Page_OK] exI [of _ "?t - n"] exI [of _ "put2byte ?d (?h + 5) (?t - n)"])
          (auto simp: allocate_from_gap_def Let_def intro!: inside_intros)
    next
      case tight: True
      obtain rc e where e: "defragmentPage bt (min 4 (mp_nFree P - (2 + int n))) P = (rc, P\<lparr>mp_data := e\<rparr>)" "inside ?u ?d e"
        "rc = Page_OK \<Longrightarrow> gap P + 2 + n \<le> get2byteNotZero e (?h + 5) \<and> get2byteNotZero e (?h + 5) \<le> ?u"
        using defragment_inside [OF b conjunct1 [OF True] conjunct2 [OF True] n(2), of "min 4 (mp_nFree P - (2 + int n))"] by auto
      show ?thesis
      proof (cases "rc = Page_OK")
        case True
        then have "allocate_from_gap bt n (gap P) ?t P = (Page_OK, get2byteNotZero e (?h + 5) - n,
            P\<lparr>mp_data := put2byte e (?h + 5) (get2byteNotZero e (?h + 5) - n)\<rparr>)"
          using tight e(1) by (simp add: allocate_from_gap_def Let_def)
        moreover have "inside ?u ?d (put2byte e (?h + 5) (get2byteNotZero e (?h + 5) - n))" using B(4) e(2) by (intro inside_intros) simp_all
        ultimately show ?thesis using e(3) [OF True] by fastforce
      next
        case False
        then show ?thesis using tight e(1,2) by (auto simp: allocate_from_gap_def Let_def intro!: exI [of _ e])
      qed
    qed
    have checked: "(if ?t < gap P then if ?t = 0 \<and> ?u = 65536 then Some 65536 else None else if ?u < ?t then None else Some ?t) = Some ?t"
      using True by simp
    show ?thesis
    proof (cases "(?d (?h + 2) \<noteq> 0 \<or> ?d (?h + 1) \<noteq> 0) \<and> gap P + 2 \<le> ?t")
      case False
      then have "allocateSpace bt n P = allocate_from_gap bt n (gap P) ?t P"
        unfolding allocateSpace_def Let_def checked option.case by auto
      then show ?thesis using gap by simp
    next
      case True
      obtain rc slot e where r: "find_slot_loop ?u ?h n ?d (?h + 1) (get2byte ?d (?h + 1)) = (rc, slot, e)" by (metis prod_cases3)
      have "case (rc, slot, e) of (rc, slot, e) \<Rightarrow> inside ?u ?d e \<and> (\<forall>s. slot = Some s \<longrightarrow> rc = Page_OK \<and> s + n \<le> ?u) \<and> (slot = None \<longrightarrow> e = ?d)"
        unfolding r [symmetric] using B(4) n(1) by (intro find_slot_inside) simp_all
      then have i: "inside ?u ?d e" "\<And>s. slot = Some s \<Longrightarrow> s + n \<le> ?u" "slot = None \<Longrightarrow> e = ?d" by simp_all
      have run: "allocateSpace bt n P = (case slot of
          Some g2 \<Rightarrow> (if g2 \<le> gap P then Page_CORRUPT else Page_OK, g2, P\<lparr>mp_data := e\<rparr>)
        | None \<Rightarrow> if rc \<noteq> Page_OK then (rc, 0, P\<lparr>mp_data := e\<rparr>) else allocate_from_gap bt n (gap P) ?t (P\<lparr>mp_data := e\<rparr>))"
        unfolding allocateSpace_def Let_def checked option.case pageFindSlot_def r using True by simp
      show ?thesis
      proof (cases slot)
        case None
        then have "P\<lparr>mp_data := e\<rparr> = P" using i(3) by simp
        then have "allocateSpace bt n P = (if rc \<noteq> Page_OK then (rc, 0, P\<lparr>mp_data := e\<rparr>) else allocate_from_gap bt n (gap P) ?t P)"
          using run None by simp
        then have "allocateSpace bt n P = allocate_from_gap bt n (gap P) ?t P \<or> rc \<noteq> Page_OK \<and> allocateSpace bt n P = (rc, 0, P\<lparr>mp_data := e\<rparr>)"
          by (cases "rc = Page_OK") simp_all
        then show ?thesis using gap i(1) by (elim disjE) (simp, blast)
      next
        case (Some s)
        then have "allocateSpace bt n P = (if s \<le> gap P then Page_CORRUPT else Page_OK, s, P\<lparr>mp_data := e\<rparr>)" using run by simp
        then show ?thesis using i(1) i(2) [OF Some] by (auto simp: not_le)
      qed
    qed
  qed
qed

section \<open>Release\<close>

lemma free_place_front: "free_place d c a = Some (p, b) \<Longrightarrow> p = a \<or> p < c"
proof (induction d c a arbitrary: p b rule: free_place.induct)
  case (1 d c a)
  show ?case
  proof (cases "get2byte d a < c \<and> \<not> get2byte d a \<le> a")
    case True
    then have "free_place d c a = free_place d c (get2byte d a)" by (subst free_place.simps) (simp add: Let_def)
    then have "p = get2byte d a \<or> p < c" using "1.IH" [OF refl] True "1.prems" by metis
    then show ?thesis using True by auto
  next
    case False
    then show ?thesis using "1.prems" by (subst (asm) free_place.simps) (auto simp: Let_def split: if_splits)
  qed
qed

lemma coalesce_front:
  assumes "coalesce bt h d c n = Some (s, e, m, p, b, f)" "c + n \<le> bt_usableSize bt" "4 \<le> n" "bt_usableSize bt < 65536"
  shows "s \<le> c \<and> s + m \<le> bt_usableSize bt \<and> (p = h + 1 \<or> p < c)"
proof -
  let ?u = "bt_usableSize bt"
  obtain q b0 where q: "free_place d c (h + 1) = Some (q, b0)" using assms(1) by (cases "free_place d c (h + 1)") (auto simp: coalesce_def Let_def)
  note qc = free_place_front [OF q]
  obtain f1 e1 m1 b1 where one: "(if b0 \<noteq> 0 \<and> b0 \<le> c + n + 3 then if b0 < c + n then None
      else let nFrag = b0 - (c + n); iEnd = b0 + get2byte d (b0 + 2) in if ?u < iEnd then None
        else Some (nFrag, iEnd, (iEnd - c) mod 65536, get2byte d b0) else Some (0, c + n, n, b0)) = Some (f1, e1, m1, b1)"
    using assms(1) q unfolding coalesce_def Let_def by (auto split: if_splits)
  have e1: "e1 \<le> ?u" "c \<le> e1" "c + m1 \<le> ?u"
    using one assms(2,3,4) by (auto simp: Let_def split: if_splits)
  have "s \<le> c \<and> s + m \<le> ?u \<and> p = q"
    using assms(1,4) q e1 qc unfolding coalesce_def Let_def q option.case prod.case one [unfolded Let_def]
    by (auto split: if_splits)
  then show ?thesis using qc by auto
qed

lemma freeSpace_inside:
  assumes b: "bounded bt P" and c: "c + n \<le> bt_usableSize bt" "4 \<le> n"
  shows "\<exists>rc e v. freeSpace bt c n P = (rc, P\<lparr>mp_data := e, mp_nFree := v\<rparr>) \<and> inside (bt_usableSize bt) (mp_data P) e"
proof -
  note B = boundedD [OF b]
  let ?u = "bt_usableSize bt" and ?h = "mp_hdrOffset P" and ?d = "mp_data P"
  let ?x = "if ?d (?h + 2) = 0 \<and> ?d (?h + 1) = 0 then Some (c, c + n, n, ?h + 1, 0, 0) else coalesce bt ?h ?d c n"
  show ?thesis
  proof (cases ?x)
    case None
    then have "freeSpace bt c n P = (Page_CORRUPT, P\<lparr>mp_data := ?d, mp_nFree := mp_nFree P\<rparr>)"
      unfolding freeSpace_def Let_def None option.case by simp
    then show ?thesis using inside_refl by blast
  next
    case (Some y)
    obtain s e m p b' f where y: "y = (s, e, m, p, b', f)" by (metis prod_cases6)
    have r: "s \<le> c \<and> s + m \<le> ?u \<and> (p = ?h + 1 \<or> p < c)"
      using Some y coalesce_front [of bt ?h ?d c n s e m p b' f] c B(3) by (auto split: if_splits)
    define d1 where "d1 = ?d(?h + 7 := ?d (?h + 7) - of_nat f)"
    define d2 where "d2 = (if fast_secure bt then fill d1 s 0 m else d1)"
    have "inside ?u ?d d1" unfolding d1_def using B(4) by (intro inside_intros) simp_all
    then have d2: "inside ?u ?d d2" unfolding d2_def using r by (auto intro!: inside_intros)
    define R where "R x = (\<exists>rc e v. x = (rc, P\<lparr>mp_data := e, mp_nFree := v\<rparr>) \<and> inside ?u ?d e)" for x :: "page_rc \<times> mempage"
    have R: "R (rc, P\<lparr>mp_data := e, mp_nFree := v\<rparr>)" if "inside ?u ?d e" for rc e v unfolding R_def using that by blast
    have "P\<lparr>mp_data := d2\<rparr> = P\<lparr>mp_data := d2, mp_nFree := mp_nFree P\<rparr>" by simp
    then have "R (Page_CORRUPT, P\<lparr>mp_data := d2\<rparr>)" using R [OF d2] by metis
    moreover have "R (Page_OK, P\<lparr>mp_data := put2byte (put2byte d2 (?h + 1) b') (?h + 5) e, mp_nFree := mp_nFree P + int n\<rparr>)"
      using d2 B(4) by (intro R inside_intros) simp_all
    moreover have "R (Page_OK, P\<lparr>mp_data := put2byte (put2byte (put2byte d2 p s) s b') (s + 2) m, mp_nFree := mp_nFree P + int n\<rparr>)"
      using d2 B(4) r c by (intro R inside_intros) auto
    moreover have run: "freeSpace bt c n P = (let x = get2byte d1 (?h + 5) in
          if s \<le> x then
            if s < x then (Page_CORRUPT, P\<lparr>mp_data := d2\<rparr>)
            else if p \<noteq> ?h + 1 then (Page_CORRUPT, P\<lparr>mp_data := d2\<rparr>)
            else (Page_OK, P\<lparr>mp_data := put2byte (put2byte d2 (?h + 1) b') (?h + 5) e, mp_nFree := mp_nFree P + int n\<rparr>)
          else (Page_OK, P\<lparr>mp_data := put2byte (put2byte (put2byte d2 p s) s b') (s + 2) m, mp_nFree := mp_nFree P + int n\<rparr>))"
      unfolding freeSpace_def Let_def Some y option.case prod.case d1_def d2_def by simp
    ultimately have "R (freeSpace bt c n P)" by (simp only: run Let_def split: if_split) simp
    then show ?thesis unfolding R_def .
  qed
qed

section \<open>Insertion and removal\<close>

text \<open>What every operation keeps.\<close>

definition stays_inside :: "btshared \<Rightarrow> mempage \<Rightarrow> mempage \<Rightarrow> bool" where
  "stays_inside bt P Q = (bounded bt Q \<and> inside (bt_usableSize bt) (mp_data P) (mp_data Q))"

lemma stays_insideI:
  assumes "bounded bt P" "inside (bt_usableSize bt) (mp_data P) e" "mp_cellOffset P + 2 * c \<le> bt_usableSize bt"
  shows "stays_inside bt P (P\<lparr>mp_nFree := v, mp_nCell := c, mp_data := e\<rparr>)"
  using assms by (simp add: stays_inside_def bounded_def)

lemma stays_inside_data: "bounded bt P \<Longrightarrow> inside (bt_usableSize bt) (mp_data P) e \<Longrightarrow> stays_inside bt P (P\<lparr>mp_data := e, mp_nFree := v\<rparr>)"
  by (simp add: stays_inside_def bounded_def)

lemma stays_inside_refl: "bounded bt P \<Longrightarrow> stays_inside bt P P"
  by (simp add: stays_inside_def inside_refl)

lemma stays_inside_ovfl: "bounded bt P \<Longrightarrow> stays_inside bt P (P\<lparr>mp_ovfl := x\<rparr>)"
  by (simp add: stays_inside_def inside_refl bounded_def limits_ok_def format_ok_def)

lemma insert_inside:
  assumes b: "bounded bt P" and i: "i \<le> mp_nCell P" and n: "4 \<le> n" "int n + 2 \<le> mp_nFree P"
    and w: "\<And>d idx. idx + n \<le> bt_usableSize bt \<Longrightarrow> inside (bt_usableSize bt) d (write d idx)"
  shows "stays_inside bt P (snd (insert_on_page bt wr ptrmap write i pCell n P))"
proof -
  note B = boundedD [OF b]
  let ?u = "bt_usableSize bt" and ?h = "mp_hdrOffset P" and ?d = "mp_data P"
  obtain rc idx e where a: "allocateSpace bt n P = (rc, idx, P\<lparr>mp_data := e\<rparr>)" "inside ?u ?d e"
    "rc = Page_OK \<longrightarrow> gap P < idx \<and> idx + n \<le> ?u" using allocate_inside [OF b n] by blast
  consider "wr \<noteq> Page_OK" | "wr = Page_OK" "rc \<noteq> Page_OK" | "wr = Page_OK" "rc = Page_OK" by blast
  then show ?thesis
  proof cases
    case 1
    then show ?thesis using b by (simp add: insert_on_page_def stays_inside_refl)
  next
    case 2
    then show ?thesis using a stays_inside_data [OF b a(2), of "mp_nFree P"] by (simp add: insert_on_page_def)
  next
    case 3
    then have idx: "gap P < idx" "idx + n \<le> ?u" using a(3) by simp_all
    define p where "p = mp_cellOffset P + i * 2"
    define f where "f = put2byte (copy (write e idx) (p + 2) (write e idx) p (2 * (mp_nCell P - i))) p idx"
    define g where "g = (let d = f(?h + 4 := f (?h + 4) + 1) in if d (?h + 4) = 0 then d(?h + 3 := d (?h + 3) + 1) else d)"
    have p: "p + 2 + 2 * (mp_nCell P - i) \<le> ?u" "p + 2 \<le> ?u" using i idx n(1) by (simp_all add: p_def)
    have "inside ?u ?d (write e idx)" using a(2) w [OF idx(2)] by (rule inside_trans)
    then have "inside ?u ?d f" unfolding f_def using p by (intro inside_intros) simp_all
    then have g: "inside ?u ?d g" using B(4) by (auto simp: g_def Let_def intro!: inside_intros)
    have "mp_nCell P + 1 < 65536" using idx n(1) B(3) by simp
    then have "snd (insert_on_page bt wr ptrmap write i pCell n P) =
        P\<lparr>mp_nFree := mp_nFree P - int ((2 + n) mod 65536), mp_nCell := mp_nCell P + 1, mp_data := g\<rparr>"
      using 3 by (simp add: insert_on_page_def a(1) Let_def f_def g_def p_def)
    then show ?thesis using stays_insideI [OF b g, of "mp_nCell P + 1"] idx n(1) by simp
  qed
qed

lemma insertCellFast_inside:
  assumes "bounded bt P" "i \<le> mp_nCell P" "4 \<le> n"
  shows "stays_inside bt P (snd (insertCellFast bt wr ptrmap i c n P))"
proof (cases "mp_nFree P < int n + 2")
  case True
  then show ?thesis using assms(1) by (simp add: insertCellFast_def stays_inside_ovfl)
next
  case False
  then show ?thesis
    using insert_inside [OF assms, of "\<lambda>d idx. copy d idx c 0 n" wr ptrmap c] by (simp add: insertCellFast_def inside_copy inside_refl)
qed

lemma insertCell_inside:
  assumes "bounded bt P" "i \<le> mp_nCell P" "4 \<le> n"
  shows "stays_inside bt P (snd (insertCell bt wr ptrmap i c n tmp iChild P))"
proof (cases "mp_ovfl P \<noteq> [] \<or> mp_nFree P < int n + 2")
  case True
  then show ?thesis using assms(1) by (auto simp: insertCell_def Let_def stays_inside_ovfl)
next
  case False
  have "inside (bt_usableSize bt) d (put4byte (copy d (idx + 4) c 4 (n - 4)) idx iChild)" if "idx + n \<le> bt_usableSize bt" for d idx
    using that assms(3) by (intro inside_intros) simp_all
  then show ?thesis
    using False insert_inside [OF assms, of "\<lambda>d idx. put4byte (copy d (idx + 4) c 4 (n - 4)) idx iChild" wr ptrmap c]
    by (simp add: insertCell_def)
qed

lemma dropCell_inside:
  assumes b: "bounded bt P" and i: "i < mp_nCell P" and n: "4 \<le> n" 
  shows "stays_inside bt P (snd (dropCell bt i n (Page_OK, P)))"
proof -
  note B = boundedD [OF b]
  let ?u = "bt_usableSize bt" and ?h = "mp_hdrOffset P" and ?d = "mp_data P"
  let ?c = "get2byte ?d (mp_cellOffset P + 2 * i)"
  show ?thesis
  proof (cases "?u < ?c + n")
    case True
    then show ?thesis using b by (simp add: dropCell_def Let_def stays_inside_refl)
  next
    case False
    then have small: "?c mod 65536 = ?c" "n mod 65536 = n" using B(3) by simp_all
    obtain rc e v where f: "freeSpace bt ?c n P = (rc, P\<lparr>mp_data := e, mp_nFree := v\<rparr>)" "inside ?u ?d e"
      using freeSpace_inside [OF b, of ?c n] False n by auto
    have nc: "(mp_nCell P + 65535) mod 65536 = mp_nCell P - 1" using i B(3,6) by (cases "mp_nCell P") simp_all
    let ?e1 = "put2byte ((fill e (?h + 1) 0 4)(?h + 7 := 0)) (?h + 5) ?u"
    let ?e2 = "put2byte (copy e (mp_cellOffset P + 2 * i) e (mp_cellOffset P + 2 * i + 2) (2 * (mp_nCell P - 1 - i))) (?h + 3) (mp_nCell P - 1)"
    have "inside ?u ?d ?e1" using f(2) B(4) by (intro inside_intros) simp_all
    then have s1: "stays_inside bt P (P\<lparr>mp_nFree := v', mp_nCell := mp_nCell P - 1, mp_data := ?e1\<rparr>)" for v'
      using B(6) by (intro stays_insideI [OF b]) simp_all
    have "inside ?u ?d ?e2" using f(2) B(4,6) i by (intro inside_intros) simp_all
    then have s2: "stays_inside bt P (P\<lparr>mp_nFree := v', mp_nCell := mp_nCell P - 1, mp_data := ?e2\<rparr>)" for v'
      using B(6) by (intro stays_insideI [OF b]) simp_all
    have "snd (dropCell bt i n (Page_OK, P)) = (if rc \<noteq> Page_OK then P\<lparr>mp_data := e, mp_nFree := v\<rparr>
        else if mp_nCell P - 1 = 0 then P\<lparr>mp_nFree := int ?u - int ?h - int (mp_childPtrSize P) - 8, mp_nCell := mp_nCell P - 1, mp_data := ?e1\<rparr>
        else P\<lparr>mp_nFree := v + 2, mp_nCell := mp_nCell P - 1, mp_data := ?e2\<rparr>)"
      using False f(1) small nc by (simp add: dropCell_def Let_def)
    then show ?thesis using s1 s2 stays_inside_data [OF b f(2)] by (simp only: split: if_split) blast
  qed
qed

section \<open>Pages of unknown content\<close>

lemma parsed_size_at_least: "bounded bt P \<Longrightarrow> 4 \<le> parsed_size bt P i"
proof -
  assume "bounded bt P"
  note B = boundedD [OF this]
  have "parsed_size bt P i = xCellSize bt P (mp_data P) (get2byte (mp_data P) (mp_cellOffset P + 2 * i))"
    using cell_size_0 [OF B(1,2)] by (simp add: parsed_size_def xParseCell_base [of bt P _ "get2byte _ _"] xCellSize_base [of bt P _ "get2byte _ _"])
  then show ?thesis using cell_size_range [OF B(1)] by simp
qed

text \<open>The cursors work on any page that \<open>btreeInitPage\<close> and \<open>btreeComputeFreeSpace\<close> have let pass, even after an error.\<close>

inductive cursor_run :: "btshared \<Rightarrow> mempage \<Rightarrow> mempage \<Rightarrow> bool" for bt R where
  load: "btreeInitPage bt R = (Page_OK, P1) \<Longrightarrow> btreeComputeFreeSpace bt P1 = (Page_OK, P) \<Longrightarrow> cursor_run bt R P"
| insert_fast: "cursor_run bt R P \<Longrightarrow> i \<le> mp_nCell P \<Longrightarrow> 4 \<le> n \<Longrightarrow> insertCellFast bt wr ptrmap i c n P = (rc, Q) \<Longrightarrow> cursor_run bt R Q"
| insert: "cursor_run bt R P \<Longrightarrow> i \<le> mp_nCell P \<Longrightarrow> 4 \<le> n \<Longrightarrow> insertCell bt wr ptrmap i c n tmp iChild P = (rc, Q) \<Longrightarrow> cursor_run bt R Q"
| drop: "cursor_run bt R P \<Longrightarrow> i < mp_nCell P \<Longrightarrow> dropCell bt i (parsed_size bt P i) (Page_OK, P) = (rc, Q) \<Longrightarrow> cursor_run bt R Q"

lemma loaded_bounded:
  assumes bt: "page_setting bt" "bt_usableSize bt < 65536" "bt_pageSize bt \<le> bt_usableSize bt + 255" and h: "mp_hdrOffset R \<le> 100"
    and i: "btreeInitPage bt R = (Page_OK, P1)" and c: "btreeComputeFreeSpace bt P1 = (Page_OK, P)"
  shows "bounded bt P" "mp_data P = mp_data R"
proof -
  have u: "bt = set_local_limits bt" "480 \<le> bt_usableSize bt" "bt_usableSize bt \<le> 65536" using bt by (simp_all add: page_setting_def)
  let ?f = "unat (mp_data R (mp_hdrOffset R))"
  obtain rc S where d: "decodeFlags bt ?f R = (rc, S)" by (cases "decodeFlags bt ?f R") simp
  then have rc: "rc = Page_OK" using i by (auto simp: btreeInitPage_def Let_def split: if_splits)
  note df = decodeFlags_def Let_def PTF_INTKEY_def PTF_ZERODATA_def PTF_LEAFDATA_def PTF_LEAF_def
  have "?f \<in> {2, 5, 10, 13}" using d rc by (auto simp: df split: if_splits)
  then obtain Q where Q: "\<And>P. decodeFlags bt ?f P = (Page_OK, Q P)" "\<And>P. format_ok (Q P)"
    "\<And>P. (mp_minLocal (Q P), mp_maxLocal (Q P)) \<in> {(bt_minLocal bt, bt_maxLocal bt), (bt_minLeaf bt, bt_maxLeaf bt)}"
    "\<And>P. mp_hdrOffset (Q P) = mp_hdrOffset P \<and> mp_nFree (Q P) = mp_nFree P \<and> mp_data (Q P) = mp_data P"
    by (rule decodeFlags_cases [of ?f bt]) (rule that; assumption)
  have S: "S = Q R" using Q(1) [of R] d by simp
  define n where "n = get2byte (mp_data R) (mp_hdrOffset R + 3)"
  have P1: "P1 = S\<lparr>mp_maskPage := (bt_pageSize bt - 1) mod 65536, mp_ovfl := [], mp_cellOffset := mp_hdrOffset S + 8 + mp_childPtrSize S,
      mp_nCell := n, mp_nFree := - 1, mp_isInit := True\<rparr>" "n \<le> MX_CELL bt"
    using i Q(4) [of R] by (auto simp: btreeInitPage_def Let_def d rc S n_def split: if_splits)
  obtain v where P: "P = P1\<lparr>mp_nFree := v\<rparr>"
    using c by (auto simp: btreeComputeFreeSpace_def Let_def split: if_splits option.splits prod.splits)
  show "mp_data P = mp_data R" using Q(4) [of R] by (simp add: P P1 S)
  have "limits_ok bt S" using Q(3) [of R] S by (intro limits_set [OF u]) simp
  moreover have "format_ok S" using Q(2) [of R] S by simp
  then have "mp_childPtrSize S \<le> 4" by (cases rule: format_cases) simp_all
  then have "mp_hdrOffset S + 8 + mp_childPtrSize S + 2 * n \<le> bt_usableSize bt"
    using P1(2) bt(3) u(2) h Q(4) [of R] S unfolding MX_CELL_def by simp
  ultimately show "bounded bt P"
    using Q(2) [of R] S bt(2) u(2) h Q(4) [of R] by (simp add: bounded_def P P1 limits_ok_def format_ok_def)
qed

lemma cursor_run_inside:
  assumes "page_setting bt" "bt_usableSize bt < 65536" "bt_pageSize bt \<le> bt_usableSize bt + 255" "mp_hdrOffset R \<le> 100" "cursor_run bt R P"
  shows "bounded bt P \<and> inside (bt_usableSize bt) (mp_data R) (mp_data P)"
  using assms(5)
proof (induction rule: cursor_run.induct)
  case (load P1 P)
  then show ?case using loaded_bounded [OF assms(1-4) load] by (simp add: inside_refl)
next
  case (insert_fast P i n wr ptrmap c rc Q)
  then show ?case using insertCellFast_inside [of bt P i n wr ptrmap c] by (auto simp: stays_inside_def dest: inside_trans)
next
  case (insert P i n wr ptrmap c tmp iChild rc Q)
  then show ?case using insertCell_inside [of bt P i n wr ptrmap c tmp iChild] by (auto simp: stays_inside_def dest: inside_trans)
next
  case (drop P i rc Q)
  then show ?case using dropCell_inside [of bt P i "parsed_size bt P i"] parsed_size_at_least [of bt P i]
    by (auto simp: stays_inside_def dest: inside_trans)
qed

text \<open>
  C25. Whatever bytes a page holds, if btreeInitPage and btreeComputeFreeSpace let it pass, no sequence of insertions and
  removals, failing ones included, writes a byte behind the usable part of the page: not through free blocks that
  overlap or leave the page, not through cell pointers into the header, and not while defragmenting.
\<close>

theorem corrupt_page_stays_inside:
  assumes "page_setting bt" "bt_usableSize bt < 65536" "bt_pageSize bt \<le> bt_usableSize bt + 255" "mp_hdrOffset R \<le> 100"
    and "cursor_run bt R P" "bt_usableSize bt \<le> k"
  shows "mp_data P k = mp_data R k"
  using cursor_run_inside [OF assms(1-5)] assms(6) by (simp add: inside_def)

text \<open>A page whose only cell pointer leads into its header.\<close>

definition odd_bt :: btshared where
  "odd_bt = demo_bt\<lparr>cell_size_ck := False\<rparr>"

definition odd_page :: mempage where
  "odd_page = demo_page\<lparr>mp_data := (\<lambda>_. 0)(100 := 13, 104 := 1, 105 := 1, 106 := 252, 109 := 3)\<rparr>"

definition odd_loaded :: mempage where
  "odd_loaded = snd (btreeComputeFreeSpace odd_bt (snd (btreeInitPage odd_bt odd_page)))"

lemma odd_run: "cursor_run odd_bt odd_page odd_loaded" "mp_nCell odd_loaded = 1"
proof -
  note d = btreeInitPage_def btreeComputeFreeSpace_def decodeFlags_def Let_def PTF_INTKEY_def PTF_ZERODATA_def PTF_LEAFDATA_def PTF_LEAF_def
    odd_page_def odd_bt_def demo_page_def demo_bt_def set_local_limits_def get2byte_def get2byteNotZero_def MX_CELL_def odd_loaded_def
  have "btreeInitPage odd_bt odd_page = (Page_OK, snd (btreeInitPage odd_bt odd_page))" by (simp add: d)
  moreover have "btreeComputeFreeSpace odd_bt (snd (btreeInitPage odd_bt odd_page)) = (Page_OK, odd_loaded)" by (simp add: d)
  ultimately show "cursor_run odd_bt odd_page odd_loaded" by (rule cursor_run.load)
  show "mp_nCell odd_loaded = 1" by (simp add: d)
qed

theorem corrupt_page_stays_inside_witness:
  "let P = snd (dropCell odd_bt 0 (parsed_size odd_bt odd_loaded 0) (Page_OK, odd_loaded)) in \<forall>k \<ge> 512. mp_data P k = mp_data odd_page k"
proof -
  let ?r = "dropCell odd_bt 0 (parsed_size odd_bt odd_loaded 0) (Page_OK, odd_loaded)"
  have "cursor_run odd_bt odd_page (snd ?r)"
    using cursor_run.drop [OF odd_run(1), of 0 "fst ?r" "snd ?r"] odd_run(2) by simp
  moreover have "page_setting odd_bt" "bt_usableSize odd_bt = 512" "bt_pageSize odd_bt = 512" "mp_hdrOffset odd_page = 100"
    by (simp_all add: page_setting_def odd_bt_def demo_bt_def set_local_limits_def Let_def odd_page_def demo_page_def)
  ultimately show ?thesis using corrupt_page_stays_inside [of odd_bt odd_page "snd ?r"] by (simp add: Let_def)
qed

end
