(* ===== verification/Rowset.thy ===== *)
theory Rowset
  imports Bench_Prelude "HOL-Library.Tree"
begin

text \<open>
  The row sets of SQLite, sqlite3/src/sqlite3.c, the part that begins as rowset.c. An entry belongs
  to one list or one tree at a time, so lists linked by \<open>pRight\<close> are lists of the 64-bit values,
  which are only compared, and trees are trees of them. The allocator is the parameter \<open>room\<close>: whether
  the \<open>n\<close>th chunk of entries can be had. Assertions about the order of lists are compiled only for
  debugging and left out.
\<close>

section \<open>Operations\<close>

text \<open>
  The two loops of the merge end when one list is exhausted and hang on the other; both lists have
  an entry at the first call.
\<close>

fun rowSetEntryMerge :: "int list \<Rightarrow> int list \<Rightarrow> int list" where
  "rowSetEntryMerge [] bs = bs"
| "rowSetEntryMerge as [] = as"
| "rowSetEntryMerge (a # as) (b # bs) =
     (if a \<le> b then (if a < b then a # rowSetEntryMerge as (b # bs) else rowSetEntryMerge as (b # bs))
      else b # rowSetEntryMerge (a # as) bs)"

text \<open>The forty buckets, the empty list for a null pointer; behind the last one the array ends.\<close>

fun fill_bucket :: "int list \<Rightarrow> int list list \<Rightarrow> int list list run" where
  "fill_bucket entry [] = Inl Overrun"
| "fill_bucket entry (b # bs) =
     (if b = [] then Inr (entry # bs)
      else bnd (fill_bucket (rowSetEntryMerge b entry) bs) (\<lambda>bs. Inr ([] # bs)))"

primrec fill_buckets :: "int list \<Rightarrow> int list list \<Rightarrow> int list list run" where
  "fill_buckets [] bs = Inr bs"
| "fill_buckets (v # vs) bs = bnd (fill_bucket [v] bs) (fill_buckets vs)"

definition rowSetEntrySort :: "int list \<Rightarrow> int list run" where
  "rowSetEntrySort entries =
     bnd (fill_buckets entries (replicate 40 [])) (\<lambda>bs.
     Inr (fold (\<lambda>b p. if b = [] then p else if p = [] then b else rowSetEntryMerge p b) (tl bs) (hd bs)))"

fun rowSetTreeToList :: "int tree \<Rightarrow> int list" where
  "rowSetTreeToList Leaf = []"
| "rowSetTreeToList (Node l v r) =
     (if l = Leaf then [v] else rowSetTreeToList l @ [v]) @ (if r = Leaf then [] else rowSetTreeToList r)"

text \<open>The tree and the entries that are left.\<close>

fun rowSetNDeepTree :: "int list \<Rightarrow> nat \<Rightarrow> int tree \<times> int list" where
  "rowSetNDeepTree [] depth = (Leaf, [])"
| "rowSetNDeepTree (x # xs) depth =
     (if 1 < depth then
        let (left, rest) = rowSetNDeepTree (x # xs) (depth - 1) in
        (case rest of
           [] \<Rightarrow> (left, [])
         | p # rest \<Rightarrow> let (right, rest) = rowSetNDeepTree rest (depth - 1) in (Node left p right, rest))
      else (Node Leaf x Leaf, xs))"

lemma rowSetNDeepTree_inorder: "inorder (fst (rowSetNDeepTree xs d)) @ snd (rowSetNDeepTree xs d) = xs"
proof (induction xs d rule: rowSetNDeepTree.induct)
  case (2 x xs d)
  show ?case
  proof (cases "1 < d")
    case True
    obtain l rest where l: "rowSetNDeepTree (x # xs) (d - 1) = (l, rest)" by (cases "rowSetNDeepTree (x # xs) (d - 1)")
    then have e: "inorder l @ rest = x # xs" using "2.IH"(1) [OF True] by simp
    show ?thesis
    proof (cases rest)
      case (Cons p ps)
      obtain r rest' where r: "rowSetNDeepTree ps (d - 1) = (r, rest')" by (cases "rowSetNDeepTree ps (d - 1)")
      then have "inorder r @ rest' = ps" using "2.IH"(2) [OF True l [symmetric] refl Cons] by simp
      then show ?thesis using True l r e Cons by auto
    qed (use True l e in auto)
  qed simp
qed simp

lemma rowSetNDeepTree_length: "length (snd (rowSetNDeepTree xs d)) \<le> length xs"
proof -
  have "length xs = length (inorder (fst (rowSetNDeepTree xs d)) @ snd (rowSetNDeepTree xs d))"
    unfolding rowSetNDeepTree_inorder ..
  then show ?thesis by simp
qed

text \<open>The loop of \<open>rowSetListToTree\<close>: the tree so far has \<open>depth\<close> levels.\<close>

function grow_tree :: "int tree \<Rightarrow> int list \<Rightarrow> nat \<Rightarrow> int tree" where
  "grow_tree t xs depth =
     (case xs of
        [] \<Rightarrow> t
      | p # xs \<Rightarrow> let (right, xs) = rowSetNDeepTree xs depth in grow_tree (Node t p right) xs (depth + 1))"
  by pat_completeness auto
termination
proof (relation "measure (\<lambda>(t, xs, depth). length xs)")
  fix t xs and depth :: nat and p ps z right rest
  assume "xs = p # ps" "z = rowSetNDeepTree ps depth" "(right, rest) = z"
  then show "((Node t p right, rest, depth + 1), t, xs, depth) \<in> measure (\<lambda>(t, xs, depth). length xs)"
    using rowSetNDeepTree_length [of ps depth] by (simp add: le_imp_less_Suc split: prod.splits)
      (metis le_imp_less_Suc snd_conv)
qed simp

declare grow_tree.simps [simp del]

definition rowSetListToTree :: "int list \<Rightarrow> int tree" where
  "rowSetListToTree xs = grow_tree (Node Leaf (hd xs) Leaf) (tl xs) 1"

text \<open>
  \<open>rs_fresh\<close> counts the entries in the current chunk not yet used, \<open>rs_chunks\<close> the chunks.
\<close>

record rowset =
  rs_entries :: "int list"
  rs_forest :: "int tree list"
  rs_fresh :: nat
  rs_chunks :: nat
  rs_sorted :: bool
  rs_next :: bool
  rs_batch :: int

definition ROWSET_ENTRY_PER_CHUNK :: nat where "ROWSET_ENTRY_PER_CHUNK = (1024 - 8) div 24"

definition sqlite3RowSetInit :: "nat \<Rightarrow> rowset" where
  "sqlite3RowSetInit fresh = \<lparr>rs_entries = [], rs_forest = [], rs_fresh = fresh, rs_chunks = 0, rs_sorted = True,
     rs_next = False, rs_batch = 0\<rparr>"

definition sqlite3RowSetClear :: "rowset \<Rightarrow> rowset" where
  "sqlite3RowSetClear s = s\<lparr>rs_chunks := 0, rs_fresh := 0, rs_entries := [], rs_forest := [], rs_sorted := True,
     rs_next := False\<rparr>"

definition rowSetEntryAlloc :: "(nat \<Rightarrow> bool) \<Rightarrow> rowset \<Rightarrow> bool \<times> rowset" where
  "rowSetEntryAlloc room s =
     (if rs_fresh s = 0 then
        if \<not> room (rs_chunks s) then (False, s)
        else (True, s\<lparr>rs_chunks := rs_chunks s + 1, rs_fresh := ROWSET_ENTRY_PER_CHUNK - 1\<rparr>)
      else (True, s\<lparr>rs_fresh := rs_fresh s - 1\<rparr>))"

definition sqlite3RowSetInsert :: "(nat \<Rightarrow> bool) \<Rightarrow> int \<Rightarrow> rowset \<Rightarrow> rowset run" where
  "sqlite3RowSetInsert room rowid s =
     bnd (guardE Assertion (\<not> rs_next s)) (\<lambda>_.
     let (got, s) = rowSetEntryAlloc room s in
     if \<not> got then Inr s
     else let s = (if rs_entries s \<noteq> [] \<and> rowid \<le> last (rs_entries s) then s\<lparr>rs_sorted := False\<rparr> else s)
       in Inr (s\<lparr>rs_entries := rs_entries s @ [rowid]\<rparr>))"

text \<open>The answer is the value taken out, \<open>None\<close> for an empty set.\<close>

definition sqlite3RowSetNext :: "rowset \<Rightarrow> (int option \<times> rowset) run" where
  "sqlite3RowSetNext s =
     bnd (guardE Assertion (rs_forest s = [])) (\<lambda>_.
     bnd (if rs_next s then Inr s
          else bnd (if rs_sorted s then Inr (rs_entries s) else rowSetEntrySort (rs_entries s)) (\<lambda>es.
            Inr (s\<lparr>rs_entries := es, rs_sorted := True, rs_next := True\<rparr>))) (\<lambda>s.
     case rs_entries s of
       [] \<Rightarrow> Inr (None, s)
     | v # vs \<Rightarrow> let s = s\<lparr>rs_entries := vs\<rparr> in Inr (Some v, if vs = [] then sqlite3RowSetClear s else s)))"

text \<open>
  The sorted entries go to the first empty place of the forest, merged with the trees before it,
  which leave their places empty. What is left over needs a new place.
\<close>

fun into_forest :: "int list \<Rightarrow> int tree list \<Rightarrow> int list option \<times> int tree list" where
  "into_forest p [] = (Some p, [])"
| "into_forest p (t # ts) =
     (if t = Leaf then (None, rowSetListToTree p # ts)
      else let (rest, ts) = into_forest (rowSetEntryMerge (rowSetTreeToList t) p) ts in (rest, Leaf # ts))"

fun in_tree :: "int \<Rightarrow> int tree \<Rightarrow> bool" where
  "in_tree x Leaf = False"
| "in_tree x (Node l v r) = (if v < x then in_tree x r else if x < v then in_tree x l else True)"

definition new_batch :: "(nat \<Rightarrow> bool) \<Rightarrow> rowset \<Rightarrow> rowset run" where
  "new_batch room s =
     (if rs_entries s = [] then Inr s
      else bnd (if rs_sorted s then Inr (rs_entries s) else rowSetEntrySort (rs_entries s)) (\<lambda>p.
        let (rest, forest) = into_forest p (rs_forest s);
            s = s\<lparr>rs_forest := forest\<rparr>;
            s = (case rest of
                   None \<Rightarrow> s
                 | Some p \<Rightarrow> let (got, s) = rowSetEntryAlloc room s
                     in if got then s\<lparr>rs_forest := rs_forest s @ [rowSetListToTree p]\<rparr> else s)
        in Inr (s\<lparr>rs_entries := [], rs_sorted := True\<rparr>)))"

definition sqlite3RowSetTest :: "(nat \<Rightarrow> bool) \<Rightarrow> int \<Rightarrow> int \<Rightarrow> rowset \<Rightarrow> (bool \<times> rowset) run" where
  "sqlite3RowSetTest room iBatch iRowid s =
     bnd (guardE Assertion (\<not> rs_next s)) (\<lambda>_.
     bnd (if iBatch \<noteq> rs_batch s then bnd (new_batch room s) (\<lambda>s. Inr (s\<lparr>rs_batch := iBatch\<rparr>)) else Inr s) (\<lambda>s.
     Inr (list_ex (in_tree iRowid) (rs_forest s), s)))"

section \<open>Merging and sorting\<close>

abbreviation ascending :: "int list \<Rightarrow> bool" where "ascending \<equiv> sorted_wrt (<)"

lemma set_merge: "set (rowSetEntryMerge as bs) = set as \<union> set bs"
  by (induction as bs rule: rowSetEntryMerge.induct) auto

lemma ascending_merge: "ascending as \<Longrightarrow> ascending bs \<Longrightarrow> ascending (rowSetEntryMerge as bs)"
  by (induction as bs rule: rowSetEntryMerge.induct) (auto simp: set_merge)

lemma merge_Nil: "rowSetEntryMerge as bs = [] \<longleftrightarrow> as = [] \<and> bs = []"
  using set_merge [of as bs] by (metis Un_empty set_empty)

text \<open>The buckets count in binary how many entries they have taken.\<close>

primrec counted :: "int list list \<Rightarrow> nat" where
  "counted [] = 0"
| "counted (b # bs) = (if b = [] then 0 else 1) + 2 * counted bs"

lemma fill_bucket_spec:
  assumes "entry \<noteq> []" "ascending entry" "\<forall>b \<in> set bs. ascending b" "counted bs + 1 < 2 ^ length bs"
  shows "\<exists>cs. fill_bucket entry bs = Inr cs \<and> length cs = length bs \<and> counted cs = counted bs + 1 \<and>
    (\<forall>b \<in> set cs. ascending b) \<and> \<Union> (set ` set cs) = set entry \<union> \<Union> (set ` set bs)"
  using assms
proof (induction entry bs rule: fill_bucket.induct)
  case (2 entry b bs)
  show ?case
  proof (cases "b = []")
    case False
    have "rowSetEntryMerge b entry \<noteq> []" "ascending (rowSetEntryMerge b entry)" "counted bs + 1 < 2 ^ length bs"
      using 2(2-5) False by (auto simp: merge_Nil ascending_merge)
    from "2.IH" [OF False this(1,2) _ this(3)] obtain cs where
      "fill_bucket (rowSetEntryMerge b entry) bs = Inr cs" "length cs = length bs" "counted cs = counted bs + 1"
      "\<forall>b \<in> set cs. ascending b" "\<Union> (set ` set cs) = set (rowSetEntryMerge b entry) \<union> \<Union> (set ` set bs)"
      using 2(4) by auto
    then show ?thesis using False by (auto simp: set_merge)
  qed (use 2 in auto)
qed simp

lemma fill_buckets_spec:
  assumes "\<forall>b \<in> set bs. ascending b" "counted bs + length vs < 2 ^ length bs"
  shows "\<exists>cs. fill_buckets vs bs = Inr cs \<and> length cs = length bs \<and> (\<forall>b \<in> set cs. ascending b) \<and>
    \<Union> (set ` set cs) = set vs \<union> \<Union> (set ` set bs)"
  using assms
proof (induction vs arbitrary: bs)
  case (Cons v vs)
  obtain cs where cs: "fill_bucket [v] bs = Inr cs" "length cs = length bs" "counted cs = counted bs + 1"
    "\<forall>b \<in> set cs. ascending b" "\<Union> (set ` set cs) = set [v] \<union> \<Union> (set ` set bs)"
    using fill_bucket_spec [of "[v]" bs] Cons.prems by auto
  then show ?case using Cons.IH [of cs] Cons.prems(2) by auto
qed simp

lemma fold_buckets:
  "ascending p \<Longrightarrow> \<forall>b \<in> set bs. ascending b \<Longrightarrow>
   ascending (fold (\<lambda>b p. if b = [] then p else if p = [] then b else rowSetEntryMerge p b) bs p) \<and>
   set (fold (\<lambda>b p. if b = [] then p else if p = [] then b else rowSetEntryMerge p b) bs p) = set p \<union> \<Union> (set ` set bs)"
  by (induction bs arbitrary: p) (auto simp: ascending_merge set_merge)

text \<open>Forty buckets are enough for fewer than 2^40 entries.\<close>

lemma rowSetEntrySort_spec:
  assumes "length es < 2 ^ 40"
  shows "rowSetEntrySort es = Inr (sorted_list_of_set (set es))"
proof -
  have z: "counted (replicate n []) = 0" for n by (induction n) auto
  obtain cs where cs: "fill_buckets es (replicate 40 []) = Inr cs" "length cs = 40" "\<forall>b \<in> set cs. ascending b"
    "\<Union> (set ` set cs) = set es"
    using fill_buckets_spec [of "replicate 40 []" es] assms by (auto simp: z)
  obtain c ds where c: "cs = c # ds" using cs(2) by (cases cs) auto
  define r where "r = fold (\<lambda>b p. if b = [] then p else if p = [] then b else rowSetEntryMerge p b) ds c"
  have "ascending r" "set r = set es" using fold_buckets [of c ds] cs(3,4) c by (auto simp: r_def)
  then have "r = sorted_list_of_set (set es)"
    using strict_sorted_equal [of r "sorted_list_of_set (set es)"] by simp
  then show ?thesis using cs(1) c by (simp add: rowSetEntrySort_def r_def)
qed

section \<open>Trees\<close>

lemma rowSetTreeToList_inorder: "rowSetTreeToList t = inorder t"
  by (induction t rule: rowSetTreeToList.induct) auto

lemma grow_tree_inorder: "inorder (grow_tree t xs d) = inorder t @ xs"
proof (induction t xs d rule: grow_tree.induct)
  case (1 t xs d)
  show ?case
  proof (cases xs)
    case (Cons p ps)
    obtain r rest where r: "rowSetNDeepTree ps d = (r, rest)" by (cases "rowSetNDeepTree ps d")
    then have "inorder r @ rest = ps" using rowSetNDeepTree_inorder [of ps d] by simp
    then show ?thesis using "1.IH" [OF Cons r [symmetric]] r Cons by (subst grow_tree.simps) simp
  qed (subst grow_tree.simps, simp)
qed

lemma rowSetListToTree_inorder: "xs \<noteq> [] \<Longrightarrow> inorder (rowSetListToTree xs) = xs"
  by (simp add: rowSetListToTree_def grow_tree_inorder)

lemma rowSetListToTree_set: "xs \<noteq> [] \<Longrightarrow> set_tree (rowSetListToTree xs) = set xs"
  using set_inorder [of "rowSetListToTree xs"] by (simp add: rowSetListToTree_inorder del: set_inorder)

lemma in_tree_search: "ascending (inorder t) \<Longrightarrow> in_tree x t \<longleftrightarrow> x \<in> set (inorder t)"
proof (induction t)
  case (Node l v r)
  have s: "ascending (inorder l)" "ascending (inorder r)" "\<forall>y \<in> set (inorder l). y < v" "\<forall>y \<in> set (inorder r). v < y"
    using Node.prems by (simp_all add: sorted_wrt_append)
  consider "x < v" "x \<notin> set (inorder r)" | "v < x" "x \<notin> set (inorder l)" | "x = v"
    using s(3,4) by (meson less_asym linorder_neqE)
  then show ?case using Node.IH s(1,2) by cases auto
qed simp

section \<open>A set with batches\<close>

text \<open>
  The contract: what was inserted before the last change of the batch is visible, the rest is
  pending; \<open>ok n\<close> are the good states after at most \<open>n\<close> insertions, of which there may be fewer than 2^40.
\<close>

datatype rs_op = Ins int | Tst int int

text \<open>A sequence of operations and the answers of its tests, and what the answers should be.\<close>

primrec run_ops :: "(int \<Rightarrow> 's \<Rightarrow> 's run) \<Rightarrow> (int \<Rightarrow> int \<Rightarrow> 's \<Rightarrow> (bool \<times> 's) run) \<Rightarrow> rs_op list \<Rightarrow> 's \<Rightarrow> (bool list \<times> 's) run" where
  "run_ops ins tst [] s = Inr ([], s)"
| "run_ops ins tst (op # ops) s =
     (case op of
        Ins x \<Rightarrow> bnd (ins x s) (run_ops ins tst ops)
      | Tst b x \<Rightarrow> bnd (tst b x s) (\<lambda>(a, s). bnd (run_ops ins tst ops s) (\<lambda>(as, s). Inr (a # as, s))))"

primrec spec_ops :: "rs_op list \<Rightarrow> int set \<Rightarrow> int set \<Rightarrow> int \<Rightarrow> bool list" where
  "spec_ops [] vis pend bat = []"
| "spec_ops (op # ops) vis pend bat =
     (case op of
        Ins x \<Rightarrow> spec_ops ops vis (insert x pend) bat
      | Tst b x \<Rightarrow> (if b = bat then (x \<in> vis) # spec_ops ops vis pend bat
                   else (x \<in> vis \<union> pend) # spec_ops ops (vis \<union> pend) {} b))"

locale batched_set =
  fixes ok :: "nat \<Rightarrow> 's \<Rightarrow> bool"
    and visible pending :: "'s \<Rightarrow> int set"
    and batch :: "'s \<Rightarrow> int"
    and ins :: "int \<Rightarrow> 's \<Rightarrow> 's run"
    and tst :: "int \<Rightarrow> int \<Rightarrow> 's \<Rightarrow> (bool \<times> 's) run"
  assumes ins_law: "ok n s \<Longrightarrow> n + 1 < 2 ^ 40 \<Longrightarrow> \<exists>t. ins x s = Inr t \<and> ok (n + 1) t \<and>
      visible t = visible s \<and> pending t = insert x (pending s) \<and> batch t = batch s"
    and tst_law: "ok n s \<Longrightarrow> n < 2 ^ 40 \<Longrightarrow> \<exists>t. tst b x s = Inr (x \<in> visible t, t) \<and> ok n t \<and> batch t = b \<and>
      (if b = batch s then visible t = visible s \<and> pending t = pending s
       else visible t = visible s \<union> pending s \<and> pending t = {})"
begin

lemma run_refines:
  "ok n s \<Longrightarrow> n + length ops < 2 ^ 40 \<Longrightarrow>
   \<exists>t. run_ops ins tst ops s = Inr (spec_ops ops (visible s) (pending s) (batch s), t)"
proof (induction ops arbitrary: n s)
  case (Cons op ops)
  show ?case
  proof (cases op)
    case (Ins x)
    obtain t where t: "ins x s = Inr t" "ok (n + 1) t" "visible t = visible s" "pending t = insert x (pending s)" "batch t = batch s"
      using ins_law [OF Cons.prems(1), of x] Cons.prems(2) by auto
    then show ?thesis using Cons.IH [OF t(2)] Cons.prems(2) Ins by auto
  next
    case (Tst b x)
    obtain t where t: "tst b x s = Inr (x \<in> visible t, t)" "ok n t" "batch t = b"
      "if b = batch s then visible t = visible s \<and> pending t = pending s
       else visible t = visible s \<union> pending s \<and> pending t = {}"
      using tst_law [OF Cons.prems(1), of b x] Cons.prems(2) by auto
    then show ?thesis using Cons.IH [OF t(2)] Cons.prems(2) Tst by (auto split: if_splits)
  qed
qed simp

end

definition rs_ok :: "(nat \<Rightarrow> bool) \<Rightarrow> nat \<Rightarrow> rowset \<Rightarrow> bool" where
  "rs_ok room n s = ((\<forall>k. room k) \<and> \<not> rs_next s \<and> length (rs_entries s) \<le> n \<and>
     (rs_sorted s \<longrightarrow> ascending (rs_entries s)) \<and> (\<forall>t \<in> set (rs_forest s). ascending (inorder t)))"

definition rs_visible :: "rowset \<Rightarrow> int set" where
  "rs_visible s = (\<Union>t \<in> set (rs_forest s). set (inorder t))"

definition rs_pending :: "rowset \<Rightarrow> int set" where
  "rs_pending s = set (rs_entries s)"

lemma alloc_frame:
  "\<forall>k. room k \<Longrightarrow> \<exists>s'. rowSetEntryAlloc room s = (True, s') \<and> rs_entries s' = rs_entries s \<and> rs_forest s' = rs_forest s \<and>
    rs_sorted s' = rs_sorted s \<and> rs_next s' = rs_next s \<and> rs_batch s' = rs_batch s"
  by (simp add: rowSetEntryAlloc_def)

lemma ascending_snoc: "ascending (xs @ [x]) \<longleftrightarrow> ascending xs \<and> (xs = [] \<or> last xs < x)"
proof (induction xs rule: rev_induct)
  case (snoc y ys)
  then show ?case by (auto simp: sorted_wrt_append)
qed simp

lemma insert_law:
  assumes "rs_ok room n s"
  shows "\<exists>t. sqlite3RowSetInsert room x s = Inr t \<and> rs_ok room (n + 1) t \<and> rs_visible t = rs_visible s \<and>
    rs_pending t = insert x (rs_pending s) \<and> rs_batch t = rs_batch s"
proof -
  obtain s' where s: "rowSetEntryAlloc room s = (True, s')" "rs_entries s' = rs_entries s" "rs_forest s' = rs_forest s"
    "rs_sorted s' = rs_sorted s" "rs_next s' = rs_next s" "rs_batch s' = rs_batch s"
    using alloc_frame [of room s] assms unfolding rs_ok_def by blast
  show ?thesis using assms s
    by (auto simp: sqlite3RowSetInsert_def rs_ok_def rs_visible_def rs_pending_def ascending_snoc)
qed

lemma into_forest_spec:
  "p \<noteq> [] \<Longrightarrow> ascending p \<Longrightarrow> \<forall>t \<in> set ts. ascending (inorder t) \<Longrightarrow> into_forest p ts = (rest, us) \<Longrightarrow>
   (\<forall>t \<in> set us. ascending (inorder t)) \<and>
   (case rest of
      None \<Rightarrow> (\<Union>t \<in> set us. set (inorder t)) = set p \<union> (\<Union>t \<in> set ts. set (inorder t))
    | Some q \<Rightarrow> q \<noteq> [] \<and> ascending q \<and> set q \<union> (\<Union>t \<in> set us. set (inorder t)) = set p \<union> (\<Union>t \<in> set ts. set (inorder t)))"
proof (induction p ts arbitrary: us rule: into_forest.induct)
  case (2 p t ts)
  show ?case
  proof (cases "t = Leaf")
    case True
    then show ?thesis using 2 by (auto simp: rowSetListToTree_inorder rowSetListToTree_set)
  next
    case False
    let ?q = "rowSetEntryMerge (rowSetTreeToList t) p"
    obtain vs where vs: "into_forest ?q ts = (rest, vs)" "us = Leaf # vs"
      using 2(5) False by (auto split: prod.splits)
    have q: "?q \<noteq> []" "ascending ?q" "set ?q = set (inorder t) \<union> set p"
      using 2(2-4) by (auto simp: merge_Nil ascending_merge set_merge rowSetTreeToList_inorder)
    show ?thesis using "2.IH" [OF False q(1,2) _ vs(1)] q(3) 2(4) vs(2) by (auto split: option.splits)
  qed
qed auto

lemma new_batch_spec:
  assumes "rs_ok room n s" "n < 2 ^ 40"
  shows "\<exists>t. new_batch room s = Inr t \<and> rs_ok room n t \<and> rs_visible t = rs_visible s \<union> rs_pending s \<and> rs_pending t = {}"
proof (cases "rs_entries s = []")
  case False
  have s: "\<forall>k. room k" "\<forall>t \<in> set (rs_forest s). ascending (inorder t)" "\<not> rs_next s" "length (rs_entries s) < 2 ^ 40"
    using assms by (auto simp: rs_ok_def)
  obtain p where p: "(if rs_sorted s then Inr (rs_entries s) else rowSetEntrySort (rs_entries s)) = Inr p"
    "ascending p" "set p = rs_pending s"
    using rowSetEntrySort_spec [OF s(4)] assms(1)
    by (cases "rs_sorted s") (simp_all add: rs_ok_def rs_pending_def)
  have "p \<noteq> []" using p(3) False by (auto simp: rs_pending_def)
  obtain rest us where f: "into_forest p (rs_forest s) = (rest, us)" by fastforce
  note f' = into_forest_spec [OF \<open>p \<noteq> []\<close> p(2) s(2) f]
  obtain s' where a: "rowSetEntryAlloc room (s\<lparr>rs_forest := us\<rparr>) = (True, s')" "rs_forest s' = us" "rs_next s' = rs_next s"
    using alloc_frame [OF s(1), of "s\<lparr>rs_forest := us\<rparr>"] by auto
  show ?thesis
    using False p f f' a s(1,3)
    by (cases rest) (auto simp: new_batch_def rs_ok_def rs_visible_def rs_pending_def rowSetListToTree_inorder rowSetListToTree_set)
qed (use assms in \<open>auto simp: new_batch_def rs_pending_def\<close>)

lemma test_law:
  assumes "rs_ok room n s" "n < 2 ^ 40"
  shows "\<exists>t. sqlite3RowSetTest room b x s = Inr (x \<in> rs_visible t, t) \<and> rs_ok room n t \<and> rs_batch t = b \<and>
    (if b = rs_batch s then rs_visible t = rs_visible s \<and> rs_pending t = rs_pending s
     else rs_visible t = rs_visible s \<union> rs_pending s \<and> rs_pending t = {})"
proof -
  have find: "list_ex (in_tree x) (rs_forest t) \<longleftrightarrow> x \<in> rs_visible t" if "rs_ok room n t" for t
    using that by (auto simp: rs_ok_def rs_visible_def list_ex_iff in_tree_search)
  have n: "\<not> rs_next s" using assms(1) by (simp add: rs_ok_def)
  show ?thesis
  proof (cases "b = rs_batch s")
    case True
    then show ?thesis using assms(1) find [OF assms(1)] n by (simp add: sqlite3RowSetTest_def)
  next
    case False
    obtain t where t: "new_batch room s = Inr t" "rs_ok room n t" "rs_visible t = rs_visible s \<union> rs_pending s"
      "rs_pending t = {}" using new_batch_spec [OF assms] by blast
    let ?t = "t\<lparr>rs_batch := b\<rparr>"
    have "rs_ok room n ?t" "rs_visible ?t = rs_visible t" "rs_pending ?t = rs_pending t"
      using t(2) by (simp_all add: rs_ok_def rs_visible_def rs_pending_def)
    then show ?thesis using False t n find [of ?t] by (simp add: sqlite3RowSetTest_def)
  qed
qed

interpretation rows: batched_set "rs_ok room" rs_visible rs_pending rs_batch "sqlite3RowSetInsert room" "sqlite3RowSetTest room"
  for room
  by unfold_locales (use insert_law in blast, use test_law in blast)

text \<open>
  C37. A row set answers every test as a set does: a value is found exactly when it was inserted before the
  last test that changed the batch number, whatever sorting, merging and moving between list and
  forest has happened, for any sequence of fewer than 2^40 operations and as long as memory can be had.
\<close>

theorem rowset_answers:
  assumes "\<forall>k. room k" "length ops < 2 ^ 40"
  shows "\<exists>t. run_ops (sqlite3RowSetInsert room) (sqlite3RowSetTest room) ops (sqlite3RowSetInit fresh) =
    Inr (spec_ops ops {} {} 0, t)"
proof -
  have "rs_ok room 0 (sqlite3RowSetInit fresh)" using assms(1) by (simp add: rs_ok_def sqlite3RowSetInit_def)
  from rows.run_refines [OF this, of ops] assms(2) show ?thesis
    by (simp add: sqlite3RowSetInit_def rs_visible_def rs_pending_def)
qed

theorem rowset_answers_witness:
  "\<exists>t. run_ops (sqlite3RowSetInsert (\<lambda>_. True)) (sqlite3RowSetTest (\<lambda>_. True)) [Ins 5, Ins 3, Tst 1 3, Ins 4, Tst 1 4, Tst 2 4]
    (sqlite3RowSetInit 0) = Inr ([True, False, True], t)"
  using rowset_answers [of "\<lambda>_. True" "[Ins 5, Ins 3, Tst 1 3, Ins 4, Tst 1 4, Tst 2 4]" 0] by simp

section \<open>Taking the values out\<close>

primrec insert_all :: "(nat \<Rightarrow> bool) \<Rightarrow> int list \<Rightarrow> rowset \<Rightarrow> rowset run" where
  "insert_all room [] s = Inr s"
| "insert_all room (x # xs) s = bnd (sqlite3RowSetInsert room x s) (insert_all room xs)"

primrec take_out :: "nat \<Rightarrow> rowset \<Rightarrow> int option list run" where
  "take_out 0 s = Inr []"
| "take_out (Suc k) s = bnd (sqlite3RowSetNext s) (\<lambda>(v, s). bnd (take_out k s) (\<lambda>vs. Inr (v # vs)))"

lemma insert_all_spec:
  assumes "\<forall>k. room k"
  shows "rs_ok room n s \<Longrightarrow> \<exists>t. insert_all room xs s = Inr t \<and> rs_ok room (n + length xs) t \<and>
    rs_entries t = rs_entries s @ xs \<and> rs_forest t = rs_forest s"
proof (induction xs arbitrary: n s)
  case (Cons x xs)
  obtain s' where a: "rowSetEntryAlloc room s = (True, s')" "rs_entries s' = rs_entries s" "rs_forest s' = rs_forest s"
    using alloc_frame [OF assms, of s] by blast
  obtain t where t: "sqlite3RowSetInsert room x s = Inr t" "rs_ok room (n + 1) t" using insert_law [OF Cons.prems] by blast
  have "rs_entries t = rs_entries s @ [x] \<and> rs_forest t = rs_forest s"
    using t(1) a by (auto simp: sqlite3RowSetInsert_def bnd_eq_Inr split: if_splits)
  then show ?case using Cons.IH [OF t(2)] t(1) by auto
qed simp

lemma take_out_rest:
  "rs_forest s = [] \<Longrightarrow> rs_next s \<Longrightarrow> rs_entries s = v # vs \<Longrightarrow> take_out (Suc (Suc (length vs))) s = Inr (map Some (v # vs) @ [None])"
proof (induction vs arbitrary: v s)
  case (Cons w ws)
  let ?s = "s\<lparr>rs_entries := w # ws\<rparr>"
  have "sqlite3RowSetNext s = Inr (Some v, ?s)" using Cons.prems by (simp add: sqlite3RowSetNext_def)
  moreover have "take_out (Suc (Suc (length ws))) ?s = Inr (map Some (w # ws) @ [None])" using Cons by simp
  ultimately show ?case by simp
qed (simp add: sqlite3RowSetNext_def sqlite3RowSetClear_def)

text \<open>
  C38. Taking values out of a row set gives, after any insertions in any order, each value once and in
  ascending order, and then reports the end; the array of forty lists the sort works with is never
  left for fewer than 2^40 insertions.
\<close>

theorem rowset_sorts:
  assumes "\<forall>k. room k" "length xs < 2 ^ 40"
  shows "bnd (insert_all room xs (sqlite3RowSetInit fresh)) (take_out (card (set xs) + 1)) =
    Inr (map Some (sorted_list_of_set (set xs)) @ [None])"
proof -
  have "rs_ok room 0 (sqlite3RowSetInit fresh)" using assms(1) by (simp add: rs_ok_def sqlite3RowSetInit_def)
  from insert_all_spec [OF assms(1) this, of xs] obtain t where t:
    "insert_all room xs (sqlite3RowSetInit fresh) = Inr t" "rs_ok room (length xs) t" "rs_entries t = xs" "rs_forest t = []"
    by (auto simp: sqlite3RowSetInit_def)
  let ?es = "sorted_list_of_set (set xs)"
  let ?t = "t\<lparr>rs_entries := ?es, rs_sorted := True, rs_next := True\<rparr>"
  have "rs_sorted t \<Longrightarrow> xs = ?es"
    using t(2,3) strict_sorted_equal [of xs ?es] by (simp add: rs_ok_def)
  then have first: "sqlite3RowSetNext t = sqlite3RowSetNext ?t"
    using t(2-4) rowSetEntrySort_spec [OF assms(2)] by (cases "rs_sorted t") (auto simp: sqlite3RowSetNext_def rs_ok_def)
  have out: "take_out (Suc k) t = take_out (Suc k) ?t" for k by (simp add: first)
  have len: "length ?es = card (set xs)" by simp
  show ?thesis
  proof (cases ?es)
    case Nil
    then have "xs = []" "card (set xs) = 0" using len by auto
    then show ?thesis using t(1,4) out [of 0] by (simp add: sqlite3RowSetNext_def)
  next
    case (Cons v vs)
    then have "card (set xs) + 1 = Suc (Suc (length vs))" using len by simp
    then show ?thesis using t(1,4) out [of "Suc (length vs)"] take_out_rest [of ?t v vs] Cons by simp
  qed
qed

theorem rowset_sorts_witness:
  "bnd (insert_all (\<lambda>_. True) [7, 2, 7, -1] (sqlite3RowSetInit 3)) (take_out 4) = Inr [Some (-1), Some 2, Some 7, None]"
proof -
  let ?xs = "[7, 2, 7, -1] :: int list"
  have c: "card (set ?xs) + 1 = 4" by (simp add: card_insert_if)
  have s: "sorted_list_of_set (set ?xs) = [-1, 2, 7]" by (simp only: sorted_list_of_set_sort_remdups) simp
  have "bnd (insert_all (\<lambda>_. True) ?xs (sqlite3RowSetInit 3)) (take_out (card (set ?xs) + 1)) =
      Inr (map Some (sorted_list_of_set (set ?xs)) @ [None])"
    by (rule rowset_sorts) simp_all
  then show ?thesis unfolding c s by (simp only: list.map append.simps)
qed

end
