(* ===== verification/Bitvec.thy ===== *)
theory Bitvec
  imports Bench_Prelude
begin

text \<open>
  The bitmaps of SQLite, sqlite3/src/sqlite3.c, the part that begins as bitvec.c: a set of numbers from 1 to \<open>iSize\<close>
  as a bitmap, as a hash table or, when the table is full, as pointers to smaller bitmaps. The
  pointers form a tree, so a bitmap is a value; the union has the member in use. An access outside an array or
  through another member of the union ends with \<open>Overrun\<close>, a probe that never ends with \<open>Forever\<close>. The allocator is
  the parameter \<open>room\<close>: whether the \<open>n\<close>th request can be met. Sizes are those of a 64-bit target, where the
  constants below are of type \<open>size_t\<close> and sums with them cannot wrap.
\<close>

section \<open>Operations\<close>

definition BITVEC_SZ :: nat where "BITVEC_SZ = 512"
definition BITVEC_USIZE :: nat where "BITVEC_USIZE = (BITVEC_SZ - 3 * 4) div 8 * 8"
definition BITVEC_SZELEM :: nat where "BITVEC_SZELEM = 8"
definition BITVEC_NELEM :: nat where "BITVEC_NELEM = BITVEC_USIZE div 1"
definition BITVEC_NBIT :: nat where "BITVEC_NBIT = BITVEC_NELEM * BITVEC_SZELEM"
definition BITVEC_NINT :: nat where "BITVEC_NINT = BITVEC_USIZE div 4"
definition BITVEC_MXHASH :: nat where "BITVEC_MXHASH = BITVEC_NINT div 2"
definition BITVEC_NPTR :: nat where "BITVEC_NPTR = BITVEC_USIZE div 8"

lemma bitvec_consts:
  "BITVEC_SZELEM = 8" "BITVEC_NELEM = 496" "BITVEC_NBIT = 3968" "BITVEC_NINT = 124" "BITVEC_MXHASH = 62" "BITVEC_NPTR = 62"
  by (simp_all add: BITVEC_SZELEM_def BITVEC_NELEM_def BITVEC_NBIT_def BITVEC_NINT_def BITVEC_MXHASH_def BITVEC_NPTR_def
      BITVEC_USIZE_def BITVEC_SZ_def)

definition BITVEC_HASH :: "u32 \<Rightarrow> nat" where
  "BITVEC_HASH x = unat x mod BITVEC_NINT"

definition BV_OK :: int where "BV_OK = 0"
definition BV_NOMEM :: int where "BV_NOMEM = 7"

datatype bitvec = Bitvec (iSize: u32) (nSet: u32) (iDivisor: u32) (bv_u: bitvec_union)
  and bitvec_union = ABitmap "u8 list" | AHash "u32 list" | ApSub "bitvec option list"

text \<open>Zeroed memory is an empty bitmap or an empty hash table, according to the size.\<close>

definition zero_bitvec :: "u32 \<Rightarrow> bitvec" where
  "zero_bitvec sz = Bitvec sz 0 0
     (if unat sz \<le> BITVEC_NBIT then ABitmap (replicate BITVEC_NELEM 0) else AHash (replicate BITVEC_NINT 0))"

definition sqlite3BitvecCreate :: "(nat \<Rightarrow> bool) \<Rightarrow> u32 \<Rightarrow> nat \<Rightarrow> bitvec option \<times> nat" where
  "sqlite3BitvecCreate room sz n = (if room n then Some (zero_bitvec sz) else None, n + 1)"

text \<open>
  The loops over the hash table: the first slot from \<open>h\<close> on whose value satisfies \<open>P\<close>. After as many
  steps as there are slots every one has been seen.
\<close>

fun hash_scan :: "(u32 \<Rightarrow> bool) \<Rightarrow> u32 list \<Rightarrow> nat \<Rightarrow> nat \<Rightarrow> nat run" where
  "hash_scan P a h 0 = Inl Forever"
| "hash_scan P a h (Suc n) =
     (if h < length a then
        if P (a ! h) then Inr h else hash_scan P a (if BITVEC_NINT \<le> h + 1 then 0 else h + 1) n
      else Inl Overrun)"

lemma size_sub: "b < length qs \<Longrightarrow> qs ! b = Some q \<Longrightarrow> size q < size (ApSub qs)"
proof (induction qs arbitrary: b)
  case (Cons x qs)
  then show ?case by (cases b) fastforce+
qed simp

text \<open>The number tested, set or cleared is \<open>i\<close> counted from zero, after the \<open>i--\<close> of each function.\<close>

function bv_test :: "bitvec \<Rightarrow> u32 \<Rightarrow> bool run" where
  "bv_test (Bitvec sz ns d u) i =
     (if d \<noteq> 0 then
        (case u of
           ApSub qs \<Rightarrow>
             if unat (i div d) < length qs then
               (case qs ! unat (i div d) of None \<Rightarrow> Inr False | Some q \<Rightarrow> bv_test q (i mod d))
             else Inl Overrun
         | _ \<Rightarrow> Inl Overrun)
      else if unat sz \<le> BITVEC_NBIT then
        (case u of
           ABitmap bm \<Rightarrow>
             if unat i div BITVEC_SZELEM < length bm
             then Inr (bm ! (unat i div BITVEC_SZELEM) AND push_bit (unat i mod BITVEC_SZELEM) 1 \<noteq> 0)
             else Inl Overrun
         | _ \<Rightarrow> Inl Overrun)
      else
        (case u of
           AHash a \<Rightarrow>
             bnd (hash_scan (\<lambda>x. x = 0 \<or> x = i + 1) a (BITVEC_HASH i) BITVEC_NINT) (\<lambda>h. Inr (a ! h \<noteq> 0))
         | _ \<Rightarrow> Inl Overrun))"
  by pat_completeness auto
termination
  by (relation "measure (size \<circ> fst)") (use size_sub in \<open>fastforce+\<close>)

declare bv_test.simps [simp del]

definition sqlite3BitvecTestNotNull :: "bitvec \<Rightarrow> u32 \<Rightarrow> bool run" where
  "sqlite3BitvecTestNotNull p i = (if iSize p \<le> i - 1 then Inr False else bv_test p (i - 1))"

definition sqlite3BitvecTest :: "bitvec option \<Rightarrow> u32 \<Rightarrow> bool run" where
  "sqlite3BitvecTest p i = (case p of None \<Rightarrow> Inr False | Some p \<Rightarrow> sqlite3BitvecTestNotNull p i)"

text \<open>The values of a full table are entered again one by one; their return codes are joined bitwise.\<close>

primrec set_values :: "(bitvec \<Rightarrow> u32 \<Rightarrow> nat \<Rightarrow> (int \<times> bitvec \<times> nat) run) \<Rightarrow> u32 list \<Rightarrow> int \<Rightarrow> bitvec \<Rightarrow> nat
    \<Rightarrow> (int \<times> bitvec \<times> nat) run" where
  "set_values f [] rc p n = Inr (rc, p, n)"
| "set_values f (v # vs) rc p n =
     (if v = 0 then set_values f vs rc p n
      else bnd (f p (v - 1) n) (\<lambda>(r, p, n). set_values f vs (rc OR r) p n))"

definition put_hash :: "bitvec \<Rightarrow> u32 list \<Rightarrow> nat \<Rightarrow> u32 \<Rightarrow> bitvec" where
  "put_hash p a h v = Bitvec (iSize p) (nSet p + 1) (iDivisor p) (AHash (a[h := v]))"

definition split_bitvec :: "bitvec \<Rightarrow> bitvec" where
  "split_bitvec p =
     Bitvec (iSize p) (nSet p) (of_nat ((unat (iSize p) + BITVEC_NPTR - 1) div BITVEC_NPTR)) (ApSub (replicate BITVEC_NPTR None))"

text \<open>
  \<open>sqlite3BitvecSet\<close> after its \<open>i--\<close>, with the number of requests for memory made so far. It enters a
  smaller bitmap or itself again after splitting the table, at most \<open>fuel\<close> times.
\<close>

fun bv_set :: "nat \<Rightarrow> (nat \<Rightarrow> bool) \<Rightarrow> bitvec \<Rightarrow> u32 \<Rightarrow> nat \<Rightarrow> (int \<times> bitvec \<times> nat) run" where
  "bv_set 0 room p i n = Inl Forever"
| "bv_set (Suc fuel) room p i n =
     (if BITVEC_NBIT < unat (iSize p) \<and> iDivisor p \<noteq> 0 then
        (case bv_u p of
           ApSub qs \<Rightarrow>
             let bin = unat (i div iDivisor p); j = i mod iDivisor p in
             if bin < length qs then
               (case (case qs ! bin of Some q \<Rightarrow> (Some q, n) | None \<Rightarrow> sqlite3BitvecCreate room (iDivisor p) n) of
                  (None, n) \<Rightarrow> Inr (BV_NOMEM, p, n)
                | (Some q, n) \<Rightarrow>
                    bnd (bv_set fuel room q j n) (\<lambda>(rc, q, n).
                    Inr (rc, Bitvec (iSize p) (nSet p) (iDivisor p) (ApSub (qs[bin := Some q])), n)))
             else Inl Overrun
         | _ \<Rightarrow> Inl Overrun)
      else if unat (iSize p) \<le> BITVEC_NBIT then
        (case bv_u p of
           ABitmap bm \<Rightarrow>
             let k = unat i div BITVEC_SZELEM in
             if k < length bm
             then Inr (BV_OK, Bitvec (iSize p) (nSet p) (iDivisor p)
                         (ABitmap (bm[k := bm ! k OR push_bit (unat i mod BITVEC_SZELEM) 1])), n)
             else Inl Overrun
         | _ \<Rightarrow> Inl Overrun)
      else
        (case bv_u p of
           AHash a \<Rightarrow>
             if BITVEC_HASH i < length a \<and> a ! BITVEC_HASH i = 0 \<and> unat (nSet p) < BITVEC_NINT - 1
             then Inr (BV_OK, put_hash p a (BITVEC_HASH i) (i + 1), n)
             else
               bnd (hash_scan (\<lambda>x. x = 0 \<or> x = i + 1) a (BITVEC_HASH i) BITVEC_NINT) (\<lambda>h.
               if a ! h \<noteq> 0 then Inr (BV_OK, p, n)
               else if BITVEC_MXHASH \<le> unat (nSet p) then
                 if \<not> room n then Inr (BV_NOMEM, p, n + 1)
                 else
                   bnd (bv_set fuel room (split_bitvec p) i (n + 1)) (\<lambda>(rc, q, n).
                   set_values (\<lambda>q v n. bv_set fuel room q v n) a rc q n)
               else Inr (BV_OK, put_hash p a h (i + 1), n))
         | _ \<Rightarrow> Inl Overrun))"

definition BITVEC_FUEL :: nat where "BITVEC_FUEL = 9"

definition sqlite3BitvecSet :: "(nat \<Rightarrow> bool) \<Rightarrow> bitvec option \<Rightarrow> u32 \<Rightarrow> nat \<Rightarrow> (int \<times> bitvec option \<times> nat) run" where
  "sqlite3BitvecSet room p i n =
     (case p of
        None \<Rightarrow> Inr (BV_OK, None, n)
      | Some p \<Rightarrow> bnd (bv_set BITVEC_FUEL room p (i - 1) n) (\<lambda>(rc, p, n). Inr (rc, Some p, n)))"

text \<open>Clearing a value in a hash table enters all others into an empty one.\<close>

primrec refill :: "u32 list \<Rightarrow> u32 \<Rightarrow> u32 list \<Rightarrow> u32 \<Rightarrow> (u32 list \<times> u32) run" where
  "refill [] i a ns = Inr (a, ns)"
| "refill (v # vs) i a ns =
     (if v \<noteq> 0 \<and> v \<noteq> i + 1 then
        bnd (hash_scan (\<lambda>x. x = 0) a (BITVEC_HASH (v - 1)) BITVEC_NINT) (\<lambda>h. refill vs i (a[h := v]) (ns + 1))
      else refill vs i a ns)"

function bv_clear :: "bitvec \<Rightarrow> u32 \<Rightarrow> bitvec run" where
  "bv_clear (Bitvec sz ns d u) i =
     (if d \<noteq> 0 then
        (case u of
           ApSub qs \<Rightarrow>
             if unat (i div d) < length qs then
               (case qs ! unat (i div d) of
                  None \<Rightarrow> Inr (Bitvec sz ns d u)
                | Some q \<Rightarrow>
                    bnd (bv_clear q (i mod d)) (\<lambda>q. Inr (Bitvec sz ns d (ApSub (qs[unat (i div d) := Some q])))))
             else Inl Overrun
         | _ \<Rightarrow> Inl Overrun)
      else if unat sz \<le> BITVEC_NBIT then
        (case u of
           ABitmap bm \<Rightarrow>
             let k = unat i div BITVEC_SZELEM in
             if k < length bm
             then Inr (Bitvec sz ns d (ABitmap (bm[k := bm ! k AND NOT (push_bit (unat i mod BITVEC_SZELEM) 1)])))
             else Inl Overrun
         | _ \<Rightarrow> Inl Overrun)
      else
        (case u of
           AHash a \<Rightarrow>
             bnd (refill a i (replicate BITVEC_NINT 0) 0) (\<lambda>(a, ns). Inr (Bitvec sz ns d (AHash a)))
         | _ \<Rightarrow> Inl Overrun))"
  by pat_completeness auto
termination
  by (relation "measure (size \<circ> fst)") (use size_sub in \<open>fastforce+\<close>)

declare bv_clear.simps [simp del]

definition sqlite3BitvecClear :: "bitvec option \<Rightarrow> u32 \<Rightarrow> bitvec option run" where
  "sqlite3BitvecClear p i = (case p of None \<Rightarrow> Inr None | Some p \<Rightarrow> bnd (bv_clear p (i - 1)) (\<lambda>p. Inr (Some p)))"

definition sqlite3BitvecSize :: "bitvec \<Rightarrow> u32" where
  "sqlite3BitvecSize p = iSize p"

section \<open>The hash table\<close>

text \<open>Slot \<open>k\<close> of the probe that starts at \<open>h\<close>.\<close>

definition slot :: "nat \<Rightarrow> nat \<Rightarrow> nat" where
  "slot h k = (h + k) mod BITVEC_NINT"

lemma slot_less [simp]: "slot h k < BITVEC_NINT"
  by (simp add: slot_def bitvec_consts)

lemma slot_0: "h < BITVEC_NINT \<Longrightarrow> slot h 0 = h"
  by (simp add: slot_def)

lemma slot_step: "h < BITVEC_NINT \<Longrightarrow> slot (if BITVEC_NINT \<le> h + 1 then 0 else h + 1) k = slot h (Suc k)"
  by (auto simp: slot_def bitvec_consts mod_simps le_Suc_eq)

lemma slot_onto:
  assumes "h < BITVEC_NINT" "q < BITVEC_NINT"
  shows "\<exists>k < BITVEC_NINT. slot h k = q"
proof (cases "h \<le> q")
  case True
  then show ?thesis using assms by (intro exI [of _ "q - h"]) (auto simp: slot_def)
next
  case False
  then show ?thesis using assms by (intro exI [of _ "q + BITVEC_NINT - h"]) (auto simp: slot_def)
qed

lemma home_less [simp]: "BITVEC_HASH i < BITVEC_NINT"
  by (simp add: BITVEC_HASH_def bitvec_consts)

lemma hash_scan_finds:
  assumes "length a = BITVEC_NINT" "h < BITVEC_NINT" "k < n" "P (a ! slot h k)"
  shows "\<exists>m \<le> k. hash_scan P a h n = Inr (slot h m) \<and> P (a ! slot h m) \<and> (\<forall>j < m. \<not> P (a ! slot h j))"
  using assms(2-)
proof (induction n arbitrary: h k)
  case (Suc n)
  let ?h = "if BITVEC_NINT \<le> h + 1 then 0 else h + 1"
  have h: "?h < BITVEC_NINT" using Suc.prems(1) by (simp add: bitvec_consts)
  show ?case
  proof (cases "P (a ! h)")
    case True
    then show ?thesis using Suc.prems(1) assms(1) by (intro exI [of _ 0]) (simp add: slot_0)
  next
    case False
    then obtain k' where k': "k = Suc k'" using Suc.prems slot_0 by (cases k) auto
    then obtain m where m: "m \<le> k'" "hash_scan P a ?h n = Inr (slot ?h m)" "P (a ! slot ?h m)" "\<forall>j < m. \<not> P (a ! slot ?h j)"
      using Suc.IH [OF h, of k'] Suc.prems slot_step by auto
    have "\<not> P (a ! slot h j)" if "j < Suc m" for j
      using that False m(4) slot_step [OF Suc.prems(1)] slot_0 [OF Suc.prems(1)] by (cases j) auto
    then show ?thesis using False m(1-3) k' Suc.prems(1) assms(1) slot_step [OF Suc.prems(1)]
      by (intro exI [of _ "Suc m"]) auto
  qed
qed simp

definition filled :: "u32 list \<Rightarrow> nat" where
  "filled a = length (filter (\<lambda>x. x \<noteq> 0) a)"

text \<open>
  No empty slot lies between the place a value hashes to and its slot, and there is an empty slot.
\<close>

definition probing :: "u32 list \<Rightarrow> bool" where
  "probing a = (length a = BITVEC_NINT \<and> filled a < BITVEC_NINT \<and>
     (\<forall>q < BITVEC_NINT. a ! q \<noteq> 0 \<longrightarrow>
       (\<exists>k < BITVEC_NINT. q = slot (BITVEC_HASH (a ! q - 1)) k \<and> (\<forall>j < k. a ! slot (BITVEC_HASH (a ! q - 1)) j \<noteq> 0))))"

lemma filled_put: "h < length a \<Longrightarrow> a ! h = 0 \<Longrightarrow> v \<noteq> 0 \<Longrightarrow> filled (a[h := v]) = filled a + 1"
  unfolding filled_def
  by (induction a arbitrary: h) (auto split: nat.splits simp: less_Suc_eq_0_disj)

lemma set_put: "h < length a \<Longrightarrow> a ! h = 0 \<Longrightarrow> v \<noteq> 0 \<Longrightarrow> set (a[h := v]) - {0} = insert v (set a) - {0}"
  by (auto simp: set_conv_nth nth_list_update split: if_splits)

lemma free_slot:
  assumes "probing a" "h < BITVEC_NINT"
  shows "\<exists>k < BITVEC_NINT. a ! slot h k = 0"
proof -
  have "filter (\<lambda>x. x \<noteq> 0) a \<noteq> a" using assms(1) by (auto simp: probing_def filled_def)
  then have "\<not> (\<forall>x \<in> set a. x \<noteq> 0)" by (simp add: filter_id_conv)
  then obtain q where "q < BITVEC_NINT" "a ! q = 0" using assms(1) by (auto simp: probing_def in_set_conv_nth)
  then show ?thesis using slot_onto [OF assms(2)] by metis
qed

lemma probing_put:
  assumes "probing a" "filled a < BITVEC_NINT - 1" "v \<noteq> 0" "h = slot (BITVEC_HASH (v - 1)) k" "k < BITVEC_NINT"
    "\<forall>j < k. a ! slot (BITVEC_HASH (v - 1)) j \<noteq> 0" "a ! h = 0"
  shows "probing (a[h := v])"
proof -
  have l: "length a = BITVEC_NINT" using assms(1) by (simp add: probing_def)
  have keep: "a[h := v] ! q \<noteq> 0" if "a ! q \<noteq> 0" for q
    using that assms(3) l assms(4) by (cases "q = h") auto
  have e: "filled (a[h := v]) < BITVEC_NINT" using filled_put [of h a v] assms l by simp
  have "\<exists>k < BITVEC_NINT. q = slot (BITVEC_HASH (a[h := v] ! q - 1)) k \<and> (\<forall>j < k. a[h := v] ! slot (BITVEC_HASH (a[h := v] ! q - 1)) j \<noteq> 0)"
    if q: "q < BITVEC_NINT" "a[h := v] ! q \<noteq> 0" for q
  proof (cases "q = h")
    case True
    then show ?thesis using assms(4-6) l keep by (intro exI [of _ k]) (simp add: nth_list_update)
  next
    case False
    then have "a[h := v] ! q = a ! q" by simp
    then show ?thesis using q assms(1) keep unfolding probing_def by metis
  qed
  then show ?thesis using e l by (simp add: probing_def)
qed

text \<open>The scan for a value ends at it, or at the first empty slot when it is not in the table.\<close>

lemma scan_value:
  assumes "probing a" "v \<noteq> 0"
  shows "\<exists>m < BITVEC_NINT. hash_scan (\<lambda>x. x = 0 \<or> x = v) a (BITVEC_HASH (v - 1)) BITVEC_NINT = Inr (slot (BITVEC_HASH (v - 1)) m) \<and>
    (a ! slot (BITVEC_HASH (v - 1)) m \<noteq> 0 \<longleftrightarrow> v \<in> set a) \<and> (\<forall>j < m. a ! slot (BITVEC_HASH (v - 1)) j \<noteq> 0)"
proof -
  let ?h = "BITVEC_HASH (v - 1)" and ?P = "\<lambda>x. x = 0 \<or> x = v"
  have l: "length a = BITVEC_NINT" using assms(1) by (simp add: probing_def)
  show ?thesis
  proof (cases "v \<in> set a")
    case True
    then obtain q where q: "q < BITVEC_NINT" "a ! q = v" using l by (auto simp: in_set_conv_nth)
    then obtain k where k: "k < BITVEC_NINT" "q = slot ?h k" "\<forall>j < k. a ! slot ?h j \<noteq> 0"
      using assms unfolding probing_def by blast
    obtain m where m: "m \<le> k" "hash_scan ?P a ?h BITVEC_NINT = Inr (slot ?h m)" "?P (a ! slot ?h m)" "\<forall>j < m. \<not> ?P (a ! slot ?h j)"
      using hash_scan_finds [of a ?h k BITVEC_NINT ?P] l k q by auto
    have "a ! slot ?h m \<noteq> 0" using m(1) k q assms(2) by (cases "m = k") auto
    then show ?thesis using m k(1) True by (intro exI [of _ m]) auto
  next
    case False
    obtain k where k: "k < BITVEC_NINT" "a ! slot ?h k = 0" using free_slot [OF assms(1)] by (metis home_less)
    obtain m where m: "m \<le> k" "hash_scan ?P a ?h BITVEC_NINT = Inr (slot ?h m)" "?P (a ! slot ?h m)" "\<forall>j < m. \<not> ?P (a ! slot ?h j)"
      using hash_scan_finds [of a ?h k BITVEC_NINT ?P] l k by auto
    have "a ! slot ?h m \<in> set a" using l by simp
    then have "a ! slot ?h m = 0" using m(3) False by auto
    then show ?thesis using m k(1) False by (intro exI [of _ m]) auto
  qed
qed

lemma scan_free:
  assumes "probing a" "v \<noteq> 0"
  shows "\<exists>m < BITVEC_NINT. hash_scan (\<lambda>x. x = 0) a (BITVEC_HASH (v - 1)) BITVEC_NINT = Inr (slot (BITVEC_HASH (v - 1)) m) \<and>
    a ! slot (BITVEC_HASH (v - 1)) m = 0 \<and> (\<forall>j < m. a ! slot (BITVEC_HASH (v - 1)) j \<noteq> 0)"
proof -
  let ?h = "BITVEC_HASH (v - 1)"
  obtain k where k: "k < BITVEC_NINT" "a ! slot ?h k = 0" using free_slot [OF assms(1)] by (metis home_less)
  moreover have "length a = BITVEC_NINT" using assms(1) by (simp add: probing_def)
  ultimately obtain m where "m \<le> k" "hash_scan (\<lambda>x. x = 0) a ?h BITVEC_NINT = Inr (slot ?h m)" "a ! slot ?h m = 0"
    "\<forall>j < m. a ! slot ?h j \<noteq> 0"
    using hash_scan_finds [of a ?h k BITVEC_NINT "\<lambda>x. x = 0"] by auto
  then show ?thesis using k(1) by (intro exI [of _ m]) auto
qed

lemma probing_empty: "probing (replicate BITVEC_NINT 0)"
  by (simp add: probing_def filled_def bitvec_consts)

section \<open>What a bitmap contains\<close>

function has :: "bitvec \<Rightarrow> nat \<Rightarrow> bool" where
  "has (Bitvec sz ns d u) k =
     (case u of
        ABitmap bm \<Rightarrow> bit (bm ! (k div 8)) (k mod 8)
      | AHash a \<Rightarrow> k + 1 \<in> unat ` set a
      | ApSub qs \<Rightarrow>
          if k div unat d < length qs
          then (case qs ! (k div unat d) of None \<Rightarrow> False | Some q \<Rightarrow> has q (k mod unat d)) else False)"
  by pat_completeness auto
termination
  by (relation "measure (size \<circ> fst)") (use size_sub in \<open>fastforce+\<close>)

declare has.simps [simp del]

lemma has_member [simp]:
  "has (Bitvec sz ns d (ABitmap bm)) k = bit (bm ! (k div 8)) (k mod 8)"
  "has (Bitvec sz ns d (AHash a)) k \<longleftrightarrow> k + 1 \<in> unat ` set a"
  "has (Bitvec sz ns d (ApSub qs)) k \<longleftrightarrow>
     k div unat d < length qs \<and> (case qs ! (k div unat d) of None \<Rightarrow> False | Some q \<Rightarrow> has q (k mod unat d))"
  by (simp_all add: has.simps)

definition bits :: "bitvec \<Rightarrow> nat set" where
  "bits p = {k + 1 | k. k < unat (iSize p) \<and> has p k}"

definition share :: "u32 \<Rightarrow> u32" where
  "share sz = of_nat ((unat sz + BITVEC_NPTR - 1) div BITVEC_NPTR)"

inductive bv_ok :: "bitvec \<Rightarrow> bool" where
  bitmap: "unat sz \<le> BITVEC_NBIT \<Longrightarrow> length bm = BITVEC_NELEM \<Longrightarrow> bv_ok (Bitvec sz ns 0 (ABitmap bm))"
| table: "BITVEC_NBIT < unat sz \<Longrightarrow> probing a \<Longrightarrow> unat ns = filled a \<Longrightarrow> (\<And>v. v \<in> set a \<Longrightarrow> v \<le> sz)
    \<Longrightarrow> bv_ok (Bitvec sz ns 0 (AHash a))"
| split: "BITVEC_NBIT < unat sz \<Longrightarrow> length qs = BITVEC_NPTR \<Longrightarrow> (\<And>q. Some q \<in> set qs \<Longrightarrow> iSize q = share sz \<and> bv_ok q)
    \<Longrightarrow> bv_ok (Bitvec sz ns (share sz) (ApSub qs))"

inductive_simps bv_ok_simps:
  "bv_ok (Bitvec sz ns d (ABitmap bm))" "bv_ok (Bitvec sz ns d (AHash a))" "bv_ok (Bitvec sz ns d (ApSub qs))"

inductive_cases bv_okE: "bv_ok p"


lemma unat_share: "unat (share sz) = (unat sz + 61) div 62"
proof -
  have "(unat sz + 61) div 62 < 2 ^ 32" using unat_bound [of sz] by simp
  then show ?thesis by (simp add: share_def bitvec_consts unat_u32)
qed

lemma share_facts:
  assumes "BITVEC_NBIT < unat sz"
  shows "0 < unat (share sz)" "unat (share sz) < unat sz" "share sz \<noteq> 0" "i < unat sz \<Longrightarrow> i div unat (share sz) < BITVEC_NPTR"
proof -
  show *: "0 < unat (share sz)" "unat (share sz) < unat sz" using assms unfolding unat_share bitvec_consts by linarith+
  then show "share sz \<noteq> 0" by auto
  assume "i < unat sz"
  moreover have "unat sz \<le> 62 * ((unat sz + 61) div 62)" by linarith
  ultimately show "i div unat (share sz) < BITVEC_NPTR" using *
    by (simp add: unat_share bitvec_consts less_mult_imp_div_less mult.commute)
qed

lemma zero_bitvec_ok: "bv_ok (zero_bitvec sz)" "iSize (zero_bitvec sz) = sz" "iDivisor (zero_bitvec sz) = 0"
  using probing_empty by (auto simp: zero_bitvec_def bv_ok_simps filled_def bitvec_consts)

lemma zero_bitvec_has: "k < unat sz \<Longrightarrow> \<not> has (zero_bitvec sz) k"
  by (auto simp: zero_bitvec_def bitvec_consts)

lemma unat_succ:
  fixes i :: u32
  assumes "unat i < unat sz"
  shows "unat (i + 1) = unat i + 1" "i + 1 \<noteq> 0" "i + 1 \<le> (sz :: u32)"
proof -
  have "unat i + 1 < 2 ^ 32" using assms unat_bound [of sz] by simp
  then show *: "unat (i + 1) = unat i + 1" by (simp add: unat_word_ariths)
  then show "i + 1 \<noteq> 0" by (metis Suc_eq_plus1 nat.distinct(1) unat_0)
  show "i + 1 \<le> sz" using * assms by (simp add: word_le_nat_alt)
qed

lemma table_has:
  assumes "unat i < unat (sz :: u32)"
  shows "has (Bitvec sz ns d (AHash a)) (unat i) \<longleftrightarrow> i + 1 \<in> set a"
proof -
  have "i + 1 = v" if "Suc (unat i) = unat v" for v
    using that unat_succ(1) [OF assms] by (simp add: word_unat_eq_iff)
  then show ?thesis using unat_succ(1) [OF assms] by (auto simp: image_iff) (metis unat_succ(1) [OF assms] Suc_eq_plus1)
qed

text \<open>A test never leaves an array, ends, and answers what the bitmap contains.\<close>

lemma bv_test_has: "bv_ok p \<Longrightarrow> unat i < unat (iSize p) \<Longrightarrow> bv_test p i = Inr (has p (unat i))"
proof (induction p arbitrary: i rule: bv_ok.induct)
  case (bitmap sz bm ns)
  have "unat i div 8 < 496" using bitmap by (simp add: bitvec_consts)
  then show ?case using bitmap
    by (simp add: bv_test.simps bitvec_consts bit_iff_and_push_bit_not_eq_0)
next
  case (table sz a ns)
  note s = unat_succ [of i sz] and lt = table.prems
  obtain m where m: "hash_scan (\<lambda>x. x = 0 \<or> x = i + 1) a (BITVEC_HASH i) BITVEC_NINT = Inr (slot (BITVEC_HASH i) m)"
    "a ! slot (BITVEC_HASH i) m \<noteq> 0 \<longleftrightarrow> i + 1 \<in> set a"
    using scan_value [OF table.hyps(2), of "i + 1"] s lt by auto
  then show ?case using table.hyps(1) lt table_has [of i sz] by (simp add: bv_test.simps)
next
  case (split sz qs ns)
  note f = share_facts [OF split.hyps(1)]
  let ?b = "unat i div unat (share sz)"
  have b: "?b < length qs" using f(4) [of "unat i"] split by simp
  have j: "unat i mod unat (share sz) < unat (share sz)" using f(1) by simp
  show ?case
  proof (cases "qs ! ?b")
    case None
    then show ?thesis using b f by (simp add: bv_test.simps unat_div)
  next
    case (Some q)
    then have "Some q \<in> set qs" using b by (metis nth_mem)
    then have "bv_test q (i mod share sz) = Inr (has q (unat (i mod share sz)))" using split.IH j by (simp add: unat_mod)
    then show ?thesis using b f Some by (simp add: bv_test.simps unat_div unat_mod)
  qed
qed

section \<open>Setting a bit\<close>

text \<open>
  After a success the bitmap contains one number more; after a failure it may contain less, but nothing
  that is neither new nor was in it.
\<close>

definition set_post :: "(nat \<Rightarrow> bool) \<Rightarrow> bitvec \<Rightarrow> nat \<Rightarrow> int \<Rightarrow> bitvec \<Rightarrow> bool" where
  "set_post room p i rc q \<longleftrightarrow> bv_ok q \<and> iSize q = iSize p \<and> (iDivisor p \<noteq> 0 \<longrightarrow> iDivisor q = iDivisor p) \<and>
     (rc = BV_OK \<or> rc = BV_NOMEM) \<and> ((\<forall>m. room m) \<longrightarrow> rc = BV_OK) \<and>
     (\<forall>k < unat (iSize p). has q k \<longrightarrow> k = i \<or> has p k) \<and>
     (rc = BV_OK \<longrightarrow> (\<forall>k < unat (iSize p). k = i \<or> has p k \<longrightarrow> has q k))"

definition set_good :: "nat \<Rightarrow> bitvec \<Rightarrow> bool" where
  "set_good f p \<longleftrightarrow> (\<forall>room i n. unat i < unat (iSize p) \<longrightarrow>
     (\<exists>rc q m. bv_set f room p i n = Inr (rc, q, m) \<and> set_post room p (unat i) rc q))"

lemma set_goodD:
  assumes "set_good f p" "unat i < unat (iSize p)"
  obtains rc q m where "bv_set f room p i n = Inr (rc, q, m)" "set_post room p (unat i) rc q"
  using assms unfolding set_good_def by metis

lemma set_post_keep: "bv_ok p \<Longrightarrow> has p i \<Longrightarrow> set_post room p i BV_OK p"
  by (auto simp: set_post_def)

lemma set_post_nomem: "bv_ok p \<Longrightarrow> \<not> room m \<Longrightarrow> set_post room p i BV_NOMEM p"
  by (auto simp: set_post_def BV_OK_def BV_NOMEM_def)

lemma bitmap_good:
  assumes "bv_ok p" "unat (iSize p) \<le> BITVEC_NBIT"
  shows "set_good (Suc f) p"
  using assms
proof (cases rule: bv_ok.cases)
  case (bitmap sz bm ns)
  have "set_post room p (unat i) BV_OK
      (Bitvec sz ns 0 (ABitmap (bm[unat i div 8 := bm ! (unat i div 8) OR push_bit (unat i mod 8) 1])))"
    if "unat i < unat sz" for room and i :: u32
  proof -
    have "has (Bitvec sz ns 0 (ABitmap (bm[unat i div 8 := bm ! (unat i div 8) OR push_bit (unat i mod 8) 1]))) k
        \<longleftrightarrow> k = unat i \<or> has p k" if "k < unat sz" for k
    proof (cases "k div 8 = unat i div 8")
      case True
      then have "k = unat i \<longleftrightarrow> k mod 8 = unat i mod 8" by (metis div_mult_mod_eq)
      moreover have "unat i div 8 < length bm" using \<open>unat i < unat sz\<close> bitmap by (simp add: bitvec_consts)
      ultimately show ?thesis using True bitmap by (auto simp: bit_or_iff bit_exp_iff)
    next
      case False
      then show ?thesis using bitmap by auto
    qed
    then show ?thesis using bitmap by (auto simp: set_post_def bv_ok_simps BV_OK_def)
  qed
  then show ?thesis using bitmap by (auto simp: set_good_def Let_def bitvec_consts)
qed (use assms in auto)

lemma split_cells:
  fixes i :: u32
  assumes "BITVEC_NBIT < unat sz" "unat i < unat sz"
  shows "unat (i div share sz) = unat i div unat (share sz)" "unat (i div share sz) < BITVEC_NPTR"
    "unat (i mod share sz) = unat i mod unat (share sz)" "unat i mod unat (share sz) < unat (share sz)"
  using share_facts [OF assms(1)] assms(2) by (auto simp: unat_div unat_mod)

lemma split_update:
  assumes "BITVEC_NBIT < unat sz" "length qs = BITVEC_NPTR" "\<And>q. Some q \<in> set qs \<Longrightarrow> iSize q = share sz \<and> bv_ok q"
    and i: "unat i < unat sz" and b: "b = unat i div unat (share sz)"
    and q: "qs ! b = Some q \<or> qs ! b = None \<and> q = zero_bitvec (share sz)"
    and post: "set_post room q (unat i mod unat (share sz)) rc q'"
  shows "set_post room (Bitvec sz ns (share sz) (ApSub qs)) (unat i) rc (Bitvec sz ns (share sz) (ApSub (qs[b := Some q'])))"
proof -
  note f = share_facts [OF assms(1)]
  let ?d = "unat (share sz)"
  have bl: "b < length qs" using f(4) [OF i] b assms(2) by simp
  have sq: "iSize q = share sz" using q assms(3) [of q] bl zero_bitvec_ok by (metis nth_mem)
  have ok: "bv_ok (Bitvec sz ns (share sz) (ApSub (qs[b := Some q'])))"
    using assms(1-3) post sq set_update_subset_insert [of qs b "Some q'"]
    by (fastforce simp: bv_ok_simps set_post_def)
  have at: "has (Bitvec sz ns (share sz) (ApSub qs)) k \<longleftrightarrow> has q (k mod ?d)" if "k div ?d = b" for k
    using q bl that zero_bitvec_has [of "k mod ?d" "share sz"] f(1) by auto
  have at': "has (Bitvec sz ns (share sz) (ApSub (qs[b := Some q']))) k \<longleftrightarrow> has q' (k mod ?d)" if "k div ?d = b" for k
    using bl that by simp
  have off: "has (Bitvec sz ns (share sz) (ApSub (qs[b := Some q']))) k \<longleftrightarrow> has (Bitvec sz ns (share sz) (ApSub qs)) k"
    if "k div ?d \<noteq> b" for k
    using that by simp
  have same: "k = unat i \<longleftrightarrow> k div ?d = b \<and> k mod ?d = unat i mod ?d" for k
    unfolding b by (metis div_mult_mod_eq)
  have "k mod ?d < unat (iSize q)" for k using f(1) sq by simp
  then show ?thesis using post ok at at' off same unfolding set_post_def bitvec.sel by (smt (verit))
qed

lemma split_good:
  assumes "bv_ok p" "iDivisor p \<noteq> 0" "\<And>q. bv_ok q \<Longrightarrow> iSize q = iDivisor p \<Longrightarrow> set_good f q"
  shows "set_good (Suc f) p"
  using assms(1)
proof (cases rule: bv_ok.cases)
  case (split sz qs ns)
  have "\<exists>rc q m. bv_set (Suc f) room p i n = Inr (rc, q, m) \<and> set_post room p (unat i) rc q" if i: "unat i < unat sz" for room i n
  proof -
    note f = share_facts [OF split(2)] and c = split_cells [OF split(2) i]
    let ?b = "unat i div unat (share sz)" and ?j = "i mod share sz"
    have eq: "bv_set (Suc f) room p i n =
        (case (case qs ! ?b of Some q \<Rightarrow> (Some q, n) | None \<Rightarrow> sqlite3BitvecCreate room (share sz) n) of
           (None, n) \<Rightarrow> Inr (BV_NOMEM, p, n)
         | (Some q, n) \<Rightarrow> bnd (bv_set f room q ?j n) (\<lambda>(rc, q, n).
             Inr (rc, Bitvec sz ns (share sz) (ApSub (qs[?b := Some q])), n)))"
      unfolding split(1) bv_set.simps bitvec.sel using split(2,3) f(3) c(1,2) by (simp add: Let_def)
    have go: ?thesis
      if q: "qs ! ?b = Some q \<or> qs ! ?b = None \<and> q = zero_bitvec (share sz)" "bv_ok q" "iSize q = share sz"
        and e: "bv_set (Suc f) room p i n = bnd (bv_set f room q ?j n') (\<lambda>(rc, q, n).
             Inr (rc, Bitvec sz ns (share sz) (ApSub (qs[?b := Some q])), n))" for q n'
    proof -
      have "set_good f q" using q assms(3) split(1) by simp
      then obtain rc q' m where r: "bv_set f room q ?j n' = Inr (rc, q', m)" "set_post room q (unat ?j) rc q'"
        using c(3,4) q(3) by (metis set_goodD)
      then show ?thesis using e split_update [OF split(2,3,4) i refl q(1), of room rc q'] c(3) split(1) by simp
    qed
    show ?thesis
    proof (cases "qs ! ?b")
      case None
      show ?thesis
      proof (cases "room n")
        case True
        then show ?thesis using go [of "zero_bitvec (share sz)" "n + 1"] None zero_bitvec_ok eq by (simp add: sqlite3BitvecCreate_def)
      next
        case False
        then show ?thesis using eq None set_post_nomem [OF assms(1)] by (simp add: sqlite3BitvecCreate_def)
      qed
    next
      case (Some q)
      then have "Some q \<in> set qs" using c(1,2) split(3) by (metis nth_mem)
      then show ?thesis using go [of q n] Some split(4) eq by simp
    qed
  qed
  then show ?thesis using split(1) by (simp add: set_good_def)
qed (use assms in auto)

lemma unat_pred:
  fixes v :: u32
  assumes "v \<noteq> 0" "v \<le> sz"
  shows "unat (v - 1) < unat sz" "k = unat (v - 1) \<longleftrightarrow> k + 1 = unat v"
proof -
  have "0 < unat v" using assms(1) by (simp add: unat_gt_0)
  moreover have "unat (v - 1) = unat v - 1" using assms(1) by (metis unat_minus_one)
  ultimately show "unat (v - 1) < unat sz" "k = unat (v - 1) \<longleftrightarrow> k + 1 = unat v"
    using assms(2) by (auto simp: word_le_nat_alt)
qed

lemma join_rc:
  "rc = BV_OK \<or> rc = BV_NOMEM \<Longrightarrow> r = BV_OK \<or> r = BV_NOMEM \<Longrightarrow> rc OR r = (if rc = BV_OK \<and> r = BV_OK then BV_OK else BV_NOMEM)"
  by (auto simp: BV_OK_def BV_NOMEM_def)

lemma set_values_post:
  assumes good: "\<And>p. bv_ok p \<Longrightarrow> iSize p = sz \<Longrightarrow> iDivisor p = d \<Longrightarrow> set_good f p" and d: "d \<noteq> 0"
  shows "bv_ok p \<Longrightarrow> iSize p = sz \<Longrightarrow> iDivisor p = d \<Longrightarrow> (\<And>v. v \<in> set vs \<Longrightarrow> v \<le> sz) \<Longrightarrow> rc = BV_OK \<or> rc = BV_NOMEM \<Longrightarrow>
    \<exists>rc' q m. set_values (\<lambda>q v n. bv_set f room q v n) vs rc p n = Inr (rc', q, m) \<and>
      bv_ok q \<and> iSize q = sz \<and> iDivisor q = d \<and> (rc' = BV_OK \<or> rc' = BV_NOMEM) \<and> ((\<forall>m. room m) \<and> rc = BV_OK \<longrightarrow> rc' = BV_OK) \<and>
      (\<forall>k < unat sz. has q k \<longrightarrow> has p k \<or> k + 1 \<in> unat ` set vs) \<and>
      (rc' = BV_OK \<longrightarrow> rc = BV_OK \<and> (\<forall>k < unat sz. has p k \<or> k + 1 \<in> unat ` set vs \<longrightarrow> has q k))"
proof (induction vs arbitrary: rc p n)
  case Nil
  then show ?case by simp
next
  case (Cons v vs)
  show ?case
  proof (cases "v = 0")
    case True
    then show ?thesis using Cons.IH [OF Cons.prems(1-3) _ Cons.prems(5), of n] Cons.prems(4) by simp
  next
    case False
    have v: "unat (v - 1) < unat sz" "k = unat (v - 1) \<longleftrightarrow> k + 1 = unat v" for k
      using unat_pred [OF False, of sz] Cons.prems(4) by auto
    obtain r p' m where s: "bv_set f room p (v - 1) n = Inr (r, p', m)" "set_post room p (unat (v - 1)) r p'"
      using good [OF Cons.prems(1-3)] v(1) Cons.prems(2) by (metis set_goodD)
    have p': "bv_ok p'" "iSize p' = sz" "iDivisor p' = d" "r = BV_OK \<or> r = BV_NOMEM" "(\<forall>m. room m) \<longrightarrow> r = BV_OK"
      "k < unat sz \<Longrightarrow> has p' k \<Longrightarrow> k + 1 = unat v \<or> has p k"
      "r = BV_OK \<Longrightarrow> k < unat sz \<Longrightarrow> k + 1 = unat v \<or> has p k \<Longrightarrow> has p' k" for k
      using s(2) Cons.prems(2,3) d v(2) by (auto simp: set_post_def)
    have j: "rc OR r = BV_OK \<or> rc OR r = BV_NOMEM" "rc OR r = BV_OK \<longleftrightarrow> rc = BV_OK \<and> r = BV_OK"
      using join_rc [OF Cons.prems(5) p'(4)] by (auto simp: BV_OK_def BV_NOMEM_def)
    obtain rc' q m' where q: "set_values (\<lambda>q v n. bv_set f room q v n) vs (rc OR r) p' m = Inr (rc', q, m')"
      "bv_ok q" "iSize q = sz" "iDivisor q = d" "rc' = BV_OK \<or> rc' = BV_NOMEM" "(\<forall>m. room m) \<and> rc OR r = BV_OK \<longrightarrow> rc' = BV_OK"
      "\<forall>k < unat sz. has q k \<longrightarrow> has p' k \<or> k + 1 \<in> unat ` set vs"
      "rc' = BV_OK \<longrightarrow> rc OR r = BV_OK \<and> (\<forall>k < unat sz. has p' k \<or> k + 1 \<in> unat ` set vs \<longrightarrow> has q k)"
      using Cons.IH [OF p'(1-3) _ j(1), of m] Cons.prems(4) by auto
    have "set_values (\<lambda>q v n. bv_set f room q v n) (v # vs) rc p n = Inr (rc', q, m')" using False s(1) q(1) by simp
    moreover have "\<forall>k < unat sz. has q k \<longrightarrow> has p k \<or> k + 1 \<in> unat ` set (v # vs)" using q(7) p'(6) by auto
    moreover have "rc' = BV_OK \<longrightarrow> rc = BV_OK \<and> (\<forall>k < unat sz. has p k \<or> k + 1 \<in> unat ` set (v # vs) \<longrightarrow> has q k)"
      using q(8) j(2) p'(7) by auto
    moreover have "(\<forall>m. room m) \<and> rc = BV_OK \<longrightarrow> rc' = BV_OK" using q(6) j(2) p'(5) by simp
    ultimately show ?thesis using q(2-5) by blast
  qed
qed

lemma split_bitvec_ok:
  assumes "BITVEC_NBIT < unat (iSize p)"
  shows "bv_ok (split_bitvec p)" "iSize (split_bitvec p) = iSize p" "iDivisor (split_bitvec p) = share (iSize p)" "\<not> has (split_bitvec p) k"
proof -
  have e: "split_bitvec p = Bitvec (iSize p) (nSet p) (share (iSize p)) (ApSub (replicate BITVEC_NPTR None))"
    by (simp add: split_bitvec_def share_def)
  show "bv_ok (split_bitvec p)" unfolding e using assms by (intro bv_ok.split) (auto simp: bitvec_consts)
  show "\<not> has (split_bitvec p) k" unfolding e by simp
qed (simp_all add: split_bitvec_def share_def)

lemma put_post:
  fixes i :: u32
  assumes ok: "bv_ok (Bitvec sz ns 0 (AHash a))" and i: "unat i < unat sz" and few: "unat ns < BITVEC_NINT - 1"
    and h: "h = slot (BITVEC_HASH i) k" "k < BITVEC_NINT" "\<forall>j < k. a ! slot (BITVEC_HASH i) j \<noteq> 0" "a ! h = 0"
  shows "set_post room (Bitvec sz ns 0 (AHash a)) (unat i) BV_OK (put_hash (Bitvec sz ns 0 (AHash a)) a h (i + 1))"
proof -
  note s = unat_succ [OF i]
  have t: "BITVEC_NBIT < unat sz" "probing a" "unat ns = filled a" "v \<in> set a \<Longrightarrow> v \<le> sz" for v
    using ok by (auto simp: bv_ok_simps)
  have l: "h < length a" using t(2) h(1) by (simp add: probing_def)
  have "unat (ns + 1) = filled a + 1" using few t(3) by (simp add: unat_word_ariths bitvec_consts)
  moreover have "probing (a[h := i + 1])" using probing_put [of a "i + 1" h k] t(2,3) few h s(2) by simp
  moreover have "v \<le> sz" if "v \<in> set (a[h := i + 1])" for v
    using that set_update_subset_insert [of a h "i + 1"] t(4) s(3) by auto
  ultimately have "bv_ok (put_hash (Bitvec sz ns 0 (AHash a)) a h (i + 1))"
    using t(1) filled_put [OF l h(4) s(2)] by (auto simp: put_hash_def intro!: bv_ok.table)
  moreover have "has (Bitvec sz m 0 (AHash (a[h := i + 1]))) k \<longleftrightarrow> k = unat i \<or> has (Bitvec sz ns 0 (AHash a)) k" for k m
  proof -
    have nz: "k + 1 \<in> unat ` S \<longleftrightarrow> k + 1 \<in> unat ` (S - {0})" for S :: "u32 set" by auto
    have "k + 1 \<in> unat ` set (a[h := i + 1]) \<longleftrightarrow> k + 1 \<in> unat ` insert (i + 1) (set a)"
      unfolding nz [of "set (a[h := i + 1])"] nz [of "insert (i + 1) (set a)"] set_put [OF l h(4) s(2)] ..
    then show ?thesis using s(1) by simp
  qed
  ultimately show ?thesis by (auto simp: set_post_def put_hash_def BV_OK_def)
qed

lemma table_good:
  assumes "bv_ok p" "iDivisor p = 0" "BITVEC_NBIT < unat (iSize p)"
    and good: "\<And>q. bv_ok q \<Longrightarrow> iSize q = iSize p \<Longrightarrow> iDivisor q = share (iSize p) \<Longrightarrow> set_good f q"
  shows "set_good (Suc f) p"
  using assms(1)
proof (cases rule: bv_ok.cases)
  case (table sz a ns)
  have "\<exists>rc q m. bv_set (Suc f) room p i n = Inr (rc, q, m) \<and> set_post room p (unat i) rc q" if i: "unat i < unat sz" for room i n
  proof -
    let ?h = "BITVEC_HASH i"
    note s = unat_succ [OF i]
    obtain m where m: "m < BITVEC_NINT" "hash_scan (\<lambda>x. x = 0 \<or> x = i + 1) a ?h BITVEC_NINT = Inr (slot ?h m)"
      "a ! slot ?h m \<noteq> 0 \<longleftrightarrow> i + 1 \<in> set a" "\<forall>j < m. a ! slot ?h j \<noteq> 0"
      using scan_value [OF table(3) s(2)] by auto
    have l: "length a = BITVEC_NINT" using table(3) by (simp add: probing_def)
    have eq: "bv_set (Suc f) room p i n =
        (if a ! ?h = 0 \<and> unat ns < BITVEC_NINT - 1 then Inr (BV_OK, put_hash p a ?h (i + 1), n)
         else if a ! slot ?h m \<noteq> 0 then Inr (BV_OK, p, n)
         else if BITVEC_MXHASH \<le> unat ns then
           if \<not> room n then Inr (BV_NOMEM, p, n + 1)
           else bnd (bv_set f room (split_bitvec p) i (n + 1)) (\<lambda>(rc, q, n). set_values (\<lambda>q v n. bv_set f room q v n) a rc q n)
         else Inr (BV_OK, put_hash p a (slot ?h m) (i + 1), n))"
      using table(2) m(2) l unfolding table(1) by simp
    note put = put_post [OF assms(1) [unfolded table(1)] i, folded table(1)]
    consider (direct) "a ! ?h = 0 \<and> unat ns < BITVEC_NINT - 1"
      | (there) "\<not> (a ! ?h = 0 \<and> unat ns < BITVEC_NINT - 1)" "a ! slot ?h m \<noteq> 0"
      | (full) "\<not> (a ! ?h = 0 \<and> unat ns < BITVEC_NINT - 1)" "\<not> a ! slot ?h m \<noteq> 0" "BITVEC_MXHASH \<le> unat ns"
      | (free) "\<not> (a ! ?h = 0 \<and> unat ns < BITVEC_NINT - 1)" "\<not> a ! slot ?h m \<noteq> 0" "\<not> BITVEC_MXHASH \<le> unat ns"
      by blast
    then show ?thesis
    proof cases
      case direct
      then show ?thesis using put [of ?h 0] slot_0 [OF home_less, of i] unfolding eq by (simp add: bitvec_consts)
    next
      case there
      then have "set_post room p (unat i) BV_OK p" using set_post_keep [OF assms(1)] m(3) table(1) table_has [OF i] by simp
      then show ?thesis unfolding eq if_not_P [OF there(1)] if_P [OF there(2)] by blast
    next
      case full
      note eq' = eq [unfolded if_not_P [OF full(1)] if_not_P [OF full(2)] if_P [OF full(3)]]
      show ?thesis
      proof (cases "room n")
        case False
        then show ?thesis using eq' set_post_nomem [OF assms(1)] by simp
      next
        case True
        note sp = split_bitvec_ok [OF assms(3)]
        have sz: "iSize p = sz" using table(1) by simp
        have "set_good f (split_bitvec p)" using good sp by simp
        then obtain rc q k where q: "bv_set f room (split_bitvec p) i (n + 1) = Inr (rc, q, k)"
          "set_post room (split_bitvec p) (unat i) rc q"
          using i sp(2) sz by (metis set_goodD)
        have q': "bv_ok q" "iSize q = sz" "iDivisor q = share sz" "rc = BV_OK \<or> rc = BV_NOMEM"
          using q(2) sp sz share_facts(3) [OF table(2)] by (auto simp: set_post_def)
        obtain rc' r k' where r: "set_values (\<lambda>q v n. bv_set f room q v n) a rc q k = Inr (rc', r, k')"
          "bv_ok r" "iSize r = sz" "rc' = BV_OK \<or> rc' = BV_NOMEM" "(\<forall>m. room m) \<and> rc = BV_OK \<longrightarrow> rc' = BV_OK"
          "\<forall>k < unat sz. has r k \<longrightarrow> has q k \<or> k + 1 \<in> unat ` set a"
          "rc' = BV_OK \<longrightarrow> rc = BV_OK \<and> (\<forall>k < unat sz. has q k \<or> k + 1 \<in> unat ` set a \<longrightarrow> has r k)"
          using set_values_post [of sz "share sz" f q a rc room k, OF good] sz share_facts(3) [OF table(2)] q' table(5) by auto
        have "set_post room p (unat i) rc' r"
        proof -
          have hp: "k + 1 \<in> unat ` set a \<longleftrightarrow> has p k" for k using table(1) by simp
          note q2 = q(2) [unfolded set_post_def sp(2) sz]
          have hq: "has q k \<Longrightarrow> k < unat sz \<Longrightarrow> k = unat i" "rc = BV_OK \<Longrightarrow> has q (unat i)" "(\<forall>m. room m) \<longrightarrow> rc = BV_OK" for k
            using q2 sp(4) i by blast+
          have "\<forall>k < unat sz. has r k \<longrightarrow> k = unat i \<or> has p k" using r(6) hq(1) hp by blast
          moreover have "rc' = BV_OK \<longrightarrow> (\<forall>k < unat sz. k = unat i \<or> has p k \<longrightarrow> has r k)" using r(7) hq(2) hp by blast
          moreover have "(\<forall>m. room m) \<longrightarrow> rc' = BV_OK" using r(5) hq(3) by blast
          ultimately show ?thesis unfolding set_post_def using r(2-4) sz assms(2) by simp
        qed
        then show ?thesis using eq' True q(1) r(1) by simp
      qed
    next
      case free
      then have "set_post room p (unat i) BV_OK (put_hash p a (slot ?h m) (i + 1))"
        using put [of "slot ?h m" m] m by (simp add: bitvec_consts)
      then show ?thesis unfolding eq if_not_P [OF free(1)] if_not_P [OF free(2)] if_not_P [OF free(3)] by blast
    qed
  qed
  then show ?thesis using table(1) by (simp add: set_good_def)
qed (use assms share_facts in auto)

text \<open>
  Every split divides the size by 62, and every level is entered at most twice; \<open>k\<close> levels lie above a bitmap.
\<close>

lemma bv_set_good: "bv_ok p \<Longrightarrow> unat (iSize p) \<le> BITVEC_NBIT * 62 ^ k \<Longrightarrow> 2 * k + 1 \<le> f \<Longrightarrow> set_good f p"
proof (induction k arbitrary: p f)
  case 0
  then show ?case using bitmap_good by (cases f) auto
next
  case (Suc k)
  obtain g where f: "f = Suc (Suc g)" "2 * k + 1 \<le> g" using Suc.prems(3) by (cases f; cases "f - 1") auto
  have child: "unat (share sz) \<le> BITVEC_NBIT * 62 ^ k" if "unat sz \<le> BITVEC_NBIT * 62 ^ Suc k" for sz
    using that unfolding unat_share by (simp add: algebra_simps)
  have split: "set_good (Suc h) q" if "bv_ok q" "iDivisor q \<noteq> 0" "unat (iSize q) \<le> BITVEC_NBIT * 62 ^ Suc k" "2 * k + 1 \<le> h" for q h
  proof (rule split_good [OF that(1,2)])
    fix c assume "bv_ok c" "iSize c = iDivisor q"
    moreover have "iDivisor q = share (iSize q)" using that(1,2) by (auto elim: bv_ok.cases)
    ultimately show "set_good h c" using Suc.IH child that(3,4) by metis
  qed
  consider "unat (iSize p) \<le> BITVEC_NBIT" | "BITVEC_NBIT < unat (iSize p)" "iDivisor p = 0" | "iDivisor p \<noteq> 0" by linarith
  then show ?case
  proof cases
    case 1
    then show ?thesis using bitmap_good [OF Suc.prems(1)] f by simp
  next
    case 2
    show ?thesis unfolding f(1)
    proof (rule table_good [OF Suc.prems(1) 2(2,1)])
      fix q assume "bv_ok q" "iSize q = iSize p" "iDivisor q = share (iSize p)"
      then show "set_good (Suc g) q" using split [of q g] Suc.prems(2) f(2) share_facts(3) [OF 2(1)] by simp
    qed
  next
    case 3
    then show ?thesis using split [OF Suc.prems(1) 3 Suc.prems(2), of "Suc g"] f by simp
  qed
qed

lemma fuel_enough: "bv_ok p \<Longrightarrow> set_good BITVEC_FUEL p"
  using bv_set_good [of p 4 BITVEC_FUEL] unat_bound [of "iSize p"] by (simp add: BITVEC_FUEL_def bitvec_consts)

section \<open>Clearing a bit\<close>

lemma filled_Cons: "filled (v # vs) = filled vs + (if v = 0 then 0 else 1)"
  by (simp add: filled_def)

lemma refill_spec:
  "probing a \<Longrightarrow> unat ns = filled a \<Longrightarrow> filled a + filled vs < BITVEC_NINT \<Longrightarrow>
   \<exists>b m. refill vs i a ns = Inr (b, m) \<and> probing b \<and> unat m = filled b \<and> set b - {0} = set a \<union> (set vs - {i + 1}) - {0}"
proof (induction vs arbitrary: a ns)
  case (Cons v vs)
  show ?case
  proof (cases "v \<noteq> 0 \<and> v \<noteq> i + 1")
    case True
    let ?h = "BITVEC_HASH (v - 1)"
    obtain m where m: "m < BITVEC_NINT" "hash_scan (\<lambda>x. x = 0) a ?h BITVEC_NINT = Inr (slot ?h m)" "a ! slot ?h m = 0"
      "\<forall>j < m. a ! slot ?h j \<noteq> 0"
      using scan_free [OF Cons.prems(1)] True by blast
    let ?a = "a[slot ?h m := v]"
    have few: "filled a < BITVEC_NINT - 1" using Cons.prems(3) True by (simp add: filled_Cons)
    have l: "slot ?h m < length a" using Cons.prems(1) by (simp add: probing_def)
    have p: "probing ?a" using probing_put [OF Cons.prems(1) few _ refl m(1,4,3)] True by simp
    have e: "filled ?a = filled a + 1" using filled_put [OF l m(3)] True by simp
    have n: "unat (ns + 1) = filled ?a" using Cons.prems(2) few e by (simp add: unat_word_ariths bitvec_consts)
    have c: "filled ?a + filled vs < BITVEC_NINT" using Cons.prems(3) e True by (simp add: filled_Cons)
    obtain b k where "refill vs i ?a (ns + 1) = Inr (b, k)" "probing b" "unat k = filled b"
      "set b - {0} = set ?a \<union> (set vs - {i + 1}) - {0}"
      using Cons.IH [OF p n c] by blast
    moreover have "set ?a \<union> (set vs - {i + 1}) - {0} = set a \<union> (set (v # vs) - {i + 1}) - {0}"
    proof -
      have "set ?a \<union> (set vs - {i + 1}) - {0} = (set ?a - {0}) \<union> (set vs - {i + 1} - {0})" by blast
      also have "... = (insert v (set a) - {0}) \<union> (set vs - {i + 1} - {0})" using set_put [OF l m(3), of v] True by simp
      finally show ?thesis using True by auto
    qed
    ultimately show ?thesis using True m(2) by simp
  next
    case False
    then show ?thesis using Cons.IH [OF Cons.prems(1,2)] Cons.prems(3) by (auto simp: filled_Cons split: if_splits)
  qed
qed simp

lemma unat_image_diff: "unat ` (A - B) = unat ` A - unat ` (B :: u32 set)"
  by (intro image_set_diff injI) (simp add: word_unat_eq_iff)

definition clear_post :: "bitvec \<Rightarrow> nat \<Rightarrow> bitvec \<Rightarrow> bool" where
  "clear_post p i q \<longleftrightarrow> bv_ok q \<and> iSize q = iSize p \<and> (\<forall>k < unat (iSize p). has q k \<longleftrightarrow> k \<noteq> i \<and> has p k)"

lemma bv_clear_post: "bv_ok p \<Longrightarrow> unat i < unat (iSize p) \<Longrightarrow> \<exists>q. bv_clear p i = Inr q \<and> clear_post p (unat i) q"
proof (induction p arbitrary: i rule: bv_ok.induct)
  case (bitmap sz bm ns)
  have lt: "unat i div 8 < length bm" using bitmap by (simp add: bitvec_consts)
  let ?bm = "bm[unat i div 8 := bm ! (unat i div 8) AND NOT (push_bit (unat i mod 8) 1)]"
  have "has (Bitvec sz ns 0 (ABitmap ?bm)) k \<longleftrightarrow> k \<noteq> unat i \<and> has (Bitvec sz ns 0 (ABitmap bm)) k" if "k < unat sz" for k
  proof (cases "k div 8 = unat i div 8")
    case True
    then have "k = unat i \<longleftrightarrow> k mod 8 = unat i mod 8" by (metis div_mult_mod_eq)
    then show ?thesis using True lt by (auto simp: bit_and_iff bit_not_iff bit_exp_iff)
  next
    case False
    then show ?thesis by auto
  qed
  then show ?case using bitmap lt by (simp add: bv_clear.simps Let_def bitvec_consts clear_post_def bv_ok_simps)
next
  case (table sz a ns)
  note s = unat_succ [of i sz]
  have "filled (replicate BITVEC_NINT 0 :: u32 list) = 0" by (simp add: filled_def)
  then obtain b m where b: "refill a i (replicate BITVEC_NINT 0) 0 = Inr (b, m)" "probing b" "unat m = filled b"
    "set b - {0} = set (replicate BITVEC_NINT 0) \<union> (set a - {i + 1}) - {0}"
  proof -
    have "filled (replicate BITVEC_NINT 0 :: u32 list) + filled a < BITVEC_NINT"
      using table.hyps(2) by (simp add: probing_def filled_def)
    then show ?thesis using refill_spec [OF probing_empty, of 0 a i] that by (simp add: filled_def) blast
  qed
  have "set (replicate BITVEC_NINT (0 :: u32)) = {0}" by (rule set_replicate) (simp add: bitvec_consts)
  then have sb: "set b - {0} = set a - {i + 1} - {0}" using b(4) by simp
  have "v \<le> sz" if "v \<in> set b" for v
  proof (cases "v = 0")
    case False
    then have "v \<in> set a" using that sb by blast
    then show ?thesis by (rule table.hyps(4))
  qed simp
  then have ok: "bv_ok (Bitvec sz m 0 (AHash b))" using table.hyps(1) b by (auto intro!: bv_ok.table)
  have "k + 1 \<in> unat ` set b \<longleftrightarrow> k \<noteq> unat i \<and> k + 1 \<in> unat ` set a" for k
  proof -
    have "unat ` (set b - {0}) = unat ` (set a - {i + 1} - {0})" using sb by simp
    then have "unat ` set b - {0} = unat ` set a - {unat (i + 1)} - {0}" by (simp only: unat_image_diff image_insert image_empty unat_0)
    then have "k + 1 \<in> unat ` set b - {0} \<longleftrightarrow> k + 1 \<in> unat ` set a - {unat (i + 1)} - {0}" by (simp only:)
    then show ?thesis using s(1) table.prems by auto
  qed
  then show ?case using ok b(1) table.hyps(1) by (simp add: bv_clear.simps clear_post_def)
next
  case (split sz qs ns)
  have i: "unat i < unat sz" using split.prems by simp
  note f = share_facts [OF split.hyps(1)] and c = split_cells [OF split.hyps(1) i]
  let ?d = "unat (share sz)"
  let ?b = "unat i div ?d" and ?p = "Bitvec sz ns (share sz) (ApSub qs)"
  have bl: "?b < length qs" using c(1,2) split.hyps(2) by simp
  have ok: "bv_ok ?p" using split by (auto simp: bv_ok_simps)
  have same: "k = unat i \<longleftrightarrow> k div ?d = ?b \<and> k mod ?d = unat i mod ?d" for k by (metis div_mult_mod_eq)
  show ?case
  proof (cases "qs ! ?b")
    case None
    then have "\<not> has ?p (unat i)" by simp
    then have "clear_post ?p (unat i) ?p" using ok by (auto simp: clear_post_def)
    then show ?thesis using None f(3) bl c(1) by (simp add: bv_clear.simps)
  next
    case (Some q)
    then have q: "Some q \<in> set qs" using bl by (metis nth_mem)
    then have sq: "iSize q = share sz" using split.IH by blast
    obtain r where r: "bv_clear q (i mod share sz) = Inr r" "clear_post q (unat i mod ?d) r"
      using split.IH [OF q] c(3,4) by metis
    have "bv_ok (Bitvec sz ns (share sz) (ApSub (qs[?b := Some r])))"
      using split.hyps split.IH r(2) sq set_update_subset_insert [of qs ?b "Some r"]
      by (fastforce simp: bv_ok_simps clear_post_def)
    moreover have "has (Bitvec sz ns (share sz) (ApSub (qs[?b := Some r]))) k \<longleftrightarrow> k \<noteq> unat i \<and> has ?p k" for k
    proof (cases "k div ?d = ?b")
      case True
      have "k mod ?d < unat (iSize q)" using f(1) sq by simp
      then have "has r (k mod ?d) \<longleftrightarrow> k mod ?d \<noteq> unat i mod ?d \<and> has q (k mod ?d)" using r(2) by (simp add: clear_post_def)
      then show ?thesis using True bl Some same [of k] by auto
    next
      case False
      then show ?thesis by auto
    qed
    ultimately have "clear_post ?p (unat i) (Bitvec sz ns (share sz) (ApSub (qs[?b := Some r])))"
      by (simp add: clear_post_def del: has_member)
    then show ?thesis using Some f(3) bl c(1) r(1) by (simp add: bv_clear.simps)
  qed
qed

section \<open>A bitmap is a set of numbers\<close>

datatype bv_op = SetBit u32 | ClearBit u32 | TestBit u32
datatype bv_answer = Code int | Found bool

text \<open>What a set answers, and operations whose answers are recorded.\<close>

fun set_answers :: "bv_op list \<Rightarrow> nat set \<Rightarrow> bv_answer list" where
  "set_answers [] S = []"
| "set_answers (SetBit i # ops) S = Code BV_OK # set_answers ops (insert (unat i) S)"
| "set_answers (ClearBit i # ops) S = Code BV_OK # set_answers ops (S - {unat i})"
| "set_answers (TestBit i # ops) S = Found (unat i \<in> S) # set_answers ops S"

fun bit_arg :: "bv_op \<Rightarrow> nat" where
  "bit_arg (SetBit i) = unat i" | "bit_arg (ClearBit i) = unat i" | "bit_arg (TestBit i) = unat i"

text \<open>An answer after a failure: less may be found, and the code may be that of the failure.\<close>

fun weaker :: "bv_answer \<Rightarrow> bv_answer \<Rightarrow> bool" where
  "weaker (Code r) (Code s) = (r = s \<or> r = BV_NOMEM)"
| "weaker (Found b) (Found c) = (b \<longrightarrow> c)"
| "weaker _ _ = False"

primrec bit_ops :: "(u32 \<Rightarrow> 's \<Rightarrow> nat \<Rightarrow> (int \<times> 's \<times> nat) run) \<Rightarrow> (u32 \<Rightarrow> 's \<Rightarrow> 's run) \<Rightarrow> (u32 \<Rightarrow> 's \<Rightarrow> bool run)
    \<Rightarrow> bv_op list \<Rightarrow> 's \<Rightarrow> nat \<Rightarrow> (bv_answer list \<times> 's) run" where
  "bit_ops ins del tst [] s n = Inr ([], s)"
| "bit_ops ins del tst (op # ops) s n =
     bnd (case op of
            SetBit i \<Rightarrow> bnd (ins i s n) (\<lambda>(rc, s, n). Inr (Code rc, s, n))
          | ClearBit i \<Rightarrow> bnd (del i s) (\<lambda>s. Inr (Code BV_OK, s, n))
          | TestBit i \<Rightarrow> bnd (tst i s) (\<lambda>b. Inr (Found b, s, n))) (\<lambda>(a, s, n).
     bnd (bit_ops ins del tst ops s n) (\<lambda>(as, s). Inr (a # as, s)))"

locale bit_set =
  fixes ok :: "'s \<Rightarrow> bool"
    and elems :: "'s \<Rightarrow> nat set"
    and room :: "nat \<Rightarrow> bool"
    and top :: nat
    and ins :: "u32 \<Rightarrow> 's \<Rightarrow> nat \<Rightarrow> (int \<times> 's \<times> nat) run"
    and del :: "u32 \<Rightarrow> 's \<Rightarrow> 's run"
    and tst :: "u32 \<Rightarrow> 's \<Rightarrow> bool run"
  assumes ins_law: "ok s \<Longrightarrow> 1 \<le> unat i \<Longrightarrow> unat i \<le> top \<Longrightarrow> \<exists>rc t m. ins i s n = Inr (rc, t, m) \<and> ok t \<and>
      elems t \<subseteq> insert (unat i) (elems s) \<and> (rc = BV_OK \<and> elems t = insert (unat i) (elems s) \<or> rc = BV_NOMEM \<and> \<not> (\<forall>m. room m))"
    and del_law: "ok s \<Longrightarrow> 1 \<le> unat i \<Longrightarrow> unat i \<le> top \<Longrightarrow> \<exists>t. del i s = Inr t \<and> ok t \<and> elems t = elems s - {unat i}"
    and tst_law: "ok s \<Longrightarrow> 1 \<le> unat i \<Longrightarrow> unat i \<le> top \<Longrightarrow> tst i s = Inr (unat i \<in> elems s)"
begin

lemma ops_refine:
  "ok s \<Longrightarrow> (\<And>op. op \<in> set ops \<Longrightarrow> 1 \<le> bit_arg op \<and> bit_arg op \<le> top) \<Longrightarrow> elems s \<subseteq> S \<Longrightarrow>
   \<exists>as t. bit_ops ins del tst ops s n = Inr (as, t) \<and> ok t \<and> list_all2 weaker as (set_answers ops S) \<and>
     (elems s = S \<and> Code BV_NOMEM \<notin> set as \<longrightarrow> as = set_answers ops S) \<and> ((\<forall>m. room m) \<longrightarrow> Code BV_NOMEM \<notin> set as)"
proof (induction ops arbitrary: s S n)
  case (Cons op ops)
  have rest: "op \<in> set ops \<Longrightarrow> 1 \<le> bit_arg op \<and> bit_arg op \<le> top" for op using Cons.prems(2) by simp
  have arg: "1 \<le> bit_arg op" "bit_arg op \<le> top" using Cons.prems(2) by auto
  have ne: "BV_OK \<noteq> BV_NOMEM" by (simp add: BV_OK_def BV_NOMEM_def)
  show ?case
  proof (cases op)
    case (SetBit i)
    obtain rc t m where t: "ins i s n = Inr (rc, t, m)" "ok t" "elems t \<subseteq> insert (unat i) (elems s)"
      "rc = BV_OK \<and> elems t = insert (unat i) (elems s) \<or> rc = BV_NOMEM \<and> \<not> (\<forall>m. room m)"
      using ins_law [OF Cons.prems(1), of i n] arg SetBit by auto
    have "elems t \<subseteq> insert (unat i) S" using t(3) Cons.prems(3) by blast
    from Cons.IH [OF t(2) rest this, of m] show ?thesis using t(1,4) SetBit ne by fastforce
  next
    case (ClearBit i)
    obtain t where t: "del i s = Inr t" "ok t" "elems t = elems s - {unat i}"
      using del_law [OF Cons.prems(1), of i] arg ClearBit by auto
    have "elems t \<subseteq> S - {unat i}" using t(3) Cons.prems(3) by blast
    from Cons.IH [OF t(2) rest this, of n] show ?thesis using t(1,3) ClearBit ne by fastforce
  next
    case (TestBit i)
    from Cons.IH [OF Cons.prems(1) rest Cons.prems(3), of n] show ?thesis
      using tst_law [OF Cons.prems(1), of i] arg TestBit Cons.prems(3) by fastforce
  qed
qed simp

end

definition bvset :: "u32 \<Rightarrow> bitvec option \<Rightarrow> bool" where
  "bvset sz s = (\<exists>p. s = Some p \<and> bv_ok p \<and> iSize p = sz)"

definition bv_elems :: "bitvec option \<Rightarrow> nat set" where
  "bv_elems s = (case s of None \<Rightarrow> {} | Some p \<Rightarrow> bits p)"

lemma bits_iff: "1 \<le> k \<Longrightarrow> k \<le> unat (iSize p) \<Longrightarrow> k \<in> bits p \<longleftrightarrow> has p (k - 1)"
  by (cases k) (auto simp: bits_def)

lemma mem_bits: "x \<in> bits p \<longleftrightarrow> 1 \<le> x \<and> x \<le> unat (iSize p) \<and> has p (x - 1)"
  by (cases x) (auto simp: bits_def)

lemma in_range:
  fixes i :: u32
  assumes "1 \<le> unat i" "unat i \<le> unat sz"
  shows "unat (i - 1) = unat i - 1" "unat (i - 1) < unat sz"
proof -
  have "i \<noteq> 0" using assms(1) by auto
  then show "unat (i - 1) = unat i - 1" by (metis unat_minus_one)
  then show "unat (i - 1) < unat sz" using assms by linarith
qed

lemma bitvec_ins_law:
  assumes "bvset sz s" "1 \<le> unat i" "unat i \<le> unat sz"
  shows "\<exists>rc t m. sqlite3BitvecSet room s i n = Inr (rc, t, m) \<and> bvset sz t \<and> bv_elems t \<subseteq> insert (unat i) (bv_elems s) \<and>
    (rc = BV_OK \<and> bv_elems t = insert (unat i) (bv_elems s) \<or> rc = BV_NOMEM \<and> \<not> (\<forall>m. room m))"
proof -
  obtain p where p: "s = Some p" "bv_ok p" "iSize p = sz" using assms(1) by (auto simp: bvset_def)
  note r = in_range [OF assms(2,3)]
  obtain rc q m where q: "bv_set BITVEC_FUEL room p (i - 1) n = Inr (rc, q, m)" "set_post room p (unat (i - 1)) rc q"
    using set_goodD [OF fuel_enough [OF p(2)]] r(2) p(3) by metis
  have qs: "iSize q = sz" "bv_ok q" using q(2) p(3) by (auto simp: set_post_def)
  note m = mem_bits [of _ p, unfolded p(3)] mem_bits [of _ q, unfolded qs(1)]
  have post: "has q k \<Longrightarrow> k < unat sz \<Longrightarrow> k = unat i - 1 \<or> has p k"
    "rc = BV_OK \<Longrightarrow> k < unat sz \<Longrightarrow> k = unat i - 1 \<or> has p k \<Longrightarrow> has q k"
    "rc = BV_OK \<or> rc = BV_NOMEM" "(\<forall>m. room m) \<longrightarrow> rc = BV_OK" for k
    using q(2) unfolding set_post_def p(3) r(1) by blast+
  have "x \<in> insert (unat i) (bits p)" if "x \<in> bits q" for x
  proof -
    have "1 \<le> x" "x \<le> unat sz" "has q (x - 1)" using that by (auto simp: m)
    then have "x - 1 = unat i - 1 \<or> has p (x - 1)" using post(1) by simp
    then show ?thesis using \<open>1 \<le> x\<close> \<open>x \<le> unat sz\<close> assms(2) by (auto simp: m)
  qed
  moreover have "x \<in> bits q" if "rc = BV_OK" "x \<in> insert (unat i) (bits p)" for x
    using post(2) [of "x - 1"] that assms(2,3) by (auto simp: m)
  ultimately have "bits q \<subseteq> insert (unat i) (bits p) \<and> (rc = BV_OK \<and> bits q = insert (unat i) (bits p) \<or> rc = BV_NOMEM \<and> \<not> (\<forall>m. room m))"
    using post(3,4) by (meson subsetI subset_antisym)
  then show ?thesis using q(1) p(1) qs by (simp add: sqlite3BitvecSet_def bvset_def bv_elems_def)
qed

lemma bitvec_del_law:
  assumes "bvset sz s" "1 \<le> unat i" "unat i \<le> unat sz"
  shows "\<exists>t. sqlite3BitvecClear s i = Inr t \<and> bvset sz t \<and> bv_elems t = bv_elems s - {unat i}"
proof -
  obtain p where p: "s = Some p" "bv_ok p" "iSize p = sz" using assms(1) by (auto simp: bvset_def)
  note r = in_range [OF assms(2,3)]
  obtain q where q: "bv_clear p (i - 1) = Inr q" "clear_post p (unat (i - 1)) q"
    using bv_clear_post [OF p(2)] r(2) p(3) by blast
  have qs: "iSize q = sz" "bv_ok q" using q(2) p(3) by (auto simp: clear_post_def)
  note m = mem_bits [of _ p, unfolded p(3)] mem_bits [of _ q, unfolded qs(1)]
  have "bits q = bits p - {unat i}" using q(2) p(3) r(1) assms(2) by (auto simp: m clear_post_def)
  then show ?thesis using q(1) p(1) qs by (simp add: sqlite3BitvecClear_def bvset_def bv_elems_def)
qed

lemma bitvec_tst_law:
  assumes "bvset sz s" "1 \<le> unat i" "unat i \<le> unat sz"
  shows "sqlite3BitvecTest s i = Inr (unat i \<in> bv_elems s)"
proof -
  obtain p where p: "s = Some p" "bv_ok p" "iSize p = sz" using assms(1) by (auto simp: bvset_def)
  note r = in_range [OF assms(2,3)]
  have "\<not> iSize p \<le> i - 1" using r(2) p(3) by (simp add: word_le_nat_alt)
  moreover have "bv_test p (i - 1) = Inr (has p (unat (i - 1)))" using bv_test_has [OF p(2)] r(2) p(3) by simp
  ultimately show ?thesis using p r(1) bits_iff [of "unat i" p] assms(2,3)
    by (simp add: sqlite3BitvecTest_def sqlite3BitvecTestNotNull_def bv_elems_def)
qed

interpretation bv: bit_set "bvset sz" bv_elems room "unat sz" "\<lambda>i s. sqlite3BitvecSet room s i"
  "\<lambda>i s. sqlite3BitvecClear s i" "\<lambda>i s. sqlite3BitvecTest s i" for sz :: u32 and room
  by unfold_locales (rule bitvec_ins_law, assumption+, rule bitvec_del_law, assumption+, rule bitvec_tst_law, assumption+)

lemma new_bitvec: "bvset sz (Some (zero_bitvec sz))" "bv_elems (Some (zero_bitvec sz)) = {}"
  using zero_bitvec_ok zero_bitvec_has by (auto simp: bvset_def bv_elems_def bits_def)

text \<open>
  C39. A bitmap of any 32-bit size, after any sequence of setting, clearing and testing bits between 1 and its size, through every
  change of its representation: every operation ends without leaving an array; unless a request for
  memory failed every answer is that of a set of numbers; and even after a failure no bit is found that the
  set does not have.
\<close>

theorem bitvec_is_set:
  assumes "\<forall>op \<in> set ops. 1 \<le> bit_arg op \<and> bit_arg op \<le> unat sz" "room n"
  shows "\<exists>s m as t. sqlite3BitvecCreate room sz n = (s, m) \<and>
    bit_ops (\<lambda>i s. sqlite3BitvecSet room s i) (\<lambda>i s. sqlite3BitvecClear s i) (\<lambda>i s. sqlite3BitvecTest s i) ops s m = Inr (as, t) \<and>
    list_all2 weaker as (set_answers ops {}) \<and> (Code BV_NOMEM \<notin> set as \<longrightarrow> as = set_answers ops {}) \<and>
    ((\<forall>m. room m) \<longrightarrow> Code BV_NOMEM \<notin> set as)"
  using bv.ops_refine [OF new_bitvec(1) [of sz], where ops = ops and S = "{}" and room = room and n = "n + 1"] new_bitvec(2) assms
  by (auto simp: sqlite3BitvecCreate_def)

theorem bitvec_is_set_witness:
  "\<exists>as t. bit_ops (\<lambda>i s. sqlite3BitvecSet (\<lambda>n. True) s i) (\<lambda>i s. sqlite3BitvecClear s i) (\<lambda>i s. sqlite3BitvecTest s i)
      [SetBit 5000, SetBit 4876, ClearBit 5000, TestBit 5000, TestBit 4876] (Some (zero_bitvec 100000)) 1 = Inr (as, t) \<and>
    as = [Code 0, Code 0, Code 0, Found False, Found True]"
  using bitvec_is_set [of "[SetBit 5000, SetBit 4876, ClearBit 5000, TestBit 5000, TestBit 4876]" 100000 "\<lambda>n. True" 0]
  by (auto simp: sqlite3BitvecCreate_def BV_OK_def)

section \<open>A table that cannot be split\<close>

lemma split_without_memory:
  assumes "BITVEC_NBIT < unat (iSize p)" "unat i < unat (iSize p)" "\<not> room n"
  shows "bv_set (Suc f) room (split_bitvec p) i n = Inr (BV_NOMEM, split_bitvec p, n + 1)"
proof -
  have e: "split_bitvec p = Bitvec (iSize p) (nSet p) (share (iSize p)) (ApSub (replicate BITVEC_NPTR None))"
    by (simp add: split_bitvec_def share_def)
  show ?thesis unfolding e using assms split_cells [OF assms(1,2)] share_facts(3) [OF assms(1)]
    by (simp add: sqlite3BitvecCreate_def Let_def)
qed

lemma values_without_memory:
  assumes "BITVEC_NBIT < unat (iSize p)" "\<forall>m \<ge> n. \<not> room m" "\<And>v. v \<in> set vs \<Longrightarrow> v \<le> iSize p"
  shows "\<exists>m. set_values (\<lambda>q v n. bv_set (Suc f) room q v n) vs BV_NOMEM (split_bitvec p) n = Inr (BV_NOMEM, split_bitvec p, m)"
  using assms(2,3)
proof (induction vs arbitrary: n)
  case (Cons v vs)
  show ?case
  proof (cases "v = 0")
    case True
    then show ?thesis using Cons by simp
  next
    case False
    have "unat (v - 1) < unat (iSize p)" using unat_pred(1) [OF False] Cons.prems(2) by simp
    then have "bv_set (Suc f) room (split_bitvec p) (v - 1) n = Inr (BV_NOMEM, split_bitvec p, n + 1)"
      using split_without_memory [OF assms(1)] Cons.prems(1) by blast
    moreover have "BV_NOMEM OR BV_NOMEM = BV_NOMEM" by (simp add: BV_NOMEM_def)
    ultimately show ?thesis using Cons.IH [of "n + 1"] Cons.prems False by (simp del: bv_set.simps)
  qed
qed (simp del: bv_set.simps)

text \<open>
  When the table of a large bitmap has to be split and no smaller bitmap can be allocated, setting a
  bit fails, and it takes every bit with it: the table has been cleared before, and nothing is restored.
\<close>

lemma bitvec_failed_split_empties:
  assumes "bv_ok p" "BITVEC_NBIT < unat (iSize p)" "iDivisor p = 0" "BITVEC_MXHASH \<le> unat (nSet p)"
    and i: "1 \<le> unat i" "unat i \<le> unat (iSize p)" "unat i \<notin> bits p"
    and collision: "v \<in> bits p" "(v - 1) mod BITVEC_NINT = (unat i - 1) mod BITVEC_NINT"
    and memory: "room n" "\<forall>m > n. \<not> room m"
  shows "\<exists>q m. sqlite3BitvecSet room (Some p) i n = Inr (BV_NOMEM, Some q, m) \<and> bits q = {}"
proof -
  obtain sz a ns where p: "p = Bitvec sz ns 0 (AHash a)" "BITVEC_NBIT < unat sz" "probing a" "unat ns = filled a"
    "\<And>v. v \<in> set a \<Longrightarrow> v \<le> sz"
    using assms(1-3) share_facts by (cases rule: bv_ok.cases) auto
  note r = in_range [OF i(1,2)] and m = mem_bits [of _ p]
  let ?i = "i - 1"
  let ?h = "BITVEC_HASH ?i"
  have lt: "unat ?i < unat sz" using r(2) p(1) by simp
  have "i \<notin> set a"
  proof
    assume "i \<in> set a"
    then have "has p (unat i - 1)" using i(1) p(1) by auto
    then show False using i m by auto
  qed
  then obtain k where k: "hash_scan (\<lambda>x. x = 0 \<or> x = i) a ?h BITVEC_NINT = Inr (slot ?h k)" "a ! slot ?h k = 0"
    using scan_value [OF p(3), of i] i(1) by fastforce
  have v: "1 \<le> v" "has p (v - 1)" using collision(1) m by auto
  then obtain w where w: "w \<in> set a" "unat w = v" using p(1) by auto
  have "w \<noteq> 0" using w(2) v(1) by auto
  then have hw: "BITVEC_HASH (w - 1) = ?h" using w(2) collision(2) r(1) by (simp add: BITVEC_HASH_def unat_minus_one)
  obtain s where s: "s < BITVEC_NINT" "a ! s = w" using w(1) p(3) by (auto simp: probing_def in_set_conv_nth)
  then obtain j where j: "s = slot ?h j" "\<forall>l < j. a ! slot ?h l \<noteq> 0"
    using p(3) \<open>w \<noteq> 0\<close> hw unfolding probing_def by metis
  have taken: "a ! ?h \<noteq> 0"
    using j s(2) \<open>w \<noteq> 0\<close> slot_0 [OF home_less, of ?i] by (cases j) auto
  let ?f = "BITVEC_FUEL - 2"
  have f: "BITVEC_FUEL = Suc (Suc ?f)" by (simp add: BITVEC_FUEL_def)
  have sz: "iSize p = sz" using p(1) by simp
  have first: "bv_set (Suc ?f) room (split_bitvec p) ?i (n + 1) = Inr (BV_NOMEM, split_bitvec p, n + 1 + 1)"
    using split_without_memory [OF assms(2), of ?i room "n + 1"] lt sz memory(2) by simp
  obtain m' where rest: "set_values (\<lambda>q v n. bv_set (Suc ?f) room q v n) a BV_NOMEM (split_bitvec p) (n + 1 + 1) = Inr (BV_NOMEM, split_bitvec p, m')"
    using values_without_memory [OF assms(2), of "n + 1 + 1" room a ?f] memory(2) p(5) sz by auto
  have "bv_set (Suc (Suc ?f)) room p ?i n =
      bnd (bv_set (Suc ?f) room (split_bitvec p) ?i (n + 1)) (\<lambda>(rc, q, n). set_values (\<lambda>q v n. bv_set (Suc ?f) room q v n) a rc q n)"
    unfolding bv_set.simps(2) [of "Suc ?f"] using p(1,2) assms(4) k taken memory(1) by (simp del: bv_set.simps)
  then have "bv_set BITVEC_FUEL room p ?i n = Inr (BV_NOMEM, split_bitvec p, m')"
    using f first rest by (simp del: bv_set.simps)
  moreover have "bits (split_bitvec p) = {}" using split_bitvec_ok(4) [OF assms(2)] by (simp add: bits_def)
  ultimately show ?thesis by (simp add: sqlite3BitvecSet_def)
qed

text \<open>A table with the numbers from 1 to 62, each in the slot it hashes to.\<close>

definition full_table :: bitvec where
  "full_table = Bitvec 100000 62 0 (AHash (map (\<lambda>q. if q < 62 then of_nat (q + 1) else 0) [0..<BITVEC_NINT]))"

lemma full_table_ok: "bv_ok full_table" "1 \<in> bits full_table" "125 \<notin> bits full_table"
proof -
  let ?g = "\<lambda>q. if q < 62 then of_nat (q + 1) else 0 :: u32"
  let ?a = "map ?g [0..<BITVEC_NINT]"
  have val: "q < 62 \<Longrightarrow> unat (of_nat (q + 1) :: u32) = q + 1" for q by (rule unat_u32) simp
  have nz: "?g q \<noteq> 0 \<longleftrightarrow> q < 62" for q using val [of q] by (metis Suc_eq_plus1 nat.distinct(1) unat_0)
  have "filled ?a = length (filter (\<lambda>q. q < 62) [0..<BITVEC_NINT])"
    unfolding filled_def using nz by (simp add: filter_map o_def)
  also have "... = 62" unfolding bitvec_consts by code_simp
  finally have e: "filled ?a = 62" .
  have "BITVEC_HASH (?g q - 1) = q" if "q < 62" for q
  proof -
    have "unat (?g q - 1) = unat (?g q) - 1" using that nz [of q] by (intro unat_minus_one) simp
    also have "... = q" using that val [OF that] by simp
    finally have "unat (?g q - 1) = q" .
    then show ?thesis using that by (simp add: BITVEC_HASH_def bitvec_consts)
  qed
  then have "probing ?a" unfolding probing_def e using nz slot_0 by (auto simp: bitvec_consts intro!: exI [of _ 0])
  moreover have "v \<le> 100000" if "v \<in> set ?a" for v using that val by (auto simp: word_le_nat_alt)
  ultimately show "bv_ok full_table" unfolding full_table_def using e by (intro bv_ok.table) (auto simp: bitvec_consts)
  have "?g 0 \<in> set ?a" unfolding set_map by (rule imageI) (simp add: bitvec_consts)
  then have "1 \<in> unat ` set ?a" by (intro image_eqI [of _ _ "?g 0"]) simp_all
  moreover have "125 \<notin> unat ` set ?a"
  proof
    assume "125 \<in> unat ` set ?a"
    then obtain q where "unat (?g q) = 125" by (metis (no_types, lifting) imageE list.set_map)
    then show False using val [of q] by (simp split: if_splits)
  qed
  moreover have "has full_table k \<longleftrightarrow> k + 1 \<in> unat ` set ?a" for k unfolding full_table_def has_member ..
  moreover have "unat (iSize full_table) = 100000" by (simp add: full_table_def)
  ultimately show "1 \<in> bits full_table" "125 \<notin> bits full_table" unfolding mem_bits by (simp_all del: set_map)
qed

end
