(* ===== verification/Hashtab.thy ===== *)
theory Hashtab
  imports Bench_Prelude
begin

text \<open>
  The hash tables of SQLite, sqlite3/src/sqlite3.c, the part that begins as hash.c: all elements on one doubly linked list, on
  which every bucket is a run of neighbours. Elements are in memory, a map from addresses; the null pointer is
  0, and a pointer to memory not allocated or already freed ends with \<open>Overrun\<close>. A key is the C string the caller's pointer refers to, which the caller
  leaves alone as long as it is in the table; data is a pointer, null for none. The allocator is two parameters: the address the \<open>n\<close>th request
  for an element gets, and the number of buckets the \<open>n\<close>th request for a table gets, 0 when there is
  no memory. Assertions are compiled only for debugging and left out.
\<close>

section \<open>Keys\<close>

definition UpperToLower :: "u8 \<Rightarrow> u8" where
  "UpperToLower c = (if 65 \<le> c \<and> c \<le> 90 then c + 32 else c)"

definition strHash :: "cstring \<Rightarrow> u32" where
  "strHash z = fold (\<lambda>c h. (h + ucast (UpperToLower c)) * 0x9e3779b1) z 0"

text \<open>Where one string has ended the other is compared with its terminating NUL.\<close>

fun sqlite3StrICmp :: "cstring \<Rightarrow> cstring \<Rightarrow> int" where
  "sqlite3StrICmp [] [] = 0"
| "sqlite3StrICmp (c # a) [] = uint (UpperToLower c) - uint (UpperToLower 0)"
| "sqlite3StrICmp [] (x # b) = uint (UpperToLower 0) - uint (UpperToLower x)"
| "sqlite3StrICmp (c # a) (x # b) =
     (if c = x then sqlite3StrICmp a b
      else
        let d = uint (UpperToLower c) - uint (UpperToLower x) in
        if d \<noteq> 0 then d else sqlite3StrICmp a b)"

section \<open>Operations\<close>

record helem =
  e_next :: nat
  e_prev :: nat
  e_data :: nat
  e_key :: cstring

record bucket =
  bk_count :: u32
  bk_chain :: nat

record hashtab =
  h_size :: u32
  h_count :: u32
  h_first :: nat
  h_ht :: "bucket list option"
  h_mem :: "nat \<Rightarrow> helem option"
  h_reqs :: nat

type_synonym heap = "nat \<Rightarrow> helem option"

definition rd :: "nat \<Rightarrow> hashtab \<Rightarrow> helem run" where
  "rd p s = (case h_mem s p of None \<Rightarrow> Inl Overrun | Some e \<Rightarrow> Inr e)"

definition wr :: "nat \<Rightarrow> (helem \<Rightarrow> helem) \<Rightarrow> hashtab \<Rightarrow> hashtab run" where
  "wr p f s = (case h_mem s p of None \<Rightarrow> Inl Overrun | Some e \<Rightarrow> Inr (s\<lparr>h_mem := (h_mem s)(p \<mapsto> f e)\<rparr>))"

definition sqlite3HashInit :: "hashtab \<Rightarrow> hashtab" where
  "sqlite3HashInit s = s\<lparr>h_first := 0, h_count := 0, h_size := 0, h_ht := None\<rparr>"

text \<open>The loops along the list take at most \<open>fuel\<close> steps.\<close>

fun free_elems :: "nat \<Rightarrow> nat \<Rightarrow> hashtab \<Rightarrow> hashtab run" where
  "free_elems 0 elem s = Inl Forever"
| "free_elems (Suc fuel) elem s =
     (if elem = 0 then Inr s
      else bnd (rd elem s) (\<lambda>e. free_elems fuel (e_next e) (s\<lparr>h_mem := (h_mem s)(elem := None)\<rparr>)))"

definition sqlite3HashClear :: "hashtab \<Rightarrow> hashtab run" where
  "sqlite3HashClear s =
     bnd (free_elems (unat (h_count s) + 1) (h_first s) (s\<lparr>h_first := 0, h_ht := None, h_size := 0\<rparr>)) (\<lambda>s.
     Inr (s\<lparr>h_count := 0\<rparr>))"

text \<open>
  The two parts of \<open>insertElement\<close>: the bucket, of which \<open>pEntry\<close> is the index, and the list.
\<close>

definition enter_bucket :: "nat option \<Rightarrow> nat \<Rightarrow> hashtab \<Rightarrow> (nat \<times> hashtab) run" where
  "enter_bucket pEntry pNew s =
     (case pEntry of
        None \<Rightarrow> Inr (0, s)
      | Some h \<Rightarrow>
          (case h_ht s of
             Some ht \<Rightarrow>
               if h < length ht
               then Inr (if bk_count (ht ! h) \<noteq> 0 then bk_chain (ht ! h) else 0,
                         s\<lparr>h_ht := Some (ht[h := \<lparr>bk_count = bk_count (ht ! h) + 1, bk_chain = pNew\<rparr>])\<rparr>)
               else Inl Overrun
           | None \<Rightarrow> Inl Overrun))"

definition link_elem :: "nat \<Rightarrow> nat \<Rightarrow> hashtab \<Rightarrow> hashtab run" where
  "link_elem pNew pHead s =
     (if pHead \<noteq> 0 then
        bnd (rd pHead s) (\<lambda>head.
        bnd (wr pNew (\<lambda>e. e\<lparr>e_next := pHead, e_prev := e_prev head\<rparr>) s) (\<lambda>s.
        bnd (if e_prev head \<noteq> 0 then wr (e_prev head) (\<lambda>e. e\<lparr>e_next := pNew\<rparr>) s else Inr (s\<lparr>h_first := pNew\<rparr>)) (\<lambda>s.
        wr pHead (\<lambda>e. e\<lparr>e_prev := pNew\<rparr>) s)))
      else
        bnd (wr pNew (\<lambda>e. e\<lparr>e_next := h_first s\<rparr>) s) (\<lambda>s.
        bnd (if h_first s \<noteq> 0 then wr (h_first s) (\<lambda>e. e\<lparr>e_prev := pNew\<rparr>) s else Inr s) (\<lambda>s.
        bnd (wr pNew (\<lambda>e. e\<lparr>e_prev := 0\<rparr>) s) (\<lambda>s.
        Inr (s\<lparr>h_first := pNew\<rparr>)))))"

definition insertElement :: "nat option \<Rightarrow> nat \<Rightarrow> hashtab \<Rightarrow> hashtab run" where
  "insertElement pEntry pNew s = bnd (enter_bucket pEntry pNew s) (\<lambda>(pHead, s). link_elem pNew pHead s)"

fun relink :: "nat \<Rightarrow> nat \<Rightarrow> hashtab \<Rightarrow> hashtab run" where
  "relink 0 elem s = Inl Forever"
| "relink (Suc fuel) elem s =
     (if elem = 0 then Inr s
      else
        bnd (rd elem s) (\<lambda>e.
        bnd (insertElement (Some (unat (strHash (e_key e)) mod unat (h_size s))) elem s) (\<lambda>s.
        relink fuel (e_next e) s)))"

definition SQLITE_MALLOC_SOFT_LIMIT :: nat where "SQLITE_MALLOC_SOFT_LIMIT = 1024"
definition HT_SIZE :: nat where "HT_SIZE = 16"

text \<open>The answer is whether the table was resized.\<close>

definition rehash :: "(nat \<Rightarrow> nat \<Rightarrow> nat) \<Rightarrow> u32 \<Rightarrow> hashtab \<Rightarrow> (bool \<times> hashtab) run" where
  "rehash grant new_size s =
     (let new_size = (if SQLITE_MALLOC_SOFT_LIMIT < unat new_size * HT_SIZE
                      then of_nat (SQLITE_MALLOC_SOFT_LIMIT div HT_SIZE) else new_size) in
      if new_size = h_size s then Inr (False, s)
      else
        let got = grant (h_reqs s) (unat new_size); s = s\<lparr>h_reqs := h_reqs s + 1\<rparr> in
        if got = 0 then Inr (False, s)
        else
          bnd (relink (unat (h_count s) + 1) (h_first s)
                 (s\<lparr>h_ht := Some (replicate got \<lparr>bk_count = 0, bk_chain = 0\<rparr>), h_size := of_nat got, h_first := 0\<rparr>)) (\<lambda>s.
          Inr (True, s)))"

text \<open>The element found, none for the static null element, and the hash value.\<close>

fun find_elem :: "nat \<Rightarrow> nat \<Rightarrow> cstring \<Rightarrow> hashtab \<Rightarrow> nat option run" where
  "find_elem 0 elem pKey s = Inr None"
| "find_elem (Suc count) elem pKey s =
     bnd (rd elem s) (\<lambda>e.
     if sqlite3StrICmp (e_key e) pKey = 0 then Inr (Some elem) else find_elem count (e_next e) pKey s)"

definition findElementWithHash :: "cstring \<Rightarrow> hashtab \<Rightarrow> (nat option \<times> nat) run" where
  "findElementWithHash pKey s =
     (case h_ht s of
        Some ht \<Rightarrow>
          let h = unat (strHash pKey) mod unat (h_size s) in
          if h < length ht
          then bnd (find_elem (unat (bk_count (ht ! h))) (bk_chain (ht ! h)) pKey s) (\<lambda>r. Inr (r, h))
          else Inl Overrun
      | None \<Rightarrow> bnd (find_elem (unat (h_count s)) (h_first s) pKey s) (\<lambda>r. Inr (r, 0)))"

definition removeElementGivenHash :: "nat \<Rightarrow> nat \<Rightarrow> hashtab \<Rightarrow> hashtab run" where
  "removeElementGivenHash elem h s =
     bnd (rd elem s) (\<lambda>e.
     bnd (if e_prev e \<noteq> 0 then wr (e_prev e) (\<lambda>p. p\<lparr>e_next := e_next e\<rparr>) s else Inr (s\<lparr>h_first := e_next e\<rparr>)) (\<lambda>s.
     bnd (if e_next e \<noteq> 0 then wr (e_next e) (\<lambda>n. n\<lparr>e_prev := e_prev e\<rparr>) s else Inr s) (\<lambda>s.
     bnd (case h_ht s of
            None \<Rightarrow> Inr s
          | Some ht \<Rightarrow>
              if h < length ht
              then Inr (s\<lparr>h_ht := Some (ht[h := \<lparr>bk_count = bk_count (ht ! h) - 1,
                     bk_chain = (if bk_chain (ht ! h) = elem then e_next e else bk_chain (ht ! h))\<rparr>])\<rparr>)
              else Inl Overrun) (\<lambda>s.
     let s = s\<lparr>h_mem := (h_mem s)(elem := None), h_count := h_count s - 1\<rparr> in
     if h_count s = 0 then sqlite3HashClear s else Inr s))))"

definition sqlite3HashFind :: "cstring \<Rightarrow> hashtab \<Rightarrow> nat run" where
  "sqlite3HashFind pKey s =
     bnd (findElementWithHash pKey s) (\<lambda>(elem, h).
     case elem of None \<Rightarrow> Inr 0 | Some p \<Rightarrow> bnd (rd p s) (\<lambda>e. Inr (e_data e)))"

definition sqlite3HashInsert :: "(nat \<Rightarrow> heap \<Rightarrow> nat) \<Rightarrow> (nat \<Rightarrow> nat \<Rightarrow> nat) \<Rightarrow> cstring \<Rightarrow> nat \<Rightarrow> hashtab \<Rightarrow> (nat \<times> hashtab) run" where
  "sqlite3HashInsert alloc grant pKey data s =
     bnd (findElementWithHash pKey s) (\<lambda>(elem, h).
     bnd (case elem of None \<Rightarrow> Inr 0 | Some p \<Rightarrow> bnd (rd p s) (\<lambda>e. Inr (e_data e))) (\<lambda>old_data.
     if old_data \<noteq> 0 then
       if data = 0 then bnd (removeElementGivenHash (the elem) h s) (\<lambda>s. Inr (old_data, s))
       else bnd (wr (the elem) (\<lambda>e. e\<lparr>e_data := data, e_key := pKey\<rparr>) s) (\<lambda>s. Inr (old_data, s))
     else if data = 0 then Inr (0, s)
     else
       let p = alloc (h_reqs s) (h_mem s); s = s\<lparr>h_reqs := h_reqs s + 1\<rparr> in
       if p = 0 then Inr (data, s)
       else
         let s = s\<lparr>h_mem := (h_mem s)(p \<mapsto> \<lparr>e_next = 0, e_prev = 0, e_data = data, e_key = pKey\<rparr>),
                   h_count := h_count s + 1\<rparr> in
         bnd (if 10 \<le> h_count s \<and> 2 * h_size s < h_count s then
                bnd (rehash grant (h_count s * 2) s) (\<lambda>(resized, s).
                Inr (if resized then unat (strHash pKey) mod unat (h_size s) else h, s))
              else Inr (h, s)) (\<lambda>(h, s).
         bnd (insertElement (if h_ht s \<noteq> None then Some h else None) p s) (\<lambda>s.
         Inr (0, s)))))"

section \<open>Comparison of keys\<close>

abbreviation low :: "cstring \<Rightarrow> cstring" where "low \<equiv> map UpperToLower"

lemma lower_zero: "UpperToLower 0 = 0" "UpperToLower c = 0 \<longleftrightarrow> c = 0"
proof -
  have "c + 32 \<noteq> 0" if "65 \<le> c" "c \<le> 90"
  proof -
    have "65 \<le> unat c" "unat c \<le> 90" using that by (auto simp: word_le_nat_alt)
    then have "unat (c + 32) = unat c + 32" by (simp add: unat_word_ariths)
    then show ?thesis by (metis add_is_0 unat_0 zero_neq_numeral)
  qed
  then show "UpperToLower c = 0 \<longleftrightarrow> c = 0" by (auto simp: UpperToLower_def)
  show "UpperToLower 0 = 0" by (simp add: UpperToLower_def)
qed

lemma strICmp_low: "0 \<notin> set a \<Longrightarrow> 0 \<notin> set b \<Longrightarrow> sqlite3StrICmp a b = 0 \<longleftrightarrow> low a = low b"
proof (induction a b rule: sqlite3StrICmp.induct)
  case (4 c a x b)
  have "uint (UpperToLower c) - uint (UpperToLower x) = 0 \<longleftrightarrow> UpperToLower c = UpperToLower x"
    by (simp add: word_uint_eq_iff)
  then show ?case using 4 by (auto simp: Let_def)
qed (auto simp: lower_zero uint_0_iff)

lemma strHash_low: "low a = low b \<Longrightarrow> strHash a = strHash b"
proof -
  have "strHash z = fold (\<lambda>c h. (h + ucast c) * 0x9e3779b1) (low z) 0" for z
    by (simp add: strHash_def fold_map o_def)
  then show "low a = low b \<Longrightarrow> strHash a = strHash b" by simp
qed

section \<open>The list\<close>

definition nx :: "heap \<Rightarrow> nat \<Rightarrow> nat" where "nx m x = e_next (the (m x))"
definition pv :: "heap \<Rightarrow> nat \<Rightarrow> nat" where "pv m x = e_prev (the (m x))"
definition key :: "heap \<Rightarrow> nat \<Rightarrow> cstring" where "key m x = e_key (the (m x))"
definition dat :: "heap \<Rightarrow> nat \<Rightarrow> nat" where "dat m x = e_data (the (m x))"

lemma fields_upd [simp]:
  "nx (m(a \<mapsto> e)) x = (if x = a then e_next e else nx m x)"
  "pv (m(a \<mapsto> e)) x = (if x = a then e_prev e else pv m x)"
  "key (m(a \<mapsto> e)) x = (if x = a then e_key e else key m x)"
  "dat (m(a \<mapsto> e)) x = (if x = a then e_data e else dat m x)"
  "x \<noteq> a \<Longrightarrow> nx (m(a := z)) x = nx m x" "x \<noteq> a \<Longrightarrow> pv (m(a := z)) x = pv m x"
  "x \<noteq> a \<Longrightarrow> key (m(a := z)) x = key m x" "x \<noteq> a \<Longrightarrow> dat (m(a := z)) x = dat m x"
  by (simp_all add: nx_def pv_def key_def dat_def)

text \<open>A doubly linked segment: the element before it is \<open>p\<close>, the one behind it \<open>q\<close>.\<close>

fun hd_or :: "nat list \<Rightarrow> nat \<Rightarrow> nat" where
  "hd_or [] q = q" | "hd_or (x # xs) q = x"

fun last_or :: "nat \<Rightarrow> nat list \<Rightarrow> nat" where
  "last_or p [] = p" | "last_or p (x # xs) = last_or x xs"

fun seg :: "heap \<Rightarrow> nat \<Rightarrow> nat list \<Rightarrow> nat \<Rightarrow> bool" where
  "seg m p [] q = True"
| "seg m p (x # xs) q = (x \<in> dom m \<and> pv m x = p \<and> nx m x = hd_or xs q \<and> seg m x xs q)"

lemma hd_or_append: "hd_or (xs @ ys) q = hd_or xs (hd_or ys q)"
  by (cases xs) auto

lemma last_or_mem: "last_or p xs = p \<or> last_or p xs \<in> set xs"
  by (induction xs arbitrary: p) auto

lemma last_or_in: "xs \<noteq> [] \<Longrightarrow> last_or p xs \<in> set xs"
  using last_or_mem [of "hd xs" "tl xs"] by (cases xs) auto

lemma hd_or_mem: "hd_or xs q = q \<or> hd_or xs q \<in> set xs"
  by (cases xs) auto

lemma seg_append: "seg m p (xs @ ys) q \<longleftrightarrow> seg m p xs (hd_or ys q) \<and> seg m (last_or p xs) ys q"
  by (induction xs arbitrary: p) (auto simp: hd_or_append)

lemma seg_dom: "seg m p xs q \<Longrightarrow> set xs \<subseteq> dom m"
  by (induction xs arbitrary: p) auto

lemma seg_cong:
  "(\<And>x. x \<in> set xs \<Longrightarrow> (x \<in> dom m' \<longleftrightarrow> x \<in> dom m) \<and> nx m' x = nx m x \<and> pv m' x = pv m x) \<Longrightarrow> seg m' p xs q = seg m p xs q"
  by (induction xs arbitrary: p) auto

text \<open>Changing the pointer out of the last element, or the one back from the first.\<close>

lemma seg_end:
  "seg m p xs q \<Longrightarrow> distinct xs \<Longrightarrow> xs \<noteq> [] \<Longrightarrow>
   (\<And>x. x \<in> set xs \<Longrightarrow> (x \<in> dom m' \<longleftrightarrow> x \<in> dom m) \<and> nx m' x = (if x = last_or p xs then q' else nx m x) \<and> pv m' x = pv m x) \<Longrightarrow>
   seg m' p xs q'"
proof (induction xs arbitrary: p)
  case (Cons x xs)
  show ?case
  proof (cases xs)
    case Nil
    then show ?thesis using Cons.prems by auto
  next
    case (Cons y ys)
    have "last_or x xs \<noteq> x" using Cons Cons.prems(2) last_or_mem [of y ys] by auto
    then show ?thesis using Cons Cons.IH [of x] Cons.prems by auto
  qed
qed simp

lemma seg_start:
  assumes "seg m p (x # xs) q" "distinct (x # xs)"
    "\<And>y. y \<in> set (x # xs) \<Longrightarrow> (y \<in> dom m' \<longleftrightarrow> y \<in> dom m) \<and> nx m' y = nx m y \<and> pv m' y = (if y = x then p' else pv m y)"
  shows "seg m' p' (x # xs) q"
proof -
  have "seg m' x xs q = seg m x xs q" using assms(2,3) by (intro seg_cong) auto
  then show ?thesis using assms by auto
qed

lemma seg_insert:
  assumes "seg m 0 (us @ vs) 0" "distinct (p # us @ vs)" "dom m' = dom m" "p \<in> dom m"
    and "\<And>x. x \<in> set us \<union> set vs \<Longrightarrow> nx m' x = (if us \<noteq> [] \<and> x = last_or 0 us then p else nx m x)"
    and "\<And>x. x \<in> set us \<union> set vs \<Longrightarrow> pv m' x = (if vs \<noteq> [] \<and> x = hd_or vs 0 then p else pv m x)"
    and "nx m' p = hd_or vs 0" "pv m' p = last_or 0 us"
  shows "seg m' 0 (us @ p # vs) 0"
proof -
  have s: "seg m 0 us (hd_or vs 0)" "seg m (last_or 0 us) vs 0" using assms(1) by (auto simp: seg_append)
  have "seg m' 0 us p"
  proof (cases "us = []")
    case False
    have sep: "x \<in> set us \<Longrightarrow> vs \<noteq> [] \<Longrightarrow> x \<noteq> hd_or vs 0" for x using assms(2) by (cases vs) auto
    show ?thesis
    proof (rule seg_end [OF s(1) _ False])
      fix x assume x: "x \<in> set us"
      show "(x \<in> dom m' \<longleftrightarrow> x \<in> dom m) \<and> nx m' x = (if x = last_or 0 us then p else nx m x) \<and> pv m' x = pv m x"
        using sep [OF x] assms(3) assms(5) [of x] assms(6) [of x] x False by auto
    qed (use assms(2) in simp)
  qed simp
  moreover have "seg m' p vs 0"
  proof (cases vs)
    case (Cons v ws)
    have out: "x \<in> set vs \<Longrightarrow> us \<noteq> [] \<Longrightarrow> x \<noteq> last_or 0 us" for x
      using assms(2) last_or_in [of us 0] by auto
    show ?thesis unfolding Cons
    proof (rule seg_start [of m "last_or 0 us" v ws 0])
      fix y assume "y \<in> set (v # ws)"
      then have y: "y \<in> set vs" using Cons by simp
      then show "(y \<in> dom m' \<longleftrightarrow> y \<in> dom m) \<and> nx m' y = nx m y \<and> pv m' y = (if y = v then p else pv m y)"
        using out [OF y] assms(3) assms(5) [of y] assms(6) [of y] Cons y by (auto split: if_splits)
    qed (use s(2) assms(2) Cons in auto)
  qed simp
  ultimately show ?thesis using assms(3,4,7,8) by (auto simp: seg_append)
qed

lemma seg_remove:
  assumes "seg m 0 (us @ x # vs) 0" "distinct (us @ x # vs)"
    and "\<And>y. y \<in> set us \<union> set vs \<Longrightarrow> y \<in> dom m'"
    and "\<And>y. y \<in> set us \<union> set vs \<Longrightarrow> nx m' y = (if us \<noteq> [] \<and> y = last_or 0 us then hd_or vs 0 else nx m y)"
    and "\<And>y. y \<in> set us \<union> set vs \<Longrightarrow> pv m' y = (if vs \<noteq> [] \<and> y = hd_or vs 0 then last_or 0 us else pv m y)"
  shows "seg m' 0 (us @ vs) 0"
proof -
  have s: "seg m 0 us x" "seg m x vs 0" using assms(1) by (auto simp: seg_append)
  have d: "y \<in> set us \<union> set vs \<Longrightarrow> y \<in> dom m" for y using seg_dom [OF assms(1)] by auto
  have "seg m' 0 us (hd_or vs 0)"
  proof (cases "us = []")
    case False
    have sep: "y \<in> set us \<Longrightarrow> vs \<noteq> [] \<Longrightarrow> y \<noteq> hd_or vs 0" for y using assms(2) by (cases vs) auto
    show ?thesis
    proof (rule seg_end [OF s(1) _ False])
      fix y assume y: "y \<in> set us"
      show "(y \<in> dom m' \<longleftrightarrow> y \<in> dom m) \<and> nx m' y = (if y = last_or 0 us then hd_or vs 0 else nx m y) \<and> pv m' y = pv m y"
        using sep [OF y] assms(3) [of y] assms(4) [of y] assms(5) [of y] d [of y] y False by auto
    qed (use assms(2) in simp)
  qed simp
  moreover have "seg m' (last_or 0 us) vs 0"
  proof (cases vs)
    case (Cons v ws)
    have out: "y \<in> set vs \<Longrightarrow> us \<noteq> [] \<Longrightarrow> y \<noteq> last_or 0 us" for y
      using assms(2) last_or_in [of us 0] by auto
    show ?thesis unfolding Cons
    proof (rule seg_start [of m x v ws 0])
      fix y assume "y \<in> set (v # ws)"
      then have y: "y \<in> set vs" using Cons by simp
      then show "(y \<in> dom m' \<longleftrightarrow> y \<in> dom m) \<and> nx m' y = nx m y \<and> pv m' y = (if y = v then last_or 0 us else pv m y)"
        using out [OF y] assms(3) [of y] assms(4) [of y] assms(5) [of y] d [of y] Cons y by (auto split: if_splits)
    qed (use s(2) assms(2) Cons in auto)
  qed simp
  ultimately show ?thesis by (simp add: seg_append)
qed

lemma rd_dom: "p \<in> dom (h_mem s) \<Longrightarrow> rd p s = Inr (the (h_mem s p))"
  by (auto simp: rd_def)

lemma wr_dom: "p \<in> dom (h_mem s) \<Longrightarrow> wr p f s = Inr (s\<lparr>h_mem := (h_mem s)(p \<mapsto> f (the (h_mem s p)))\<rparr>)"
  by (auto simp: wr_def)

definition same_content :: "heap \<Rightarrow> heap \<Rightarrow> bool" where
  "same_content m m' = (dom m' = dom m \<and> (\<forall>x. key m' x = key m x \<and> dat m' x = dat m x))"

lemma same_content_refl: "same_content m m"
  by (simp add: same_content_def)

lemma same_content_trans: "same_content a b \<Longrightarrow> same_content b c \<Longrightarrow> same_content a c"
  by (simp add: same_content_def)

lemma same_content_upd:
  "x \<in> dom m \<Longrightarrow> e_key e = key m x \<Longrightarrow> e_data e = dat m x \<Longrightarrow> same_content m (m(x \<mapsto> e))"
  by (auto simp: same_content_def)

lemma the_fields: "e_key (the (m x)) = key m x" "e_data (the (m x)) = dat m x" "e_next (the (m x)) = nx m x" "e_prev (the (m x)) = pv m x"
  by (simp_all add: key_def dat_def nx_def pv_def)

text \<open>Linking an element in at the front, or before another one.\<close>

lemma link_front:
  assumes "seg (h_mem s) 0 vs 0" "h_first s = hd_or vs 0" "distinct (p # vs)" "0 \<notin> set vs" "p \<in> dom (h_mem s)"
  shows "\<exists>m. link_elem p 0 s = Inr (s\<lparr>h_mem := m, h_first := p\<rparr>) \<and> seg m 0 (p # vs) 0 \<and> same_content (h_mem s) m \<and>
    (\<forall>x. x \<notin> set (p # vs) \<longrightarrow> m x = h_mem s x)"
proof -
  let ?m = "h_mem s" and ?v = "hd_or vs 0"
  define m1 where "m1 = ?m(p \<mapsto> (the (?m p))\<lparr>e_next := ?v\<rparr>)"
  define m2 where "m2 = (if vs \<noteq> [] then m1(?v \<mapsto> (the (m1 ?v))\<lparr>e_prev := p\<rparr>) else m1)"
  define m3 where "m3 = m2(p \<mapsto> (the (m2 p))\<lparr>e_prev := 0\<rparr>)"
  have v: "vs \<noteq> [] \<Longrightarrow> ?v \<in> set vs" by (cases vs) auto
  then have v': "?v \<noteq> 0 \<longleftrightarrow> vs \<noteq> []" "vs \<noteq> [] \<Longrightarrow> ?v \<in> dom ?m" "vs \<noteq> [] \<Longrightarrow> ?v \<noteq> p"
    using assms(3,4) seg_dom [OF assms(1)] by (auto, metis gr0I)
  have "link_elem p 0 s = Inr (s\<lparr>h_mem := m3, h_first := p\<rparr>)"
    using assms(2,5) v' by (auto simp: link_elem_def wr_dom m1_def m2_def m3_def)
  moreover have c: "same_content ?m m3"
  proof -
    have "same_content ?m m1" unfolding m1_def using assms(5) by (intro same_content_upd) (simp_all add: the_fields)
    moreover have "same_content m1 m2" unfolding m2_def
      using v'(2,3) by (auto simp: the_fields m1_def intro!: same_content_upd same_content_refl)
    moreover have "same_content m2 m3" unfolding m3_def
      using assms(5) by (intro same_content_upd) (auto simp: the_fields m1_def m2_def)
    ultimately show ?thesis by (blast intro: same_content_trans)
  qed
  moreover have "seg m3 0 ([] @ p # vs) 0"
  proof (rule seg_insert)
    show "dom m3 = dom ?m" using c by (simp add: same_content_def)
    show "pv m3 x = (if vs \<noteq> [] \<and> x = ?v then p else pv ?m x)" if "x \<in> set [] \<union> set vs" for x
      using that assms(3) by (auto simp: m1_def m2_def m3_def)
    show "nx m3 x = (if [] \<noteq> ([] :: nat list) \<and> x = last_or 0 [] then p else nx ?m x)" if "x \<in> set [] \<union> set vs" for x
      using that assms(3) v' by (auto simp: m1_def m2_def m3_def the_fields)
    show "nx m3 p = ?v" "pv m3 p = last_or 0 []" using v'(3) by (auto simp: m1_def m2_def m3_def the_fields)
  qed (use assms in auto)
  moreover have "\<forall>x. x \<notin> set (p # vs) \<longrightarrow> m3 x = ?m x" using v by (auto simp: m1_def m2_def m3_def)
  ultimately show ?thesis by auto
qed

lemma link_before:
  assumes "seg (h_mem s) 0 (us @ v # vs) 0" "h_first s = hd_or (us @ v # vs) 0" "distinct (p # us @ v # vs)"
    "0 \<notin> set (p # us @ v # vs)" "p \<in> dom (h_mem s)"
  shows "\<exists>m. link_elem p v s = Inr (s\<lparr>h_mem := m, h_first := hd_or (us @ p # v # vs) 0\<rparr>) \<and> seg m 0 (us @ p # v # vs) 0 \<and>
    same_content (h_mem s) m \<and> (\<forall>x. x \<notin> set (p # us @ v # vs) \<longrightarrow> m x = h_mem s x)"
proof -
  let ?m = "h_mem s" and ?l = "last_or 0 us"
  define m1 where "m1 = ?m(p \<mapsto> (the (?m p))\<lparr>e_next := v, e_prev := ?l\<rparr>)"
  define m2 where "m2 = (if us \<noteq> [] then m1(?l \<mapsto> (the (m1 ?l))\<lparr>e_next := p\<rparr>) else m1)"
  define m3 where "m3 = m2(v \<mapsto> (the (m2 v))\<lparr>e_prev := p\<rparr>)"
  have l: "us \<noteq> [] \<Longrightarrow> ?l \<in> set us" by (rule last_or_in)
  have v: "v \<in> dom ?m" "v \<noteq> 0" "v \<noteq> p" "pv ?m v = ?l" "v \<notin> set us"
    using assms(1,3,4) by (auto simp: seg_append)
  have l': "?l \<noteq> 0 \<longleftrightarrow> us \<noteq> []" "us \<noteq> [] \<Longrightarrow> ?l \<in> dom ?m" "us \<noteq> [] \<Longrightarrow> ?l \<noteq> p" "us \<noteq> [] \<Longrightarrow> ?l \<noteq> v"
    using l assms(3,4) seg_dom [OF assms(1)] v(5) by auto
  have "link_elem p v s = Inr (s\<lparr>h_mem := m3, h_first := hd_or (us @ p # v # vs) 0\<rparr>)"
  proof (cases us)
    case Nil
    then show ?thesis using assms(5) v l' by (simp add: link_elem_def rd_dom wr_dom the_fields m1_def m2_def m3_def)
  next
    case (Cons u us')
    then show ?thesis using assms(2,5) v l' by (simp add: link_elem_def rd_dom wr_dom the_fields m1_def m2_def m3_def)
  qed
  moreover have c: "same_content ?m m3"
  proof -
    have "same_content ?m m1" unfolding m1_def using assms(5) by (intro same_content_upd) (simp_all add: the_fields)
    moreover have "same_content m1 m2" unfolding m2_def
      using l'(2,3) by (auto simp: the_fields m1_def intro!: same_content_upd same_content_refl)
    moreover have "same_content m2 m3" unfolding m3_def
      using v(1) by (intro same_content_upd) (auto simp: the_fields m1_def m2_def)
    ultimately show ?thesis by (blast intro: same_content_trans)
  qed
  moreover have "seg m3 0 (us @ p # v # vs) 0"
  proof (rule seg_insert)
    show "dom m3 = dom ?m" using c by (simp add: same_content_def)
    show "pv m3 x = (if v # vs \<noteq> [] \<and> x = hd_or (v # vs) 0 then p else pv ?m x)" if "x \<in> set us \<union> set (v # vs)" for x
      using that assms(3) l' by (auto simp: m1_def m2_def m3_def the_fields)
    show "nx m3 x = (if us \<noteq> [] \<and> x = ?l then p else nx ?m x)" if "x \<in> set us \<union> set (v # vs)" for x
      using that assms(3) l' v by (auto simp: m1_def m2_def m3_def the_fields)
    show "nx m3 p = hd_or (v # vs) 0" "pv m3 p = ?l" using v(3) l'(3) by (auto simp: m1_def m2_def m3_def the_fields)
  qed (use assms in auto)
  moreover have "\<forall>x. x \<notin> set (p # us @ v # vs) \<longrightarrow> m3 x = ?m x" using l by (auto simp: m1_def m2_def m3_def)
  ultimately show ?thesis by blast
qed

section \<open>The buckets\<close>

definition contig :: "('a \<Rightarrow> bool) \<Rightarrow> 'a list \<Rightarrow> bool" where
  "contig P xs = (\<exists>a c. xs = a @ filter P xs @ c)"

lemma contigI: "(\<And>x. x \<in> set a \<union> set c \<Longrightarrow> \<not> P x) \<Longrightarrow> (\<And>x. x \<in> set b \<Longrightarrow> P x) \<Longrightarrow> contig P (a @ b @ c)"
  unfolding contig_def by (intro exI [of _ a] exI [of _ c]) (auto simp: filter_empty_conv filter_id_conv)

lemma contigE:
  assumes "contig P xs"
  obtains a c where "xs = a @ filter P xs @ c" "\<And>x. x \<in> set a \<union> set c \<Longrightarrow> \<not> P x"
proof -
  obtain a c where x: "xs = a @ filter P xs @ c" using assms by (auto simp: contig_def)
  have "length (filter P xs) = length (filter P a) + length (filter P xs) + length (filter P c)"
    by (subst x) (simp add: filter_append del: filter_filter)
  then have "filter P a = []" "filter P c = []" by simp_all
  then show ?thesis using that [OF x] by (auto simp: filter_empty_conv)
qed

lemma contig_none: "(\<And>x. x \<in> set xs \<Longrightarrow> \<not> P x) \<Longrightarrow> contig P xs"
  using contigI [of xs "[]" P "[]"] by simp

lemma contig_Nil [simp]: "contig P []"
  by (rule contig_none) simp

lemma contig_filter: "contig P xs \<Longrightarrow> contig P (filter R xs)"
proof (erule contigE)
  fix a c assume x: "xs = a @ filter P xs @ c" "\<And>x. x \<in> set a \<union> set c \<Longrightarrow> \<not> P x"
  have "filter R xs = filter R a @ filter R (filter P xs) @ filter R c" by (subst x(1)) simp
  then show "contig P (filter R xs)" using x(2) by (auto intro!: contigI simp del: filter_filter)
qed

text \<open>A new element before another one that is not in the bucket does not break the bucket apart.\<close>

lemma contig_insert:
  assumes "contig P (us @ v # vs)" "\<not> P v" "\<not> P p"
  shows "contig P (us @ p # v # vs)"
proof -
  let ?b = "filter P (us @ v # vs)"
  obtain a c where x: "us @ v # vs = a @ ?b @ c" "\<And>x. x \<in> set a \<union> set c \<Longrightarrow> \<not> P x" using contigE [OF assms(1)] by blast
  define b where "b = ?b"
  have b: "\<And>x. x \<in> set b \<Longrightarrow> P x" unfolding b_def by (simp only: set_filter mem_Collect_eq)
  have e: "us @ v # vs = a @ b @ c" using x(1) unfolding b_def .
  consider z where "a = us @ z" "v # vs = z @ b @ c" | z where "us = a @ z" "z @ v # vs = b @ c"
    using e by (auto simp: append_eq_append_conv2)
  then show ?thesis
  proof cases
    case 1
    have "contig P ((us @ p # z) @ b @ c)" using x(2) b assms(3) 1(1) by (intro contigI) auto
    then show ?thesis using 1(2) by simp
  next
    case 2
    consider y where "b = z @ y" "v # vs = y @ c" | y where "z = b @ y" "c = y @ v # vs"
      using 2(2) by (auto simp: append_eq_append_conv2)
    then show ?thesis
    proof cases
      case (1 y)
      then have "y = []" using b assms(2) by (cases y) auto
      then have "contig P (a @ b @ (p # c))" using x(2) b assms(3) by (intro contigI) auto
      then show ?thesis using 1 2(1) \<open>y = []\<close> by simp
    next
      case y: (2 y)
      have "contig P (a @ b @ (y @ p # v # vs))" using x(2) b assms(3) y(2) by (intro contigI) auto
      then show ?thesis using y 2(1) by simp
    qed
  qed
qed

lemma contig_Cons: "contig P xs \<Longrightarrow> \<not> P p \<Longrightarrow> contig P (p # xs)"
proof (erule contigE)
  fix a c assume x: "xs = a @ filter P xs @ c" "\<And>x. x \<in> set a \<union> set c \<Longrightarrow> \<not> P x" "\<not> P p"
  then have "contig P ((p # a) @ filter P xs @ c)" by (intro contigI) auto
  then show "contig P (p # xs)" using x(1) by simp
qed

definition home :: "heap \<Rightarrow> nat \<Rightarrow> nat \<Rightarrow> nat" where
  "home m N x = unat (strHash (key m x)) mod N"

definition hash_ok :: "nat \<Rightarrow> bucket list \<Rightarrow> heap \<Rightarrow> nat list \<Rightarrow> bool" where
  "hash_ok N B m es = (length B = N \<and> (\<forall>h < N. contig (\<lambda>x. home m N x = h) es \<and>
     unat (bk_count (B ! h)) = length (filter (\<lambda>x. home m N x = h) es) \<and>
     (filter (\<lambda>x. home m N x = h) es \<noteq> [] \<longrightarrow> bk_chain (B ! h) = hd (filter (\<lambda>x. home m N x = h) es))))"

definition lst :: "hashtab \<Rightarrow> nat list \<Rightarrow> bool" where
  "lst s es = (seg (h_mem s) 0 es 0 \<and> h_first s = hd_or es 0 \<and> distinct es \<and> 0 \<notin> set es \<and>
     (case h_ht s of None \<Rightarrow> True | Some B \<Rightarrow> 0 < unat (h_size s) \<and> hash_ok (unat (h_size s)) B (h_mem s) es))"

lemma home_same: "same_content m m' \<Longrightarrow> home m' N x = home m N x"
  by (simp add: home_def same_content_def)

lemma hash_ok_same: "same_content m m' \<Longrightarrow> hash_ok N B m' es = hash_ok N B m es"
  by (simp add: hash_ok_def home_same)

lemma unat_Suc_bound: "unat (k :: u32) + 1 < 2 ^ 32 \<Longrightarrow> unat (k + 1) = unat k + 1"
  by (simp add: unat_word_ariths)

text \<open>A bucket with a new element at its head.\<close>

lemma hash_ok_enter:
  assumes ok: "hash_ok N B m es" and h: "h = home m N p" "h < N" and few: "length es + 1 < 2 ^ 32"
    and split: "filter (\<lambda>x. home m N x = h) es = [] \<and> es' = p # es \<or>
      (\<exists>a v r c. es = a @ (v # r) @ c \<and> filter (\<lambda>x. home m N x = h) es = v # r \<and> (\<forall>x \<in> set a \<union> set c. home m N x \<noteq> h) \<and>
        es' = a @ p # v # r @ c)"
  shows "hash_ok N (B[h := \<lparr>bk_count = bk_count (B ! h) + 1, bk_chain = p\<rparr>]) m es'"
proof -
  let ?P = "\<lambda>g x. home m N x = g"
  have len: "length B = N" using ok by (simp add: hash_ok_def)
  have old: "contig (?P g) es" "unat (bk_count (B ! g)) = length (filter (?P g) es)"
    "filter (?P g) es \<noteq> [] \<longrightarrow> bk_chain (B ! g) = hd (filter (?P g) es)" if "g < N" for g
    using ok that by (auto simp: hash_ok_def)
  have fh: "filter (?P h) es' = p # filter (?P h) es" and ch: "contig (?P h) es'"
  proof -
    consider "filter (?P h) es = []" "es' = p # es"
      | a v r c where "es = a @ (v # r) @ c" "filter (?P h) es = v # r" "\<forall>x \<in> set a \<union> set c. home m N x \<noteq> h" "es' = a @ p # v # r @ c"
      using split by blast
    then have "filter (?P h) es' = p # filter (?P h) es \<and> contig (?P h) es'"
    proof cases
      case 1
      then have "contig (?P h) ([] @ [p] @ es)" using h(1) by (intro contigI) (auto simp: filter_empty_conv)
      then show ?thesis using 1 h(1) by simp
    next
      case 2
      have vr: "x \<in> set (v # r) \<Longrightarrow> home m N x = h" for x
        using 2(2) by (metis (mono_tags, lifting) filter_set mem_Collect_eq set_filter)
      have "contig (?P h) (a @ (p # v # r) @ c)" using 2(3) vr h(1) by (intro contigI) auto
      moreover have "filter (?P h) a = []" "filter (?P h) c = []" using 2(3) by (auto simp: filter_empty_conv)
      ultimately show ?thesis using 2(1,2,4) h(1) by auto
    qed
    then show "filter (?P h) es' = p # filter (?P h) es" "contig (?P h) es'" by blast+
  qed
  have other: "filter (?P g) es' = filter (?P g) es" "contig (?P g) es'" if "g < N" "g \<noteq> h" for g
  proof -
    consider "es' = p # es" | a v r c where "es = a @ v # r @ c" "home m N v = h" "es' = a @ p # v # r @ c"
    proof -
      have "home m N v = h" if "filter (?P h) es = v # r" for v r
      proof -
        have "v \<in> set (filter (?P h) es)" using that by simp
        then show ?thesis by simp
      qed
      then show ?thesis using split that by (metis append_Cons)
    qed
    then have "filter (?P g) es' = filter (?P g) es \<and> contig (?P g) es'"
    proof cases
      case 1
      then show ?thesis using that h(1) old(1) [OF that(1)] contig_Cons [of "?P g" es p] by simp
    next
      case 2
      then show ?thesis using that h(1) old(1) [OF that(1)] contig_insert [of "?P g" a v "r @ c" p] by simp
    qed
    then show "filter (?P g) es' = filter (?P g) es" "contig (?P g) es'" by blast+
  qed
  have "unat (bk_count (B ! h) + 1) = length (filter (?P h) es) + 1"
  proof -
    have "unat (bk_count (B ! h)) + 1 < 2 ^ 32"
      using few length_filter_le [of "?P h" es] unfolding old(2) [OF h(2)] by linarith
    then show ?thesis using old(2) [OF h(2)] by (simp only: unat_Suc_bound)
  qed
  then show ?thesis unfolding hash_ok_def using len h(2) fh ch old other by (auto simp: nth_list_update)
qed

lemma insert_list:
  assumes l: "lst s es" and p: "p \<notin> set es" "p \<noteq> 0" "p \<in> dom (h_mem s)" and few: "length es + 1 < 2 ^ 32"
    and b: "b = (if h_ht s = None then None else Some (home (h_mem s) (unat (h_size s)) p))"
  shows "\<exists>t es'. insertElement b p s = Inr t \<and> lst t es' \<and> set es' = insert p (set es) \<and> same_content (h_mem s) (h_mem t) \<and>
    h_size t = h_size s \<and> h_count t = h_count s \<and> h_reqs t = h_reqs s \<and> (h_ht t = None \<longleftrightarrow> h_ht s = None) \<and>
    (\<forall>x. x \<notin> insert p (set es) \<longrightarrow> h_mem t x = h_mem s x)"
proof (cases "h_ht s")
  case None
  have "\<exists>m. link_elem p 0 s = Inr (s\<lparr>h_mem := m, h_first := p\<rparr>) \<and> seg m 0 (p # es) 0 \<and> same_content (h_mem s) m \<and>
      (\<forall>x. x \<notin> set (p # es) \<longrightarrow> m x = h_mem s x)"
    using l p by (intro link_front) (auto simp: lst_def)
  then obtain m where "link_elem p 0 s = Inr (s\<lparr>h_mem := m, h_first := p\<rparr>)" "seg m 0 (p # es) 0" "same_content (h_mem s) m"
    "\<forall>x. x \<notin> set (p # es) \<longrightarrow> m x = h_mem s x" by blast
  then show ?thesis using None b l p
    by (intro exI [of _ "s\<lparr>h_mem := m, h_first := p\<rparr>"] exI [of _ "p # es"])
      (simp add: insertElement_def enter_bucket_def lst_def del: seg.simps)
next
  case (Some B)
  let ?N = "unat (h_size s)" and ?m = "h_mem s"
  let ?h = "home ?m ?N p"
  let ?f = "filter (\<lambda>x. home ?m ?N x = ?h) es"
  let ?B = "B[?h := \<lparr>bk_count = bk_count (B ! ?h) + 1, bk_chain = p\<rparr>]"
  let ?s = "s\<lparr>h_ht := Some ?B\<rparr>"
  have ok: "hash_ok ?N B ?m es" "0 < ?N" using l Some by (auto simp: lst_def)
  then have h: "?h < ?N" "?h < length B" by (auto simp: home_def hash_ok_def)
  have old: "unat (bk_count (B ! ?h)) = length ?f" "?f \<noteq> [] \<Longrightarrow> bk_chain (B ! ?h) = hd ?f"
    using ok(1) h(1) by (auto simp: hash_ok_def)
  have e: "insertElement b p s = link_elem p (if ?f = [] then 0 else hd ?f) ?s"
  proof -
    have "bk_count (B ! ?h) = 0 \<longleftrightarrow> ?f = []" using old(1) by (metis length_0_conv unat_eq_zero)
    then show ?thesis using Some b h(2) old(2) by (simp add: insertElement_def enter_bucket_def)
  qed
  have goal: ?thesis if "link_elem p (if ?f = [] then 0 else hd ?f) ?s = Inr (?s\<lparr>h_mem := m, h_first := hd_or es' 0\<rparr>)"
    "seg m 0 es' 0" "same_content ?m m" "\<forall>x. x \<notin> set es' \<longrightarrow> m x = ?m x" "set es' = insert p (set es)" "distinct es'"
    "hash_ok ?N ?B ?m es'" for m es'
    using that e ok(2) p(2) l Some hash_ok_same [OF that(3)]
    by (intro exI [of _ "?s\<lparr>h_mem := m, h_first := hd_or es' 0\<rparr>"] exI [of _ es']) (auto simp: lst_def)
  show ?thesis
  proof (cases "?f = []")
    case True
    have "\<exists>m. link_elem p 0 ?s = Inr (?s\<lparr>h_mem := m, h_first := p\<rparr>) \<and> seg m 0 (p # es) 0 \<and> same_content (h_mem ?s) m \<and>
        (\<forall>x. x \<notin> set (p # es) \<longrightarrow> m x = h_mem ?s x)"
      using l p by (intro link_front) (auto simp: lst_def)
    then obtain m where "link_elem p 0 ?s = Inr (?s\<lparr>h_mem := m, h_first := p\<rparr>)" "seg m 0 (p # es) 0" "same_content ?m m"
      "\<forall>x. x \<notin> set (p # es) \<longrightarrow> m x = ?m x" by auto
    moreover have "hash_ok ?N ?B ?m (p # es)" using hash_ok_enter [OF ok(1) refl h(1) few] True by blast
    ultimately show ?thesis using True p(1) l by (intro goal [where m = m and es' = "p # es"]) (auto simp: lst_def)
  next
    case False
    then obtain v r where vr: "?f = v # r" by (cases ?f) auto
    obtain a c where ac: "es = a @ (v # r) @ c" "\<And>x. x \<in> set a \<union> set c \<Longrightarrow> home ?m ?N x \<noteq> ?h"
      using ok(1) h(1) vr contigE [of "\<lambda>x. home ?m ?N x = ?h" es] unfolding hash_ok_def by metis
    have "\<exists>m. link_elem p v ?s = Inr (?s\<lparr>h_mem := m, h_first := hd_or (a @ p # v # r @ c) 0\<rparr>) \<and> seg m 0 (a @ p # v # r @ c) 0 \<and>
        same_content (h_mem ?s) m \<and> (\<forall>x. x \<notin> set (p # a @ v # r @ c) \<longrightarrow> m x = h_mem ?s x)"
      using l p unfolding lst_def ac(1) by (intro link_before) auto
    then obtain m where "link_elem p v ?s = Inr (?s\<lparr>h_mem := m, h_first := hd_or (a @ p # v # r @ c) 0\<rparr>)"
      "seg m 0 (a @ p # v # r @ c) 0" "same_content ?m m" "\<forall>x. x \<notin> set (p # a @ v # r @ c) \<longrightarrow> m x = ?m x" by auto
    moreover have "hash_ok ?N ?B ?m (a @ p # v # r @ c)" using hash_ok_enter [OF ok(1) refl h(1) few] ac vr by blast
    moreover have "set (a @ p # v # r @ c) = insert p (set es)" unfolding ac(1) by auto
    moreover have "distinct (a @ p # v # r @ c)" using l p(1) unfolding lst_def ac(1) by auto
    ultimately show ?thesis using vr by (intro goal [where m = m and es' = "a @ p # v # r @ c"]) auto
  qed
qed

section \<open>Resizing\<close>

fun chain :: "heap \<Rightarrow> nat list \<Rightarrow> bool" where
  "chain m [] = True"
| "chain m (x # xs) = (x \<in> dom m \<and> nx m x = hd_or xs 0 \<and> chain m xs)"

lemma seg_chain: "seg m p xs 0 \<Longrightarrow> chain m xs"
  by (induction xs arbitrary: p) auto

lemma chain_cong: "chain m xs \<Longrightarrow> (\<And>x. x \<in> set xs \<Longrightarrow> m' x = m x) \<Longrightarrow> chain m' xs"
  by (induction xs) (auto simp: nx_def domIff)

text \<open>The elements already entered are \<open>ps\<close>; the others still hang on their old pointers.\<close>

lemma relink_spec:
  "lst s ps \<Longrightarrow> h_ht s \<noteq> None \<Longrightarrow> chain (h_mem s) rs \<Longrightarrow> distinct (ps @ rs) \<Longrightarrow> 0 \<notin> set rs \<Longrightarrow>
   length ps + length rs < 2 ^ 32 \<Longrightarrow> length rs < fuel \<Longrightarrow>
   \<exists>t es. relink fuel (hd_or rs 0) s = Inr t \<and> lst t es \<and> set es = set ps \<union> set rs \<and> same_content (h_mem s) (h_mem t) \<and>
     h_size t = h_size s \<and> h_count t = h_count s \<and> h_ht t \<noteq> None \<and> (\<forall>x. x \<notin> set ps \<union> set rs \<longrightarrow> h_mem t x = h_mem s x)"
proof (induction rs arbitrary: ps s fuel)
  case Nil
  then show ?case by (cases fuel) (auto simp: same_content_refl)
next
  case (Cons x rs)
  obtain k where k: "fuel = Suc k" using Cons.prems(7) by (cases fuel) auto
  have x: "x \<noteq> 0" "x \<in> dom (h_mem s)" "nx (h_mem s) x = hd_or rs 0" "chain (h_mem s) rs" "x \<notin> set ps"
    using Cons.prems(3-5) by auto
  obtain u qs where u: "insertElement (Some (home (h_mem s) (unat (h_size s)) x)) x s = Inr u" "lst u qs" "set qs = insert x (set ps)"
    "same_content (h_mem s) (h_mem u)" "h_size u = h_size s" "h_count u = h_count s" "h_ht u \<noteq> None"
    "\<forall>y. y \<notin> insert x (set ps) \<longrightarrow> h_mem u y = h_mem s y"
    using insert_list [OF Cons.prems(1) x(5,1,2) _ refl] Cons.prems(2,6) by (auto simp del: One_nat_def)
  have len: "length qs = length ps + 1"
  proof -
    have "distinct qs" "distinct ps" using u(2) Cons.prems(1) by (auto simp: lst_def)
    then have "length qs = card (insert x (set ps))" "length ps = card (set ps)" using u(3) by (metis distinct_card)+
    then show ?thesis using x(5) by simp
  qed
  have dis: "distinct (qs @ rs)" using u(2,3) Cons.prems(4) by (auto simp: lst_def)
  have ch: "chain (h_mem u) rs" using x(4)
  proof (rule chain_cong)
    fix y assume "y \<in> set rs"
    then show "h_mem u y = h_mem s y" using u(8) Cons.prems(4) by auto
  qed
  have lens: "length qs + length rs < 2 ^ 32" "length rs < k" and nz: "0 \<notin> set rs" using len Cons.prems(5-7) k by auto
  from Cons.IH [OF u(2,7) ch dis nz lens] obtain t es where t: "relink k (hd_or rs 0) u = Inr t" "lst t es" "set es = set qs \<union> set rs" "same_content (h_mem u) (h_mem t)"
    "h_size t = h_size u" "h_count t = h_count u" "h_ht t \<noteq> None" "\<forall>y. y \<notin> set qs \<union> set rs \<longrightarrow> h_mem t y = h_mem u y"
    by blast
  have "relink fuel (hd_or (x # rs) 0) s = Inr t"
    using k x u(1) t(1) by (simp add: rd_dom the_fields home_def)
  moreover have "same_content (h_mem s) (h_mem t)" using u(4) t(4) by (rule same_content_trans)
  ultimately show ?case using t u by (intro exI [of _ t] exI [of _ es]) auto
qed

lemma lst_reqs: "lst (s\<lparr>h_reqs := n\<rparr>) es = lst s es"
  by (cases "h_ht s") (simp_all add: lst_def)

lemma rehash_spec:
  assumes l: "lst s es" and c: "length es \<le> unat (h_count s)" and g: "\<And>n k. grant n k < 2 ^ 32"
  shows "\<exists>r t fs. rehash grant k s = Inr (r, t) \<and> lst t fs \<and> set fs = set es \<and> same_content (h_mem s) (h_mem t) \<and>
    h_count t = h_count s \<and> (\<forall>x. x \<notin> set es \<longrightarrow> h_mem t x = h_mem s x) \<and>
    (if r then h_ht t \<noteq> None else h_ht t = h_ht s \<and> h_size t = h_size s)"
proof -
  define n where "n = (if SQLITE_MALLOC_SOFT_LIMIT < unat k * HT_SIZE then of_nat (SQLITE_MALLOC_SOFT_LIMIT div HT_SIZE) else k)"
  let ?got = "grant (h_reqs s) (unat n)"
  let ?s = "s\<lparr>h_reqs := h_reqs s + 1, h_ht := Some (replicate ?got \<lparr>bk_count = 0, bk_chain = 0\<rparr>), h_size := of_nat ?got, h_first := 0\<rparr>"
  consider "n = h_size s" | "n \<noteq> h_size s" "?got = 0" | "n \<noteq> h_size s" "?got \<noteq> 0" by blast
  then show ?thesis
  proof cases
    case 1
    then have "rehash grant k s = Inr (False, s)" by (simp add: rehash_def Let_def n_def [symmetric])
    then show ?thesis using l same_content_refl by auto
  next
    case 2
    then have "rehash grant k s = Inr (False, s\<lparr>h_reqs := h_reqs s + 1\<rparr>)" by (simp add: rehash_def Let_def n_def [symmetric])
    moreover have "lst (s\<lparr>h_reqs := h_reqs s + 1\<rparr>) es" using l by (simp add: lst_reqs)
    ultimately show ?thesis using same_content_refl by fastforce
  next
    case 3
    have u: "unat (of_nat ?got :: u32) = ?got" using g by (rule unat_u32)
    have "lst ?s []" using 3(2) u by (simp add: lst_def hash_ok_def contig_none)
    moreover have "h_ht ?s \<noteq> None" by simp
    moreover have "chain (h_mem ?s) es" using l seg_chain by (auto simp: lst_def)
    moreover have "distinct ([] @ es)" "0 \<notin> set es" using l by (auto simp: lst_def)
    moreover have "length ([] :: nat list) + length es < 2 ^ 32"
      using c unat_bound [of "h_count s"] by simp
    moreover have "length es < unat (h_count s) + 1" using c by simp
    ultimately have "\<exists>t fs. relink (unat (h_count s) + 1) (hd_or es 0) ?s = Inr t \<and> lst t fs \<and> set fs = set [] \<union> set es \<and>
        same_content (h_mem ?s) (h_mem t) \<and> h_size t = h_size ?s \<and> h_count t = h_count ?s \<and> h_ht t \<noteq> None \<and>
        (\<forall>x. x \<notin> set [] \<union> set es \<longrightarrow> h_mem t x = h_mem ?s x)"
      by (rule relink_spec)
    then obtain t fs where t: "relink (unat (h_count s) + 1) (hd_or es 0) ?s = Inr t" "lst t fs" "set fs = set es"
      "same_content (h_mem s) (h_mem t)" "h_count t = h_count s" "h_ht t \<noteq> None" "\<forall>x. x \<notin> set es \<longrightarrow> h_mem t x = h_mem s x"
      by auto
    have f: "h_first s = hd_or es 0" using l by (simp add: lst_def)
    have "rehash grant k s = Inr (True, t)"
      using 3 t(1) by (simp add: rehash_def Let_def n_def [symmetric] f)
    then show ?thesis using t(2-7) by (intro exI [of _ True] exI [of _ t] exI [of _ fs]) simp
  qed
qed

section \<open>The table as a map\<close>

definition tab_ok :: "hashtab \<Rightarrow> nat list \<Rightarrow> bool" where
  "tab_ok s es = (lst s es \<and> unat (h_count s) = length es \<and> dom (h_mem s) = set es \<and>
     (\<forall>x \<in> set es. dat (h_mem s) x \<noteq> 0 \<and> 0 \<notin> set (key (h_mem s) x)) \<and> inj_on (\<lambda>x. low (key (h_mem s) x)) (set es))"

lemma find_filter: "(\<And>x. x \<in> set xs \<Longrightarrow> Q x \<Longrightarrow> P x) \<Longrightarrow> find Q (filter P xs) = find Q xs"
  by (induction xs) auto

lemma find_run:
  "seg (h_mem s) p (xs @ ys) 0 \<Longrightarrow> (\<And>x. x \<in> set xs \<Longrightarrow> 0 \<notin> set (key (h_mem s) x)) \<Longrightarrow> 0 \<notin> set k \<Longrightarrow>
   find_elem (length xs) (hd_or (xs @ ys) 0) k s = Inr (find (\<lambda>x. low (key (h_mem s) x) = low k) xs)"
proof (induction xs arbitrary: p)
  case (Cons x xs)
  then have "find_elem (length xs) (hd_or (xs @ ys) 0) k s = Inr (find (\<lambda>x. low (key (h_mem s) x) = low k) xs)" by auto
  then show ?case using Cons.prems by (simp add: rd_dom the_fields strICmp_low)
qed simp

lemma findElement_spec:
  assumes ok: "tab_ok s es" and k: "0 \<notin> set k"
  shows "findElementWithHash k s = Inr (find (\<lambda>x. low (key (h_mem s) x) = low k) es,
    if h_ht s = None then 0 else unat (strHash k) mod unat (h_size s))"
proof -
  let ?m = "h_mem s"
  let ?Q = "\<lambda>x. low (key ?m x) = low k"
  have nz: "x \<in> set es \<Longrightarrow> 0 \<notin> set (key ?m x)" for x using ok by (auto simp: tab_ok_def)
  have l: "seg ?m 0 es 0" "h_first s = hd_or es 0" "unat (h_count s) = length es" using ok by (auto simp: tab_ok_def lst_def)
  show ?thesis
  proof (cases "h_ht s")
    case None
    then show ?thesis using find_run [of s 0 es "[]" k] l nz k by (simp add: findElementWithHash_def)
  next
    case (Some B)
    let ?N = "unat (h_size s)"
    let ?h = "unat (strHash k) mod ?N"
    let ?P = "\<lambda>x. home ?m ?N x = ?h"
    have hok: "hash_ok ?N B ?m es" "0 < ?N" using ok Some by (auto simp: tab_ok_def lst_def)
    then have h: "?h < ?N" "?h < length B" by (auto simp: hash_ok_def)
    have b: "contig ?P es" "unat (bk_count (B ! ?h)) = length (filter ?P es)"
      "filter ?P es \<noteq> [] \<Longrightarrow> bk_chain (B ! ?h) = hd (filter ?P es)"
      using hok(1) h(1) by (auto simp: hash_ok_def)
    obtain a c where ac: "es = a @ filter ?P es @ c" using b(1) by (auto simp: contig_def)
    have "find_elem (unat (bk_count (B ! ?h))) (bk_chain (B ! ?h)) k s = Inr (find ?Q (filter ?P es))"
    proof (cases "filter ?P es = []")
      case True
      then show ?thesis using b(2) by simp
    next
      case False
      have "seg ?m 0 (a @ filter ?P es @ c) 0" using l(1) ac by simp
      then have sg: "seg ?m (last_or 0 a) (filter ?P es @ c) 0" by (simp only: seg_append)
      have ch: "bk_chain (B ! ?h) = hd_or (filter ?P es @ c) 0" using b(3) False by (cases "filter ?P es") auto
      show ?thesis unfolding b(2) ch by (rule find_run [OF sg _ k]) (use nz in simp)
    qed
    moreover have "find ?Q (filter ?P es) = find ?Q es"
      by (rule find_filter) (auto simp: home_def dest: strHash_low)
    ultimately show ?thesis using Some h(2) by (simp add: findElementWithHash_def Let_def)
  qed
qed

lemma hash_ok_home:
  assumes "\<And>x. x \<in> set es \<Longrightarrow> home m' N x = home m N x"
  shows "hash_ok N B m' es = hash_ok N B m es"
proof -
  have "filter (\<lambda>x. home m' N x = h) es = filter (\<lambda>x. home m N x = h) es" for h
    using assms by (intro filter_cong) auto
  then show ?thesis by (simp add: hash_ok_def contig_def)
qed

lemma length_without: "x \<in> set xs \<Longrightarrow> distinct xs \<Longrightarrow> length xs = length (filter (\<lambda>y. y \<noteq> x) xs) + 1"
proof (induction xs)
  case (Cons y ys)
  show ?case
  proof (cases "y = x")
    case True
    then have "filter (\<lambda>y. y \<noteq> x) ys = ys" using Cons.prems(2) by (auto simp: filter_id_conv)
    then show ?thesis using True by simp
  qed (use Cons in auto)
qed simp

text \<open>Taking an element out of its bucket.\<close>

lemma hash_ok_leave:
  assumes ok: "hash_ok N B m es" and sg: "seg m 0 es 0" and d: "distinct es" and x: "x \<in> set es" "h = home m N x" "h < N"
  shows "hash_ok N (B[h := \<lparr>bk_count = bk_count (B ! h) - 1,
      bk_chain = (if bk_chain (B ! h) = x then nx m x else bk_chain (B ! h))\<rparr>]) m (filter (\<lambda>y. y \<noteq> x) es)"
proof -
  let ?P = "\<lambda>g y. home m N y = g" and ?R = "\<lambda>y. y \<noteq> x"
  have len: "length B = N" using ok by (simp add: hash_ok_def)
  have old: "contig (?P g) es" "unat (bk_count (B ! g)) = length (filter (?P g) es)"
    "filter (?P g) es \<noteq> [] \<longrightarrow> bk_chain (B ! g) = hd (filter (?P g) es)" if "g < N" for g
    using ok that by (auto simp: hash_ok_def)
  have swap: "filter (?P g) (filter ?R es) = filter ?R (filter (?P g) es)" for g by (simp add: conj_commute)
  have other: "filter (?P g) (filter ?R es) = filter (?P g) es" if "g \<noteq> h" for g
    using that x(2) by (auto intro!: filter_cong)
  let ?f = "filter (?P h) es"
  have xf: "x \<in> set ?f" "distinct ?f" using x d by auto
  have count: "unat (bk_count (B ! h) - 1) = length (filter ?R ?f)"
  proof -
    have "length ?f = length (filter ?R ?f) + 1"
      by (rule length_without) (use xf in auto)
    moreover have "0 < length ?f" using xf(1) by (rule length_pos_if_in_set)
    then have "bk_count (B ! h) \<noteq> 0" using old(2) [OF x(3)] by auto
    ultimately show ?thesis using old(2) [OF x(3)] by (simp add: unat_minus_one)
  qed
  have chain: "(if bk_chain (B ! h) = x then nx m x else bk_chain (B ! h)) = hd (filter ?R ?f)" if "filter ?R ?f \<noteq> []"
  proof -
    obtain v r where vr: "?f = v # r" using xf(1) by (cases ?f) auto
    have v: "bk_chain (B ! h) = v" using old(3) [OF x(3)] vr by simp
    show ?thesis
    proof (cases "v = x")
      case True
      then have fr: "filter ?R ?f = r" using xf(2) unfolding vr by (auto simp: filter_id_conv)
      obtain a c where ac: "es = a @ (x # r) @ c" using old(1) [OF x(3)] vr True by (auto simp: contig_def)
      have "nx m x = hd_or (r @ c) 0" using sg unfolding ac by (auto simp: seg_append)
      then show ?thesis using True v that fr by (cases r) auto
    next
      case False
      then show ?thesis using v vr by simp
    qed
  qed
  show ?thesis unfolding hash_ok_def
  proof (intro conjI allI impI)
    fix g assume g: "g < N"
    show "contig (?P g) (filter ?R es)" by (rule contig_filter) (rule old(1) [OF g])
  qed (use len old count chain other swap x(3) in \<open>auto simp: nth_list_update simp del: filter_filter\<close>)
qed

lemma filter_out: "distinct (us @ x # vs) \<Longrightarrow> filter (\<lambda>y. y \<noteq> x) (us @ x # vs) = us @ vs"
proof -
  assume d: "distinct (us @ x # vs)"
  have "filter (\<lambda>y. y \<noteq> x) us = us" "filter (\<lambda>y. y \<noteq> x) vs = vs" using d by (auto simp: filter_id_conv)
  then show ?thesis by simp
qed

lemma remove_spec:
  assumes ok: "tab_ok s es" and x: "x \<in> set es" and h: "h = (if h_ht s = None then 0 else home (h_mem s) (unat (h_size s)) x)"
  shows "\<exists>t. removeElementGivenHash x h s = Inr t \<and> tab_ok t (filter (\<lambda>y. y \<noteq> x) es) \<and>
    (\<forall>y \<in> set es - {x}. key (h_mem t) y = key (h_mem s) y \<and> dat (h_mem t) y = dat (h_mem s) y)"
proof -
  obtain us vs where es: "es = us @ x # vs" using split_list [OF x] by blast
  let ?m = "h_mem s" and ?l = "last_or 0 us" and ?v = "hd_or vs 0" and ?N = "unat (h_size s)"
  have l: "seg ?m 0 (us @ x # vs) 0" "h_first s = hd_or (us @ x # vs) 0" "distinct (us @ x # vs)" "0 \<notin> set (us @ x # vs)"
    "unat (h_count s) = length es" "dom ?m = set es"
    using ok by (auto simp: tab_ok_def lst_def es)
  define m1 where "m1 = (if us \<noteq> [] then ?m(?l \<mapsto> (the (?m ?l))\<lparr>e_next := ?v\<rparr>) else ?m)"
  define m2 where "m2 = (if vs \<noteq> [] then m1(?v \<mapsto> (the (m1 ?v))\<lparr>e_prev := ?l\<rparr>) else m1)"
  define m3 where "m3 = m2(x := None)"
  have lm: "us \<noteq> [] \<Longrightarrow> ?l \<in> set us" and vm: "vs \<noteq> [] \<Longrightarrow> ?v \<in> set vs" using last_or_in by (blast, cases vs) auto
  have x0: "x \<in> dom ?m" "pv ?m x = ?l" "nx ?m x = ?v" using l(1) by (auto simp: seg_append)
  have ll: "?l \<noteq> 0 \<longleftrightarrow> us \<noteq> []" "us \<noteq> [] \<Longrightarrow> ?l \<in> dom ?m" "us \<noteq> [] \<Longrightarrow> ?l \<noteq> x"
  proof -
    show "us \<noteq> [] \<Longrightarrow> ?l \<in> dom ?m" using lm l(6) es by auto
    show "us \<noteq> [] \<Longrightarrow> ?l \<noteq> x" using lm l(3) by auto
    show "?l \<noteq> 0 \<longleftrightarrow> us \<noteq> []" using lm l(4) by (cases "us = []") (auto, metis gr0I)
  qed
  have vv: "?v \<noteq> 0 \<longleftrightarrow> vs \<noteq> []" "vs \<noteq> [] \<Longrightarrow> ?v \<in> dom ?m" "vs \<noteq> [] \<Longrightarrow> ?v \<noteq> x" "us \<noteq> [] \<Longrightarrow> vs \<noteq> [] \<Longrightarrow> ?v \<noteq> ?l"
  proof -
    show "vs \<noteq> [] \<Longrightarrow> ?v \<in> dom ?m" using vm l(6) es by auto
    show "vs \<noteq> [] \<Longrightarrow> ?v \<noteq> x" using vm l(3) by auto
    show "?v \<noteq> 0 \<longleftrightarrow> vs \<noteq> []" using vm l(4) by (cases "vs = []") (auto, metis gr0I)
    show "us \<noteq> [] \<Longrightarrow> vs \<noteq> [] \<Longrightarrow> ?v \<noteq> ?l" using vm lm l(3) by auto
  qed
  have c: "same_content ?m m2"
  proof -
    have "same_content ?m m1" unfolding m1_def using ll(2) by (auto simp: the_fields intro!: same_content_upd same_content_refl)
    moreover have "same_content m1 m2" unfolding m2_def
      using vv by (auto simp: the_fields m1_def intro!: same_content_upd same_content_refl)
    ultimately show ?thesis by (rule same_content_trans)
  qed
  have key3: "key m3 y = key ?m y" "dat m3 y = dat ?m y" "y \<in> dom m3 \<longleftrightarrow> y \<in> dom ?m" if "y \<noteq> x" for y
    using c that by (auto simp: m3_def same_content_def)
  have seg3: "seg m3 0 (us @ vs) 0"
  proof (rule seg_remove [OF l(1,3)])
    fix y assume y: "y \<in> set us \<union> set vs"
    then have yx: "y \<noteq> x" "y \<in> dom ?m" using l(3,6) es by auto
    show "y \<in> dom m3" using key3(3) [OF yx(1)] yx(2) by simp
    show "nx m3 y = (if us \<noteq> [] \<and> y = ?l then ?v else nx ?m y)"
      using yx vv by (auto simp: m1_def m2_def m3_def the_fields)
    show "pv m3 y = (if vs \<noteq> [] \<and> y = ?v then ?l else pv ?m y)"
      using yx by (auto simp: m1_def m2_def m3_def the_fields)
  qed
  have dom3: "dom m3 = set (us @ vs)" using c l(3,6) es by (auto simp: m3_def same_content_def)
  have fo: "filter (\<lambda>y. y \<noteq> x) es = us @ vs" using filter_out l(3) es by simp
  define ht where "ht = map_option (\<lambda>B. B[h := \<lparr>bk_count = bk_count (B ! h) - 1,
      bk_chain = (if bk_chain (B ! h) = x then ?v else bk_chain (B ! h))\<rparr>]) (h_ht s)"
  define t where "t = s\<lparr>h_first := hd_or (us @ vs) 0, h_ht := ht, h_mem := m3, h_count := h_count s - 1\<rparr>"
  have hb: "h < length B" if "h_ht s = Some B" for B
    using ok that h by (auto simp: tab_ok_def lst_def hash_ok_def home_def)
  have e: "removeElementGivenHash x h s = (if h_count t = 0 then sqlite3HashClear t else Inr t)"
  proof -
    define s1 where "s1 = s\<lparr>h_mem := m1, h_first := hd_or (us @ vs) 0\<rparr>"
    have a: "(if pv ?m x \<noteq> 0 then wr (pv ?m x) (\<lambda>p. p\<lparr>e_next := nx ?m x\<rparr>) s else Inr (s\<lparr>h_first := nx ?m x\<rparr>)) = Inr s1"
      using x0 ll l(2) by (cases us) (auto simp: wr_dom s1_def m1_def)
    have b: "(if nx ?m x \<noteq> 0 then wr (nx ?m x) (\<lambda>n. n\<lparr>e_prev := pv ?m x\<rparr>) s1 else Inr s1) = Inr (s1\<lparr>h_mem := m2\<rparr>)"
    proof -
      have "?v \<in> dom m1" if "vs \<noteq> []" using vv(2) [OF that] by (auto simp: m1_def)
      then show ?thesis using x0 vv(1) by (auto simp: wr_dom s1_def m2_def)
    qed
    show ?thesis
    proof (cases "h_ht s")
      case None
      then have "t = s1\<lparr>h_mem := m3, h_count := h_count s - 1\<rparr>" unfolding t_def ht_def s1_def by (cases s) simp
      then show ?thesis unfolding removeElementGivenHash_def rd_dom [OF x0(1)] bnd_Inr the_fields a b
        using None by (simp add: s1_def m3_def Let_def)
    next
      case (Some B)
      then show ?thesis unfolding removeElementGivenHash_def rd_dom [OF x0(1)] bnd_Inr the_fields a b
        by (simp add: s1_def t_def ht_def m3_def hb x0 Let_def)
    qed
  qed
  have len: "unat (h_count s) = length (us @ vs) + 1" using l(5) es by simp
  have count: "unat (h_count t) = length (us @ vs)"
  proof -
    have "h_count s \<noteq> 0" using len by auto
    then show ?thesis using len by (simp add: t_def unat_minus_one)
  qed
  have hash: "hash_ok ?N B' m3 (us @ vs)" if B: "h_ht s = Some B" and B': "ht = Some B'" for B B'
  proof -
    have ho: "hash_ok ?N B ?m es" "0 < ?N" using ok B by (auto simp: tab_ok_def lst_def)
    have hh: "h = home ?m ?N x" "h < ?N" using h B ho(2) by (auto simp: home_def)
    have "hash_ok ?N B' ?m (us @ vs)"
    proof -
      have "B' = B[h := \<lparr>bk_count = bk_count (B ! h) - 1, bk_chain = (if bk_chain (B ! h) = x then nx ?m x else bk_chain (B ! h))\<rparr>]"
        using B' [symmetric] unfolding ht_def B x0(3) option.map(2) by (rule option.inject [THEN iffD1])
      moreover have "seg ?m 0 es 0" "distinct es" using l(1,3) unfolding es by blast+
      ultimately show ?thesis using hash_ok_leave [OF ho(1) _ _ x hh] unfolding fo by blast
    qed
    moreover have "home m3 ?N y = home ?m ?N y" if "y \<in> set (us @ vs)" for y
    proof -
      have "y \<noteq> x" using that l(3) by auto
      then show ?thesis using key3(1) [of y] by (simp add: home_def)
    qed
    ultimately show ?thesis using hash_ok_home by blast
  qed
  have ini: "(\<forall>y \<in> set (us @ vs). dat m3 y \<noteq> 0 \<and> 0 \<notin> set (key m3 y)) \<and> inj_on (\<lambda>y. low (key m3 y)) (set (us @ vs))"
  proof -
    have sub: "y \<in> set es" "y \<noteq> x" if "y \<in> set (us @ vs)" for y using that l(3) es by auto
    have "inj_on (\<lambda>y. low (key ?m y)) (set (us @ vs))"
      using ok es by (auto simp: tab_ok_def intro: inj_on_subset)
    then have "inj_on (\<lambda>y. low (key m3 y)) (set (us @ vs))" using key3(1) sub(2) by (simp add: inj_on_def)
    moreover have "dat m3 y \<noteq> 0 \<and> 0 \<notin> set (key m3 y)" if "y \<in> set (us @ vs)" for y
      using ok sub [OF that] key3 [of y] by (auto simp: tab_ok_def)
    ultimately show ?thesis by blast
  qed
  have sz: "h_ht s = Some B \<Longrightarrow> 0 < ?N" for B using ok by (simp add: tab_ok_def lst_def)
  have tok: "tab_ok t (us @ vs)"
    using sz seg3 dom3 count ini hash l(3,4) by (auto simp: tab_ok_def lst_def t_def ht_def split: option.splits)
  have keep: "\<forall>y \<in> set es - {x}. key m3 y = key ?m y \<and> dat m3 y = dat ?m y" using key3 by simp
  show ?thesis
  proof (cases "us @ vs = []")
    case False
    then have "h_count t \<noteq> 0" using count by auto
    then show ?thesis using e tok keep unfolding fo by (simp add: t_def)
  next
    case True
    then have z: "h_count t = 0" using count by (simp add: unat_eq_zero)
    have "sqlite3HashClear t = Inr (t\<lparr>h_first := 0, h_ht := None, h_size := 0, h_count := 0\<rparr>)"
      using True z by (simp add: sqlite3HashClear_def t_def)
    then have "removeElementGivenHash x h s = Inr (t\<lparr>h_first := 0, h_ht := None, h_size := 0, h_count := 0\<rparr>)" using e z by simp
    moreover have "tab_ok (t\<lparr>h_first := 0, h_ht := None, h_size := 0, h_count := 0\<rparr>) (us @ vs)"
      using tok True by (simp add: tab_ok_def lst_def)
    moreover have "h_mem (t\<lparr>h_first := 0, h_ht := None, h_size := 0, h_count := 0\<rparr>) = m3" by (simp add: t_def)
    ultimately show ?thesis unfolding fo using keep by metis
  qed
qed

definition tab_rel :: "hashtab \<Rightarrow> (cstring \<Rightarrow> nat option) \<Rightarrow> bool" where
  "tab_rel s f = (\<exists>es. tab_ok s es \<and>
     (\<forall>k d. f k = Some d \<longleftrightarrow> (\<exists>x \<in> set es. low (key (h_mem s) x) = k \<and> dat (h_mem s) x = d)))"

lemma tab_ok_reqs: "tab_ok (s\<lparr>h_reqs := n\<rparr>) es = tab_ok s es"
  by (simp add: tab_ok_def lst_reqs)

lemma find_key:
  assumes "tab_ok s es"
  shows "find (\<lambda>x. low (key (h_mem s) x) = k) es = Some x \<longleftrightarrow> x \<in> set es \<and> low (key (h_mem s) x) = k"
proof -
  have inj: "inj_on (\<lambda>x. low (key (h_mem s) x)) (set es)" using assms by (simp add: tab_ok_def)
  show ?thesis
  proof
    assume "find (\<lambda>x. low (key (h_mem s) x) = k) es = Some x"
    then show "x \<in> set es \<and> low (key (h_mem s) x) = k" by (auto simp: find_Some_iff)
  next
    assume x: "x \<in> set es \<and> low (key (h_mem s) x) = k"
    then have "find (\<lambda>x. low (key (h_mem s) x) = k) es \<noteq> None" by (auto simp: find_None_iff)
    then obtain y where y: "find (\<lambda>x. low (key (h_mem s) x) = k) es = Some y" by blast
    then have "y \<in> set es \<and> low (key (h_mem s) y) = k" by (auto simp: find_Some_iff)
    then show "find (\<lambda>x. low (key (h_mem s) x) = k) es = Some x" using y x inj by (simp add: inj_on_def)
  qed
qed

definition map_find :: "cstring \<Rightarrow> (cstring \<Rightarrow> nat option) \<Rightarrow> nat" where
  "map_find k f = (case f (low k) of None \<Rightarrow> 0 | Some d \<Rightarrow> d)"

definition map_put :: "cstring \<Rightarrow> nat \<Rightarrow> (cstring \<Rightarrow> nat option) \<Rightarrow> (cstring \<Rightarrow> nat option)" where
  "map_put k d f = f(low k := if d = 0 then None else Some d)"

text \<open>What \<open>findElementWithHash\<close> answers, and the data there.\<close>

lemma find_rel:
  assumes "tab_ok s es" "\<And>k d. f k = Some d \<longleftrightarrow> (\<exists>x \<in> set es. low (key (h_mem s) x) = k \<and> dat (h_mem s) x = d)" "0 \<notin> set k"
  obtains (there) x where "findElementWithHash k s = Inr (Some x, if h_ht s = None then 0 else home (h_mem s) (unat (h_size s)) x)"
      "x \<in> set es" "low (key (h_mem s) x) = low k" "f (low k) = Some (dat (h_mem s) x)" "dat (h_mem s) x \<noteq> 0" "x \<in> dom (h_mem s)"
    | (none) "findElementWithHash k s = Inr (None, if h_ht s = None then 0 else unat (strHash k) mod unat (h_size s))"
      "f (low k) = None" "\<forall>x \<in> set es. low (key (h_mem s) x) \<noteq> low k"
proof (cases "find (\<lambda>x. low (key (h_mem s) x) = low k) es")
  case None
  then have n: "\<forall>x \<in> set es. low (key (h_mem s) x) \<noteq> low k" by (auto simp: find_None_iff)
  have "f (low k) = None"
  proof (rule ccontr)
    assume "f (low k) \<noteq> None"
    then obtain d where "f (low k) = Some d" by blast
    then have "\<exists>x \<in> set es. low (key (h_mem s) x) = low k \<and> dat (h_mem s) x = d" by (rule assms(2) [THEN iffD1])
    then show False using n by blast
  qed
  moreover have "findElementWithHash k s = Inr (None, if h_ht s = None then 0 else unat (strHash k) mod unat (h_size s))"
    using findElement_spec [OF assms(1,3)] unfolding None .
  ultimately show ?thesis using none n by blast
next
  case (Some x)
  then have x: "x \<in> set es" "low (key (h_mem s) x) = low k" using find_key [OF assms(1)] by blast+
  have "strHash (key (h_mem s) x) = strHash k" using x(2) by (rule strHash_low)
  then have "findElementWithHash k s = Inr (Some x, if h_ht s = None then 0 else home (h_mem s) (unat (h_size s)) x)"
    using findElement_spec [OF assms(1,3)] unfolding Some home_def by simp
  moreover have "f (low k) = Some (dat (h_mem s) x)" by (rule assms(2) [THEN iffD2]) (use x in blast)
  moreover have "dat (h_mem s) x \<noteq> 0" "x \<in> dom (h_mem s)" using assms(1) x(1) unfolding tab_ok_def by blast+
  ultimately show ?thesis using there x by blast
qed

lemma hash_find_law:
  assumes "tab_rel s f" "0 \<notin> set k"
  shows "sqlite3HashFind k s = Inr (map_find k f)"
proof -
  obtain es where es: "tab_ok s es" "\<And>k d. f k = Some d \<longleftrightarrow> (\<exists>x \<in> set es. low (key (h_mem s) x) = k \<and> dat (h_mem s) x = d)"
    using assms(1) unfolding tab_rel_def by blast
  show ?thesis
    by (rule find_rel [OF es assms(2)]) (simp_all add: sqlite3HashFind_def map_find_def rd_dom the_fields)
qed

lemma replace_rel:
  assumes es: "tab_ok s es" "\<And>k d. f k = Some d \<longleftrightarrow> (\<exists>x \<in> set es. low (key (h_mem s) x) = k \<and> dat (h_mem s) x = d)"
    and x: "x \<in> set es" "low (key (h_mem s) x) = low k" and k: "0 \<notin> set k" and d: "d \<noteq> 0"
  shows "tab_rel (s\<lparr>h_mem := (h_mem s)(x \<mapsto> (the (h_mem s x))\<lparr>e_data := d, e_key := k\<rparr>)\<rparr>) (map_put k d f)"
proof -
  let ?m = "h_mem s"
  let ?n = "?m(x \<mapsto> (the (?m x))\<lparr>e_data := d, e_key := k\<rparr>)"
  have l: "lst s es" "dom ?m = set es" "inj_on (\<lambda>y. low (key ?m y)) (set es)" using es(1) by (auto simp: tab_ok_def)
  have lowk: "low (key ?n y) = low (key ?m y)" for y using x(2) by simp
  have sg: "seg ?n 0 es 0" using l(1,2) x(1) by (subst seg_cong [of es ?n ?m]) (auto simp: lst_def the_fields)
  have "home ?n N y = home ?m N y" for N y using strHash_low [OF lowk [of y]] by (simp add: home_def)
  then have "hash_ok N B ?n es = hash_ok N B ?m es" for N B by (intro hash_ok_home) simp
  then have "lst (s\<lparr>h_mem := ?n\<rparr>) es" using l(1) sg by (simp add: lst_def split: option.splits)
  moreover have "inj_on (\<lambda>y. low (key ?n y)) (set es)" unfolding lowk by (rule l(3))
  ultimately have "tab_ok (s\<lparr>h_mem := ?n\<rparr>) es" using es(1) k d l(2) x(1) by (auto simp: tab_ok_def)
  moreover have "map_put k d f j = Some e \<longleftrightarrow> (\<exists>y \<in> set es. low (key ?n y) = j \<and> dat ?n y = e)" for j e
  proof (cases "j = low k")
    case True
    have "y = x" if "y \<in> set es" "low (key ?m y) = low k" for y using that x l(3) by (simp add: inj_on_def)
    then have "(\<exists>y \<in> set es. low (key ?m y) = j \<and> dat ?n y = e) \<longleftrightarrow> dat ?n x = e" using x True by blast
    then show ?thesis using True d unfolding lowk by (simp add: map_put_def)
  next
    case False
    then show ?thesis using es(2) [of j e] x(2) unfolding lowk by (auto simp: map_put_def)
  qed
  ultimately show ?thesis unfolding tab_rel_def by auto
qed

lemma delete_rel:
  assumes es: "tab_ok s es" "\<And>k d. f k = Some d \<longleftrightarrow> (\<exists>x \<in> set es. low (key (h_mem s) x) = k \<and> dat (h_mem s) x = d)"
    and x: "x \<in> set es" "low (key (h_mem s) x) = low k"
    and t: "tab_ok t (filter (\<lambda>y. y \<noteq> x) es)" "\<forall>y \<in> set es - {x}. key (h_mem t) y = key (h_mem s) y \<and> dat (h_mem t) y = dat (h_mem s) y"
  shows "tab_rel t (map_put k 0 f)"
proof -
  have inj: "inj_on (\<lambda>y. low (key (h_mem s) y)) (set es)" using es(1) by (simp add: tab_ok_def)
  have "map_put k 0 f j = Some e \<longleftrightarrow> (\<exists>y \<in> set (filter (\<lambda>y. y \<noteq> x) es). low (key (h_mem t) y) = j \<and> dat (h_mem t) y = e)" for j e
  proof -
    have r: "(\<exists>y \<in> set (filter (\<lambda>y. y \<noteq> x) es). low (key (h_mem t) y) = j \<and> dat (h_mem t) y = e) \<longleftrightarrow>
        (\<exists>y \<in> set es. y \<noteq> x \<and> low (key (h_mem s) y) = j \<and> dat (h_mem s) y = e)"
      using t(2) by auto
    show ?thesis
    proof (cases "j = low k")
      case True
      have "y = x" if "y \<in> set es" "low (key (h_mem s) y) = low k" for y using that x inj by (simp add: inj_on_def)
      then show ?thesis unfolding r using True by (auto simp: map_put_def)
    next
      case False
      then show ?thesis unfolding r using es(2) [of j e] x(2) by (auto simp: map_put_def)
    qed
  qed
  then show ?thesis using t(1) unfolding tab_rel_def by blast
qed

text \<open>
  The allocator: an address it gives out is not in use, and no table has 2^32 buckets.
\<close>

definition heap_ok :: "(nat \<Rightarrow> heap \<Rightarrow> nat) \<Rightarrow> (nat \<Rightarrow> nat \<Rightarrow> nat) \<Rightarrow> bool" where
  "heap_ok alloc grant = ((\<forall>n m. alloc n m = 0 \<or> m (alloc n m) = None) \<and> (\<forall>n k. grant n k < 2 ^ 32))"

text \<open>Memory lasts when a request never fails while finitely many elements are in use.\<close>

definition memory_lasts :: "(nat \<Rightarrow> heap \<Rightarrow> nat) \<Rightarrow> bool" where
  "memory_lasts alloc = (\<forall>n m. finite (dom m) \<longrightarrow> alloc n m \<noteq> 0)"

text \<open>A new element, whether the table is resized for it or not.\<close>

lemma insert_new:
  assumes es: "tab_ok s es" and k: "0 \<notin> set k" "\<forall>x \<in> set es. low (key (h_mem s) x) \<noteq> low k" and d: "d \<noteq> 0"
    and p: "p \<noteq> 0" "p \<notin> dom (h_mem s)" and few: "length es + 1 < 2 ^ 32" and g: "\<And>n k. grant n k < 2 ^ 32"
    and h: "h = (if h_ht s = None then 0 else unat (strHash k) mod unat (h_size s))"
    and u: "u = s\<lparr>h_mem := (h_mem s)(p \<mapsto> \<lparr>e_next = 0, e_prev = 0, e_data = d, e_key = k\<rparr>), h_count := h_count s + 1\<rparr>"
  shows "\<exists>t fs. bnd (if 10 \<le> h_count u \<and> 2 * h_size u < h_count u then
                bnd (rehash grant (h_count u * 2) u) (\<lambda>(resized, s).
                Inr (if resized then unat (strHash k) mod unat (h_size s) else h, s))
              else Inr (h, u)) (\<lambda>(h, s). insertElement (if h_ht s \<noteq> None then Some h else None) p s) = Inr t \<and>
      tab_ok t fs \<and> set fs = insert p (set es) \<and> same_content (h_mem u) (h_mem t)"
proof -
  let ?m = "h_mem s"
  have l: "lst s es" "unat (h_count s) = length es" "dom ?m = set es" "inj_on (\<lambda>y. low (key ?m y)) (set es)"
    using es by (auto simp: tab_ok_def)
  have pe: "p \<notin> set es" using p(2) l(3) by simp
  have count: "unat (h_count u) = length es + 1" using few l(2) by (simp add: u unat_Suc_bound)
  have kp: "key (h_mem u) p = k" "dat (h_mem u) p = d" "dom (h_mem u) = insert p (set es)" using l(3) by (auto simp: u)
  have old: "y \<noteq> p \<Longrightarrow> key (h_mem u) y = key ?m y \<and> dat (h_mem u) y = dat ?m y" for y by (simp add: u)
  have old': "y \<in> set es \<Longrightarrow> key (h_mem u) y = key ?m y \<and> dat (h_mem u) y = dat ?m y" for y
    by (rule old) (use pe in blast)
  have lu: "lst u es"
  proof -
    have "seg (h_mem u) 0 es 0" using l(1) pe by (subst seg_cong [of es _ ?m]) (auto simp: u lst_def)
    moreover have "hash_ok N B (h_mem u) es = hash_ok N B ?m es" for N B
      using old' by (intro hash_ok_home) (simp add: home_def)
    ultimately show ?thesis using l(1) by (simp add: lst_def u split: option.splits)
  qed
  have "\<exists>h' v fs. (if 10 \<le> h_count u \<and> 2 * h_size u < h_count u then
        bnd (rehash grant (h_count u * 2) u) (\<lambda>(resized, s). Inr (if resized then unat (strHash k) mod unat (h_size s) else h, s))
      else Inr (h, u)) = Inr (h', v) \<and> lst v fs \<and> set fs = set es \<and> same_content (h_mem u) (h_mem v) \<and>
      h_count v = h_count u \<and> (h_ht v = None \<or> h' = unat (strHash k) mod unat (h_size v))"
  proof (cases "10 \<le> h_count u \<and> 2 * h_size u < h_count u")
    case True
    have le: "length es \<le> unat (h_count u)" using count by simp
    from rehash_spec [where grant = grant and k = "h_count u * 2", OF lu le g] obtain r v fs where r: "rehash grant (h_count u * 2) u = Inr (r, v)" "lst v fs" "set fs = set es" "same_content (h_mem u) (h_mem v)"
      "h_count v = h_count u" "if r then h_ht v \<noteq> None else h_ht v = h_ht u \<and> h_size v = h_size u"
      by blast
    have "h_ht v = None \<or> (if r then unat (strHash k) mod unat (h_size v) else h) = unat (strHash k) mod unat (h_size v)"
      using r(6) h by (auto simp: u split: if_splits)
    then show ?thesis using True r(1-5) by (intro exI [of _ "if r then unat (strHash k) mod unat (h_size v) else h"] exI [of _ v] exI [of _ fs]) auto
  next
    case False
    then show ?thesis using lu h same_content_refl
      by (intro exI [of _ h] exI [of _ u] exI [of _ es]) (auto simp: u)
  qed
  then obtain h' v fs where v: "(if 10 \<le> h_count u \<and> 2 * h_size u < h_count u then
        bnd (rehash grant (h_count u * 2) u) (\<lambda>(resized, s). Inr (if resized then unat (strHash k) mod unat (h_size s) else h, s))
      else Inr (h, u)) = Inr (h', v)" "lst v fs" "set fs = set es" "same_content (h_mem u) (h_mem v)" "h_count v = h_count u"
      "h_ht v = None \<or> h' = unat (strHash k) mod unat (h_size v)" by blast
  have lf: "length fs = length es" using v(2,3) l(1) by (metis distinct_card lst_def)
  have hp: "(if h_ht v \<noteq> None then Some h' else None) = (if h_ht v = None then None else Some (home (h_mem v) (unat (h_size v)) p))"
    using v(4,6) kp(1) by (auto simp: home_def same_content_def)
  obtain t gs where t: "insertElement (if h_ht v \<noteq> None then Some h' else None) p v = Inr t" "lst t gs" "set gs = insert p (set fs)"
    "same_content (h_mem v) (h_mem t)" "h_count t = h_count v"
    using insert_list [OF v(2) _ p(1) _ _ hp] v(3,4) pe kp(3) few lf by (auto simp: same_content_def)
  have c: "same_content (h_mem u) (h_mem t)" using v(4) t(4) by (rule same_content_trans)
  then have kt: "key (h_mem t) y = key (h_mem u) y" "dat (h_mem t) y = dat (h_mem u) y" "dom (h_mem t) = dom (h_mem u)" for y
    by (simp_all add: same_content_def)
  have gs: "set gs = insert p (set es)" using t(3) v(3) by simp
  have "length gs = length es + 1"
  proof -
    have "length gs = card (set gs)" "length es = card (set es)" using t(2) l(1) by (auto simp: lst_def distinct_card)
    then show ?thesis using gs pe by simp
  qed
  moreover have "\<forall>y \<in> set gs. dat (h_mem t) y \<noteq> 0 \<and> 0 \<notin> set (key (h_mem t) y)"
    unfolding kt gs using es old pe kp d k(1) by (fastforce simp: tab_ok_def)
  moreover have "inj_on (\<lambda>y. low (key (h_mem t) y)) (set gs)"
  proof -
    have "inj_on (\<lambda>y. low (key (h_mem u) y)) (set es)"
      using l(4) by (subst inj_on_cong [of _ _ "\<lambda>y. low (key ?m y)"]) (simp_all add: old')
    moreover have "low (key (h_mem u) p) \<notin> (\<lambda>y. low (key (h_mem u) y)) ` (set es - {p})"
      using k(2) old pe kp(1) by fastforce
    ultimately show ?thesis unfolding kt gs by (simp add: inj_on_insert)
  qed
  ultimately have "tab_ok t gs" using t(2,5) v(5) count kt(3) kp(3) gs by (auto simp: tab_ok_def)
  then show ?thesis using v(1) t(1) gs c by (intro exI [of _ t] exI [of _ gs]) simp
qed

lemma bnd_pair: "bnd X (\<lambda>(h, s). f h s) = Inr t \<Longrightarrow> bnd X (\<lambda>(h, s). bnd (f h s) (\<lambda>s. Inr (c, s))) = Inr (c, t)"
  by (cases X) auto

lemma hash_insert_law:
  assumes "tab_rel s f" "0 \<notin> set k" "heap_ok alloc grant" "unat (h_count s) + 1 < 2 ^ 32"
  shows "\<exists>r t. sqlite3HashInsert alloc grant k d s = Inr (r, t) \<and>
    (r = map_find k f \<and> tab_rel t (map_put k d f) \<and> unat (h_count t) \<le> unat (h_count s) + 1 \<or>
     r = d \<and> tab_rel t f \<and> h_count t = h_count s \<and> f (low k) = None \<and> d \<noteq> 0 \<and> (\<exists>n m. finite (dom m) \<and> alloc n m = 0))"
proof -
  obtain es where es: "tab_ok s es" "\<And>k d. f k = Some d \<longleftrightarrow> (\<exists>x \<in> set es. low (key (h_mem s) x) = k \<and> dat (h_mem s) x = d)"
    using assms(1) unfolding tab_rel_def by blast
  have ce: "unat (h_count s) = length es" using es(1) by (simp add: tab_ok_def)
  show ?thesis
  proof (rule find_rel [OF es assms(2)], goal_cases there none)
    case (there x)
    have mf: "map_find k f = dat (h_mem s) x" using there(4) by (simp add: map_find_def)
    show ?thesis
    proof (cases "d = 0")
      case True
      obtain t where t: "removeElementGivenHash x (if h_ht s = None then 0 else home (h_mem s) (unat (h_size s)) x) s = Inr t"
        "tab_ok t (filter (\<lambda>y. y \<noteq> x) es)"
        "\<forall>y \<in> set es - {x}. key (h_mem t) y = key (h_mem s) y \<and> dat (h_mem t) y = dat (h_mem s) y"
        using remove_spec [OF es(1) there(2) refl] by blast
      have "tab_rel t (map_put k d f)" unfolding True by (rule delete_rel [OF es there(2,3) t(2,3)])
      moreover have "unat (h_count t) \<le> unat (h_count s) + 1"
        using t(2) ce by (simp add: tab_ok_def le_SucI)
      moreover have "sqlite3HashInsert alloc grant k d s = Inr (map_find k f, t)"
        using there(1,5,6) t(1) True mf by (simp add: sqlite3HashInsert_def rd_dom the_fields)
      ultimately show ?thesis by blast
    next
      case False
      have "sqlite3HashInsert alloc grant k d s =
          Inr (map_find k f, s\<lparr>h_mem := (h_mem s)(x \<mapsto> (the (h_mem s x))\<lparr>e_data := d, e_key := k\<rparr>)\<rparr>)"
        using there(1,5,6) False mf by (simp add: sqlite3HashInsert_def rd_dom wr_dom the_fields)
      then show ?thesis using replace_rel [OF es there(2,3) assms(2) False] by simp
    qed
  next
    case none
    have mf: "map_find k f = 0" using none(2) by (simp add: map_find_def)
    show ?thesis
    proof (cases "d = 0")
      case True
      have "map_put k d f = f" using none(2) True by (auto simp: map_put_def)
      then show ?thesis using none(1) True mf assms(1) by (simp add: sqlite3HashInsert_def)
    next
      case False
      let ?p = "alloc (h_reqs s) (h_mem s)" and ?s = "s\<lparr>h_reqs := h_reqs s + 1\<rparr>"
      show ?thesis
      proof (cases "?p = 0")
        case True
        have "tab_rel ?s f" using assms(1) by (simp add: tab_rel_def tab_ok_reqs)
        moreover have "sqlite3HashInsert alloc grant k d s = Inr (d, ?s)"
          using none(1) False True by (simp add: sqlite3HashInsert_def Let_def)
        moreover have "finite (dom (h_mem s))" using es(1) by (simp add: tab_ok_def)
        ultimately show ?thesis using none(2) False True by auto
      next
        case p: False
        then have pn: "h_mem s ?p = None" using assms(3) unfolding heap_ok_def by metis
        have "tab_ok ?s es" using es(1) by (simp add: tab_ok_reqs)
        have kk: "\<forall>x \<in> set es. low (key (h_mem ?s) x) \<noteq> low k" using none(3) by simp
        have pp: "?p \<notin> dom (h_mem ?s)" using pn by auto
        have ff: "length es + 1 < 2 ^ 32" using assms(4) ce by simp
        let ?u = "?s\<lparr>h_mem := (h_mem ?s)(?p \<mapsto> \<lparr>e_next = 0, e_prev = 0, e_data = d, e_key = k\<rparr>), h_count := h_count ?s + 1\<rparr>"
        let ?h = "if h_ht s = None then 0 else unat (strHash k) mod unat (h_size s)"
        have hh: "?h = (if h_ht ?s = None then 0 else unat (strHash k) mod unat (h_size ?s))" by simp
        have g: "\<And>n k. grant n k < 2 ^ 32" using assms(3) by (simp add: heap_ok_def)
        obtain t fs where t: "bnd (if 10 \<le> h_count ?u \<and> 2 * h_size ?u < h_count ?u then
                bnd (rehash grant (h_count ?u * 2) ?u) (\<lambda>(resized, s).
                Inr (if resized then unat (strHash k) mod unat (h_size s) else ?h, s))
              else Inr (?h, ?u)) (\<lambda>(h, s). insertElement (if h_ht s \<noteq> None then Some h else None) ?p s) = Inr t"
          "tab_ok t fs" "set fs = insert ?p (set es)" "same_content (h_mem ?u) (h_mem t)"
          using insert_new [where grant = grant, OF \<open>tab_ok ?s es\<close> assms(2) kk False p pp ff g hh refl] by blast
        have "sqlite3HashInsert alloc grant k d s = bnd (if 10 \<le> h_count ?u \<and> 2 * h_size ?u < h_count ?u then
                bnd (rehash grant (h_count ?u * 2) ?u) (\<lambda>(resized, s).
                Inr (if resized then unat (strHash k) mod unat (h_size s) else ?h, s))
              else Inr (?h, ?u)) (\<lambda>(h, s).
              bnd (insertElement (if h_ht s \<noteq> None then Some h else None) ?p s) (\<lambda>s. Inr (0, s)))"
          unfolding sqlite3HashInsert_def none(1) using False p by (simp add: Let_def)
        then have "sqlite3HashInsert alloc grant k d s = Inr (0, t)" unfolding bnd_pair [OF t(1)] .
        moreover have "tab_rel t (map_put k d f)"
        proof -
          have kt: "key (h_mem t) y = key (h_mem ?u) y" "dat (h_mem t) y = dat (h_mem ?u) y" for y
            using t(4) by (simp_all add: same_content_def)
          have pe: "?p \<notin> set es" using es(1) pn by (auto simp: tab_ok_def domIff)
          have "map_put k d f j = Some e \<longleftrightarrow> (\<exists>y \<in> set fs. low (key (h_mem t) y) = j \<and> dat (h_mem t) y = e)" for j e
          proof -
            have r: "(\<exists>y \<in> set fs. low (key (h_mem t) y) = j \<and> dat (h_mem t) y = e) \<longleftrightarrow>
                low k = j \<and> d = e \<or> (\<exists>y \<in> set es. low (key (h_mem s) y) = j \<and> dat (h_mem s) y = e)"
              unfolding t(3) kt using pe by auto
            show ?thesis unfolding r using es(2) [of j e] none(2,3) False by (auto simp: map_put_def)
          qed
          then show ?thesis using t(2) unfolding tab_rel_def by blast
        qed
        moreover have "unat (h_count t) \<le> unat (h_count s) + 1"
        proof -
          have "unat (h_count t) = length fs" "distinct fs" "distinct es" using t(2) es(1) by (auto simp: tab_ok_def lst_def)
          then have "unat (h_count t) = card (insert ?p (set es))" using t(3) by (metis distinct_card)
          then show ?thesis using \<open>distinct es\<close> ce by (simp add: card_insert_if distinct_card)
        qed
        ultimately show ?thesis using mf by auto
      qed
    qed
  qed
qed

section \<open>Clearing\<close>

lemma free_elems_spec:
  "chain (h_mem s) xs \<Longrightarrow> distinct xs \<Longrightarrow> 0 \<notin> set xs \<Longrightarrow> length xs < fuel \<Longrightarrow>
   free_elems fuel (hd_or xs 0) s = Inr (s\<lparr>h_mem := (h_mem s) |` (- set xs)\<rparr>)"
proof (induction xs arbitrary: s fuel)
  case Nil
  then show ?case by (cases fuel) auto
next
  case (Cons x xs)
  obtain k where k: "fuel = Suc k" using Cons.prems(4) by (cases fuel) auto
  let ?s = "s\<lparr>h_mem := (h_mem s)(x := None)\<rparr>"
  have x: "x \<in> dom (h_mem s)" "nx (h_mem s) x = hd_or xs 0" "chain (h_mem s) xs" "x \<noteq> 0" using Cons.prems(1,3) by auto
  have "chain (h_mem ?s) xs" by (rule chain_cong [OF x(3)]) (use Cons.prems(2) in auto)
  moreover have "distinct xs" "0 \<notin> set xs" "length xs < k" using Cons.prems k by simp_all
  ultimately have "free_elems k (hd_or xs 0) ?s = Inr (?s\<lparr>h_mem := (h_mem ?s) |` (- set xs)\<rparr>)" by (rule Cons.IH)
  moreover have "(h_mem ?s) |` (- set xs) = (h_mem s) |` (- set (x # xs))" by (auto simp: restrict_map_def)
  ultimately show ?case using k x by (simp add: rd_dom the_fields)
qed

lemma clear_frees:
  assumes "tab_rel s f"
  shows "\<exists>t. sqlite3HashClear s = Inr t \<and> h_mem t = Map.empty \<and> h_count t = 0 \<and> h_ht t = None"
proof -
  obtain es where es: "tab_ok s es" using assms by (auto simp: tab_rel_def)
  let ?s = "s\<lparr>h_first := 0, h_ht := None, h_size := 0\<rparr>"
  have l: "seg (h_mem s) 0 es 0" "h_first s = hd_or es 0" "distinct es" "0 \<notin> set es" "dom (h_mem s) = set es"
    "length es < unat (h_count s) + 1"
    using es by (auto simp: tab_ok_def lst_def)
  have "free_elems (unat (h_count s) + 1) (hd_or es 0) ?s = Inr (?s\<lparr>h_mem := (h_mem ?s) |` (- set es)\<rparr>)"
    using l(3,4,6) seg_chain [OF l(1)] by (intro free_elems_spec) auto
  moreover have "(h_mem s) |` (- set es) = Map.empty" unfolding l(5) [symmetric] by (auto simp: restrict_map_def)
  ultimately show ?thesis by (simp add: sqlite3HashClear_def l(2))
qed

section \<open>Any sequence of look-ups and insertions\<close>

datatype tab_op = Look cstring | Put cstring nat

primrec tab_key :: "tab_op \<Rightarrow> cstring" where
  "tab_key (Look k) = k" | "tab_key (Put k d) = k"

fun map_answers :: "tab_op list \<Rightarrow> (cstring \<Rightarrow> nat option) \<Rightarrow> nat list" where
  "map_answers [] f = []"
| "map_answers (Look k # ops) f = map_find k f # map_answers ops f"
| "map_answers (Put k d # ops) f = map_find k f # map_answers ops (map_put k d f)"

primrec tab_run :: "(cstring \<Rightarrow> 's \<Rightarrow> nat run) \<Rightarrow> (cstring \<Rightarrow> nat \<Rightarrow> 's \<Rightarrow> (nat \<times> 's) run) \<Rightarrow> tab_op list \<Rightarrow> 's \<Rightarrow> (nat list \<times> 's) run" where
  "tab_run fnd ins [] s = Inr ([], s)"
| "tab_run fnd ins (op # ops) s =
     bnd (case op of Look k \<Rightarrow> bnd (fnd k s) (\<lambda>r. Inr (r, s)) | Put k d \<Rightarrow> ins k d s) (\<lambda>(r, s).
     bnd (tab_run fnd ins ops s) (\<lambda>(rs, s). Inr (r # rs, s)))"

locale map_table =
  fixes ok :: "nat \<Rightarrow> 's \<Rightarrow> (cstring \<Rightarrow> nat option) \<Rightarrow> bool"
    and memory :: bool
    and fnd :: "cstring \<Rightarrow> 's \<Rightarrow> nat run"
    and ins :: "cstring \<Rightarrow> nat \<Rightarrow> 's \<Rightarrow> (nat \<times> 's) run"
  assumes fnd_law: "ok n s f \<Longrightarrow> 0 \<notin> set k \<Longrightarrow> fnd k s = Inr (map_find k f)"
    and ins_law: "ok n s f \<Longrightarrow> 0 \<notin> set k \<Longrightarrow> n + 1 < 2 ^ 32 \<Longrightarrow> \<exists>r t g. ins k d s = Inr (r, t) \<and> ok (n + 1) t g \<and>
      (r = map_find k f \<and> g = map_put k d f \<or> r = d \<and> g = f \<and> \<not> memory)"
    and ok_mono: "ok n s f \<Longrightarrow> ok (n + 1) s f"
begin

lemma run_is_map:
  "ok n s f \<Longrightarrow> (\<And>op. op \<in> set ops \<Longrightarrow> 0 \<notin> set (tab_key op)) \<Longrightarrow> n + length ops < 2 ^ 32 \<Longrightarrow>
   \<exists>as t g. tab_run fnd ins ops s = Inr (as, t) \<and> ok (n + length ops) t g \<and> (memory \<longrightarrow> as = map_answers ops f)"
proof (induction ops arbitrary: n s f)
  case (Cons op ops)
  have k: "0 \<notin> set (tab_key op)" and ks: "op' \<in> set ops \<Longrightarrow> 0 \<notin> set (tab_key op')" for op' using Cons.prems(2) by auto
  have n: "n + 1 < 2 ^ 32" "n + 1 + length ops < 2 ^ 32" using Cons.prems(3) by auto
  show ?case
  proof (cases op)
    case (Look key)
    then have "fnd key s = Inr (map_find key f)" using fnd_law [OF Cons.prems(1)] k by simp
    with Cons.IH [OF ok_mono [OF Cons.prems(1)] ks n(2)] Look show ?thesis by auto
  next
    case (Put key d)
    then obtain r t g where r: "ins key d s = Inr (r, t)" "ok (n + 1) t g"
      "r = map_find key f \<and> g = map_put key d f \<or> r = d \<and> g = f \<and> \<not> memory"
      using ins_law [OF Cons.prems(1) _ n(1), of key d] k by auto
    with Cons.IH [OF r(2) ks n(2)] Put show ?thesis by auto
  qed
qed auto

end

definition ht_ok :: "(nat \<Rightarrow> heap \<Rightarrow> nat) \<Rightarrow> (nat \<Rightarrow> nat \<Rightarrow> nat) \<Rightarrow> nat \<Rightarrow> hashtab \<Rightarrow> (cstring \<Rightarrow> nat option) \<Rightarrow> bool" where
  "ht_ok alloc grant n s f = (heap_ok alloc grant \<and> tab_rel s f \<and> unat (h_count s) \<le> n)"

lemma ht_insert_law:
  assumes "ht_ok alloc grant n s f" "0 \<notin> set k" "n + 1 < 2 ^ 32"
  shows "\<exists>r t g. sqlite3HashInsert alloc grant k d s = Inr (r, t) \<and> ht_ok alloc grant (n + 1) t g \<and>
    (r = map_find k f \<and> g = map_put k d f \<or> r = d \<and> g = f \<and> \<not> memory_lasts alloc)"
proof -
  have a: "heap_ok alloc grant" "tab_rel s f" "unat (h_count s) \<le> n" using assms(1) by (auto simp: ht_ok_def)
  have "unat (h_count s) + 1 < 2 ^ 32" using a(3) assms(3) by simp
  from hash_insert_law [OF a(2) assms(2) a(1) this, of d] obtain r t where t: "sqlite3HashInsert alloc grant k d s = Inr (r, t)"
    "r = map_find k f \<and> tab_rel t (map_put k d f) \<and> unat (h_count t) \<le> unat (h_count s) + 1 \<or>
     r = d \<and> tab_rel t f \<and> h_count t = h_count s \<and> f (low k) = None \<and> d \<noteq> 0 \<and> (\<exists>n m. finite (dom m) \<and> alloc n m = 0)" by blast
  from t(2) show ?thesis
  proof
    assume "r = map_find k f \<and> tab_rel t (map_put k d f) \<and> unat (h_count t) \<le> unat (h_count s) + 1"
    then show ?thesis using t(1) a by (intro exI [of _ r] exI [of _ t] exI [of _ "map_put k d f"]) (simp add: ht_ok_def)
  next
    assume "r = d \<and> tab_rel t f \<and> h_count t = h_count s \<and> f (low k) = None \<and> d \<noteq> 0 \<and> (\<exists>n m. finite (dom m) \<and> alloc n m = 0)"
    then show ?thesis using t(1) a by (intro exI [of _ r] exI [of _ t] exI [of _ f]) (auto simp: ht_ok_def memory_lasts_def)
  qed
qed

interpretation ht: map_table "ht_ok alloc grant" "memory_lasts alloc" sqlite3HashFind "sqlite3HashInsert alloc grant" for alloc grant
proof unfold_locales
  fix n s f and k :: cstring
  assume "ht_ok alloc grant n s f" "0 \<notin> set k"
  then show "sqlite3HashFind k s = Inr (map_find k f)" by (simp add: ht_ok_def hash_find_law)
qed (rule ht_insert_law, assumption+, simp add: ht_ok_def)

definition no_table :: hashtab where
  "no_table = \<lparr>h_size = 5, h_count = 7, h_first = 9, h_ht = None, h_mem = Map.empty, h_reqs = 0\<rparr>"

text \<open>
  C40. A hash table answers every sequence of fewer than 2^32 look-ups and insertions as a map from
  keys without regard to the case of ASCII letters does, through every resizing and whether or not memory for
  larger tables can be had; no pointer to freed memory is ever followed. When an element cannot be
  allocated the operations still end, and clearing the table always frees every element.
\<close>

theorem hash_is_map:
  assumes "heap_ok alloc grant" "\<forall>op \<in> set ops. 0 \<notin> set (tab_key op)" "length ops < 2 ^ 32" "h_mem s = Map.empty"
  shows "\<exists>as t u. tab_run sqlite3HashFind (sqlite3HashInsert alloc grant) ops (sqlite3HashInit s) = Inr (as, t) \<and>
    (memory_lasts alloc \<longrightarrow> as = map_answers ops Map.empty) \<and>
    sqlite3HashClear t = Inr u \<and> h_mem u = Map.empty"
proof -
  have "tab_ok (sqlite3HashInit s) []" using assms(4) by (simp add: tab_ok_def lst_def sqlite3HashInit_def)
  then have "ht_ok alloc grant 0 (sqlite3HashInit s) Map.empty"
    using assms(1) by (auto simp: ht_ok_def tab_rel_def sqlite3HashInit_def)
  then have "\<exists>as t g. tab_run sqlite3HashFind (sqlite3HashInsert alloc grant) ops (sqlite3HashInit s) = Inr (as, t) \<and>
      ht_ok alloc grant (0 + length ops) t g \<and> (memory_lasts alloc \<longrightarrow> as = map_answers ops Map.empty)"
    using assms(2,3) by (intro ht.run_is_map) auto
  then obtain as t g where t: "tab_run sqlite3HashFind (sqlite3HashInsert alloc grant) ops (sqlite3HashInit s) = Inr (as, t)"
    "tab_rel t g" "memory_lasts alloc \<longrightarrow> as = map_answers ops Map.empty" unfolding ht_ok_def by blast
  then show ?thesis using clear_frees [OF t(2)] by auto
qed

text \<open>An allocator that hands out the first address above all in use.\<close>

definition next_address :: "nat \<Rightarrow> heap \<Rightarrow> nat" where
  "next_address n m = (if finite (dom m) then Suc (Max (insert 0 (dom m))) else 0)"

lemma next_address_ok: "heap_ok next_address (\<lambda>n k. k mod 2 ^ 32)" "memory_lasts next_address"
proof -
  have "m (Suc (Max (insert 0 (dom m)))) = None" if "finite (dom m)" for m :: heap
  proof (rule ccontr)
    assume "m (Suc (Max (insert 0 (dom m)))) \<noteq> None"
    then have "Suc (Max (insert 0 (dom m))) \<in> insert 0 (dom m)" by blast
    then have "Suc (Max (insert 0 (dom m))) \<le> Max (insert 0 (dom m))" using that by (intro Max_ge) auto
    then show False by simp
  qed
  then show "heap_ok next_address (\<lambda>n k. k mod 2 ^ 32)" by (auto simp: heap_ok_def next_address_def)
  show "memory_lasts next_address" by (simp add: memory_lasts_def next_address_def)
qed

theorem hash_is_map_witness:
  "\<exists>t u. tab_run sqlite3HashFind (sqlite3HashInsert next_address (\<lambda>n k. k mod 2 ^ 32))
      [Put (str ''Main'') 5, Look (str ''main''), Put (str ''MAIN'') 0, Look (str ''Main'')] (sqlite3HashInit no_table) =
        Inr ([0, 5, 5, 0], t) \<and>
    sqlite3HashClear t = Inr u \<and> h_mem u = Map.empty"
proof -
  let ?ops = "[Put (str ''Main'') 5, Look (str ''main''), Put (str ''MAIN'') 0, Look (str ''Main'')]"
  have k: "\<forall>op \<in> set ?ops. 0 \<notin> set (tab_key op)" by (simp add: str_def)
  have a: "map_answers ?ops Map.empty = [0, 5, 5, 0]"
    by (simp add: str_def map_find_def map_put_def UpperToLower_def)
  have m: "h_mem no_table = Map.empty" by (simp add: no_table_def)
  show ?thesis using hash_is_map [OF next_address_ok(1) k _ m] next_address_ok(2) unfolding a by fastforce
qed

end
