(* ===== verification/Spec2Isabelle.thy ===== *)
theory Spec2Isabelle
  imports Slots Contents Rootserver Btree_Corrupt Rowset Bitvec Hashtab
begin

text \<open>
  This development verifies sel4service: an experiment on seL4 in which a file system server, a ramdisk
  server and the SQLite benchmark run as three processes. It models the C code under src/ and proves
  what makes it correct; where the code does not do what it means to, the theorem says what it does.

  \<^bold>\<open>The program.\<close> The root server (rootserver/src/main.c) starts the three processes, gives each its
  memory and connects them. The file system server (xv6fs/src/: main.c, sysfile.c, file.c, fs.c, bio.c,
  defs.h) is the file system of xv6 without its log and its locks: requests arrive in
  main.c, become file system calls (sysfile.c), which work on open files (file.c), inodes,
  directories and blocks (fs.c), which are read and modified in a cache of 30 buffers (bio.c).
  A missing block comes over a transport of main.c from the ramdisk server (ramdisk/src/main.c). Both the way
  a client talks to the file system and the way the file system talks to the ramdisk exist in three
  configurations: synchronous IPC, polling of shared memory, and user interrupts. The benchmark
  (sqlite3/src/: main.c, benchmark.c, random.c, raw.c, histogram.c, util.c, bench.h) is a port of
  the SQLite benchmark of LevelDB; it drives the SQLite amalgamation (sqlite3.c), of which self-contained
  pieces are verified here as well.

  \<^bold>\<open>The file system server.\<close>
  \<^item> \<open>Fs_Prelude\<close>: machine integers, panics as the left side of a sum, sequencing (\<open>bnd\<close>),
    counted loops with early exit, little endian reads and writes.
  \<^item> \<open>Layout\<close>: constants and structures of defs.h and their bytes in a block. A block is a function from
    offsets to bytes. The locale \<open>cells\<close> is an array of encoded cells in a block; it is interpreted for
    bitmap bits, block addresses, inodes and directory entries.
  \<^item> \<open>Ramdisk\<close>: the server of ramdisk/src/main.c and the client side of the protocol in xv6fs/src/main.c for the three
    configurations, with the badges of \<open>CallBadged\<close>. Sequences of reads and writes over any of
    them are refined by an array of blocks (C5), which the locale \<open>block_device\<close> states as laws; nothing is written outside
    the ramdisk or the shared buffer (C18).
  \<^item> \<open>Bio\<close>: bio.c with its circular doubly linked list of buffers, pointers as indices. Its \<open>disk_rw\<close>
    is the array of blocks of C5. \<open>RING_FUEL\<close>, one more than the number of buffers, bounds the
    two walks of \<open>bget\<close>: it is enough for every intact list, and running out of it (\<open>NoFuel\<close>)
    is excluded in every reachable state (C4).
  \<^item> \<open>Image\<close>, \<open>Alloc\<close>, \<open>Inode\<close>, \<open>Dir\<close>: fs.c in the order of its layers (disk image and super block,
    free map, inode table and file contents, directories and paths). The state \<open>fstate\<close> has a field for
    every global of the server.
  \<^item> \<open>File\<close>, \<open>Sysfile\<close>, \<open>Server\<close>: file.c, sysfile.c, and the start-up and request loop of main.c.
  \<^item> \<open>Safety\<close>, \<open>Calls\<close>: invariants that every primitive step keeps are kept by every operation and every call.
    The locales \<open>safe_ops\<close> and \<open>safe_calls\<close> prove this once for any predicate and any set of panics.
  \<^item> \<open>Ledger\<close>, \<open>Refs\<close>: every operation's effect on reference counts of buffers and inodes, and the same
    through descriptors and open files. They give the invariant of the running server (C1, C4) and that
    the disk never changes (C2).
  \<^item> \<open>Coherence\<close>, \<open>Storage\<close>, \<open>Names\<close>, \<open>Slots\<close>: functional behaviour. \<open>cview\<close>, the content of the blocks as
    the cache answers it, is the abstract state; allocator, inodes, file contents and directories are
    described by what they do to it. The locale \<open>slot_table\<close> is the table of open files and that of descriptors.
    \<open>Contents\<close> composes them to the round trip of bytes through the calls.
  \<^item> \<open>Demo\<close>: the concrete states on which witnesses evaluate the definitions.

  \<^bold>\<open>The benchmark.\<close>
  \<^item> \<open>Bench_Prelude\<close>: how a run ends early (exit, failed assertion, overrun of a buffer), C strings with the
    capacity of their buffer, and \<open>double\<close> as a record \<open>fp\<close> of operations. Laws about rounding are named
    hypotheses of the histogram; the witnesses discharge them with exact arithmetic.
  \<^item> \<open>Rand\<close>, \<open>Raw_Data\<close>, \<open>Hist\<close>, \<open>Util\<close>, \<open>Options\<close>: random.c, raw.c, histogram.c, util.c and the command line of main.c.
  \<^item> \<open>Bench\<close>: benchmark.c. What the SQLite library answers is a function of the history of calls; so a theorem over
    all such functions holds for every behaviour of the library. \<open>e_rows\<close> bounds the rows fetched by one query;
    two are enough when the library ends a look-up by primary key after one row, which the total
    theorems assume and show to suffice.
  \<^item> \<open>Bench_Runs\<close>, \<open>Bench_Checks\<close>: the exact sequence of library calls of writes and reads, once inside the locales
    \<open>entry_loop\<close> and \<open>entry_total\<close> and interpreted for both loops, and that every failing call ends the
    run. \<open>ops_limit\<close> is where the counter of finished operations would leave the range of \<open>int\<close>.
  \<^item> \<open>Rootserver\<close>: rootserver/src/main.c. The two ends of every channel match, and no process is told
    about a slot that is in use (C26); what the benchmark is told to run (C27).

  \<^bold>\<open>Pieces of SQLite\<close> (sqlite3.c).
  \<^item> \<open>Varint\<close>: the variable-length integers of the file format, unrolled readers and writers against their
    description.
  \<^item> \<open>Rowset\<close>: the sets of row numbers with batches. The locale \<open>batched_set\<close> is the contract of insertion and test, interpreted on the
    code's forest of trees. The forty buckets of the sort are never left below 2^40 entries.
  \<^item> \<open>Bitvec\<close>: the bitmaps of pages, as a bitmap, a hash table or a tree of smaller bitmaps. The locale \<open>bit_set\<close> is the contract of a set
    of numbers when memory may run out. \<open>BITVEC_FUEL\<close> bounds how often setting a bit enters itself: each split divides the size by 62 and
    costs two entries, so nine are enough for every 32-bit size.
  \<^item> \<open>Hashtab\<close>: the generic hash table, pointers and all, on a heap in which freed memory cannot be read. Its list is bounded by
    the count of the table plus one, which the invariant shows to be enough. The locale \<open>map_table\<close> is the contract of a map.
  \<^item> \<open>Btree_Cell\<close>: one page of a B-tree is its bytes; a pointer into it is an offset. The cells, their parsers, and the functions that only
    measure them (C22). The locale \<open>cell_measure\<close> is what the page code relies on behind the pointer \<open>xCellSize\<close>:
    a cell has four bytes, and its size depends on its own bytes only.
  \<^item> \<open>Btree_Page\<close>, \<open>Btree_Space\<close>, \<open>Btree_Edit\<close>: allocation, release and defragmentation inside the page, on the list of free blocks that is
    threaded through it. \<open>space\<close> says how cells, free blocks and fragments divide the page; \<open>page_ok\<close> is the invariant and \<open>page_cells\<close>
    the abstract value, a list of cells.
  \<^item> \<open>Btree_Insert\<close>, \<open>Btree_Drop\<close>, \<open>Btree_Init\<close>, \<open>Btree_Runs\<close>: insertion, removal and set-up refine operations on that list
    (C20, C24), and the bytes alone determine the state (C21).
    The loops over free blocks end because the offsets ascend, on any bytes.
  \<^item> \<open>Btree_Corrupt\<close>: the same operations on pages about whose bytes nothing is known (C25), for usable sizes
    below 65536; the relation \<open>cursor_run\<close> goes on after errors.

  \<^bold>\<open>Parameters.\<close> Code outside src/ is never defined here: the service library (a submodule) gives the
  arguments of requests and the numbers of calls; the seL4 libraries give slots and addresses; the SQLite library
  answers the benchmark; the clock, the allocator (\<open>room\<close>: which requests for memory succeed) and
  formatting of floating point numbers are arguments of the definitions. Memory that C leaves uninitialised is an argument too,
  except that \<open>boot\<close> assumes the record of the client, which the code allocates and does not clear, to be zero.

  \<^bold>\<open>Not modelled.\<close> Output (printing functions, \<open>histogram_to_string\<close>, the header and the
  environment the benchmark prints); \<open>init_env\<close> and \<open>main\<close> of the root server, which only call the seL4 libraries;
  shell.c, which CMakeLists.txt excludes from the build, and the public headers of SQLite; the rest of sqlite3.c,
  a vendored library whose parser, virtual machine, cursors over several B-tree pages and pager the benchmark reaches only through the
  calls that are a parameter here. Concurrency inside a server does not exist in the code: each server answers one request at a
  time, and the interleaving with its peer is part of the transports in \<open>Ramdisk\<close>.
\<close>

section \<open>The server as a whole\<close>

text \<open>
  C3. From the zeroed globals of a fresh process, and whatever the ramdisk held, the server's start-up
  ends without a panic, with the empty file system on the disk, every buffer released and a
  reference on the inode of the working directory.
\<close>

theorem server_comes_up:
  assumes "boot s"
  shows "\<exists>t. server_init s = Inr t \<and> fs_sb t = image_sb0 \<and> fresh_image image_sb0 (disk t) \<and>
    (\<forall>b. brefs t b = 0) \<and> 0 < irefs t (cwd t)"
  using server_starts [OF assms] refs_ok_cwd by (fastforce simp: server_inv_def)

theorem server_comes_up_witness: "\<exists>t. server_init boot_state = Inr t \<and> fresh_image image_sb0 (disk t)"
  using server_comes_up [OF boot_boot_state] by blast


lemma boot_reach: "\<exists>s. reach L s \<and> server_init boot_state = Inr s"
  using server_starts [OF boot_boot_state] boot_boot_state reach.start by blast


lemma fs_run_disk: "fs_run L rs s = Inr (rets, t) \<Longrightarrow> server_inv s \<Longrightarrow> disk t = disk s"
proof (induction L rs s arbitrary: rets t rule: fs_run.induct)
  case (2 L label m rs s)
  obtain r u rets' where u: "fs_dispatch L label m s = Inr (r, u)" "fs_run L rs u = Inr (rets', t)"
    using "2.prems"(1) by (auto elim!: bndE)
  have "disk u = disk s" using fs_dispatch_refs [OF u(1)] "2.prems"(2) by (simp add: server_inv_def steady_def)
  then show ?case using "2.IH" [OF u(1) _ u(2)] server_inv_request [OF "2.prems"(2) u(1)] by simp
qed simp

text \<open>
  C2. No history of requests changes a single block of the disk: after any run of the server the
  ramdisk holds the empty image of start-up, because no operation calls \<open>bwrite\<close>.
\<close>

theorem nothing_reaches_the_disk:
  assumes "boot s" "server_init s = Inr t" "fs_run L rs t = Inr (rets, u)"
  shows "disk u = disk t \<and> fresh_image image_sb0 (disk u)"
proof -
  have i: "server_inv t" using server_starts [OF assms(1)] assms(2) by simp
  then show ?thesis using fs_run_disk [OF assms(3)] by (simp add: server_inv_def)
qed

theorem nothing_reaches_the_disk_witness:
  "\<exists>t u. server_init boot_state = Inr t \<and> fs_run demo_labels [(99, path_args [97]), (4, path_args [97])] t = Inr ([- 22, 0], u) \<and>
    fresh_image image_sb0 (disk u)"
proof -
  obtain t where t: "server_init boot_state = Inr t" using server_starts [OF boot_boot_state] by blast
  have "\<exists>u. fs_run demo_labels [(99, path_args [97]), (4, path_args [97])] t = Inr ([- 22, 0], u)"
    by (simp add: fs_dispatch_def demo_labels_def xv6fs_getcwd_def EINVAL_def)
  then obtain u where u: "fs_run demo_labels [(99, path_args [97]), (4, path_args [97])] t = Inr ([- 22, 0], u)" by blast
  show ?thesis using t u nothing_reaches_the_disk [OF boot_boot_state t u] by blast
qed



end
